(* ===== verification/Prelude.thy ===== *)
theory Prelude
  imports Main "HOL-Library.Word"
begin

text \<open>
  Shared material of the development: names for the machine types of the C and C++ sources, the
  faults a translated function can end in, the composition of fallible functions, byte-addressed
  reads and writes with the bounds made explicit, and the little-endian images of 32- and 64-bit
  integers.  The sources copy integers with \<open>memmove\<close>, so the images are those of a
  little-endian host, which is what the wire format documents.
\<close>

unbundle bit_operations_syntax

section \<open>Machine types and faults\<close>

type_synonym u8 = "8 word"
type_synonym u16 = "16 word"
type_synonym u32 = "32 word"
type_synonym u64 = "64 word"
type_synonym bytes = "u8 list"

text \<open>
  A fault stands for undefined behaviour of the source or for an abort of the process: the model
  stops there instead of continuing with an invented value.
\<close>

datatype fault =
    OutOfBounds      \<comment> \<open>a read or write outside an allocation\<close>
  | NullDeref        \<comment> \<open>a null pointer is dereferenced or called\<close>
  | UseAfterFree     \<comment> \<open>memory is used after it was freed\<close>
  | BadFree          \<comment> \<open>an interior, unknown or already freed pointer is freed\<close>
  | IntOverflow      \<comment> \<open>a signed computation leaves its type\<close>
  | AllocFail        \<comment> \<open>an allocation no allocator can satisfy\<close>
  | Uninit           \<comment> \<open>an indeterminate value is read\<close>
  | Abort            \<comment> \<open>the program calls \<open>abort\<close>\<close>

type_synonym 'a res = "fault + 'a"

definition bindR :: "'a res \<Rightarrow> ('a \<Rightarrow> 'b res) \<Rightarrow> 'b res" where
  "bindR m f = (case m of Inl e \<Rightarrow> Inl e | Inr x \<Rightarrow> f x)"

named_theorems res_simps \<open>evaluation of fallible functions\<close>

lemma bindR_Inl [simp, res_simps]: "bindR (Inl e) f = Inl e"
  by (simp add: bindR_def)

lemma bindR_Inr [simp, res_simps]: "bindR (Inr x) f = f x"
  by (simp add: bindR_def)

lemma bindR_eq_Inr [simp]: "bindR m f = Inr y \<longleftrightarrow> (\<exists>x. m = Inr x \<and> f x = Inr y)"
  by (cases m) auto

lemma bindR_eq_Inl: "bindR m f = Inl e \<longleftrightarrow> m = Inl e \<or> (\<exists>x. m = Inr x \<and> f x = Inl e)"
  by (cases m) auto

lemma bindR_assoc: "bindR (bindR m f) g = bindR m (\<lambda>x. bindR (f x) g)"
  by (cases m) auto

lemma bindR_cong [fundef_cong]:
  "m = m' \<Longrightarrow> (\<And>x. m' = Inr x \<Longrightarrow> f x = f' x) \<Longrightarrow> bindR m f = bindR m' f'"
  by (cases m') auto

text \<open>A C++ or C loop that does one fallible operation per element, in order.\<close>

fun foldR :: "('a \<Rightarrow> 's \<Rightarrow> 's res) \<Rightarrow> 'a list \<Rightarrow> 's \<Rightarrow> 's res" where
  "foldR f [] s = Inr s"
| "foldR f (x # xs) s = bindR (f x s) (foldR f xs)"

lemma foldR_append: "foldR f (xs @ ys) s = bindR (foldR f xs s) (foldR f ys)"
  by (induction xs arbitrary: s) (auto simp: bindR_assoc intro: bindR_cong)

lemma foldR_inv:
  assumes "foldR f xs s = Inr s'" and "P s"
    and "\<And>x s s'. x \<in> set xs \<Longrightarrow> P s \<Longrightarrow> f x s = Inr s' \<Longrightarrow> P s'"
  shows "P s'"
  using assms
proof (induction xs arbitrary: s)
  case (Cons x xs)
  then obtain u where u: "f x s = Inr u" "foldR f xs u = Inr s'"
    by auto
  with Cons.prems have "P u" by (auto intro: Cons.prems(3))
  with u Cons show ?case by auto
qed simp

lemma foldR_fault:
  assumes "foldR f xs s = Inl e" and "Q s" and keep: "\<And>x s s'. Q s \<Longrightarrow> f x s = Inr s' \<Longrightarrow> Q s'"
    and "\<And>x s. x \<in> set xs \<Longrightarrow> Q s \<Longrightarrow> f x s = Inl e \<Longrightarrow> P e"
  shows "P e"
  using assms(1,2,4)
proof (induction xs arbitrary: s)
  case (Cons x xs)
  show ?case
  proof (cases "f x s")
    case (Inl e')
    with Cons.prems show ?thesis by (auto simp: bindR_eq_Inl)
  next
    case (Inr t)
    with Cons.prems have "foldR f xs t = Inl e" "Q t" by (auto intro: keep)
    then show ?thesis by (rule Cons.IH) (rule Cons.prems(3), auto)
  qed
qed simp

section \<open>Memory\<close>

definition read_mem :: "bytes \<Rightarrow> nat \<Rightarrow> nat \<Rightarrow> bytes res" where
  "read_mem m off n =
     (if off + n \<le> length m then Inr (take n (drop off m)) else Inl OutOfBounds)"

definition write_mem :: "bytes \<Rightarrow> nat \<Rightarrow> bytes \<Rightarrow> bytes res" where
  "write_mem m off v =
     (if off + length v \<le> length m
      then Inr (take off m @ v @ drop (off + length v) m) else Inl OutOfBounds)"

lemma read_mem_prefix [res_simps]:
  "drop off m = v @ rest \<Longrightarrow> off \<le> length m \<Longrightarrow> n = length v \<Longrightarrow> read_mem m off n = Inr v"
proof -
  assume d: "drop off m = v @ rest" and off: "off \<le> length m" and n: "n = length v"
  have "length (drop off m) = length v + length rest" using d by simp
  with off n have "off + n \<le> length m" by simp
  moreover have "take n (drop off m) = v" using d n by simp
  ultimately show ?thesis by (simp add: read_mem_def)
qed

lemma read_mem_length: "read_mem m off n = Inr v \<Longrightarrow> length v = n"
  by (auto simp: read_mem_def split: if_splits)

lemma write_mem_take:
  assumes "write_mem m off v = Inr m'" and "off \<le> length m"
  shows "take (off + length v) m' = take off m @ v" and "length m' = length m"
  using assms by (auto simp: write_mem_def split: if_splits)

section \<open>Little-endian integers\<close>

fun le_bytes :: "nat \<Rightarrow> 'a::len word \<Rightarrow> bytes" where
  "le_bytes 0 w = []"
| "le_bytes (Suc n) w = ucast w # le_bytes n (drop_bit 8 w)"

definition le32 :: "u32 \<Rightarrow> bytes" where
  "le32 w = le_bytes 4 w"

definition le64 :: "u64 \<Rightarrow> bytes" where
  "le64 w = le_bytes 8 w"

fun un_le :: "bytes \<Rightarrow> 'a::len word" where
  "un_le [] = 0"
| "un_le (b # bs) = ucast b OR push_bit 8 (un_le bs)"

lemma length_le_bytes [simp]: "length (le_bytes n w) = n"
  by (induction n arbitrary: w) simp_all

lemma length_le32 [simp]: "length (le32 w) = 4"
  by (simp add: le32_def)

lemma length_le64 [simp]: "length (le64 w) = 8"
  by (simp add: le64_def)

lemma le32_not_Nil [simp]: "le32 w \<noteq> []"
  by (metis length_le32 list.size(3) zero_neq_numeral)

lemma le64_not_Nil [simp]: "le64 w \<noteq> []"
  by (metis length_le64 list.size(3) zero_neq_numeral)

lemma low_byte_or_rest:
  "ucast (ucast w :: u8) OR push_bit 8 (take_bit n (drop_bit 8 w)) = take_bit (8 + n) (w :: 'a::len word)"
  by (rule bit_word_eqI) (auto simp: bit_simps not_less dest: le_Suc_ex)

lemma un_le_bytes: "un_le (le_bytes n w) = take_bit (8 * n) w"
  by (induction n arbitrary: w) (simp_all add: low_byte_or_rest)

lemma un_le32 [simp]: "un_le (le32 w) = w"
  by (simp add: le32_def un_le_bytes take_bit_word_eq_self)

lemma un_le64 [simp]: "un_le (le64 w) = w"
  by (simp add: le64_def un_le_bytes take_bit_word_eq_self)

text \<open>A block of bytes read as consecutive integers of \<open>k\<close> bytes each.\<close>

function un_les :: "nat \<Rightarrow> bytes \<Rightarrow> 'a::len word list" where
  "un_les k bs = (if k = 0 \<or> length bs < k then [] else un_le (take k bs) # un_les k (drop k bs))"
  by pat_completeness auto
termination
  by (relation "measure (\<lambda>(k, bs). length bs)") auto

declare un_les.simps [simp del]

lemma un_les_Nil [simp]: "0 < k \<Longrightarrow> un_les k [] = []"
  by (simp add: un_les.simps)

lemma un_les_append [simp]:
  "0 < k \<Longrightarrow> length b = k \<Longrightarrow> un_les k (b @ bs) = un_le b # un_les k bs"
  by (subst un_les.simps) simp

lemma un_les_le32 [simp]: "un_les 4 (concat (map le32 vs)) = vs"
  by (induction vs) simp_all

lemma un_les_le64 [simp]: "un_les 8 (concat (map le64 vs)) = vs"
  by (induction vs) simp_all

lemma length_concat_le32 [simp]: "length (concat (map le32 vs)) = 4 * length vs"
  by (induction vs) simp_all

lemma length_concat_le64 [simp]: "length (concat (map le64 vs)) = 8 * length vs"
  by (induction vs) simp_all

section \<open>Words as numbers\<close>

lemma unat_add_of_nat:
  "unat (x :: u32) + n < 2 ^ 32 \<Longrightarrow> unat (x + of_nat n) = unat x + n"
  by (simp add: unat_word_ariths unat_of_nat)

lemma sint_small:
  assumes "unat (x :: u32) < 2 ^ 31"
  shows "sint x = int (unat x)"
proof -
  have u: "uint x = int (unat x)" by simp
  have "int (unat x) < 2 ^ 31"
    using assms by (simp only: of_nat_less_numeral_power_cancel_iff)
  with u have "signed_take_bit 31 (uint x) = uint x"
    using uint_ge_0 [of x] by (intro signed_take_bit_int_eq_self) linarith+
  then show ?thesis by (simp add: sint_uint)
qed

end
