(* ===== verification/Serializer.thy ===== *)
theory Serializer
  imports Prelude
begin

text \<open>
  The wire serializer of \<open>c/pxprpc/serializer.c\<close>: a growing output buffer with a write
  position, and the same record used as a read cursor over a received buffer.  Integers and floats
  are copied as their memory image, so a float is its bit pattern.  The C functions check no bound
  when they read; here such a read ends in \<open>OutOfBounds\<close>.
\<close>

section \<open>State\<close>

text \<open>
  \<open>ser_buf\<close> is the allocation behind \<open>buf\<close>; \<open>ser_junk\<close> is the indeterminate value that bytes
  fresh from the allocator hold (an arbitrary one: no statement fixes it).
\<close>

record serializer =
  ser_buf :: bytes
  ser_cap :: u32
  ser_pos :: u32
  ser_junk :: u8

text \<open>\<open>realloc\<close> with a size computed in an \<open>int\<close>: a negative size converts to an unsatisfiable one.\<close>

definition realloc_mem :: "u8 \<Rightarrow> bytes \<Rightarrow> int \<Rightarrow> bytes res" where
  "realloc_mem jk m n =
     (if n < 0 then Inl AllocFail
      else Inr (take (nat n) m @ replicate (nat n - length m) jk))"

section \<open>Operations\<close>

definition ensure_buf :: "serializer \<Rightarrow> u32 \<Rightarrow> serializer res" where
  "ensure_buf ser remain =
     (if ser_cap ser - ser_pos ser < remain then
        (let newsize = sint (ser_pos ser + remain);
             newsize2 = newsize + newsize div 2
         in if newsize2 < - (2 ^ 31) \<or> 2 ^ 31 \<le> newsize2 then Inl IntOverflow
            else bindR (realloc_mem (ser_junk ser) (ser_buf ser) newsize2)
                   (\<lambda>b. Inr (ser\<lparr>ser_buf := b, ser_cap := word_of_int newsize2\<rparr>)))
      else Inr ser)"

definition ser_prepare_ser :: "u8 \<Rightarrow> int \<Rightarrow> serializer res" where
  "ser_prepare_ser jk initBufSize =
     bindR (realloc_mem jk [] initBufSize)
       (\<lambda>b. Inr \<lparr>ser_buf = b, ser_cap = word_of_int initBufSize, ser_pos = 0, ser_junk = jk\<rparr>)"

definition ser_prepare_unser :: "bytes \<Rightarrow> u32 \<Rightarrow> serializer" where
  "ser_prepare_unser b sz = \<lparr>ser_buf = b, ser_cap = sz, ser_pos = 0, ser_junk = 0\<rparr>"

text \<open>The built block: the buffer and the number of bytes written.\<close>

definition ser_build :: "serializer \<Rightarrow> bytes \<times> u32" where
  "ser_build ser = (ser_buf ser, ser_pos ser)"

text \<open>
  The two statements every writer ends with: \<open>memmove\<close> to \<open>buf+pos\<close> and the advance of
  \<open>pos\<close>, without and with the growth check before it.
\<close>

definition ser_write :: "serializer \<Rightarrow> bytes \<Rightarrow> serializer res" where
  "ser_write ser v =
     bindR (write_mem (ser_buf ser) (unat (ser_pos ser)) v)
       (\<lambda>b. Inr (ser\<lparr>ser_buf := b, ser_pos := ser_pos ser + of_nat (length v)\<rparr>))"

definition ser_put_block :: "serializer \<Rightarrow> bytes \<Rightarrow> serializer res" where
  "ser_put_block ser v =
     (if 2 ^ 31 \<le> length v then Inl IntOverflow
      else bindR (ensure_buf ser (of_nat (length v))) (\<lambda>ser. ser_write ser v))"

definition ser_put_int :: "serializer \<Rightarrow> u32 list \<Rightarrow> serializer res" where
  "ser_put_int ser vals = ser_put_block ser (concat (map le32 vals))"

definition ser_put_long :: "serializer \<Rightarrow> u64 list \<Rightarrow> serializer res" where
  "ser_put_long ser vals = ser_put_block ser (concat (map le64 vals))"

definition ser_put_float :: "serializer \<Rightarrow> u32 list \<Rightarrow> serializer res" where
  "ser_put_float ser vals = ser_put_block ser (concat (map le32 vals))"

definition ser_put_double :: "serializer \<Rightarrow> u64 list \<Rightarrow> serializer res" where
  "ser_put_double ser vals = ser_put_block ser (concat (map le64 vals))"

definition ser_put_varint :: "serializer \<Rightarrow> u32 \<Rightarrow> serializer res" where
  "ser_put_varint ser val =
     (if val \<le> 0xff then
        bindR (ensure_buf ser 1) (\<lambda>ser. ser_write ser [ucast val])
      else
        bindR (ensure_buf ser 5) (\<lambda>ser.
        bindR (ser_write ser [0xff]) (\<lambda>ser.
        ser_write ser (le32 val))))"

text \<open>\<open>sz\<close> is the \<open>uint32_t\<close> length the caller passes along with the pointer \<open>val\<close>.\<close>

definition ser_put_bytes :: "serializer \<Rightarrow> bytes \<Rightarrow> u32 \<Rightarrow> serializer res" where
  "ser_put_bytes ser val sz =
     bindR (ser_put_varint ser sz) (\<lambda>ser.
     bindR (ensure_buf ser sz) (\<lambda>ser.
     bindR (read_mem val 0 (unat sz)) (\<lambda>v.
     ser_write ser v)))"

text \<open>The reader of \<open>n\<close> bytes at the cursor, \<open>n\<close> an \<open>int\<close> that converts to \<open>size_t\<close>.\<close>

definition ser_read :: "serializer \<Rightarrow> int \<Rightarrow> (bytes \<times> serializer) res" where
  "ser_read ser n =
     (if n < 0 then Inl OutOfBounds
      else if 2 ^ 31 \<le> n then Inl IntOverflow
      else bindR (read_mem (ser_buf ser) (unat (ser_pos ser)) (nat n))
             (\<lambda>v. Inr (v, ser\<lparr>ser_pos := ser_pos ser + of_int n\<rparr>)))"

definition ser_get_int :: "serializer \<Rightarrow> int \<Rightarrow> (u32 list \<times> serializer) res" where
  "ser_get_int ser count = bindR (ser_read ser (4 * count)) (\<lambda>(v, ser). Inr (un_les 4 v, ser))"

definition ser_get_long :: "serializer \<Rightarrow> int \<Rightarrow> (u64 list \<times> serializer) res" where
  "ser_get_long ser count = bindR (ser_read ser (8 * count)) (\<lambda>(v, ser). Inr (un_les 8 v, ser))"

definition ser_get_float :: "serializer \<Rightarrow> int \<Rightarrow> (u32 list \<times> serializer) res" where
  "ser_get_float ser count = bindR (ser_read ser (4 * count)) (\<lambda>(v, ser). Inr (un_les 4 v, ser))"

definition ser_get_double :: "serializer \<Rightarrow> int \<Rightarrow> (u64 list \<times> serializer) res" where
  "ser_get_double ser count = bindR (ser_read ser (8 * count)) (\<lambda>(v, ser). Inr (un_les 8 v, ser))"

definition ser_get_varint :: "serializer \<Rightarrow> (u32 \<times> serializer) res" where
  "ser_get_varint ser =
     bindR (ser_read ser 1) (\<lambda>(v, ser).
     if un_le v = (0xff :: u32)
     then bindR (ser_read ser 4) (\<lambda>(v, ser). Inr (un_le v, ser))
     else Inr (un_le v, ser))"

text \<open>
  \<open>pxprpc_ser_get_bytes\<close> returns a pointer into the buffer (here its offset) and the size, and
  reads none of the bytes; \<open>ser_slice\<close> is the read of such a pointer by its user.
\<close>

definition ser_get_bytes :: "serializer \<Rightarrow> ((u32 \<times> u32) \<times> serializer) res" where
  "ser_get_bytes ser =
     bindR (ser_get_varint ser) (\<lambda>(sz, ser).
     Inr ((ser_pos ser, sz), ser\<lparr>ser_pos := ser_pos ser + sz\<rparr>))"

definition ser_slice :: "serializer \<Rightarrow> u32 \<times> u32 \<Rightarrow> bytes res" where
  "ser_slice ser p = read_mem (ser_buf ser) (unat (fst p)) (unat (snd p))"

section \<open>Well-formed buffers and the bytes written so far\<close>

definition ser_ok :: "serializer \<Rightarrow> bool" where
  "ser_ok s \<longleftrightarrow> unat (ser_pos s) \<le> unat (ser_cap s) \<and> length (ser_buf s) = unat (ser_cap s)"

definition ser_out :: "serializer \<Rightarrow> bytes" where
  "ser_out s = take (unat (ser_pos s)) (ser_buf s)"

text \<open>
  Room for \<open>n\<close> more bytes in the arithmetic of \<open>ensure_buf\<close>: one and a half times the needed size
  stays below \<open>2^31\<close>.
\<close>

definition ser_fits :: "serializer \<Rightarrow> nat \<Rightarrow> bool" where
  "ser_fits s n \<longleftrightarrow> 3 * (length (ser_out s) + n) < 2 ^ 32"

lemma length_ser_out: "ser_ok s \<Longrightarrow> length (ser_out s) = unat (ser_pos s)"
  by (simp add: ser_ok_def ser_out_def)

lemma ser_fits_mono: "ser_fits s n \<Longrightarrow> m \<le> n \<Longrightarrow> ser_fits s m"
  by (simp add: ser_fits_def)

lemma ensure_buf_ok:
  assumes ok: "ser_ok s" and fits: "ser_fits s (unat r)"
  shows "\<exists>s'. ensure_buf s r = Inr s' \<and> ser_ok s' \<and> ser_out s' = ser_out s \<and> ser_pos s' = ser_pos s
           \<and> unat (ser_pos s) + unat r \<le> unat (ser_cap s')"
proof (cases "ser_cap s - ser_pos s < r")
  case True
  let ?p = "unat (ser_pos s)" and ?n = "unat r"
  have small: "3 * (?p + ?n) < 2 ^ 32"
    using fits ok by (simp add: ser_fits_def length_ser_out)
  then have sum: "unat (ser_pos s + r) = ?p + ?n"
    by (simp add: unat_word_ariths)
  then have sint: "sint (ser_pos s + r) = int (?p + ?n)"
    using small by (simp add: sint_small)
  let ?m = "(?p + ?n) + (?p + ?n) div 2"
  have m: "?p + ?n \<le> ?m" "?m < 2 ^ 31"
    using small by simp_all
  have newsize: "sint (ser_pos s + r) + sint (ser_pos s + r) div 2 = int ?m"
    by (simp add: sint zdiv_int)
  have cap: "unat (of_nat k :: u32) = k" if "k < 2 ^ 31" for k
    using that by (simp add: unat_of_nat)
  have bound: "\<not> int k < - (2 ^ 31)" "\<not> 2 ^ 31 \<le> int k" if "k < 2 ^ 31" for k
    using that by simp_all
  define b where "b = take ?m (ser_buf s) @ replicate (?m - length (ser_buf s)) (ser_junk s)"
  have eq: "ensure_buf s r = Inr (s\<lparr>ser_buf := b, ser_cap := of_nat ?m\<rparr>)"
    using True bound [OF m(2)] unfolding ensure_buf_def Let_def newsize
    by (simp add: realloc_mem_def b_def del: of_nat_add of_nat_unat)
  have "length b = ?m" by (simp add: b_def)
  moreover have "take ?p b = take ?p (ser_buf s)"
    using ok m by (simp add: b_def ser_ok_def min_def)
  ultimately show ?thesis
    using ok m cap [OF m(2)] by (auto simp: eq ser_ok_def ser_out_def simp del: of_nat_add)
next
  case False
  then have "unat r \<le> unat (ser_cap s - ser_pos s)"
    by (simp add: word_le_nat_alt not_less)
  also have "unat (ser_cap s - ser_pos s) = unat (ser_cap s) - unat (ser_pos s)"
    using ok by (simp add: ser_ok_def unat_sub word_le_nat_alt)
  finally show ?thesis
    using ok False by (auto simp: ensure_buf_def ser_ok_def)
qed

lemma ser_write_ok:
  assumes "ser_ok s" and "unat (ser_pos s) + length v \<le> unat (ser_cap s)"
  shows "\<exists>s'. ser_write s v = Inr s' \<and> ser_ok s' \<and> ser_out s' = ser_out s @ v \<and> ser_cap s' = ser_cap s"
proof -
  from assms obtain b where b: "write_mem (ser_buf s) (unat (ser_pos s)) v = Inr b"
    by (auto simp: write_mem_def ser_ok_def)
  have "unat (ser_cap s) < 2 ^ 32"
    using unsigned_less [of "ser_cap s"] by simp
  with assms have "unat (ser_pos s + of_nat (length v)) = unat (ser_pos s) + length v"
    by (intro unat_add_of_nat) simp
  with b assms write_mem_take [OF b] show ?thesis
    by (simp add: ser_write_def ser_ok_def ser_out_def)
qed

section \<open>The contract of a writer and of a reader\<close>

text \<open>
  \<open>ser_emits f v\<close>: on every well-formed buffer with room, \<open>f\<close> succeeds and appends exactly \<open>v\<close>.
\<close>

definition ser_emits :: "(serializer \<Rightarrow> serializer res) \<Rightarrow> bytes \<Rightarrow> bool" where
  "ser_emits f v \<longleftrightarrow>
     (\<forall>s. ser_ok s \<and> ser_fits s (length v) \<longrightarrow>
        (\<exists>s'. f s = Inr s' \<and> ser_ok s' \<and> ser_out s' = ser_out s @ v))"

definition ser_in :: "serializer \<Rightarrow> bytes" where
  "ser_in s = drop (unat (ser_pos s)) (ser_buf s)"

definition ser_rd_ok :: "serializer \<Rightarrow> bool" where
  "ser_rd_ok s \<longleftrightarrow> unat (ser_pos s) \<le> length (ser_buf s) \<and> length (ser_buf s) < 2 ^ 31"

text \<open>
  \<open>ser_takes g v x\<close>: with \<open>v\<close> next in the buffer, \<open>g\<close> succeeds, returns \<open>x\<close> and moves past exactly
  \<open>v\<close>.
\<close>

definition ser_takes :: "(serializer \<Rightarrow> ('a \<times> serializer) res) \<Rightarrow> bytes \<Rightarrow> 'a \<Rightarrow> bool" where
  "ser_takes g v x \<longleftrightarrow>
     (\<forall>s rest. ser_rd_ok s \<and> ser_in s = v @ rest \<longrightarrow>
        (\<exists>s'. g s = Inr (x, s') \<and> ser_rd_ok s' \<and> ser_in s' = rest \<and> ser_buf s' = ser_buf s))"

lemma ser_emitsD:
  "ser_emits f v \<Longrightarrow> ser_ok s \<Longrightarrow> ser_fits s (length v) \<Longrightarrow>
     \<exists>s'. f s = Inr s' \<and> ser_ok s' \<and> ser_out s' = ser_out s @ v"
  by (simp add: ser_emits_def)

lemma ser_emits_Nil [intro]: "ser_emits Inr []"
  by (simp add: ser_emits_def)

lemma ser_emits_bind [intro]:
  assumes f: "ser_emits f v" and g: "ser_emits g w"
  shows "ser_emits (\<lambda>s. bindR (f s) g) (v @ w)"
  unfolding ser_emits_def
proof (intro allI impI, elim conjE)
  fix s assume ok: "ser_ok s" and fits: "ser_fits s (length (v @ w))"
  then have "ser_fits s (length v)" by (auto intro: ser_fits_mono)
  from ser_emitsD [OF f ok this] obtain t where
    t: "f s = Inr t" "ser_ok t" "ser_out t = ser_out s @ v" by blast
  have "ser_fits t (length w)" using fits t by (simp add: ser_fits_def add.assoc)
  from ser_emitsD [OF g t(2) this] t show
    "\<exists>s'. bindR (f s) g = Inr s' \<and> ser_ok s' \<and> ser_out s' = ser_out s @ v @ w" by auto
qed

lemma ser_emits_foldR:
  "(\<And>x. x \<in> set xs \<Longrightarrow> ser_emits (f x) (enc x)) \<Longrightarrow> ser_emits (foldR f xs) (concat (map enc xs))"
proof (induction xs)
  case Nil
  have "foldR f [] = Inr" by (rule ext) simp
  then show ?case by auto
next
  case (Cons x xs)
  have "foldR f (x # xs) = (\<lambda>s. bindR (f x s) (foldR f xs))" by (rule ext) simp
  with Cons show ?case by auto
qed

lemma ser_put_block_emits: "length v < 2 ^ 31 \<Longrightarrow> ser_emits (\<lambda>s. ser_put_block s v) v"
  unfolding ser_emits_def
proof (intro allI impI, elim conjE)
  fix s assume v: "length v < 2 ^ 31" and ok: "ser_ok s" and fits: "ser_fits s (length v)"
  have r: "unat (of_nat (length v) :: u32) = length v"
    using v by (simp add: unat_of_nat)
  from ensure_buf_ok [OF ok, of "of_nat (length v)"] fits r obtain t where
    t: "ensure_buf s (of_nat (length v)) = Inr t" "ser_ok t" "ser_out t = ser_out s"
       "ser_pos t = ser_pos s" "unat (ser_pos s) + length v \<le> unat (ser_cap t)"
    by auto
  with ser_write_ok [of t v] v show
    "\<exists>s'. ser_put_block s v = Inr s' \<and> ser_ok s' \<and> ser_out s' = ser_out s @ v"
    by (auto simp: ser_put_block_def)
qed

section \<open>The primitive writers and readers\<close>

definition enc_varint :: "u32 \<Rightarrow> bytes" where
  "enc_varint v = (if v \<le> 0xff then [ucast v] else 0xff # le32 v)"

definition enc_bytes :: "bytes \<Rightarrow> bytes" where
  "enc_bytes v = enc_varint (of_nat (length v)) @ v"

lemma length_enc_varint: "length (enc_varint v) \<le> 5"
  by (simp add: enc_varint_def)

lemma ser_reserve_write_emits:
  assumes "length v \<le> unat n" and "length v + unat n < 2 ^ 31"
  shows "\<And>s. ser_ok s \<Longrightarrow> ser_fits s (unat n) \<Longrightarrow>
           \<exists>s'. bindR (ensure_buf s n) (\<lambda>s. ser_write s v) = Inr s' \<and> ser_ok s'
             \<and> ser_out s' = ser_out s @ v \<and> unat (ser_pos s) + unat n \<le> unat (ser_cap s')"
proof -
  fix s assume ok: "ser_ok s" and fits: "ser_fits s (unat n)"
  from ensure_buf_ok [OF this] obtain t where
    t: "ensure_buf s n = Inr t" "ser_ok t" "ser_out t = ser_out s" "ser_pos t = ser_pos s"
       "unat (ser_pos s) + unat n \<le> unat (ser_cap t)"
    by blast
  with ser_write_ok [of t v] assms show "\<exists>s'. bindR (ensure_buf s n) (\<lambda>s. ser_write s v) = Inr s' \<and> ser_ok s'
             \<and> ser_out s' = ser_out s @ v \<and> unat (ser_pos s) + unat n \<le> unat (ser_cap s')"
    by auto
qed

lemma ser_put_varint_emits: "ser_emits (\<lambda>s. ser_put_varint s v) (enc_varint v)"
  unfolding ser_emits_def
proof (intro allI impI, elim conjE)
  fix s assume ok: "ser_ok s" and fits: "ser_fits s (length (enc_varint v))"
  show "\<exists>s'. ser_put_varint s v = Inr s' \<and> ser_ok s' \<and> ser_out s' = ser_out s @ enc_varint v"
  proof (cases "v \<le> 0xff")
    case True
    with ser_reserve_write_emits [of "[ucast v]" 1 s] ok fits show ?thesis
      by (auto simp: ser_put_varint_def enc_varint_def)
  next
    case False
    from fits False have "ser_fits s (unat (5::u32))" by (simp add: enc_varint_def)
    from ser_reserve_write_emits [OF _ _ ok this, of "[0xff]"] obtain t where
      t: "bindR (ensure_buf s 5) (\<lambda>s. ser_write s [0xff]) = Inr t" "ser_ok t"
         "ser_out t = ser_out s @ [0xff]" "unat (ser_pos s) + 5 \<le> unat (ser_cap t)"
      by auto
    have "unat (ser_pos t) = unat (ser_pos s) + 1"
      using length_ser_out [OF ok] length_ser_out [OF t(2)] t(3) by simp
    with ser_write_ok [OF t(2), of "le32 v"] t(4) obtain s' where
      "ser_write t (le32 v) = Inr s'" "ser_ok s'" "ser_out s' = ser_out t @ le32 v" by auto
    with t False show ?thesis
      by (auto simp: ser_put_varint_def enc_varint_def)
  qed
qed

lemma ser_put_raw_emits:
  assumes "length v < 2 ^ 31"
  shows "ser_emits (\<lambda>s. bindR (ensure_buf s (of_nat (length v))) (\<lambda>s. ser_write s v)) v"
  using ser_put_block_emits [OF assms] assms by (simp add: ser_put_block_def)

lemma ser_put_bytes_emits:
  assumes "length v < 2 ^ 31"
  shows "ser_emits (\<lambda>s. ser_put_bytes s v (of_nat (length v))) (enc_bytes v)"
proof -
  have "unat (of_nat (length v) :: u32) = length v"
    using assms by (simp add: unat_of_nat)
  then have "(\<lambda>s. ser_put_bytes s v (of_nat (length v))) =
        (\<lambda>s. bindR (ser_put_varint s (of_nat (length v)))
               (\<lambda>s. bindR (ensure_buf s (of_nat (length v))) (\<lambda>s. ser_write s v)))"
    by (intro ext) (simp add: ser_put_bytes_def read_mem_def)
  then show ?thesis
    using ser_emits_bind [OF ser_put_varint_emits ser_put_raw_emits [OF assms]]
    by (simp add: enc_bytes_def)
qed

lemma ser_put_int_emits:
  "4 * length vs < 2 ^ 31 \<Longrightarrow> ser_emits (\<lambda>s. ser_put_int s vs) (concat (map le32 vs))"
  unfolding ser_put_int_def by (rule ser_put_block_emits) simp

lemma ser_put_long_emits:
  "8 * length vs < 2 ^ 31 \<Longrightarrow> ser_emits (\<lambda>s. ser_put_long s vs) (concat (map le64 vs))"
  unfolding ser_put_long_def by (rule ser_put_block_emits) simp

lemma ser_read_takes:
  assumes "int (length v) = n" and "length v < 2 ^ 31"
  shows "ser_takes (\<lambda>s. ser_read s n) v v"
  unfolding ser_takes_def
proof (intro allI impI, elim conjE)
  fix s rest assume ok: "ser_rd_ok s" and nxt: "ser_in s = v @ rest"
  then have rd: "read_mem (ser_buf s) (unat (ser_pos s)) (nat n) = Inr v"
    using assms by (intro read_mem_prefix) (auto simp: ser_in_def ser_rd_ok_def)
  have len: "unat (ser_pos s) + length v \<le> length (ser_buf s)"
    using arg_cong [OF nxt, of length] ok by (auto simp: ser_in_def ser_rd_ok_def)
  have pos: "unat (ser_pos s + of_int n) = unat (ser_pos s) + length v"
    using len ok unat_add_of_nat [of "ser_pos s" "length v"] assms(1) by (auto simp: ser_rd_ok_def)
  have "drop (unat (ser_pos s) + length v) (ser_buf s) = rest"
    using nxt by (metis ser_in_def add.commute append_eq_conv_conj drop_drop)
  with rd len pos assms ok show "\<exists>s'. ser_read s n = Inr (v, s') \<and> ser_rd_ok s' \<and> ser_in s' = rest
      \<and> ser_buf s' = ser_buf s"
    by (auto simp: ser_read_def ser_in_def ser_rd_ok_def)
qed

lemma ser_takesD:
  "ser_takes g v x \<Longrightarrow> ser_rd_ok s \<Longrightarrow> ser_in s = v @ rest \<Longrightarrow>
     \<exists>s'. g s = Inr (x, s') \<and> ser_rd_ok s' \<and> ser_in s' = rest \<and> ser_buf s' = ser_buf s"
  by (simp add: ser_takes_def)

lemma ser_takes_return [intro]: "ser_takes (\<lambda>s. Inr (x, s)) [] x"
  by (simp add: ser_takes_def)

lemma ser_takes_bind [intro]:
  assumes g: "ser_takes g v x" and h: "ser_takes (h x) w y"
  shows "ser_takes (\<lambda>s. bindR (g s) (\<lambda>(x, s). h x s)) (v @ w) y"
  unfolding ser_takes_def
proof (intro allI impI, elim conjE)
  fix s rest assume ok: "ser_rd_ok s" and nxt: "ser_in s = (v @ w) @ rest"
  from ser_takesD [OF g ok] nxt obtain t where
    t: "g s = Inr (x, t)" "ser_rd_ok t" "ser_in t = w @ rest" "ser_buf t = ser_buf s" by auto
  from ser_takesD [OF h t(2,3)] t show
    "\<exists>s'. bindR (g s) (\<lambda>(x, s). h x s) = Inr (y, s') \<and> ser_rd_ok s' \<and> ser_in s' = rest
       \<and> ser_buf s' = ser_buf s" by auto
qed

lemma ser_takes_map:
  assumes "ser_takes g v x"
  shows "ser_takes (\<lambda>s. bindR (g s) (\<lambda>(x, s). Inr (f x, s))) v (f x)"
  using ser_takes_bind [OF assms, of "\<lambda>x s. Inr (f x, s)" "[]" "f x"] by auto

lemma ser_get_int_takes:
  assumes "4 * length vs < 2 ^ 31"
  shows "ser_takes (\<lambda>s. ser_get_int s (int (length vs))) (concat (map le32 vs)) vs"
  unfolding ser_get_int_def
  using ser_takes_map [OF ser_read_takes [of "concat (map le32 vs)"], of _ "un_les 4 :: bytes \<Rightarrow> u32 list"] assms by simp

lemma ser_get_long_takes:
  assumes "8 * length vs < 2 ^ 31"
  shows "ser_takes (\<lambda>s. ser_get_long s (int (length vs))) (concat (map le64 vs)) vs"
  unfolding ser_get_long_def
  using ser_takes_map [OF ser_read_takes [of "concat (map le64 vs)"], of _ "un_les 8 :: bytes \<Rightarrow> u64 list"] assms by simp

lemma low_byte_ucast: "(v::u32) \<le> 0xff \<Longrightarrow> ucast (ucast v :: u8) = v"
proof -
  assume "v \<le> 0xff"
  then have "unat v < 2 ^ 8" by (simp add: word_le_nat_alt)
  then show ?thesis
    by (simp add: word_unat_eq_iff unsigned_ucast_eq unsigned_take_bit_eq take_bit_nat_eq_self)
qed

lemma ser_get_varint_takes:
  assumes "v \<noteq> 0xff"
  shows "ser_takes ser_get_varint (enc_varint v) v"
proof (cases "v \<le> 0xff")
  case True
  have "ser_takes (\<lambda>s. bindR (ser_read s 1) (\<lambda>(b, s).
     if un_le b = (0xff :: u32) then bindR (ser_read s 4) (\<lambda>(v, s). Inr (un_le v, s)) else Inr (un_le b, s)))
     ([ucast v] @ []) v"
    by (rule ser_takes_bind [OF ser_read_takes]) (use assms low_byte_ucast [OF True] in auto)
  with True show ?thesis by (simp add: ser_get_varint_def [abs_def] enc_varint_def)
next
  case False
  have rd: "ser_takes (\<lambda>s. bindR (ser_read s 4) (\<lambda>(v, s). Inr (un_le v, s))) (le32 v) v"
    using ser_takes_map [OF ser_read_takes [of "le32 v" 4], of "un_le :: bytes \<Rightarrow> u32"] by simp
  have "ser_takes (\<lambda>s. bindR (ser_read s 1) (\<lambda>(b, s).
     if un_le b = (0xff :: u32) then bindR (ser_read s 4) (\<lambda>(v, s). Inr (un_le v, s)) else Inr (un_le b, s)))
     ([0xff] @ le32 v) v"
    by (rule ser_takes_bind [OF ser_read_takes]) (use rd in auto)
  with False show ?thesis by (simp add: ser_get_varint_def [abs_def] enc_varint_def)
qed

text \<open>
  The value \<open>0xff\<close> itself is written in the one-byte form, which the reader takes for the escape:
  it consumes the next four bytes and returns them.
\<close>

lemma ser_get_varint_ff_takes: "ser_takes ser_get_varint (enc_varint 0xff @ le32 w) w"
proof -
  have rd: "ser_takes (\<lambda>s. bindR (ser_read s 4) (\<lambda>(v, s). Inr (un_le v, s))) (le32 w) w"
    using ser_takes_map [OF ser_read_takes [of "le32 w" 4], of "un_le :: bytes \<Rightarrow> u32"] by simp
  have "ser_takes (\<lambda>s. bindR (ser_read s 1) (\<lambda>(b, s).
     if un_le b = (0xff :: u32) then bindR (ser_read s 4) (\<lambda>(v, s). Inr (un_le v, s)) else Inr (un_le b, s)))
     ([0xff] @ le32 w) w"
    by (rule ser_takes_bind [OF ser_read_takes]) (use rd in auto)
  then show ?thesis by (simp add: ser_get_varint_def [abs_def] enc_varint_def)
qed

section \<open>Codecs: a writer and the reader that undoes it\<close>

text \<open>Reading \<open>n\<close> values one after the other, as the loops over columns and argument lists do.\<close>

fun get_many :: "(serializer \<Rightarrow> ('a \<times> serializer) res) \<Rightarrow> nat \<Rightarrow> serializer \<Rightarrow> ('a list \<times> serializer) res" where
  "get_many g 0 s = Inr ([], s)"
| "get_many g (Suc n) s =
     bindR (g s) (\<lambda>(x, s). bindR (get_many g n s) (\<lambda>(xs, s). Inr (x # xs, s)))"

locale wire_codec =
  fixes put :: "'a \<Rightarrow> serializer \<Rightarrow> serializer res"
    and get :: "serializer \<Rightarrow> ('a \<times> serializer) res"
    and enc :: "'a \<Rightarrow> bytes"
    and valid :: "'a \<Rightarrow> bool"
  assumes put_emits: "valid x \<Longrightarrow> ser_emits (put x) (enc x)"
    and get_takes: "valid x \<Longrightarrow> ser_takes get (enc x) x"
begin

lemma put_all_emits: "\<forall>x \<in> set xs. valid x \<Longrightarrow> ser_emits (foldR put xs) (concat (map enc xs))"
  by (auto intro: ser_emits_foldR put_emits)

lemma get_many_takes:
  "\<forall>x \<in> set xs. valid x \<Longrightarrow> ser_takes (get_many get (length xs)) (concat (map enc xs)) xs"
proof (induction xs)
  case Nil
  have "get_many get 0 = (\<lambda>s. Inr ([], s))" by (rule ext) simp
  then show ?case by auto
next
  case (Cons x xs)
  have eq: "get_many get (Suc (length xs)) =
      (\<lambda>s. bindR (get s) (\<lambda>(x, s). bindR (get_many get (length xs) s) (\<lambda>(xs, s). Inr (x # xs, s))))"
    by (rule ext) simp
  from Cons have "ser_takes (get_many get (length xs)) (concat (map enc xs)) xs" by simp
  then have "ser_takes (\<lambda>s. bindR (get_many get (length xs) s) (\<lambda>(xs, s). Inr (x # xs, s)))
      (concat (map enc xs)) (x # xs)"
    by (rule ser_takes_map)
  with Cons.prems show ?case
    unfolding list.map concat.simps list.size(4) add_0_right add_Suc_right eq
    by (auto intro: ser_takes_bind get_takes)
qed

lemma roundtrip:
  assumes "\<forall>x \<in> set xs. valid x" and "ser_ok s" and "ser_out s = []"
    and "3 * length (concat (map enc xs)) < 2 ^ 32"
  shows "\<exists>s' t. foldR put xs s = Inr s' \<and>
           get_many get (length xs) (ser_prepare_unser (ser_out s') (ser_pos s')) = Inr (xs, t) \<and>
           ser_in t = []"
proof -
  let ?b = "concat (map enc xs)"
  from ser_emitsD [OF put_all_emits, of xs s] assms obtain s' where
    s': "foldR put xs s = Inr s'" "ser_out s' = ?b" by (auto simp: ser_fits_def)
  let ?r = "ser_prepare_unser (ser_out s') (ser_pos s')"
  have "ser_rd_ok ?r" "ser_in ?r = ?b @ []"
    using assms(4) s'(2) by (simp_all add: ser_rd_ok_def ser_in_def ser_prepare_unser_def)
  from ser_takesD [OF get_many_takes [OF assms(1)] this] s'(1) show ?thesis by auto
qed

end

interpretation varint_codec: wire_codec "\<lambda>v s. ser_put_varint s v" ser_get_varint enc_varint "\<lambda>v. v \<noteq> 0xff"
  by unfold_locales (rule ser_put_varint_emits, rule ser_get_varint_takes)

interpretation int_codec: wire_codec "\<lambda>v s. ser_put_int s [v]"
    "\<lambda>s. bindR (ser_get_int s 1) (\<lambda>(vs, s). Inr (hd vs, s))" le32 "\<lambda>v. True"
proof unfold_locales
  fix v :: u32
  show "ser_emits (\<lambda>s. ser_put_int s [v]) (le32 v)"
    using ser_put_int_emits [of "[v]"] by simp
  show "ser_takes (\<lambda>s. bindR (ser_get_int s 1) (\<lambda>(vs, s). Inr (hd vs, s))) (le32 v) v"
    using ser_takes_map [OF ser_get_int_takes [of "[v]"], where f = hd] by simp
qed

interpretation long_codec: wire_codec "\<lambda>v s. ser_put_long s [v]"
    "\<lambda>s. bindR (ser_get_long s 1) (\<lambda>(vs, s). Inr (hd vs, s))" le64 "\<lambda>v. True"
proof unfold_locales
  fix v :: u64
  show "ser_emits (\<lambda>s. ser_put_long s [v]) (le64 v)"
    using ser_put_long_emits [of "[v]"] by simp
  show "ser_takes (\<lambda>s. bindR (ser_get_long s 1) (\<lambda>(vs, s). Inr (hd vs, s))) (le64 v) v"
    using ser_takes_map [OF ser_get_long_takes [of "[v]"], where f = hd] by simp
qed

section \<open>Properties\<close>

lemma ser_prepare_ser_ok:
  "ser_prepare_ser jk n = Inr s \<Longrightarrow> n < 2 ^ 31 \<Longrightarrow> ser_ok s \<and> ser_out s = []"
  by (auto simp: ser_prepare_ser_def realloc_mem_def ser_ok_def ser_out_def unat_of_nat
      nat_eq_iff uint_word_of_int split: if_splits)

text \<open>
  C7. A value put with \<open>pxprpc_ser_put_varint\<close> into a fresh serializer is read back by
  \<open>pxprpc_ser_get_varint\<close> from the built block exactly when it is not \<open>0xff\<close>; for \<open>0xff\<close> the
  reader runs past the end of the block.
\<close>

theorem varint_roundtrip:
  assumes "ser_prepare_ser jk n = Inr s0" and "n < 2 ^ 31"
  shows "\<exists>s. ser_put_varint s0 v = Inr s \<and>
           (if v = 0xff
            then ser_get_varint (ser_prepare_unser (ser_out s) (ser_pos s)) = Inl OutOfBounds
            else \<exists>t. ser_get_varint (ser_prepare_unser (ser_out s) (ser_pos s)) = Inr (v, t)
                   \<and> ser_in t = [])"
proof -
  from assms have ok: "ser_ok s0" "ser_out s0 = []" by (auto dest: ser_prepare_ser_ok)
  with ser_emitsD [OF ser_put_varint_emits [of v] ok(1)] length_enc_varint [of v] obtain s where
    s: "ser_put_varint s0 v = Inr s" "ser_out s = enc_varint v"
    by (auto simp: ser_fits_def)
  let ?r = "ser_prepare_unser (enc_varint v) (ser_pos s)"
  have r: "ser_rd_ok ?r" "ser_in ?r = enc_varint v @ []"
    using length_enc_varint [of v] by (simp_all add: ser_rd_ok_def ser_in_def ser_prepare_unser_def)
  show ?thesis
  proof (cases "v = 0xff")
    case True
    then show ?thesis using s
      by (simp add: ser_get_varint_def ser_read_def read_mem_def ser_prepare_unser_def enc_varint_def)
  next
    case False
    with ser_takesD [OF ser_get_varint_takes r] s show ?thesis by auto
  qed
qed

theorem varint_roundtrip_witness:
  "\<exists>s0. ser_prepare_ser 7 1 = Inr s0 \<and>
     (\<exists>s. ser_put_varint s0 300 = Inr s \<and>
       (\<exists>t. ser_get_varint (ser_prepare_unser (ser_out s) (ser_pos s)) = Inr (300, t) \<and> ser_in t = []))"
proof -
  obtain s0 where s0: "ser_prepare_ser 7 1 = Inr s0"
    by (simp add: ser_prepare_ser_def realloc_mem_def)
  from varint_roundtrip [OF s0, of 300] s0 show ?thesis by auto
qed

text \<open>
  \<open>pxprpc_ser_put_bytes\<close> on a well-formed serializer whose size stays in the range of the growth
  arithmetic never writes outside its allocation: it succeeds, keeps position, capacity and
  allocation consistent, keeps every byte written before and appends the length prefix (one byte
  up to 255, else \<open>0xff\<close> and four bytes) followed by the data.
\<close>

theorem put_bytes_appends:
  assumes "ser_ok s" and "3 * (length (ser_out s) + 5 + length v) < 2 ^ 32"
  shows "\<exists>s'. ser_put_bytes s v (of_nat (length v)) = Inr s' \<and> ser_ok s' \<and>
           ser_out s' = ser_out s
             @ (if length v \<le> 255 then [of_nat (length v)] else 0xff # le32 (of_nat (length v))) @ v"
proof -
  have v: "length v < 2 ^ 31" using assms by simp
  have byte: "take_bit 32 (length v) = length v" using v by (simp add: take_bit_nat_eq_self)
  have small: "unat (of_nat (length v) :: u32) = length v" using v by (simp add: unat_of_nat)
  then have le: "(of_nat (length v) :: u32) \<le> 0xff \<longleftrightarrow> length v \<le> 255"
    by (simp add: word_le_nat_alt)
  have "ser_fits s (length (enc_bytes v))"
    using assms length_enc_varint [of "of_nat (length v)"] by (simp add: ser_fits_def enc_bytes_def)
  from ser_emitsD [OF ser_put_bytes_emits [OF v] assms(1) this] show ?thesis
    by (auto simp: enc_bytes_def enc_varint_def le unsigned_of_nat byte split: if_splits)
qed

theorem put_bytes_appends_witness:
  "\<exists>s s'. ser_prepare_ser 0 2 = Inr s \<and> ser_put_bytes s [1, 2, 3] 3 = Inr s' \<and>
     ser_ok s' \<and> ser_out s' = [3, 1, 2, 3]"
proof -
  obtain s where s: "ser_prepare_ser 0 2 = Inr s"
    by (simp add: ser_prepare_ser_def realloc_mem_def)
  then have "ser_ok s" "ser_out s = []" by (auto dest: ser_prepare_ser_ok)
  with s put_bytes_appends [of s "[1, 2, 3]"] show ?thesis by auto
qed

end
