(* ===== verification/RefPool.thy ===== *)
theory RefPool
  imports Prelude
begin

text \<open>
  The reference pool of \<open>c/pxprpc/server.c\<close>: an array of slots that grows by 64 and whose free slots
  are chained through \<open>nextFree\<close>.  A pointer to a slot is its index: \<open>_pxprpc__ExpandRefPool\<close>, the
  only operation that moves the array, runs only when the chain is empty, so no stored slot pointer
  survives a move.  \<open>ref_pool_size\<close> is a \<open>uint16_t\<close> and wraps as such.
\<close>

section \<open>State\<close>

text \<open>
  An object is an address.  \<open>on_free\<close> is null or a hook: the two hooks of \<open>pxprpc_pp.hpp\<close>
  (\<open>__wrap_object_on_free\<close>, \<open>__wrap_callable_on_free\<close>) or one of another client of the C library.
\<close>

type_synonym addr = nat

datatype free_hook = WrapObjectOnFree | WrapCallableOnFree | OtherHook nat

record pxprpc_ref =
  ref_object :: "addr option"
  ref_on_free :: "free_hook option"
  ref_nextFree :: "nat option"

text \<open>\<open>hook_log\<close> records the calls \<open>ref->on_free(ref)\<close>: the hook and the object of the slot.\<close>

record ref_pool =
  slots :: "pxprpc_ref list"
  free_ref_entry :: "nat option"
  ref_pool_size :: u16
  hook_log :: "(free_hook \<times> addr option) list"

definition REF_POOL_EXPAND_COUNT :: nat where
  "REF_POOL_EXPAND_COUNT = 64"

definition pool_new :: ref_pool where
  "pool_new = \<lparr>slots = [], free_ref_entry = None, ref_pool_size = 0, hook_log = []\<rparr>"

section \<open>Operations\<close>

text \<open>
  The array is reallocated to \<open>end+1\<close> slots (an array that is longer is cut) and the slots from
  \<open>start\<close> on are initialised, each chained to the next and the last one to the old entry.
\<close>

definition expand_ref_pool :: "ref_pool \<Rightarrow> ref_pool" where
  "expand_ref_pool p =
     (let start = unat (ref_pool_size p);
          last_idx = start + REF_POOL_EXPAND_COUNT - 1;
          fresh = map (\<lambda>i. \<lparr>ref_object = None, ref_on_free = None,
                          ref_nextFree = (if i = last_idx then free_ref_entry p else Some (i + 1))\<rparr>)
                    [start..<last_idx + 1]
      in p\<lparr>slots := take start (slots p) @ fresh,
           ref_pool_size := of_nat (last_idx + 1),
           free_ref_entry := Some start\<rparr>)"

definition server_alloc_ref :: "ref_pool \<Rightarrow> (nat \<times> ref_pool) res" where
  "server_alloc_ref p =
     (let p = (if free_ref_entry p = None then expand_ref_pool p else p)
      in case free_ref_entry p of
           None \<Rightarrow> Inl NullDeref
         | Some i \<Rightarrow>
             if i < length (slots p)
             then Inr (i, p\<lparr>free_ref_entry := ref_nextFree (slots p ! i)\<rparr>)
             else Inl OutOfBounds)"

definition server_get_ref :: "ref_pool \<Rightarrow> u32 \<Rightarrow> nat" where
  "server_get_ref p index = unat index"

text \<open>The call of the hook and the reset of the slot, shared by \<open>free_ref\<close> and \<open>close\<close>.\<close>

definition drop_object :: "nat \<Rightarrow> ref_pool \<Rightarrow> ref_pool res" where
  "drop_object i p =
     (if i < length (slots p) then
        (let r = slots p ! i
         in Inr (p\<lparr>slots := (slots p)[i := r\<lparr>ref_object := None, ref_on_free := None\<rparr>],
                   hook_log := hook_log p
                     @ (case ref_on_free r of None \<Rightarrow> [] | Some h \<Rightarrow> [(h, ref_object r)])\<rparr>))
      else Inl OutOfBounds)"

definition server_free_ref :: "nat \<Rightarrow> ref_pool \<Rightarrow> ref_pool res" where
  "server_free_ref i p =
     bindR (drop_object i p) (\<lambda>p.
     Inr (p\<lparr>slots := (slots p)[i := (slots p ! i)\<lparr>ref_nextFree := free_ref_entry p\<rparr>],
            free_ref_entry := Some i\<rparr>))"

text \<open>The loop of \<open>pxprpc_server_close\<close> over all slots.\<close>

definition drop_all_objects :: "ref_pool \<Rightarrow> ref_pool res" where
  "drop_all_objects p = foldR drop_object [0..<unat (ref_pool_size p)] p"

text \<open>Storing an object in an allocated slot, as the callers of \<open>alloc_ref\<close> do.\<close>

definition set_slot :: "nat \<Rightarrow> addr \<Rightarrow> free_hook option \<Rightarrow> ref_pool \<Rightarrow> ref_pool" where
  "set_slot i obj hook p =
     p\<lparr>slots := (slots p)[i := (slots p ! i)\<lparr>ref_object := Some obj, ref_on_free := hook\<rparr>]\<rparr>"

section \<open>The free chain\<close>

fun chain :: "pxprpc_ref list \<Rightarrow> nat option \<Rightarrow> nat list \<Rightarrow> bool" where
  "chain m e [] = (e = None)"
| "chain m e (i # is) = (e = Some i \<and> i < length m \<and> chain m (ref_nextFree (m ! i)) is)"

text \<open>The chain as far as it is followed in \<open>n\<close> steps.\<close>

fun walk :: "nat \<Rightarrow> pxprpc_ref list \<Rightarrow> nat option \<Rightarrow> nat list" where
  "walk 0 m e = []"
| "walk (Suc n) m None = []"
| "walk (Suc n) m (Some i) =
     (if i < length m then i # walk n m (ref_nextFree (m ! i)) else [])"

definition free_slots :: "ref_pool \<Rightarrow> nat list" where
  "free_slots p = walk (length (slots p)) (slots p) (free_ref_entry p)"

definition pool_ok :: "ref_pool \<Rightarrow> bool" where
  "pool_ok p \<longleftrightarrow> chain (slots p) (free_ref_entry p) (free_slots p) \<and> distinct (free_slots p)
     \<and> length (slots p) = unat (ref_pool_size p)"

definition live_slots :: "ref_pool \<Rightarrow> nat set" where
  "live_slots p = {..<length (slots p)} - set (free_slots p)"

text \<open>There is a free slot, or the \<open>uint16_t\<close> size still has room for another 64.\<close>

definition pool_room :: "ref_pool \<Rightarrow> bool" where
  "pool_room p \<longleftrightarrow> free_ref_entry p \<noteq> None \<or> length (slots p) + REF_POOL_EXPAND_COUNT < 2 ^ 16"

lemma chain_walk: "chain m e is \<Longrightarrow> length is \<le> n \<Longrightarrow> walk n m e = is"
proof (induction "is" arbitrary: e n)
  case Nil
  then show ?case by (cases n) auto
next
  case (Cons i "is")
  then show ?case by (cases n) auto
qed

lemma chain_bound: "chain m e is \<Longrightarrow> set is \<subseteq> {..<length m}"
  by (induction "is" arbitrary: e) auto

lemma chain_frame:
  "chain m e is \<Longrightarrow> length m \<le> length m' \<Longrightarrow>
     (\<And>i. i \<in> set is \<Longrightarrow> ref_nextFree (m' ! i) = ref_nextFree (m ! i)) \<Longrightarrow> chain m' e is"
  by (induction "is" arbitrary: e) auto

lemma chain_update:
  "chain m e is \<Longrightarrow> i \<notin> set is \<or> ref_nextFree r = ref_nextFree (m ! i) \<Longrightarrow> chain (m[i := r]) e is"
  by (cases "i < length m"; induction "is" arbitrary: e)
    (auto simp: nth_list_update list_update_beyond)

lemma chain_length:
  assumes "chain m e is" and "distinct is"
  shows "length is \<le> length m"
proof -
  have "card (set is) \<le> card {..<length m}"
    by (intro card_mono chain_bound [OF assms(1)]) simp
  with assms(2) show ?thesis by (simp add: distinct_card)
qed

lemma free_slots_eq:
  "chain (slots p) (free_ref_entry p) is \<Longrightarrow> distinct is \<Longrightarrow> free_slots p = is"
  unfolding free_slots_def by (rule chain_walk) (auto intro: chain_length)

lemma pool_okI:
  "chain (slots p) (free_ref_entry p) is \<Longrightarrow> distinct is \<Longrightarrow>
     length (slots p) = unat (ref_pool_size p) \<Longrightarrow> pool_ok p \<and> free_slots p = is"
  using free_slots_eq [of p "is"] by (simp add: pool_ok_def)

lemma pool_ok_new [simp]: "pool_ok pool_new"
  by (simp add: pool_ok_def pool_new_def free_slots_def)

lemma live_slots_new [simp]: "live_slots pool_new = {}"
  by (simp add: live_slots_def pool_new_def)

section \<open>The allocator contract\<close>

text \<open>
  What the request handlers and the C++ wrapper rely on: an allocated slot is not in use, freeing
  gives exactly that slot back, and every operation keeps the invariant.
\<close>

locale slot_allocator =
  fixes alloc :: "'s \<Rightarrow> (nat \<times> 's) res"
    and free :: "nat \<Rightarrow> 's \<Rightarrow> 's res"
    and ok :: "'s \<Rightarrow> bool"
    and room :: "'s \<Rightarrow> bool"
    and live :: "'s \<Rightarrow> nat set"
  assumes alloc_fresh: "ok s \<Longrightarrow> room s \<Longrightarrow>
      \<exists>i s'. alloc s = Inr (i, s') \<and> i \<notin> live s \<and> ok s' \<and> live s' = insert i (live s)"
    and free_live: "ok s \<Longrightarrow> i \<in> live s \<Longrightarrow>
      \<exists>s'. free i s = Inr s' \<and> ok s' \<and> room s' \<and> live s' = live s - {i}"
begin

lemma free_all:
  "ok s \<Longrightarrow> distinct is \<Longrightarrow> set is \<subseteq> live s \<Longrightarrow>
     \<exists>s'. foldR free is s = Inr s' \<and> ok s' \<and> live s' = live s - set is"
proof (induction "is" arbitrary: s)
  case Nil
  then show ?case by simp
next
  case (Cons i "is")
  from free_live [of s i] Cons.prems obtain t where
    t: "free i s = Inr t" "ok t" "live t = live s - {i}" by auto
  moreover from t Cons.prems have "set is \<subseteq> live t" by auto
  ultimately obtain s' where "foldR free is t = Inr s'" "ok s'" "live s' = live t - set is"
    using Cons.IH [of t] Cons.prems by auto
  moreover have "live s - {i} - set is = live s - set (i # is)" by auto
  ultimately show ?case using t by simp
qed

lemma alloc_then_free:
  assumes "ok s" and "room s"
  shows "\<exists>i s' s''. alloc s = Inr (i, s') \<and> free i s' = Inr s'' \<and> ok s'' \<and> live s'' = live s"
proof -
  from alloc_fresh [OF assms] obtain i s' where
    s': "alloc s = Inr (i, s')" "i \<notin> live s" "ok s'" "live s' = insert i (live s)" by blast
  with free_live [of s' i] show ?thesis by auto
qed

end

section \<open>The pool keeps the contract\<close>

lemma chain_upt:
  "a < b \<Longrightarrow> b \<le> length m \<Longrightarrow>
     (\<And>i. a \<le> i \<Longrightarrow> i < b \<Longrightarrow> ref_nextFree (m ! i) = (if i = b - 1 then None else Some (i + 1))) \<Longrightarrow>
     chain m (Some a) [a..<b]"
proof (induction "b - a" arbitrary: a)
  case 0
  then show ?case by simp
next
  case (Suc n)
  show ?case
  proof (cases "Suc a = b")
    case True
    then have "[a..<b] = [a]" by auto
    with Suc.prems True show ?thesis by simp
  next
    case False
    with Suc have "chain m (Some (Suc a)) [Suc a..<b]" by simp
    with Suc.prems False show ?thesis by (simp add: upt_conv_Cons)
  qed
qed

lemma expand_ref_pool_ok:
  assumes ok: "pool_ok p" and none: "free_ref_entry p = None"
    and room: "length (slots p) + REF_POOL_EXPAND_COUNT < 2 ^ 16"
  shows "pool_ok (expand_ref_pool p)"
    and "free_slots (expand_ref_pool p) = [length (slots p)..<length (slots p) + 64]"
    and "length (slots (expand_ref_pool p)) = length (slots p) + 64"
    and "live_slots (expand_ref_pool p) = live_slots p"
    and "take (length (slots p)) (slots (expand_ref_pool p)) = slots p"
proof -
  let ?n = "length (slots p)" and ?q = "expand_ref_pool p"
  have n: "unat (ref_pool_size p) = ?n" using ok by (simp add: pool_ok_def)
  have q: "free_ref_entry ?q = Some ?n" "length (slots ?q) = ?n + 64"
    by (simp_all add: expand_ref_pool_def Let_def n REF_POOL_EXPAND_COUNT_def)
  show len: "length (slots ?q) = ?n + 64" by (rule q)
  have sz: "unat (ref_pool_size ?q) = ?n + 64"
  proof -
    have "ref_pool_size ?q = of_nat (?n + 64)"
      by (simp add: expand_ref_pool_def Let_def n REF_POOL_EXPAND_COUNT_def)
    moreover have "unat (of_nat k :: u16) = k" if "k < 2 ^ 16" for k
      using that by (simp add: unat_of_nat)
    ultimately show ?thesis using room by (simp add: REF_POOL_EXPAND_COUNT_def del: of_nat_add)
  qed
  have "chain (slots ?q) (Some ?n) [?n..<?n + 64]"
    by (rule chain_upt)
      (auto simp: len expand_ref_pool_def Let_def n REF_POOL_EXPAND_COUNT_def nth_append none)
  with q sz have "pool_ok ?q \<and> free_slots ?q = [?n..<?n + 64]"
    by (intro pool_okI) auto
  then show "pool_ok ?q" "free_slots ?q = [?n..<?n + 64]" by auto
  have "free_slots p = []" using ok none by (cases "free_slots p") (auto simp: pool_ok_def)
  then show "live_slots ?q = live_slots p"
    using \<open>pool_ok ?q \<and> free_slots ?q = [?n..<?n + 64]\<close> len
    by (auto simp: live_slots_def)
  show "take ?n (slots ?q) = slots p"
    by (simp add: expand_ref_pool_def Let_def n)
qed

lemma alloc_from_chain:
  assumes ok: "pool_ok p" and e: "free_ref_entry p = Some i"
  shows "i < length (slots p)" and "i \<notin> live_slots p"
    and "pool_ok (p\<lparr>free_ref_entry := ref_nextFree (slots p ! i)\<rparr>)"
    and "live_slots (p\<lparr>free_ref_entry := ref_nextFree (slots p ! i)\<rparr>) = insert i (live_slots p)"
proof -
  let ?q = "p\<lparr>free_ref_entry := ref_nextFree (slots p ! i)\<rparr>"
  from ok e obtain "is" where fs: "free_slots p = i # is"
    by (cases "free_slots p") (auto simp: pool_ok_def)
  with ok show i: "i < length (slots p)" and "i \<notin> live_slots p"
    by (auto simp: pool_ok_def live_slots_def)
  have "pool_ok ?q \<and> free_slots ?q = is"
    using ok fs by (intro pool_okI) (auto simp: pool_ok_def)
  with ok fs i show "pool_ok ?q" "live_slots ?q = insert i (live_slots p)"
    by (auto simp: live_slots_def pool_ok_def)
qed

lemma server_alloc_ref_ok:
  assumes "pool_ok p" and "pool_room p"
  shows "\<exists>i q. server_alloc_ref p = Inr (i, q) \<and> i \<notin> live_slots p \<and> pool_ok q
           \<and> live_slots q = insert i (live_slots p) \<and> i < length (slots q)
           \<and> take (length (slots p)) (slots q) = slots p \<and> hook_log q = hook_log p"
proof (cases "free_ref_entry p")
  case (Some i)
  with alloc_from_chain [OF assms(1) Some] show ?thesis
    by (simp add: server_alloc_ref_def)
next
  case None
  with assms(2) have room: "length (slots p) + REF_POOL_EXPAND_COUNT < 2 ^ 16"
    by (simp add: pool_room_def)
  note ex = expand_ref_pool_ok [OF assms(1) None room]
  obtain i where i: "free_ref_entry (expand_ref_pool p) = Some i"
    by (simp add: expand_ref_pool_def Let_def)
  have "hook_log (expand_ref_pool p) = hook_log p" by (simp add: expand_ref_pool_def Let_def)
  with alloc_from_chain [OF ex(1) i] ex(4,5) i None show ?thesis
    by (simp add: server_alloc_ref_def Let_def)
qed

lemma drop_object_ok:
  assumes "pool_ok p" and "drop_object i p = Inr q"
  shows "pool_ok q" and "live_slots q = live_slots p" and "free_ref_entry q = free_ref_entry p"
    and "length (slots q) = length (slots p)" and "free_slots q = free_slots p"
proof -
  from assms(2) have i: "i < length (slots p)"
    and q: "slots q = (slots p)[i := (slots p ! i)\<lparr>ref_object := None, ref_on_free := None\<rparr>]"
      "free_ref_entry q = free_ref_entry p" "ref_pool_size q = ref_pool_size p"
    by (auto simp: drop_object_def Let_def split: if_splits)
  show "free_ref_entry q = free_ref_entry p" "length (slots q) = length (slots p)"
    by (simp_all add: q)
  have "pool_ok q \<and> free_slots q = free_slots p"
    using assms(1) q
    by (intro pool_okI) (auto simp: pool_ok_def intro: chain_update)
  then show "pool_ok q" "live_slots q = live_slots p" "free_slots q = free_slots p"
    by (auto simp: live_slots_def q)
qed

lemma server_free_ref_ok:
  assumes ok: "pool_ok p" and i: "i \<in> live_slots p"
  shows "\<exists>q. server_free_ref i p = Inr q \<and> pool_ok q \<and> free_ref_entry q = Some i
           \<and> live_slots q = live_slots p - {i}"
proof -
  from i have lt: "i < length (slots p)" and fresh: "i \<notin> set (free_slots p)"
    by (auto simp: live_slots_def)
  then obtain d where d: "drop_object i p = Inr d" by (simp add: drop_object_def Let_def)
  note dok = drop_object_ok [OF ok d]
  let ?q = "d\<lparr>slots := (slots d)[i := (slots d ! i)\<lparr>ref_nextFree := free_ref_entry d\<rparr>],
            free_ref_entry := Some i\<rparr>"
  have "chain (slots ?q) (free_ref_entry d) (free_slots d)"
    using dok fresh by (auto simp: pool_ok_def intro: chain_update)
  then have "pool_ok ?q \<and> free_slots ?q = i # free_slots d"
    using dok lt fresh by (intro pool_okI) (auto simp: pool_ok_def)
  then show ?thesis
    using d dok by (auto simp: server_free_ref_def live_slots_def)
qed

interpretation pool_alloc: slot_allocator server_alloc_ref server_free_ref pool_ok pool_room live_slots
proof unfold_locales
  fix p assume "pool_ok p" "pool_room p"
  from server_alloc_ref_ok [OF this] show "\<exists>i s'. server_alloc_ref p = Inr (i, s') \<and> i \<notin> live_slots p
      \<and> pool_ok s' \<and> live_slots s' = insert i (live_slots p)" by auto
next
  fix p i assume "pool_ok p" "i \<in> live_slots p"
  from server_free_ref_ok [OF this] show "\<exists>s'. server_free_ref i p = Inr s' \<and> pool_ok s'
      \<and> pool_room s' \<and> live_slots s' = live_slots p - {i}" by (auto simp: pool_room_def)
qed

section \<open>Properties\<close>

text \<open>
  C8. \<open>pxprpc_server_alloc_ref\<close> on a consistent pool that has a free slot, or whose 16-bit size can
  still grow by 64, succeeds with the index of a slot inside the array that was not in use; the pool
  stays consistent, exactly that slot becomes used, and growing keeps every old slot.
\<close>

theorem alloc_ref_fresh:
  assumes "pool_ok p" and "pool_room p"
  shows "\<exists>i q. server_alloc_ref p = Inr (i, q) \<and> i < length (slots q) \<and> i \<notin> live_slots p \<and> pool_ok q
           \<and> live_slots q = insert i (live_slots p) \<and> take (length (slots p)) (slots q) = slots p"
  using server_alloc_ref_ok [OF assms] by auto

theorem alloc_ref_fresh_witness:
  "\<exists>i q. server_alloc_ref pool_new = Inr (i, q) \<and> i < length (slots q) \<and> live_slots q = {i} \<and> pool_ok q"
proof -
  have "pool_room pool_new" by (simp add: pool_room_def pool_new_def REF_POOL_EXPAND_COUNT_def)
  with alloc_ref_fresh [of pool_new] show ?thesis by auto
qed

text \<open>
  C9. Freeing the listed slots one after the other, as the freeRef request does, succeeds when they
  are distinct and in use: afterwards exactly they are no longer in use, the pool is consistent, and
  the last one freed is the first one handed out again.
\<close>

theorem free_refs_exact:
  assumes "pool_ok p" and "distinct (is @ [i])" and "set (is @ [i]) \<subseteq> live_slots p"
  shows "\<exists>q r. foldR server_free_ref (is @ [i]) p = Inr q \<and> pool_ok q
           \<and> live_slots q = live_slots p - set (is @ [i]) \<and> server_alloc_ref q = Inr (i, r)"
proof -
  from pool_alloc.free_all [of p "is"] assms obtain t where
    t: "foldR server_free_ref is p = Inr t" "pool_ok t" "live_slots t = live_slots p - set is" by auto
  with assms have "i \<in> live_slots t" by auto
  from server_free_ref_ok [OF t(2) this] obtain q where
    q: "server_free_ref i t = Inr q" "pool_ok q" "free_ref_entry q = Some i"
       "live_slots q = live_slots t - {i}" by blast
  have "server_alloc_ref q = Inr (i, q\<lparr>free_ref_entry := ref_nextFree (slots q ! i)\<rparr>)"
    using alloc_from_chain [OF q(2,3)] q(3) by (simp add: server_alloc_ref_def)
  moreover have "foldR server_free_ref (is @ [i]) p = Inr q"
    using t(1) q(1) by (simp add: foldR_append)
  moreover have "live_slots q = live_slots p - set (is @ [i])"
    using q(4) t(3) by auto
  ultimately show ?thesis using q(2) by blast
qed

theorem free_refs_exact_witness:
  "\<exists>p q r. pool_ok p \<and> live_slots p = {0} \<and> foldR server_free_ref [0] p = Inr q \<and> live_slots q = {}
     \<and> server_alloc_ref q = Inr (0, r)"
proof -
  have room: "pool_room pool_new" by (simp add: pool_room_def pool_new_def REF_POOL_EXPAND_COUNT_def)
  obtain q where q: "server_alloc_ref pool_new = Inr (0, q)"
    by (simp add: server_alloc_ref_def pool_new_def expand_ref_pool_def REF_POOL_EXPAND_COUNT_def Let_def)
  with server_alloc_ref_ok [OF pool_ok_new room] have p: "pool_ok q" "live_slots q = {0}" by auto
  with free_refs_exact [of q "[]" 0] show ?thesis by fastforce
qed

text \<open>
  The pool does not check that a freed reference is in use.  Freeing a slot that is already the
  head of the free chain makes the chain circular: from then on every allocation returns that same
  slot, so two references share one slot.
\<close>

theorem double_free_aliases:
  assumes "pool_ok p" and "free_ref_entry p = Some i"
  shows "\<exists>q. server_free_ref i p = Inr q \<and> server_alloc_ref q = Inr (i, q)"
proof -
  from alloc_from_chain [OF assms] have lt: "i < length (slots p)" by simp
  then obtain d where d: "drop_object i p = Inr d" by (simp add: drop_object_def Let_def)
  note dok = drop_object_ok [OF assms(1) d]
  let ?q = "d\<lparr>slots := (slots d)[i := (slots d ! i)\<lparr>ref_nextFree := Some i\<rparr>], free_ref_entry := Some i\<rparr>"
  have "server_free_ref i p = Inr ?q"
    using d dok(3) assms(2) by (simp add: server_free_ref_def)
  moreover have "server_alloc_ref ?q = Inr (i, ?q)"
    using lt dok(4) by (simp add: server_alloc_ref_def)
  ultimately show ?thesis by blast
qed

theorem double_free_aliases_witness:
  "\<exists>p i q. pool_ok p \<and> free_ref_entry p = Some i \<and> server_free_ref i p = Inr q
     \<and> server_alloc_ref q = Inr (i, q)"
proof -
  have p: "pool_ok (expand_ref_pool pool_new)"
    by (rule expand_ref_pool_ok(1)) (simp_all, simp_all add: pool_new_def REF_POOL_EXPAND_COUNT_def)
  moreover have "free_ref_entry (expand_ref_pool pool_new) = Some 0"
    by (simp add: expand_ref_pool_def pool_new_def Let_def)
  ultimately have p: "pool_ok (expand_ref_pool pool_new)" "free_ref_entry (expand_ref_pool pool_new) = Some 0"
    by auto
  from double_free_aliases [OF this] p show ?thesis by blast
qed

text \<open>
  \<open>ref_pool_size\<close> is a \<open>uint16_t\<close>: the 1024th growth, from 65472 to 65536 slots, stores 0.
  The next growth then starts over at slot 0: it cuts the array to 64 slots and hands out slot 0
  although all 65536 slots are in use.
\<close>

theorem pool_size_wraps:
  assumes "pool_ok p" and "ref_pool_size p = 65472" and "free_ref_entry p = None"
  shows "length (slots (expand_ref_pool p)) = 65536 \<and> ref_pool_size (expand_ref_pool p) = 0 \<and>
     (\<forall>q. ref_pool_size q = 0 \<and> length (slots q) = 65536 \<and> free_ref_entry q = None \<longrightarrow>
        (\<exists>r. server_alloc_ref q = Inr (0, r) \<and> length (slots r) = 64))"
proof -
  have len: "length (slots p) = 65472" using assms by (simp add: pool_ok_def)
  have "length (slots (expand_ref_pool p)) = 65536"
    using assms(2) len by (simp add: expand_ref_pool_def Let_def REF_POOL_EXPAND_COUNT_def)
  moreover have "ref_pool_size (expand_ref_pool p) = 0"
    using assms(2) by (simp add: expand_ref_pool_def Let_def REF_POOL_EXPAND_COUNT_def)
  ultimately show ?thesis
    by (auto simp: server_alloc_ref_def expand_ref_pool_def Let_def REF_POOL_EXPAND_COUNT_def)
qed

lemma walk_None [simp]: "walk n m None = []"
  by (cases n) simp_all

theorem pool_size_wraps_witness:
  "\<exists>p. pool_ok p \<and> ref_pool_size p = 65472 \<and> ref_pool_size (expand_ref_pool p) = 0"
proof -
  let ?r = "\<lparr>ref_object = Some 1, ref_on_free = None, ref_nextFree = None\<rparr>"
  let ?p = "\<lparr>slots = replicate 65472 ?r, free_ref_entry = None, ref_pool_size = 65472, hook_log = []\<rparr>"
  have "pool_ok ?p" by (simp add: pool_ok_def free_slots_def)
  with pool_size_wraps [of ?p] show ?thesis by (intro exI [of _ ?p]) simp
qed

end
