(* ===== verification/Server.thy ===== *)
theory Server
  imports RefPool
begin

text \<open>
  The request machine of \<open>c/pxprpc/server.c\<close>.  The C code is event driven: it runs from a completion
  callback to the next call of the io, of a callable or of a hook, which is the last thing it does,
  with one exception: \<open>_pxprpc__step2\<close> goes on with \<open>_pxprpc__step1\<close> after the handler of the
  packet.  So each function below is one such run; the calls it makes are recorded in \<open>sv_log\<close>, what
  it then waits for in \<open>sv_wait\<close> and \<open>sv_wait_recv\<close>, and the tail of \<open>step2\<close> is a run of its own
  (\<open>sv_in_step2\<close>), so that a completion delivered inside the call can come before it.
  A request is named by a number; the parameter pointer is a receive buffer with an offset, and
  pointer arithmetic on it is kept, null included.
\<close>

section \<open>State\<close>

type_synonym reqid = nat
type_synonym param_ptr = "nat option \<times> int"

datatype step =
    StepCall1 | StepCall2 | StepGetFunc1 | StepFreeRef1 | StepClose1 | StepGetInfo1
  | StepPoll1 | StepPoll2 | StepPoll3 | FinishRequest

record request =
  rq_session :: u32
  rq_callable_index :: u32
  rq_param_base :: param_ptr
  rq_param_len :: u32
  rq_on_finish :: "nat option"
  rq_result :: "bytes \<times> bytes list"
  rq_rejected :: bool
  rq_callable_data :: "nat option"
  rq_next_step :: "step option"
  rq_getFuncRes :: u32

text \<open>The calls the server makes: to the io, to callables, to the hooks of requests and context.\<close>

datatype action =
    AReceive | ASend reqid bytes | AIoClose | AOnClosed
  | ACall addr reqid | AOnFinish nat reqid | ABufFree nat | AFreeCtx

text \<open>What a request waits for: its send, with the function to call then, or its callable.\<close>

datatype awaited = WaitSend step | WaitCall

record servctx =
  sv_pool :: ref_pool
  sv_closed :: bool
  sv_last_error :: "string option"
  sv_funcmap :: "(bytes \<Rightarrow> addr option) option"
  sv_on_closed :: bool
  sv_refCount :: u32
  sv_freed :: bool
  sv_receive_error :: "string option"
  sv_send_error :: "string option"
  sv_bufs :: "nat \<Rightarrow> bytes option"
  sv_reqs :: "reqid \<Rightarrow> request option"
  sv_next_req :: reqid
  sv_wait :: "reqid \<Rightarrow> awaited option"
  sv_wait_recv :: bool
  sv_in_step2 :: bool
  sv_owned :: bool
  sv_log :: "action list"

definition null_ptr :: param_ptr where
  "null_ptr = (None, 0)"

definition emit :: "action \<Rightarrow> servctx \<Rightarrow> servctx" where
  "emit a s = s\<lparr>sv_log := sv_log s @ [a]\<rparr>"

definition put_req :: "reqid \<Rightarrow> request \<Rightarrow> servctx \<Rightarrow> servctx" where
  "put_req rid r s = s\<lparr>sv_reqs := (sv_reqs s)(rid \<mapsto> r)\<rparr>"

text \<open>Every access through the context pointer or through a request pointer.\<close>

definition ctx_alive :: "servctx \<Rightarrow> servctx res" where
  "ctx_alive s = (if sv_freed s then Inl UseAfterFree else Inr s)"

definition get_req :: "reqid \<Rightarrow> servctx \<Rightarrow> request res" where
  "get_req rid s =
     (case sv_reqs s rid of None \<Rightarrow> Inl UseAfterFree | Some r \<Rightarrow> bindR (ctx_alive s) (\<lambda>_. Inr r))"

definition buf_read :: "param_ptr \<Rightarrow> nat \<Rightarrow> nat \<Rightarrow> servctx \<Rightarrow> bytes res" where
  "buf_read p i n s =
     (case p of
        (None, _) \<Rightarrow> Inl NullDeref
      | (Some b, off) \<Rightarrow>
          (case sv_bufs s b of
             None \<Rightarrow> Inl UseAfterFree
           | Some m \<Rightarrow> if off < 0 then Inl OutOfBounds else read_mem m (nat off + i) n))"

definition ptr_add :: "param_ptr \<Rightarrow> int \<Rightarrow> param_ptr" where
  "ptr_add p k = (fst p, snd p + k)"

definition ServerInfo :: string where
  "ServerInfo = ''server name:pxprpc for c'' @ [CHR 0x0A] @ ''version:2.1'' @ [CHR 0x0A]"

definition string_bytes :: "string \<Rightarrow> bytes" where
  "string_bytes cs = map (\<lambda>c. of_nat (of_char c)) cs"

section \<open>Context life time\<close>

definition refCount_add :: "u32 \<Rightarrow> servctx \<Rightarrow> servctx res" where
  "refCount_add addend s =
     bindR (ctx_alive s) (\<lambda>s.
     let s = s\<lparr>sv_refCount := sv_refCount s + addend\<rparr>
     in Inr (if sv_refCount s = 0 then emit AFreeCtx (s\<lparr>sv_freed := True\<rparr>) else s))"

definition server_close :: "servctx \<Rightarrow> servctx res" where
  "server_close s =
     bindR (ctx_alive s) (\<lambda>s.
     if sv_closed s then Inr s
     else bindR (drop_all_objects (sv_pool s)) (\<lambda>p.
       let s = emit AIoClose (s\<lparr>sv_closed := True, sv_pool := p\<rparr>)
       in Inr (if sv_on_closed s then emit AOnClosed s else s)))"

section \<open>Requests\<close>

definition zero_request :: request where
  "zero_request =
     \<lparr>rq_session = 0, rq_callable_index = 0, rq_param_base = null_ptr, rq_param_len = 0,
      rq_on_finish = None, rq_result = ([], []), rq_rejected = False, rq_callable_data = None,
      rq_next_step = None, rq_getFuncRes = 0\<rparr>"

definition newRequest :: "u32 \<Rightarrow> servctx \<Rightarrow> (reqid \<times> servctx) res" where
  "newRequest session s =
     (let rid = sv_next_req s;
          s = put_req rid (zero_request\<lparr>rq_session := session\<rparr>) (s\<lparr>sv_next_req := rid + 1\<rparr>)
      in bindR (refCount_add 1 s) (\<lambda>s. Inr (rid, s)))"

text \<open>\<open>io->buf_free(parameter.base-8)\<close>: only the start of a live receive buffer can be freed.\<close>

definition free_param :: "param_ptr \<Rightarrow> servctx \<Rightarrow> servctx res" where
  "free_param p s =
     (if p = null_ptr then Inr s
      else case ptr_add p (-8) of
             (Some b, off) \<Rightarrow>
               if off = 0 \<and> sv_bufs s b \<noteq> None
               then Inr (emit (ABufFree b) (s\<lparr>sv_bufs := (sv_bufs s)(b := None)\<rparr>))
               else Inl BadFree
           | (None, _) \<Rightarrow> Inl BadFree)"

definition close_on_send_error :: "servctx \<Rightarrow> servctx res" where
  "close_on_send_error s =
     bindR (ctx_alive s) (\<lambda>s.
     if sv_send_error s \<noteq> None then server_close (s\<lparr>sv_last_error := sv_send_error s\<rparr>) else Inr s)"

definition call_on_finish :: "reqid \<Rightarrow> request \<Rightarrow> servctx \<Rightarrow> servctx" where
  "call_on_finish rid r s =
     (case rq_on_finish r of None \<Rightarrow> s | Some f \<Rightarrow> emit (AOnFinish f rid) s)"

definition finishRequest :: "reqid \<Rightarrow> servctx \<Rightarrow> servctx res" where
  "finishRequest rid s =
     bindR (get_req rid s) (\<lambda>r.
     bindR (close_on_send_error s) (\<lambda>s.
     bindR (free_param (rq_param_base r) (call_on_finish rid r s)) (\<lambda>s.
     bindR (refCount_add (-1) s) (\<lambda>s.
     Inr (s\<lparr>sv_reqs := (sv_reqs s)(rid := None)\<rparr>)))))"

definition prepareRequest :: "request \<Rightarrow> request" where
  "prepareRequest r =
     (let r = r\<lparr>rq_result := ([], []), rq_on_finish := None, rq_rejected := False,
                rq_callable_data := None\<rparr>;
          idx = sint (rq_callable_index r)
      in if 0 \<le> idx then r\<lparr>rq_next_step := Some StepCall1\<rparr>
         else if - idx = 1 then r\<lparr>rq_next_step := Some StepGetFunc1\<rparr>
         else if - idx = 2 then r\<lparr>rq_next_step := Some StepFreeRef1\<rparr>
         else if - idx = 3 then r\<lparr>rq_next_step := Some StepClose1\<rparr>
         else if - idx = 4 then r\<lparr>rq_next_step := Some StepGetInfo1\<rparr>
         else if - idx = 5 then r\<lparr>rq_next_step := Some StepPoll1\<rparr>
         else r)"

section \<open>Replies\<close>

definition result_parts :: "request \<Rightarrow> bytes" where
  "result_parts r =
     (if fst (rq_result r) \<noteq> [] then fst (rq_result r) @ concat (snd (rq_result r)) else [])"

definition writeResult :: "reqid \<Rightarrow> servctx \<Rightarrow> servctx res" where
  "writeResult rid s =
     bindR (get_req rid s) (\<lambda>r.
     let r = (if rq_rejected r then r\<lparr>rq_session := rq_session r XOR 0x80000000\<rparr> else r);
         s = put_req rid r s
     in if \<not> sv_closed s
        then case rq_next_step r of
               None \<Rightarrow> Inl NullDeref
             | Some st \<Rightarrow>
                 Inr (emit (ASend rid (le32 (rq_session r) @ result_parts r))
                        (s\<lparr>sv_wait := (sv_wait s)(rid \<mapsto> WaitSend st)\<rparr>))
        else Inr s)"

definition stepCall2 :: "reqid \<Rightarrow> servctx \<Rightarrow> servctx res" where
  "stepCall2 rid s =
     bindR (get_req rid s) (\<lambda>r.
     if rq_session r \<noteq> 0xffffffff
     then writeResult rid (put_req rid (r\<lparr>rq_next_step := Some FinishRequest\<rparr>) s)
     else finishRequest rid s)"

section \<open>Handlers\<close>

text \<open>
  \<open>ref_pool[index].object\<close> is taken as a callable and called: no bound and no null check is made.
\<close>

definition call_slot :: "int \<Rightarrow> step \<Rightarrow> reqid \<Rightarrow> servctx \<Rightarrow> servctx res" where
  "call_slot idx st rid s =
     bindR (get_req rid s) (\<lambda>r.
     if 0 \<le> idx \<and> nat idx < length (slots (sv_pool s))
     then case ref_object (slots (sv_pool s) ! nat idx) of
            None \<Rightarrow> Inl NullDeref
          | Some c \<Rightarrow>
              Inr (emit (ACall c rid)
                     (put_req rid (r\<lparr>rq_next_step := Some st\<rparr>)
                       (s\<lparr>sv_wait := (sv_wait s)(rid \<mapsto> WaitCall)\<rparr>)))
     else Inl OutOfBounds)"

definition stepCall1 :: "reqid \<Rightarrow> servctx \<Rightarrow> servctx res" where
  "stepCall1 rid s =
     bindR (get_req rid s) (\<lambda>r. call_slot (sint (rq_callable_index r)) StepCall2 rid s)"

definition free_index_at :: "param_ptr \<Rightarrow> nat \<Rightarrow> servctx \<Rightarrow> servctx res" where
  "free_index_at p i s =
     bindR (buf_read p i 4 s) (\<lambda>v.
     bindR (server_free_ref (server_get_ref (sv_pool s) (un_le v)) (sv_pool s)) (\<lambda>q.
     Inr (s\<lparr>sv_pool := q\<rparr>)))"

text \<open>The values of the loop variable of \<open>for(int i=0;i<length;i+=4)\<close>.\<close>

definition free_offsets :: "u32 \<Rightarrow> nat list" where
  "free_offsets len = map (\<lambda>k. 4 * k) [0..<(unat len + 3) div 4]"

definition stepFreeRef1 :: "reqid \<Rightarrow> servctx \<Rightarrow> servctx res" where
  "stepFreeRef1 rid s =
     bindR (get_req rid s) (\<lambda>r.
     bindR (foldR (free_index_at (rq_param_base r)) (free_offsets (rq_param_len r)) s) (\<lambda>s.
     stepCall2 rid s))"

definition lookup_func :: "request \<Rightarrow> servctx \<Rightarrow> (u32 \<times> servctx) res" where
  "lookup_func r s =
     (case sv_funcmap s of
        None \<Rightarrow> Inr (-1, s)
      | Some get \<Rightarrow>
          bindR (buf_read (rq_param_base r) 0 (unat (rq_param_len r)) s) (\<lambda>name.
          case get name of
            None \<Rightarrow> Inr (-1, s)
          | Some func \<Rightarrow>
              bindR (server_alloc_ref (sv_pool s)) (\<lambda>(i, q).
              Inr (of_nat i,
                   s\<lparr>sv_pool := q\<lparr>slots := (slots q)[i := (slots q ! i)\<lparr>ref_object := Some func\<rparr>]\<rparr>\<rparr>))))"

definition stepGetFunc1 :: "reqid \<Rightarrow> servctx \<Rightarrow> servctx res" where
  "stepGetFunc1 rid s =
     bindR (get_req rid s) (\<lambda>r.
     bindR (lookup_func r s) (\<lambda>(res, s).
     stepCall2 rid (put_req rid (r\<lparr>rq_getFuncRes := res, rq_result := (le32 res, snd (rq_result r))\<rparr>) s)))"

definition stepClose1 :: "reqid \<Rightarrow> servctx \<Rightarrow> servctx res" where
  "stepClose1 rid s = bindR (get_req rid s) (\<lambda>r. server_close s)"

definition stepGetInfo1 :: "reqid \<Rightarrow> servctx \<Rightarrow> servctx res" where
  "stepGetInfo1 rid s =
     bindR (get_req rid s) (\<lambda>r.
     stepCall2 rid
       (put_req rid (r\<lparr>rq_result := (string_bytes ServerInfo, snd (rq_result r))\<rparr>) s))"

definition stepPoll1 :: "reqid \<Rightarrow> servctx \<Rightarrow> servctx res" where
  "stepPoll1 rid s =
     bindR (get_req rid s) (\<lambda>r.
     bindR (buf_read (rq_param_base r) 0 4 s) (\<lambda>v.
     let r = prepareRequest (r\<lparr>rq_callable_index := un_le v,
               rq_param_base := ptr_add (rq_param_base r) 4, rq_param_len := rq_param_len r - 4\<rparr>)
     in call_slot (sint (rq_callable_index r)) StepPoll2 rid (put_req rid r s)))"

definition stepPoll2 :: "reqid \<Rightarrow> servctx \<Rightarrow> servctx res" where
  "stepPoll2 rid s =
     bindR (get_req rid s) (\<lambda>r.
     writeResult rid (put_req rid (r\<lparr>rq_next_step := Some StepPoll3\<rparr>) s))"

definition stepPoll3 :: "reqid \<Rightarrow> servctx \<Rightarrow> servctx res" where
  "stepPoll3 rid s =
     bindR (get_req rid s) (\<lambda>r.
     bindR (close_on_send_error s) (\<lambda>s.
     if rq_rejected r \<or> sv_closed s then
       finishRequest rid
         (put_req rid (r\<lparr>rq_callable_index := -5,
            rq_param_base := ptr_add (rq_param_base r) (-4), rq_param_len := rq_param_len r + 4\<rparr>) s)
     else
       call_slot (sint (rq_callable_index r)) StepPoll2 rid
         (put_req rid (prepareRequest r) (call_on_finish rid r s))))"

fun run_step :: "step \<Rightarrow> reqid \<Rightarrow> servctx \<Rightarrow> servctx res" where
  "run_step StepCall1 = stepCall1"
| "run_step StepCall2 = stepCall2"
| "run_step StepGetFunc1 = stepGetFunc1"
| "run_step StepFreeRef1 = stepFreeRef1"
| "run_step StepClose1 = stepClose1"
| "run_step StepGetInfo1 = stepGetInfo1"
| "run_step StepPoll1 = stepPoll1"
| "run_step StepPoll2 = stepPoll2"
| "run_step StepPoll3 = stepPoll3"
| "run_step FinishRequest = finishRequest"

section \<open>The receive loop and the interface of the library\<close>

definition server_step1 :: "servctx \<Rightarrow> servctx res" where
  "server_step1 s =
     bindR (ctx_alive s) (\<lambda>s.
     if sv_closed s then Inr s else Inr (emit AReceive (s\<lparr>sv_wait_recv := True\<rparr>)))"

text \<open>\<open>b\<close> is the buffer the io put into \<open>recvBuf\<close>; it is not looked at when the receive failed.\<close>

definition server_step2 :: "nat \<Rightarrow> servctx \<Rightarrow> servctx res" where
  "server_step2 b s =
     bindR (ctx_alive s) (\<lambda>s.
     if sv_closed s then Inr s
     else if sv_receive_error s \<noteq> None
     then server_close (s\<lparr>sv_last_error := sv_receive_error s\<rparr>)
     else
       bindR (buf_read (Some b, 0) 0 4 s) (\<lambda>session.
       bindR (newRequest (un_le session) (s\<lparr>sv_last_error := None\<rparr>)) (\<lambda>(rid, s).
       bindR (buf_read (Some b, 0) 4 4 s) (\<lambda>index.
       bindR (get_req rid s) (\<lambda>r.
       let r = prepareRequest (r\<lparr>rq_callable_index := un_le index, rq_param_base := (Some b, 8),
                 rq_param_len := of_nat (length (the (sv_bufs s b))) - 8\<rparr>);
           s = put_req rid r (s\<lparr>sv_in_step2 := True\<rparr>)
       in case rq_next_step r of None \<Rightarrow> Inl NullDeref | Some st \<Rightarrow> run_step st rid s)))))"

definition server_step2_return :: "servctx \<Rightarrow> servctx res" where
  "server_step2_return s = server_step1 (s\<lparr>sv_in_step2 := False\<rparr>)"

text \<open>A new context; function map and \<open>on_closed\<close> are the exports its creator sets before the start.\<close>

definition server_new :: "(bytes \<Rightarrow> addr option) option \<Rightarrow> bool \<Rightarrow> servctx" where
  "server_new fm oc =
     \<lparr>sv_pool = pool_new, sv_closed = False, sv_last_error = None, sv_funcmap = fm, sv_on_closed = oc,
      sv_refCount = 1, sv_freed = False, sv_receive_error = None, sv_send_error = None,
      sv_bufs = (\<lambda>_. None), sv_reqs = (\<lambda>_. None), sv_next_req = 0, sv_wait = (\<lambda>_. None),
      sv_wait_recv = False, sv_in_step2 = False, sv_owned = True, sv_log = []\<rparr>"

definition server_start :: "servctx \<Rightarrow> servctx res" where
  "server_start s =
     bindR (ctx_alive s) (\<lambda>s.
     server_step1 (s\<lparr>sv_pool := (sv_pool s)\<lparr>ref_pool_size := 0, slots := []\<rparr>, sv_closed := False\<rparr>))"

text \<open>\<open>sv_owned\<close>: the owner's variable \<open>*server_context\<close> is not yet null.\<close>

definition server_delete :: "servctx \<Rightarrow> servctx res" where
  "server_delete s =
     (if \<not> sv_owned s then Inr s
      else bindR (server_close s) (\<lambda>s. refCount_add (-1) (s\<lparr>sv_owned := False\<rparr>)))"

section \<open>Runs\<close>

text \<open>
  What the surroundings do: the io completes a receive or a send, the call of \<open>step2\<close>'s handler
  returns, a callable stores its result in the request and calls \<open>next_step\<close> (taking the parameter
  buffer over if it set \<open>parameter.base\<close> to null), and the owner closes or deletes the context.
\<close>

record completion =
  cp_result :: "bytes \<times> bytes list"
  cp_rejected :: bool
  cp_on_finish :: "nat option"
  cp_takes_param :: bool

datatype event =
    EReceived nat bytes | EReceiveFailed string | EReturn
  | ESent reqid "string option" | ENextStep reqid completion | EClose | EDelete

definition complete_request :: "completion \<Rightarrow> request \<Rightarrow> request" where
  "complete_request c r =
     r\<lparr>rq_result := cp_result c, rq_rejected := cp_rejected c, rq_on_finish := cp_on_finish c,
       rq_param_base := (if cp_takes_param c then null_ptr else rq_param_base r)\<rparr>"

definition take_param :: "completion \<Rightarrow> request \<Rightarrow> servctx \<Rightarrow> servctx" where
  "take_param c r s =
     (case fst (rq_param_base r) of
        Some b \<Rightarrow> if cp_takes_param c then s\<lparr>sv_bufs := (sv_bufs s)(b := None)\<rparr> else s
      | None \<Rightarrow> s)"

text \<open>The contract of the surroundings: only what was asked for completes, and once.\<close>

fun enabled :: "event \<Rightarrow> servctx \<Rightarrow> bool" where
  "enabled (EReceived b m) s = (sv_wait_recv s \<and> sv_bufs s b = None)"
| "enabled (EReceiveFailed e) s = sv_wait_recv s"
| "enabled EReturn s = sv_in_step2 s"
| "enabled (ESent rid e) s =
     (case sv_wait s rid of Some (WaitSend st) \<Rightarrow> True | _ \<Rightarrow> False)"
| "enabled (ENextStep rid c) s = (sv_wait s rid = Some WaitCall)"
| "enabled EClose s = sv_owned s"
| "enabled EDelete s = sv_owned s"

fun serv_event :: "event \<Rightarrow> servctx \<Rightarrow> servctx res" where
  "serv_event (EReceived b m) s =
     server_step2 b (s\<lparr>sv_wait_recv := False, sv_receive_error := None,
                       sv_bufs := (sv_bufs s)(b \<mapsto> m)\<rparr>)"
| "serv_event (EReceiveFailed e) s =
     server_step2 0 (s\<lparr>sv_wait_recv := False, sv_receive_error := Some e\<rparr>)"
| "serv_event EReturn s = server_step2_return s"
| "serv_event (ESent rid e) s =
     (case sv_wait s rid of
        Some (WaitSend st) \<Rightarrow>
          run_step st rid (s\<lparr>sv_wait := (sv_wait s)(rid := None), sv_send_error := e\<rparr>)
      | _ \<Rightarrow> Inr s)"
| "serv_event (ENextStep rid c) s =
     bindR (get_req rid s) (\<lambda>r.
     case rq_next_step r of
       None \<Rightarrow> Inl NullDeref
     | Some st \<Rightarrow>
         run_step st rid
           (put_req rid (complete_request c r)
             (take_param c r (s\<lparr>sv_wait := (sv_wait s)(rid := None)\<rparr>))))"
| "serv_event EClose s = server_close s"
| "serv_event EDelete s = server_delete s"

inductive serv_step :: "servctx \<Rightarrow> event \<Rightarrow> servctx \<Rightarrow> bool" where
  "enabled e s \<Longrightarrow> serv_event e s = Inr s' \<Longrightarrow> serv_step s e s'"

inductive_cases serv_stepE: "serv_step s e s'"

inductive serv_reach :: "servctx \<Rightarrow> bool" where
  start: "server_start (server_new fm oc) = Inr s \<Longrightarrow> serv_reach s"
| step: "serv_reach s \<Longrightarrow> serv_step s e s' \<Longrightarrow> serv_reach s'"

section \<open>Evaluation lemmas\<close>

named_theorems serv_defs \<open>definitions of the accessors of context and requests\<close>

lemmas [serv_defs] = emit_def put_req_def ctx_alive_def get_req_def

lemma get_req_Inr [simp]:
  "get_req rid s = Inr r \<longleftrightarrow> sv_reqs s rid = Some r \<and> \<not> sv_freed s"
  by (auto simp: serv_defs split: option.splits)

lemma ctx_alive_Inr [simp]: "ctx_alive s = Inr t \<longleftrightarrow> t = s \<and> \<not> sv_freed s"
  by (auto simp: serv_defs)

text \<open>
  What a run of a handler may change, field by field.  \<open>core s\<close> are the fields the life-time
  invariant is about.
\<close>

definition serv_wf :: "reqid set \<Rightarrow> servctx \<Rightarrow> bool" where
  "serv_wf X s \<longleftrightarrow>
     finite (dom (sv_reqs s)) \<and> dom (sv_reqs s) \<subseteq> {..<sv_next_req s}
   \<and> sv_refCount s = of_nat (card (dom (sv_reqs s)) + (if sv_owned s then 1 else 0))
   \<and> (sv_freed s \<longleftrightarrow> sv_refCount s = 0)
   \<and> dom (sv_wait s) \<subseteq> dom (sv_reqs s) - X
   \<and> (\<not> sv_closed s \<longrightarrow> dom (sv_wait s) = dom (sv_reqs s) - X)"

lemma serv_wf_start:
  assumes "server_start (server_new fm oc) = Inr s"
  shows "serv_wf {} s"
  using assms
  by (auto simp: server_start_def server_new_def server_step1_def serv_wf_def emit_def ctx_alive_def)

lemma server_close_cases:
  assumes "server_close s = Inr s'"
  shows "\<not> sv_freed s \<and> (if sv_closed s then s' = s
           else \<exists>p l. drop_all_objects (sv_pool s) = Inr p
                  \<and> s' = s\<lparr>sv_closed := True, sv_pool := p, sv_log := sv_log s @ AIoClose # l\<rparr>)"
proof (cases "sv_closed s")
  case True
  with assms show ?thesis by (auto simp: server_close_def)
next
  case False
  with assms obtain p where p: "\<not> sv_freed s" "drop_all_objects (sv_pool s) = Inr p"
    and s': "s' = (let t = emit AIoClose (s\<lparr>sv_closed := True, sv_pool := p\<rparr>)
                   in if sv_on_closed t then emit AOnClosed t else t)"
    unfolding server_close_def by (simp add: Let_def) blast
  have "s' = s\<lparr>sv_closed := True, sv_pool := p,
               sv_log := sv_log s @ AIoClose # (if sv_on_closed s then [AOnClosed] else [])\<rparr>"
    unfolding s' emit_def Let_def by simp
  with p False show ?thesis by auto
qed

text \<open>The invariant looks at these fields only.\<close>

definition wf_fields where
  "wf_fields s = (dom (sv_reqs s), sv_next_req s, sv_refCount s, sv_freed s, sv_owned s, dom (sv_wait s))"

lemma serv_wf_cong:
  "wf_fields s' = wf_fields s \<Longrightarrow> sv_closed s' = sv_closed s \<Longrightarrow> serv_wf X s' = serv_wf X s"
  unfolding serv_wf_def wf_fields_def by (simp add: domIff)

lemma serv_wf_close_mono:
  "wf_fields s' = wf_fields s \<Longrightarrow> (\<not> sv_closed s' \<Longrightarrow> \<not> sv_closed s) \<Longrightarrow> serv_wf X s \<Longrightarrow> serv_wf X s'"
  unfolding serv_wf_def wf_fields_def by auto

lemma server_close_fields:
  "server_close s = Inr s' \<Longrightarrow> wf_fields s' = wf_fields s \<and> sv_closed s' \<and> \<not> sv_freed s'
     \<and> sv_reqs s' = sv_reqs s \<and> sv_bufs s' = sv_bufs s \<and> sv_wait s' = sv_wait s"
  by (drule server_close_cases) (cases "sv_closed s"; clarsimp simp: wf_fields_def)

lemma close_on_send_error_fields:
  "close_on_send_error s = Inr s' \<Longrightarrow> wf_fields s' = wf_fields s \<and> (sv_closed s \<longrightarrow> sv_closed s')
     \<and> \<not> sv_freed s' \<and> sv_reqs s' = sv_reqs s \<and> sv_bufs s' = sv_bufs s \<and> sv_wait s' = sv_wait s"
  by (auto simp: close_on_send_error_def wf_fields_def dest!: server_close_fields split: if_splits)

lemma wf_fields_put_req [simp]:
  "rid \<in> dom (sv_reqs s) \<Longrightarrow> wf_fields (put_req rid r s) = wf_fields s"
  by (auto simp: wf_fields_def put_req_def)

lemma put_req_sel [simp]:
  "sv_closed (put_req rid r s) = sv_closed s" "sv_freed (put_req rid r s) = sv_freed s"
  "sv_reqs (put_req rid r s) = (sv_reqs s)(rid \<mapsto> r)" "sv_wait (put_req rid r s) = sv_wait s"
  "sv_bufs (put_req rid r s) = sv_bufs s" "sv_pool (put_req rid r s) = sv_pool s"
  "sv_log (put_req rid r s) = sv_log s" "sv_owned (put_req rid r s) = sv_owned s"
  "sv_send_error (put_req rid r s) = sv_send_error s"
  by (simp_all add: put_req_def)

lemma emit_sel [simp]:
  "sv_closed (emit a s) = sv_closed s" "sv_freed (emit a s) = sv_freed s"
  "sv_reqs (emit a s) = sv_reqs s" "sv_wait (emit a s) = sv_wait s"
  "sv_bufs (emit a s) = sv_bufs s" "sv_pool (emit a s) = sv_pool s"
  "sv_log (emit a s) = sv_log s @ [a]" "sv_owned (emit a s) = sv_owned s"
  "sv_send_error (emit a s) = sv_send_error s" "wf_fields (emit a s) = wf_fields s"
  by (simp_all add: emit_def wf_fields_def)

lemma free_param_fields:
  "free_param p s = Inr s' \<Longrightarrow> wf_fields s' = wf_fields s \<and> sv_closed s' = sv_closed s
     \<and> sv_reqs s' = sv_reqs s \<and> sv_wait s' = sv_wait s"
  by (auto simp: free_param_def wf_fields_def emit_def split: if_splits prod.splits option.splits)

lemma call_on_finish_sel [simp]:
  "wf_fields (call_on_finish rid r s) = wf_fields s"
  "sv_closed (call_on_finish rid r s) = sv_closed s" "sv_freed (call_on_finish rid r s) = sv_freed s"
  "sv_reqs (call_on_finish rid r s) = sv_reqs s" "sv_wait (call_on_finish rid r s) = sv_wait s"
  "sv_bufs (call_on_finish rid r s) = sv_bufs s" "sv_pool (call_on_finish rid r s) = sv_pool s"
  by (simp_all add: call_on_finish_def split: option.splits)

lemma refCount_add_fields:
  assumes "refCount_add k s = Inr s'"
  shows "\<not> sv_freed s" and "sv_refCount s' = sv_refCount s + k"
    and "sv_freed s' \<longleftrightarrow> sv_refCount s' = 0"
    and "sv_reqs s' = sv_reqs s" "sv_wait s' = sv_wait s" "sv_owned s' = sv_owned s"
    and "sv_next_req s' = sv_next_req s" "sv_closed s' = sv_closed s" "sv_bufs s' = sv_bufs s"
proof -
  define t where "t = s\<lparr>sv_refCount := sv_refCount s + k\<rparr>"
  from assms have alive: "\<not> sv_freed s"
    and s': "s' = (if sv_refCount t = 0 then emit AFreeCtx (t\<lparr>sv_freed := True\<rparr>) else t)"
    unfolding refCount_add_def Let_def t_def by auto
  show "\<not> sv_freed s" by (rule alive)
  show "sv_refCount s' = sv_refCount s + k" "sv_freed s' \<longleftrightarrow> sv_refCount s' = 0"
    "sv_reqs s' = sv_reqs s" "sv_wait s' = sv_wait s" "sv_owned s' = sv_owned s"
    "sv_next_req s' = sv_next_req s" "sv_closed s' = sv_closed s" "sv_bufs s' = sv_bufs s"
    using alive unfolding s' by (simp_all add: t_def emit_def)
qed

lemma finishRequest_wf:
  assumes fin: "finishRequest rid s = Inr s'" and wf: "serv_wf {rid} s"
  shows "serv_wf {} s'"
proof -
  from fin obtain r t u v where r: "sv_reqs s rid = Some r" "\<not> sv_freed s"
    and t: "close_on_send_error s = Inr t"
    and u: "free_param (rq_param_base r) (call_on_finish rid r t) = Inr u"
    and v: "refCount_add (-1) u = Inr v" and s': "s' = v\<lparr>sv_reqs := (sv_reqs v)(rid := None)\<rparr>"
    unfolding finishRequest_def by auto
  note v' = refCount_add_fields [OF v]
  have u_eq: "wf_fields u = wf_fields s" "sv_closed s \<Longrightarrow> sv_closed u"
    using close_on_send_error_fields [OF t] free_param_fields [OF u] by simp_all
  then have wfu: "serv_wf {rid} u" using wf serv_wf_close_mono [of u s] by blast
  have rid: "rid \<in> dom (sv_reqs u)" using u_eq(1) r(1) by (auto simp: wf_fields_def)
  have card: "card (dom (sv_reqs u)) = Suc (card (dom (sv_reqs u) - {rid}))"
    using wfu rid by (intro card.remove) (simp_all add: serv_wf_def)
  have dom: "dom ((sv_reqs u)(rid := None)) = dom (sv_reqs u) - {rid}" by simp
  have fin: "finite (dom (sv_reqs u) - {rid})" "dom (sv_reqs u) - {rid} \<subseteq> {..<sv_next_req u}"
    using wfu by (auto simp: serv_wf_def)
  have rc: "sv_refCount v = of_nat (card (dom (sv_reqs u) - {rid}) + (if sv_owned u then 1 else 0))"
    using wfu card v'(2) by (simp add: serv_wf_def)
  show ?thesis
    unfolding s' serv_wf_def using fin rc v' wfu dom by (simp add: serv_wf_def)
qed

lemma serv_wf_put_req:
  "rid \<in> dom (sv_reqs s) \<Longrightarrow> serv_wf X s \<Longrightarrow> serv_wf X (put_req rid r s)"
  by (rule serv_wf_close_mono [of _ s]) simp_all

lemma serv_wf_wait:
  assumes "serv_wf {rid} s" and "rid \<in> dom (sv_reqs s)"
  shows "serv_wf {} (s\<lparr>sv_wait := (sv_wait s)(rid \<mapsto> w)\<rparr>)"
  using assms by (auto simp: serv_wf_def)

lemma serv_wf_emit [simp]: "serv_wf X (emit a s) = serv_wf X s"
  by (rule serv_wf_cong) simp_all

lemma serv_wf_closed_weaken: "serv_wf {rid} s \<Longrightarrow> sv_closed s \<Longrightarrow> serv_wf {} s"
  by (auto simp: serv_wf_def)

lemma writeResult_wf:
  assumes w: "writeResult rid s = Inr s'" and wf: "serv_wf {rid} s"
  shows "serv_wf {} s'"
proof -
  from w obtain r where r: "sv_reqs s rid = Some r" by (auto simp: writeResult_def)
  define r' where "r' = (if rq_rejected r then r\<lparr>rq_session := rq_session r XOR 0x80000000\<rparr> else r)"
  define t where "t = put_req rid r' s"
  have t: "serv_wf {rid} t" "rid \<in> dom (sv_reqs t)"
    using serv_wf_put_req [OF _ wf] r by (auto simp: t_def)
  show ?thesis
  proof (cases "sv_closed s")
    case True
    then have "s' = t" using w r by (auto simp: writeResult_def Let_def t_def r'_def)
    with t True show ?thesis by (simp add: serv_wf_closed_weaken t_def)
  next
    case False
    with w r obtain st where
      "s' = emit (ASend rid (le32 (rq_session r') @ result_parts r'))
              (t\<lparr>sv_wait := (sv_wait t)(rid \<mapsto> WaitSend st)\<rparr>)"
      unfolding writeResult_def Let_def t_def r'_def by (auto split: option.splits)
    with serv_wf_wait [OF t] show ?thesis by simp
  qed
qed

lemma stepCall2_wf:
  assumes st: "stepCall2 rid s = Inr s'" and wf: "serv_wf {rid} s"
  shows "serv_wf {} s'"
proof -
  from st obtain r where r: "sv_reqs s rid = Some r"
    and d: "(if rq_session r \<noteq> 0xffffffff
             then writeResult rid (put_req rid (r\<lparr>rq_next_step := Some FinishRequest\<rparr>) s)
             else finishRequest rid s) = Inr s'"
    by (auto simp: stepCall2_def)
  have "serv_wf {rid} (put_req rid (r\<lparr>rq_next_step := Some FinishRequest\<rparr>) s)"
    using r wf by (intro serv_wf_put_req) auto
  with d wf show ?thesis by (auto split: if_splits intro: writeResult_wf finishRequest_wf)
qed

lemma call_slot_wf:
  assumes c: "call_slot idx st rid s = Inr s'" and wf: "serv_wf {rid} s"
  shows "serv_wf {} s'"
proof -
  from c obtain r a where r: "sv_reqs s rid = Some r"
    and s': "s' = emit (ACall a rid) (put_req rid (r\<lparr>rq_next_step := Some st\<rparr>)
              (s\<lparr>sv_wait := (sv_wait s)(rid \<mapsto> WaitCall)\<rparr>))"
    by (auto simp: call_slot_def split: if_splits option.splits)
  have "serv_wf {} (s\<lparr>sv_wait := (sv_wait s)(rid \<mapsto> WaitCall)\<rparr>)"
    using wf r by (intro serv_wf_wait) auto
  then show ?thesis unfolding s' using r by (auto intro: serv_wf_put_req)
qed

lemma serv_wf_pool [simp]: "serv_wf X (s\<lparr>sv_pool := q\<rparr>) = serv_wf X s"
  by (rule serv_wf_cong) (simp_all add: wf_fields_def)

lemma free_index_at_wf: "free_index_at p i s = Inr s' \<Longrightarrow> serv_wf X s \<Longrightarrow> serv_wf X s'"
  by (auto simp: free_index_at_def)

lemma lookup_func_wf:
  "lookup_func r s = Inr (res, s') \<Longrightarrow> serv_wf X s \<Longrightarrow> serv_wf X s' \<and> sv_reqs s' = sv_reqs s"
  by (auto simp: lookup_func_def split: option.splits)

lemma run_step_wf:
  assumes "run_step st rid s = Inr s'" and wf: "serv_wf {rid} s"
  shows "serv_wf {} s'"
proof (cases st)
  case StepCall1
  with assms show ?thesis by (auto simp: stepCall1_def intro: call_slot_wf)
next
  case StepCall2
  with assms show ?thesis by (auto intro: stepCall2_wf)
next
  case StepGetFunc1
  with assms obtain r res t where r: "sv_reqs s rid = Some r" and t: "lookup_func r s = Inr (res, t)"
    and s': "stepCall2 rid (put_req rid (r\<lparr>rq_getFuncRes := res, rq_result := (le32 res, snd (rq_result r))\<rparr>) t) = Inr s'"
    by (auto simp: stepGetFunc1_def)
  from lookup_func_wf [OF t wf] r show ?thesis
    by (intro stepCall2_wf [OF s'] serv_wf_put_req) auto
next
  case StepFreeRef1
  with assms obtain r t where "sv_reqs s rid = Some r"
    and t: "foldR (free_index_at (rq_param_base r)) (free_offsets (rq_param_len r)) s = Inr t"
    and s': "stepCall2 rid t = Inr s'"
    by (auto simp: stepFreeRef1_def)
  have "serv_wf {rid} t" by (rule foldR_inv [OF t, where P = "serv_wf {rid}"]) (use wf in \<open>auto intro: free_index_at_wf\<close>)
  with s' show ?thesis by (rule stepCall2_wf)
next
  case StepClose1
  with assms have c: "server_close s = Inr s'" by (auto simp: stepClose1_def)
  note server_close_fields [OF c]
  then show ?thesis
    using serv_wf_close_mono [of s' s "{rid}"] wf by (blast intro: serv_wf_closed_weaken)
next
  case StepGetInfo1
  with assms show ?thesis
    by (auto simp: stepGetInfo1_def intro!: stepCall2_wf serv_wf_put_req)
next
  case StepPoll1
  with assms obtain r t i where r: "sv_reqs s rid = Some r"
    and c: "call_slot i StepPoll2 rid (put_req rid t s) = Inr s'"
    by (auto simp: stepPoll1_def Let_def)
  have "serv_wf {rid} (put_req rid t s)" using r wf by (intro serv_wf_put_req) auto
  with c show ?thesis by (rule call_slot_wf)
next
  case StepPoll2
  with assms obtain r where r: "sv_reqs s rid = Some r"
    and c: "writeResult rid (put_req rid (r\<lparr>rq_next_step := Some StepPoll3\<rparr>) s) = Inr s'"
    by (auto simp: stepPoll2_def)
  have "serv_wf {rid} (put_req rid (r\<lparr>rq_next_step := Some StepPoll3\<rparr>) s)"
    using r wf by (intro serv_wf_put_req) auto
  with c show ?thesis by (rule writeResult_wf)
next
  case StepPoll3
  with assms(1) obtain r t where r: "sv_reqs s rid = Some r" and t: "close_on_send_error s = Inr t"
    and d: "(if rq_rejected r \<or> sv_closed t then finishRequest rid (put_req rid (r\<lparr>rq_callable_index := -5,
            rq_param_base := ptr_add (rq_param_base r) (-4), rq_param_len := rq_param_len r + 4\<rparr>) t)
          else call_slot (sint (rq_callable_index r)) StepPoll2 rid
            (put_req rid (prepareRequest r) (call_on_finish rid r t))) = Inr s'"
    by (auto simp: stepPoll3_def)
  have wt: "serv_wf {rid} t" and rt: "rid \<in> dom (sv_reqs t)"
    using close_on_send_error_fields [OF t] serv_wf_close_mono [of t s] wf r by auto
  then have "serv_wf {rid} (call_on_finish rid r t)"
    using serv_wf_cong [of "call_on_finish rid r t" t] by simp
  with d wt rt show ?thesis
    by (auto split: if_splits intro!: serv_wf_put_req elim!: finishRequest_wf call_slot_wf)
next
  case FinishRequest
  with assms show ?thesis by (auto intro: finishRequest_wf)
qed

lemma newRequest_wf:
  assumes n: "newRequest session s = Inr (rid, t)" and wf: "serv_wf {} s"
  shows "serv_wf {rid} t" and "rid \<in> dom (sv_reqs t)"
proof -
  define u where "u = put_req (sv_next_req s) (zero_request\<lparr>rq_session := session\<rparr>)
                        (s\<lparr>sv_next_req := sv_next_req s + 1\<rparr>)"
  from n have rid: "rid = sv_next_req s" and v: "refCount_add 1 u = Inr t"
    by (auto simp: newRequest_def Let_def u_def)
  note t = refCount_add_fields [OF v]
  have fresh: "rid \<notin> dom (sv_reqs s)" "dom (sv_reqs u) = insert rid (dom (sv_reqs s))"
    using wf rid by (auto simp: serv_wf_def u_def)
  then have card: "card (dom (sv_reqs u)) = Suc (card (dom (sv_reqs s)))"
    using wf by (simp add: serv_wf_def)
  have rc: "sv_refCount t = of_nat (card (dom (sv_reqs t)) + (if sv_owned t then 1 else 0))"
    using t wf card by (simp add: serv_wf_def u_def put_req_def)
  show "rid \<in> dom (sv_reqs t)" using fresh t by simp
  have "sv_next_req t = Suc rid" "sv_wait t = sv_wait s" "sv_closed t = sv_closed s"
    using t by (simp_all add: u_def put_req_def rid)
  moreover have "dom (sv_reqs t) = insert rid (dom (sv_reqs s))" using t fresh by simp
  ultimately show "serv_wf {rid} t"
    unfolding serv_wf_def using rc t(3) wf fresh(1) rid by (auto simp: serv_wf_def)
qed

lemma serv_wf_recv [simp]:
  "serv_wf X (s\<lparr>sv_wait_recv := a, sv_receive_error := e, sv_bufs := b\<rparr>) = serv_wf X s"
  "serv_wf X (s\<lparr>sv_wait_recv := a, sv_receive_error := e\<rparr>) = serv_wf X s"
  "serv_wf X (s\<lparr>sv_last_error := e\<rparr>) = serv_wf X s"
  "serv_wf X (s\<lparr>sv_in_step2 := a\<rparr>) = serv_wf X s"
  "serv_wf X (s\<lparr>sv_wait_recv := a\<rparr>) = serv_wf X s"
  "serv_wf X (s\<lparr>sv_bufs := b\<rparr>) = serv_wf X s"
  by (rule serv_wf_cong; simp add: wf_fields_def)+

lemma server_close_wf:
  assumes "server_close s = Inr s'" and "serv_wf X s"
  shows "serv_wf X s'"
  using server_close_fields [OF assms(1)] serv_wf_close_mono [of s' s X] assms(2) by blast

lemma server_step1_wf: "server_step1 s = Inr s' \<Longrightarrow> serv_wf X s \<Longrightarrow> serv_wf X s'"
  by (auto simp: server_step1_def split: if_splits)

lemma server_step2_wf:
  assumes st: "server_step2 b s = Inr s'" and wf: "serv_wf {} s"
  shows "serv_wf {} s'"
proof (cases "sv_closed s \<or> sv_receive_error s \<noteq> None")
  case True
  with st have "s' = s \<or> server_close (s\<lparr>sv_last_error := sv_receive_error s\<rparr>) = Inr s'"
    by (auto simp: server_step2_def split: if_splits)
  with wf show ?thesis by (auto intro: server_close_wf)
next
  case False
  with st obtain session rid t r r' st' where
    n: "newRequest session (s\<lparr>sv_last_error := None\<rparr>) = Inr (rid, t)"
    and run: "run_step st' rid (put_req rid r' (t\<lparr>sv_in_step2 := True\<rparr>)) = Inr s'"
    by (auto simp: server_step2_def Let_def split: option.splits)
  from newRequest_wf [OF n] wf have t: "serv_wf {rid} t" "rid \<in> dom (sv_reqs t)" by auto
  have "serv_wf {rid} (put_req rid r' (t\<lparr>sv_in_step2 := True\<rparr>))"
    using t by (intro serv_wf_put_req) auto
  with run show ?thesis by (rule run_step_wf)
qed

lemma serv_wf_unwait:
  "serv_wf {} s \<Longrightarrow> sv_wait s rid \<noteq> None \<Longrightarrow> serv_wf {rid} (s\<lparr>sv_wait := (sv_wait s)(rid := None)\<rparr>)
     \<and> rid \<in> dom (sv_reqs s)"
  by (auto simp: serv_wf_def)

lemma server_delete_wf:
  assumes d: "server_delete s = Inr s'" and wf: "serv_wf {} s" and own: "sv_owned s"
  shows "serv_wf {} s'"
proof -
  from d own obtain t where t: "server_close s = Inr t"
    and v: "refCount_add (-1) (t\<lparr>sv_owned := False\<rparr>) = Inr s'"
    by (auto simp: server_delete_def)
  have wt: "serv_wf {} t" "sv_owned t" "sv_closed t"
    using server_close_wf [OF t wf] server_close_fields [OF t] own by (auto simp: wf_fields_def)
  have "sv_refCount s' = of_nat (card (dom (sv_reqs t)))"
    using refCount_add_fields(2) [OF v] wt by (simp add: serv_wf_def)
  with refCount_add_fields [OF v] wt show ?thesis
    by (simp add: serv_wf_def)
qed

lemma serv_event_wf:
  assumes en: "enabled e s" and ev: "serv_event e s = Inr s'" and wf: "serv_wf {} s"
  shows "serv_wf {} s'"
proof (cases e)
  case (ESent rid err)
  with en obtain st where w: "sv_wait s rid = Some (WaitSend st)"
    by (auto split: option.splits awaited.splits)
  let ?t = "s\<lparr>sv_wait := (sv_wait s)(rid := None), sv_send_error := err\<rparr>"
  have "serv_wf {rid} (s\<lparr>sv_wait := (sv_wait s)(rid := None)\<rparr>)"
    using serv_wf_unwait [OF wf] w by simp
  then have "serv_wf {rid} ?t"
    by (rule serv_wf_close_mono [rotated 2]) (simp_all add: wf_fields_def)
  moreover from ev w ESent have "run_step st rid ?t = Inr s'" by simp
  ultimately show ?thesis by (blast intro: run_step_wf)
next
  case (ENextStep rid c)
  let ?t = "s\<lparr>sv_wait := (sv_wait s)(rid := None)\<rparr>"
  from en ENextStep have t: "serv_wf {rid} ?t" "rid \<in> dom (sv_reqs s)"
    using serv_wf_unwait [OF wf] by auto
  from ev ENextStep obtain r st where
    run: "run_step st rid (put_req rid (complete_request c r) (take_param c r ?t)) = Inr s'"
    by (auto split: option.splits)
  have tp: "serv_wf {rid} (take_param c r ?t)" "sv_reqs (take_param c r ?t) = sv_reqs s"
    using t by (auto simp: take_param_def split: option.splits)
  then have "serv_wf {rid} (put_req rid (complete_request c r) (take_param c r ?t))"
    using t(2) by (intro serv_wf_put_req) auto
  with run show ?thesis by (rule run_step_wf)
next
  case EDelete
  with assms show ?thesis by (auto intro: server_delete_wf)
next
  case EClose
  with assms show ?thesis by (auto intro: server_close_wf)
next
  case EReturn
  with assms show ?thesis by (auto simp: server_step2_return_def intro: server_step1_wf)
next
  case (EReceived b m)
  with assms show ?thesis by (auto intro: server_step2_wf)
next
  case (EReceiveFailed err)
  with assms show ?thesis by (auto intro: server_step2_wf)
qed

lemma serv_reach_wf: "serv_reach s \<Longrightarrow> serv_wf {} s"
proof (induction rule: serv_reach.induct)
  case (start fm oc s)
  then show ?case by (rule serv_wf_start)
next
  case (step s e s')
  then show ?case by (auto elim!: serv_stepE intro: serv_event_wf)
qed

end
