(* ===== verification/ServerMemory.thy ===== *)
theory ServerMemory
  imports Server
begin

text \<open>
  Receive buffers and parameter pointers of \<open>c/pxprpc/server.c\<close>: which step can follow which, where
  the parameter pointer of a waiting request points, and that \<open>io->buf_free\<close> is called with the
  start of a live buffer, except in the one situation characterised by \<open>bad_free_only_poll\<close>.
\<close>

section \<open>What a waiting request looks like\<close>

definition base_ok :: "int \<Rightarrow> request \<Rightarrow> servctx \<Rightarrow> bool" where
  "base_ok k r s \<longleftrightarrow>
     rq_param_base r = null_ptr \<or> (\<exists>b. rq_param_base r = (Some b, k) \<and> sv_bufs s b \<noteq> None)"

fun wait_ok :: "awaited \<Rightarrow> request \<Rightarrow> servctx \<Rightarrow> bool" where
  "wait_ok WaitCall r s =
     (rq_next_step r = Some StepCall2 \<and> base_ok 8 r s \<or> rq_next_step r = Some StepPoll2 \<and> base_ok 12 r s)"
| "wait_ok (WaitSend FinishRequest) r s = base_ok 8 r s"
| "wait_ok (WaitSend StepPoll3) r s = base_ok 12 r s"
| "wait_ok (WaitSend _) r s = False"

definition holds_buf :: "reqid \<Rightarrow> nat \<Rightarrow> servctx \<Rightarrow> bool" where
  "holds_buf rid b s \<longleftrightarrow>
     sv_wait s rid \<noteq> None \<and> (\<exists>r. sv_reqs s rid = Some r \<and> fst (rq_param_base r) = Some b)"

definition waiting_ok :: "servctx \<Rightarrow> bool" where
  "waiting_ok s \<longleftrightarrow>
     (\<forall>rid w r. sv_wait s rid = Some w \<longrightarrow> sv_reqs s rid = Some r \<longrightarrow> wait_ok w r s)
   \<and> (\<forall>rid rid' b. holds_buf rid b s \<longrightarrow> holds_buf rid' b s \<longrightarrow> rid = rid')"

lemma waiting_okD:
  "waiting_ok s \<Longrightarrow> sv_wait s rid = Some w \<Longrightarrow> sv_reqs s rid = Some r \<Longrightarrow> wait_ok w r s"
  unfolding waiting_ok_def by blast

text \<open>The request a handler runs for: not waiting, its buffer held by no other request.\<close>

definition cur_ok :: "int \<Rightarrow> reqid \<Rightarrow> servctx \<Rightarrow> bool" where
  "cur_ok k rid s \<longleftrightarrow>
     sv_wait s rid = None \<and>
     (\<forall>r. sv_reqs s rid = Some r \<longrightarrow> base_ok k r s \<and>
        (\<forall>b rid'. fst (rq_param_base r) = Some b \<longrightarrow> \<not> holds_buf rid' b s))"

definition mem_fields where
  "mem_fields s = (sv_reqs s, sv_wait s, sv_bufs s)"

lemma mem_fields_cong:
  assumes "mem_fields s' = mem_fields s"
  shows "waiting_ok s' = waiting_ok s" and "cur_ok k rid s' = cur_ok k rid s"
    and "base_ok k r s' = base_ok k r s"
proof -
  have eq: "sv_reqs s' = sv_reqs s" "sv_wait s' = sv_wait s" "sv_bufs s' = sv_bufs s"
    using assms by (simp_all add: mem_fields_def)
  then have base: "base_ok k r s' = base_ok k r s" for k r by (simp add: base_ok_def)
  have hold: "holds_buf rid b s' = holds_buf rid b s" for rid b using eq by (simp add: holds_buf_def)
  have "wait_ok w r s' = wait_ok w r s" for w r
    by (cases "(w, r, s)" rule: wait_ok.cases) (simp_all add: base)
  with eq base hold show "waiting_ok s' = waiting_ok s" "cur_ok k rid s' = cur_ok k rid s"
    "base_ok k r s' = base_ok k r s"
    by (simp_all add: waiting_ok_def cur_ok_def)
qed

text \<open>The current request starts to wait.\<close>

lemma waiting_ok_wait:
  assumes "waiting_ok s" and "cur_ok k rid s" and "wait_ok w r s"
    and "fst (rq_param_base r) = None \<or>
         (\<exists>r0. sv_reqs s rid = Some r0 \<and> fst (rq_param_base r0) = fst (rq_param_base r))"
  shows "waiting_ok (s\<lparr>sv_reqs := (sv_reqs s)(rid \<mapsto> r), sv_wait := (sv_wait s)(rid \<mapsto> w)\<rparr>)"
    (is "waiting_ok ?t")
proof -
  have wt: "wait_ok w' r' ?t = wait_ok w' r' s" for w' r'
    by (cases "(w', r', s)" rule: wait_ok.cases) (simp_all add: base_ok_def)
  have other: "holds_buf x b ?t = holds_buf x b s" if "x \<noteq> rid" for x b
    using that by (simp add: holds_buf_def)
  have self: "\<not> holds_buf x b s" if "holds_buf rid b ?t" for x b
    using that assms(2,4) by (auto simp: holds_buf_def [of rid b ?t] cur_ok_def)
  have "\<forall>rid' w' r'. sv_wait ?t rid' = Some w' \<longrightarrow> sv_reqs ?t rid' = Some r' \<longrightarrow> wait_ok w' r' ?t"
    using assms(1,3) wt by (auto simp: waiting_ok_def)
  moreover have "\<forall>x y b. holds_buf x b ?t \<longrightarrow> holds_buf y b ?t \<longrightarrow> x = y"
    using assms(1) other self unfolding waiting_ok_def by metis
  ultimately show ?thesis unfolding waiting_ok_def by blast
qed

lemma waiting_ok_put_idle:
  "waiting_ok s \<Longrightarrow> sv_wait s rid = None \<Longrightarrow> waiting_ok (put_req rid r s)"
proof -
  assume ok: "waiting_ok s" and idle: "sv_wait s rid = None"
  have wt: "wait_ok w r' (put_req rid r s) = wait_ok w r' s" for w r'
    by (cases "(w, r', s)" rule: wait_ok.cases) (simp_all add: base_ok_def)
  have "holds_buf x b (put_req rid r s) = holds_buf x b s" for x b
    using idle by (auto simp: holds_buf_def)
  with ok idle wt show ?thesis by (auto simp: waiting_ok_def)
qed

lemma cur_ok_put:
  assumes "cur_ok k rid s" and "sv_reqs s rid = Some r0"
    and "fst (rq_param_base r) = None \<or> fst (rq_param_base r) = fst (rq_param_base r0)"
    and "base_ok k' r s"
  shows "cur_ok k' rid (put_req rid r s)"
proof -
  have hold: "holds_buf x b (put_req rid r s) \<Longrightarrow> holds_buf x b s" for x b
    using assms(1) by (auto simp: holds_buf_def cur_ok_def split: if_splits)
  have "base_ok k' r (put_req rid r s)" using assms(4) by (simp add: base_ok_def)
  then show ?thesis using assms by (auto simp: cur_ok_def dest!: hold)
qed

text \<open>Freeing the buffer of the current request touches no waiting one.\<close>

lemma waiting_ok_drop_buf:
  assumes "waiting_ok s" and "\<And>rid. \<not> holds_buf rid b s"
  shows "waiting_ok (s\<lparr>sv_bufs := (sv_bufs s)(b := None)\<rparr>)" (is "waiting_ok ?t")
proof -
  have hold: "holds_buf x c ?t = holds_buf x c s" for x c by (simp add: holds_buf_def)
  have "wait_ok w r ?t" if "sv_wait s rid = Some w" "sv_reqs s rid = Some r" for rid w r
  proof -
    have "wait_ok w r s" using assms(1) that by (simp add: waiting_ok_def)
    moreover have "fst (rq_param_base r) \<noteq> Some b"
      using assms(2) [of rid] that by (auto simp: holds_buf_def)
    ultimately show ?thesis
      by (cases "(w, r, s)" rule: wait_ok.cases) (auto simp: base_ok_def)
  qed
  with assms(1) hold show ?thesis by (simp add: waiting_ok_def)
qed

lemma mem_fields_emit [simp]: "mem_fields (emit a s) = mem_fields s"
  by (simp add: mem_fields_def)

lemma mem_fields_close: "server_close s = Inr s' \<Longrightarrow> mem_fields s' = mem_fields s"
  by (drule server_close_fields) (simp add: mem_fields_def)

lemma mem_fields_close_on_send_error: "close_on_send_error s = Inr s' \<Longrightarrow> mem_fields s' = mem_fields s"
  by (drule close_on_send_error_fields) (simp add: mem_fields_def)

lemma mem_fields_refCount: "refCount_add k s = Inr s' \<Longrightarrow> mem_fields s' = mem_fields s"
  by (simp add: mem_fields_def refCount_add_fields)

lemma mem_fields_on_finish [simp]: "mem_fields (call_on_finish rid r s) = mem_fields s"
  by (simp add: mem_fields_def)

section \<open>Handlers keep it\<close>

lemma base_ok_free_param:
  assumes "base_ok 8 r s"
  shows "\<exists>s'. free_param (rq_param_base r) s = Inr s' \<and>
           (mem_fields s' = mem_fields s \<or>
            (\<exists>b. fst (rq_param_base r) = Some b \<and>
                 mem_fields s' = mem_fields (s\<lparr>sv_bufs := (sv_bufs s)(b := None)\<rparr>)))"
  using assms
  by (auto simp: base_ok_def free_param_def ptr_add_def null_ptr_def mem_fields_def emit_def)

lemma waiting_ok_remove:
  assumes "waiting_ok s" and "sv_wait s rid = None"
  shows "waiting_ok (s\<lparr>sv_reqs := (sv_reqs s)(rid := None)\<rparr>)" (is "waiting_ok ?t")
proof -
  have wt: "wait_ok w r ?t = wait_ok w r s" for w r
    by (cases "(w, r, s)" rule: wait_ok.cases) (simp_all add: base_ok_def)
  have "holds_buf x b ?t = holds_buf x b s" for x b using assms(2) by (auto simp: holds_buf_def)
  with assms wt show ?thesis by (auto simp: waiting_ok_def)
qed

lemma finishRequest_mem:
  assumes fin: "finishRequest rid s = Inr s'" and ok: "waiting_ok s" "cur_ok 8 rid s"
  shows "waiting_ok s'"
proof -
  from fin obtain r t u v where r: "sv_reqs s rid = Some r"
    and t: "close_on_send_error s = Inr t"
    and u: "free_param (rq_param_base r) (call_on_finish rid r t) = Inr u"
    and v: "refCount_add (-1) u = Inr v" and s': "s' = v\<lparr>sv_reqs := (sv_reqs v)(rid := None)\<rparr>"
    unfolding finishRequest_def by auto
  let ?t = "call_on_finish rid r t"
  have mt: "mem_fields ?t = mem_fields s" using mem_fields_close_on_send_error [OF t] by simp
  note tok = mem_fields_cong [OF mt]
  have "waiting_ok ?t" "cur_ok 8 rid ?t" using ok tok by simp_all
  moreover have "sv_reqs ?t rid = Some r" using mt r by (simp add: mem_fields_def)
  ultimately have base: "base_ok 8 r ?t"
    and free: "\<And>b x. fst (rq_param_base r) = Some b \<Longrightarrow> \<not> holds_buf x b ?t"
    and idle: "sv_wait ?t rid = None"
    by (auto simp: cur_ok_def)
  have "waiting_ok u \<and> sv_wait u rid = None"
    using base_ok_free_param [OF base]
  proof (elim exE conjE disjE)
    fix s1 assume "free_param (rq_param_base r) ?t = Inr s1" and "mem_fields s1 = mem_fields ?t"
    then have m: "mem_fields u = mem_fields ?t" using u by simp
    then have "sv_wait u = sv_wait ?t" by (simp add: mem_fields_def)
    with mem_fields_cong(1) [OF m] \<open>waiting_ok ?t\<close> idle show ?thesis by simp
  next
    fix s1 b assume "free_param (rq_param_base r) ?t = Inr s1" and b: "fst (rq_param_base r) = Some b"
      and "mem_fields s1 = mem_fields (?t\<lparr>sv_bufs := (sv_bufs ?t)(b := None)\<rparr>)"
    then have m: "mem_fields u = mem_fields (?t\<lparr>sv_bufs := (sv_bufs ?t)(b := None)\<rparr>)" using u by simp
    then have "sv_wait u = sv_wait ?t" by (simp add: mem_fields_def)
    with mem_fields_cong(1) [OF m] waiting_ok_drop_buf [OF \<open>waiting_ok ?t\<close> free [OF b]] idle
    show ?thesis by simp
  qed
  then have "waiting_ok v \<and> sv_wait v rid = None"
    using mem_fields_refCount [OF v] mem_fields_cong(1) [of v u] by (simp add: mem_fields_def)
  then show ?thesis unfolding s' by (simp add: waiting_ok_remove)
qed

lemma put_wait_eq:
  "(s\<lparr>sv_wait := (sv_wait s)(rid \<mapsto> w)\<rparr>)\<lparr>sv_reqs := (sv_reqs s)(rid \<mapsto> r)\<rparr>
     = s\<lparr>sv_reqs := (sv_reqs s)(rid \<mapsto> r), sv_wait := (sv_wait s)(rid \<mapsto> w)\<rparr>"
  by simp

lemma writeResult_mem:
  assumes w: "writeResult rid s = Inr s'" and ok: "waiting_ok s" "cur_ok k rid s"
    and nxt: "\<And>r. sv_reqs s rid = Some r \<Longrightarrow>
      rq_next_step r = Some FinishRequest \<and> k = 8 \<or> rq_next_step r = Some StepPoll3 \<and> k = 12"
  shows "waiting_ok s'"
proof -
  from w obtain r where r: "sv_reqs s rid = Some r" by (auto simp: writeResult_def)
  define r' where "r' = (if rq_rejected r then r\<lparr>rq_session := rq_session r XOR 0x80000000\<rparr> else r)"
  have base: "rq_param_base r' = rq_param_base r" "rq_next_step r' = rq_next_step r"
    by (simp_all add: r'_def)
  show ?thesis
  proof (cases "sv_closed s")
    case True
    then have "s' = put_req rid r' s" using w r by (auto simp: writeResult_def Let_def r'_def)
    then show ?thesis using ok waiting_ok_put_idle by (simp add: cur_ok_def)
  next
    case False
    from nxt [OF r] obtain st where st: "rq_next_step r = Some st"
      and sk: "st = FinishRequest \<and> k = 8 \<or> st = StepPoll3 \<and> k = 12" by auto
    have "wait_ok (WaitSend st) r' s"
      using sk ok(2) r base by (auto simp: cur_ok_def base_ok_def)
    then have "waiting_ok (s\<lparr>sv_reqs := (sv_reqs s)(rid \<mapsto> r'), sv_wait := (sv_wait s)(rid \<mapsto> WaitSend st)\<rparr>)"
      using ok r base by (intro waiting_ok_wait) auto
    moreover have "mem_fields s' = mem_fields (s\<lparr>sv_reqs := (sv_reqs s)(rid \<mapsto> r'), sv_wait := (sv_wait s)(rid \<mapsto> WaitSend st)\<rparr>)"
      using w r False st base(2) unfolding writeResult_def Let_def
      by (auto simp: r'_def mem_fields_def)
    ultimately show ?thesis using mem_fields_cong(1) by blast
  qed
qed

lemma stepCall2_mem:
  assumes st: "stepCall2 rid s = Inr s'" and ok: "waiting_ok s" "cur_ok 8 rid s"
  shows "waiting_ok s'"
proof -
  from st obtain r where r: "sv_reqs s rid = Some r"
    and d: "(if rq_session r \<noteq> 0xffffffff
             then writeResult rid (put_req rid (r\<lparr>rq_next_step := Some FinishRequest\<rparr>) s)
             else finishRequest rid s) = Inr s'"
    by (auto simp: stepCall2_def)
  let ?t = "put_req rid (r\<lparr>rq_next_step := Some FinishRequest\<rparr>) s"
  have "waiting_ok ?t" using ok by (intro waiting_ok_put_idle) (auto simp: cur_ok_def)
  moreover have "cur_ok 8 rid ?t"
    using ok r by (intro cur_ok_put [OF ok(2) r]) (auto simp: cur_ok_def base_ok_def)
  ultimately have "waiting_ok s'" if "writeResult rid ?t = Inr s'"
    by (rule writeResult_mem [OF that]) simp
  then show ?thesis using d ok by (auto split: if_splits intro: finishRequest_mem)
qed

lemma call_slot_mem:
  assumes c: "call_slot idx st rid s = Inr s'" and ok: "waiting_ok s" "cur_ok k rid s"
    and k: "st = StepCall2 \<and> k = 8 \<or> st = StepPoll2 \<and> k = 12"
  shows "waiting_ok s'"
proof -
  from c obtain r a where r: "sv_reqs s rid = Some r"
    and s': "s' = emit (ACall a rid) (put_req rid (r\<lparr>rq_next_step := Some st\<rparr>)
              (s\<lparr>sv_wait := (sv_wait s)(rid \<mapsto> WaitCall)\<rparr>))"
    by (auto simp: call_slot_def split: if_splits option.splits)
  let ?r = "r\<lparr>rq_next_step := Some st\<rparr>"
  have "wait_ok WaitCall ?r s" using ok r k by (auto simp: cur_ok_def base_ok_def)
  then have "waiting_ok (s\<lparr>sv_reqs := (sv_reqs s)(rid \<mapsto> ?r), sv_wait := (sv_wait s)(rid \<mapsto> WaitCall)\<rparr>)"
    using ok r by (intro waiting_ok_wait) auto
  then show ?thesis
    unfolding s' using mem_fields_cong(1) [of s' "s\<lparr>sv_reqs := (sv_reqs s)(rid \<mapsto> ?r), sv_wait := (sv_wait s)(rid \<mapsto> WaitCall)\<rparr>"]
    by (simp add: s' mem_fields_def)
qed

fun base_off :: "step \<Rightarrow> int" where
  "base_off StepPoll2 = 12"
| "base_off StepPoll3 = 12"
| "base_off _ = 8"

lemma mem_fields_free_index:
  "foldR (free_index_at p) is s = Inr t \<Longrightarrow> mem_fields t = mem_fields s"
  by (rule foldR_inv [where P = "\<lambda>u. mem_fields u = mem_fields s"])
    (auto simp: free_index_at_def mem_fields_def)

lemma lookup_func_mem: "lookup_func r s = Inr (res, t) \<Longrightarrow> mem_fields t = mem_fields s"
  by (auto simp: lookup_func_def mem_fields_def split: option.splits)

text \<open>The request gets a new result: nothing changes for the buffers.\<close>

lemma cur_ok_put_same:
  assumes "cur_ok k rid s" and "sv_reqs s rid = Some r0" and "rq_param_base r = rq_param_base r0"
  shows "cur_ok k rid (put_req rid r s)"
  using assms by (intro cur_ok_put [OF assms(1,2)]) (auto simp: cur_ok_def base_ok_def)

lemma waiting_ok_put_cur:
  "waiting_ok s \<Longrightarrow> cur_ok k rid s \<Longrightarrow> waiting_ok (put_req rid r s)"
  by (auto simp: cur_ok_def intro: waiting_ok_put_idle)

lemma stepPoll1_mem:
  assumes st: "stepPoll1 rid s = Inr s'" and ok: "waiting_ok s" "cur_ok 8 rid s"
  shows "waiting_ok s'"
proof -
  have prep: "rq_param_base (prepareRequest x) = rq_param_base x" for x :: request
    by (simp add: prepareRequest_def Let_def)
  from st obtain r v where r: "sv_reqs s rid = Some r" and v: "buf_read (rq_param_base r) 0 4 s = Inr v"
    and c: "call_slot (sint (rq_callable_index (prepareRequest (r\<lparr>rq_callable_index := un_le v,
               rq_param_base := ptr_add (rq_param_base r) 4, rq_param_len := rq_param_len r - 4\<rparr>))))
        StepPoll2 rid (put_req rid (prepareRequest (r\<lparr>rq_callable_index := un_le v,
               rq_param_base := ptr_add (rq_param_base r) 4, rq_param_len := rq_param_len r - 4\<rparr>)) s) = Inr s'"
    (is "call_slot ?i _ _ (put_req rid ?t s) = _")
    by (auto simp: stepPoll1_def Let_def)
  obtain b where b: "rq_param_base r = (Some b, 8)" "sv_bufs s b \<noteq> None"
    using v ok(2) r by (auto simp: cur_ok_def base_ok_def buf_read_def null_ptr_def)
  have "cur_ok 12 rid (put_req rid ?t s)"
    by (rule cur_ok_put [OF ok(2) r]) (use b in \<open>auto simp: prep base_ok_def ptr_add_def\<close>)
  then show ?thesis
    by (rule call_slot_mem [OF c waiting_ok_put_cur [OF ok]]) simp
qed

lemma finishRequest_bad_base:
  "sv_reqs s rid = Some r \<Longrightarrow> rq_param_base r = (None, k) \<Longrightarrow> k \<noteq> 0 \<Longrightarrow> finishRequest rid s \<noteq> Inr s'"
  by (auto simp: finishRequest_def free_param_def ptr_add_def null_ptr_def)

lemma stepPoll3_mem:
  assumes st: "stepPoll3 rid s = Inr s'" and ok: "waiting_ok s" "cur_ok 12 rid s"
  shows "waiting_ok s'"
proof -
  from st obtain r t where r: "sv_reqs s rid = Some r" and t: "close_on_send_error s = Inr t"
    and d: "(if rq_rejected r \<or> sv_closed t then finishRequest rid (put_req rid (r\<lparr>rq_callable_index := -5,
            rq_param_base := ptr_add (rq_param_base r) (-4), rq_param_len := rq_param_len r + 4\<rparr>) t)
          else call_slot (sint (rq_callable_index r)) StepPoll2 rid
            (put_req rid (prepareRequest r) (call_on_finish rid r t))) = Inr s'"
    by (auto simp: stepPoll3_def)
  note mt = mem_fields_close_on_send_error [OF t]
  have okt: "waiting_ok t" "cur_ok 12 rid t" using ok mem_fields_cong [OF mt] by simp_all
  have rt: "sv_reqs t rid = Some r" using mt r by (simp add: mem_fields_def)
  show ?thesis
  proof (cases "rq_rejected r \<or> sv_closed t")
    case True
    let ?r = "r\<lparr>rq_callable_index := -5, rq_param_base := ptr_add (rq_param_base r) (-4),
                rq_param_len := rq_param_len r + 4\<rparr>"
    from True d have f: "finishRequest rid (put_req rid ?r t) = Inr s'" by simp
    then have "rq_param_base r \<noteq> null_ptr"
      using finishRequest_bad_base [of "put_req rid ?r t" rid ?r "-4"]
      by (auto simp: ptr_add_def null_ptr_def)
    then obtain b where b: "rq_param_base r = (Some b, 12)" "sv_bufs t b \<noteq> None"
      using okt(2) rt by (auto simp: cur_ok_def base_ok_def)
    have "cur_ok 8 rid (put_req rid ?r t)"
      by (rule cur_ok_put [OF okt(2) rt]) (use b in \<open>auto simp: base_ok_def ptr_add_def\<close>)
    with f show ?thesis using waiting_ok_put_cur [OF okt] by (rule_tac finishRequest_mem)
  next
    case False
    let ?u = "call_on_finish rid r t"
    have okt2: "waiting_ok ?u" "cur_ok 12 rid ?u"
      using okt mem_fields_cong [OF mem_fields_on_finish [of rid r t]] by simp_all
    have rq: "rq_param_base (prepareRequest r) = rq_param_base r"
      by (simp add: prepareRequest_def Let_def)
    have cur: "cur_ok 12 rid (put_req rid (prepareRequest r) ?u)"
      by (rule cur_ok_put_same [OF okt2(2) _ rq]) (simp add: rt)
    have c: "call_slot (sint (rq_callable_index r)) StepPoll2 rid (put_req rid (prepareRequest r) ?u) = Inr s'"
      using d False by simp
    show ?thesis
      by (rule call_slot_mem [OF c waiting_ok_put_cur [OF okt2] cur]) simp
  qed
qed

lemma run_step_mem:
  assumes run: "run_step st rid s = Inr s'" and ok: "waiting_ok s" "cur_ok (base_off st) rid s"
  shows "waiting_ok s'"
proof (cases st)
  case StepCall1
  with assms show ?thesis by (auto simp: stepCall1_def intro: call_slot_mem [where k = 8])
next
  case StepCall2
  with assms show ?thesis by (auto intro: stepCall2_mem)
next
  case StepGetFunc1
  with run obtain r res t where r: "sv_reqs s rid = Some r" and t: "lookup_func r s = Inr (res, t)"
    and s': "stepCall2 rid (put_req rid (r\<lparr>rq_getFuncRes := res, rq_result := (le32 res, snd (rq_result r))\<rparr>) t) = Inr s'"
    by (auto simp: stepGetFunc1_def)
  note m = lookup_func_mem [OF t]
  have okt: "waiting_ok t" "cur_ok 8 rid t" "sv_reqs t rid = Some r"
    using ok mem_fields_cong [OF m] m r StepGetFunc1 by (simp_all add: mem_fields_def)
  then show ?thesis
    by (intro stepCall2_mem [OF s'] waiting_ok_put_cur [OF okt(1,2)] cur_ok_put_same [OF okt(2,3)]) simp
next
  case StepFreeRef1
  with run obtain r :: request and t where
    t: "foldR (free_index_at (rq_param_base r)) (free_offsets (rq_param_len r)) s = Inr t"
    and s': "stepCall2 rid t = Inr s'"
    by (auto simp: stepFreeRef1_def)
  have "waiting_ok t" "cur_ok 8 rid t"
    using ok StepFreeRef1 mem_fields_cong [OF mem_fields_free_index [OF t]] by simp_all
  with s' show ?thesis by (rule stepCall2_mem)
next
  case StepClose1
  with run have c: "server_close s = Inr s'" by (auto simp: stepClose1_def)
  with ok show ?thesis using mem_fields_cong [OF mem_fields_close [OF c]] by simp
next
  case StepGetInfo1
  with run obtain r where r: "sv_reqs s rid = Some r"
    and s': "stepCall2 rid (put_req rid (r\<lparr>rq_result := (string_bytes ServerInfo, snd (rq_result r))\<rparr>) s) = Inr s'"
    by (auto simp: stepGetInfo1_def)
  have "cur_ok 8 rid s" using ok StepGetInfo1 by simp
  with ok(1) r show ?thesis
    by (intro stepCall2_mem [OF s'] waiting_ok_put_cur cur_ok_put_same [of 8 rid s r]) auto
next
  case StepPoll1
  with assms show ?thesis by (auto intro: stepPoll1_mem)
next
  case StepPoll2
  with run obtain r where r: "sv_reqs s rid = Some r"
    and c: "writeResult rid (put_req rid (r\<lparr>rq_next_step := Some StepPoll3\<rparr>) s) = Inr s'"
    by (auto simp: stepPoll2_def)
  have cur: "cur_ok 12 rid s" using ok StepPoll2 by simp
  with ok(1) r show ?thesis
    by (intro writeResult_mem [OF c, of 12] waiting_ok_put_cur cur_ok_put_same [OF cur r]) auto
next
  case StepPoll3
  with assms show ?thesis by (auto intro: stepPoll3_mem)
next
  case FinishRequest
  with assms show ?thesis by (auto intro: finishRequest_mem)
qed

section \<open>Every reachable state keeps it\<close>

lemma waiting_ok_start:
  "server_start (server_new fm oc) = Inr s \<Longrightarrow> waiting_ok s"
  by (auto simp: server_start_def server_new_def server_step1_def waiting_ok_def holds_buf_def emit_def)

lemma waiting_ok_fresh_buf:
  assumes "waiting_ok s" and "sv_bufs s b = None"
  shows "waiting_ok (s\<lparr>sv_bufs := (sv_bufs s)(b \<mapsto> m)\<rparr>)" and "\<not> holds_buf rid b s"
proof -
  let ?t = "s\<lparr>sv_bufs := (sv_bufs s)(b \<mapsto> m)\<rparr>"
  have hold: "holds_buf x c ?t = holds_buf x c s" for x c by (simp add: holds_buf_def)
  have "wait_ok w r ?t" if "wait_ok w r s" for w r
    using that by (cases "(w, r, s)" rule: wait_ok.cases) (auto simp: base_ok_def)
  with assms(1) hold show "waiting_ok ?t" by (simp add: waiting_ok_def)
  show "\<not> holds_buf rid b s"
  proof
    assume "holds_buf rid b s"
    then obtain w and r where w: "sv_wait s rid = Some w" "sv_reqs s rid = Some r"
      and b: "fst (rq_param_base r) = Some b" by (auto simp: holds_buf_def)
    with assms(1) have "wait_ok w r s" by (simp add: waiting_ok_def)
    with b assms(2) show False
      by (cases "(w, r, s)" rule: wait_ok.cases) (auto simp: base_ok_def null_ptr_def)
  qed
qed

text \<open>A request that stops waiting becomes the current one.\<close>

lemma waiting_ok_resume:
  assumes ok: "waiting_ok s" and w: "sv_wait s rid = Some w" and r: "sv_reqs s rid = Some r"
    and t: "sv_reqs t = sv_reqs s" "sv_bufs t = sv_bufs s" "sv_wait t = (sv_wait s)(rid := None)"
  shows "waiting_ok t" and "base_ok k r s \<Longrightarrow> cur_ok k rid t"
proof -
  have wt: "wait_ok w r t = wait_ok w r s" for w r
    by (cases "(w, r, s)" rule: wait_ok.cases) (simp_all add: base_ok_def t)
  have hold: "holds_buf x b t \<longleftrightarrow> x \<noteq> rid \<and> holds_buf x b s" for x b by (simp add: holds_buf_def t)
  show "waiting_ok t" using ok wt hold by (auto simp: waiting_ok_def t)
  have one: "holds_buf x b s \<Longrightarrow> fst (rq_param_base r) = Some b \<Longrightarrow> x = rid" for x b
    using ok w r unfolding waiting_ok_def holds_buf_def by blast
  assume "base_ok k r s"
  then have "base_ok k r t" by (simp add: base_ok_def t)
  with one r hold show "cur_ok k rid t" by (auto simp: cur_ok_def t)
qed

lemma waiting_ok_sent:
  assumes "waiting_ok s" and "sv_wait s rid = Some (WaitSend st)" and "sv_reqs s rid = Some r"
    and "sv_reqs t = sv_reqs s" "sv_bufs t = sv_bufs s" "sv_wait t = (sv_wait s)(rid := None)"
  shows "waiting_ok t" and "cur_ok (base_off st) rid t" and "st = FinishRequest \<or> st = StepPoll3"
proof -
  have "wait_ok (WaitSend st) r s" using assms(1-3) by (simp add: waiting_ok_def)
  then have "base_ok (base_off st) r s" and st: "st = FinishRequest \<or> st = StepPoll3"
    by (cases st; simp)+
  then show "waiting_ok t" "cur_ok (base_off st) rid t" using waiting_ok_resume [OF assms] by simp_all
  show "st = FinishRequest \<or> st = StepPoll3" by (rule st)
qed

text \<open>A callable completes its request, and may have taken the parameter buffer over.\<close>

lemma waiting_ok_completed:
  fixes c :: completion
  assumes ok: "waiting_ok s" and w: "sv_wait s rid = Some WaitCall" and r: "sv_reqs s rid = Some r"
  defines "t \<equiv> put_req rid (complete_request c r) (take_param c r (s\<lparr>sv_wait := (sv_wait s)(rid := None)\<rparr>))"
  shows "waiting_ok t"
    and "\<exists>st. rq_next_step r = Some st \<and> cur_ok (base_off st) rid t \<and> (st = StepCall2 \<or> st = StepPoll2)"
proof -
  let ?u = "s\<lparr>sv_wait := (sv_wait s)(rid := None)\<rparr>"
  have "wait_ok WaitCall r s" by (rule waiting_okD [OF ok w r])
  then obtain st where st: "rq_next_step r = Some st" "st = StepCall2 \<or> st = StepPoll2"
    and base: "base_ok (base_off st) r s" by auto
  have u: "waiting_ok ?u" "cur_ok (base_off st) rid ?u" "sv_reqs ?u rid = Some r"
    using waiting_ok_resume [OF ok w r] base r by simp_all
  have "waiting_ok t \<and> cur_ok (base_off st) rid t"
  proof (cases "cp_takes_param c \<and> fst (rq_param_base r) \<noteq> None")
    case False
    then have "take_param c r ?u = ?u" by (auto simp: take_param_def split: option.splits)
    moreover have "base_ok (base_off st) (complete_request c r) ?u"
      using u(2,3) by (auto simp: cur_ok_def complete_request_def base_ok_def)
    ultimately show ?thesis
      using cur_ok_put [OF u(2,3), of "complete_request c r" "base_off st"] waiting_ok_put_cur [OF u(1,2)]
      unfolding t_def by (auto simp: complete_request_def null_ptr_def)
  next
    case True
    then obtain b where b: "fst (rq_param_base r) = Some b" by auto
    let ?v = "?u\<lparr>sv_bufs := (sv_bufs ?u)(b := None)\<rparr>"
    have v: "take_param c r ?u = ?v" using True b by (simp add: take_param_def)
    have "waiting_ok ?v" using u b by (intro waiting_ok_drop_buf) (auto simp: cur_ok_def)
    then have "waiting_ok (put_req rid (complete_request c r) ?v)"
      by (intro waiting_ok_put_idle) simp_all
    moreover have "rq_param_base (complete_request c r) = null_ptr"
      using True by (simp add: complete_request_def)
    ultimately show ?thesis
      unfolding t_def v by (simp add: cur_ok_def base_ok_def null_ptr_def)
  qed
  with st show "waiting_ok t"
    "\<exists>st. rq_next_step r = Some st \<and> cur_ok (base_off st) rid t \<and> (st = StepCall2 \<or> st = StepPoll2)"
    by blast+
qed

lemma newRequest_mem:
  assumes n: "newRequest session s = Inr (rid, t)" and ok: "waiting_ok s" and wf: "serv_wf {} s"
  shows "waiting_ok t" and "sv_wait t rid = None" and "sv_bufs t = sv_bufs s"
    and "\<not> holds_buf x b s \<Longrightarrow> \<not> holds_buf x b t" and "\<exists>r. sv_reqs t rid = Some r"
proof -
  define u where "u = put_req (sv_next_req s) (zero_request\<lparr>rq_session := session\<rparr>)
                        (s\<lparr>sv_next_req := sv_next_req s + 1\<rparr>)"
  from n have rid: "rid = sv_next_req s" and v: "refCount_add 1 u = Inr t"
    by (auto simp: newRequest_def Let_def u_def)
  have "rid \<notin> dom (sv_reqs s)" "dom (sv_wait s) \<subseteq> dom (sv_reqs s)"
    using wf unfolding serv_wf_def rid by blast+
  then have fresh: "sv_wait s rid = None" "sv_reqs s rid = None" by auto
  note m = mem_fields_refCount [OF v]
  let ?s = "s\<lparr>sv_next_req := sv_next_req s + 1\<rparr>"
  have ms: "mem_fields ?s = mem_fields s" by (simp add: mem_fields_def)
  have "waiting_ok ?s" using ok mem_fields_cong(1) [OF ms] by blast
  then have "waiting_ok u" unfolding u_def by (rule waiting_ok_put_idle) (use fresh rid in simp)
  then show "waiting_ok t" using mem_fields_cong(1) [OF m] by simp
  show "sv_wait t rid = None" "sv_bufs t = sv_bufs s" "\<exists>r. sv_reqs t rid = Some r"
    using m fresh by (auto simp: mem_fields_def u_def rid)
  have "holds_buf x b u \<Longrightarrow> holds_buf x b s"
    using fresh by (auto simp: holds_buf_def u_def rid split: if_splits)
  moreover have "holds_buf x b t = holds_buf x b u" using m by (simp add: holds_buf_def mem_fields_def)
  ultimately show "\<not> holds_buf x b s \<Longrightarrow> \<not> holds_buf x b t" by blast
qed

lemma prepareRequest_step: "rq_next_step r = None \<Longrightarrow> rq_next_step (prepareRequest r) = Some st \<Longrightarrow> base_off st = 8"
  by (auto simp: prepareRequest_def Let_def split: if_splits)

text \<open>The new request of \<open>step2\<close> is set up on the received buffer.\<close>

lemma step2_setup:
  assumes n: "newRequest session (s\<lparr>sv_last_error := None\<rparr>) = Inr (rid, t)"
    and ok: "waiting_ok s" and wf: "serv_wf {} s" and free: "\<And>x. \<not> holds_buf x b s"
    and buf: "sv_bufs t b \<noteq> None" and r: "rq_param_base r = (Some b, 8)"
  shows "waiting_ok (put_req rid r (t\<lparr>sv_in_step2 := True\<rparr>))"
    and "cur_ok 8 rid (put_req rid r (t\<lparr>sv_in_step2 := True\<rparr>))"
proof -
  let ?s = "s\<lparr>sv_last_error := None\<rparr>" and ?t = "t\<lparr>sv_in_step2 := True\<rparr>"
  have m: "mem_fields ?s = mem_fields s" by (simp add: mem_fields_def)
  have ok': "waiting_ok ?s" "serv_wf {} ?s" using ok wf mem_fields_cong(1) [OF m] by simp_all
  note new = newRequest_mem [OF n ok']
  have free': "\<not> holds_buf x b t" for x
    using new(4) [of x b] free [of x] by (simp add: holds_buf_def)
  have mt: "mem_fields ?t = mem_fields t" by (simp add: mem_fields_def)
  have "waiting_ok ?t" using new(1) mem_fields_cong(1) [OF mt] by simp
  then show "waiting_ok (put_req rid r ?t)" using new(2) by (intro waiting_ok_put_idle) simp_all
  show "cur_ok 8 rid (put_req rid r ?t)"
    using new(2) free' buf r by (auto simp: cur_ok_def base_ok_def holds_buf_def)
qed

lemma server_step2_mem:
  assumes st: "server_step2 b s = Inr s'" and ok: "waiting_ok s" and wf: "serv_wf {} s"
    and free: "sv_receive_error s = None \<Longrightarrow> \<forall>x. \<not> holds_buf x b s"
  shows "waiting_ok s'"
proof (cases "sv_closed s \<or> sv_receive_error s \<noteq> None")
  case True
  with st have "s' = s \<or> server_close (s\<lparr>sv_last_error := sv_receive_error s\<rparr>) = Inr s'"
    by (auto simp: server_step2_def split: if_splits)
  then have "mem_fields s' = mem_fields s" by (auto simp: mem_fields_def dest!: server_close_fields)
  with ok show ?thesis using mem_fields_cong(1) by blast
next
  case False
  let ?s = "s\<lparr>sv_last_error := None\<rparr>"
  from st False obtain session v rid t r where
    n: "newRequest session ?s = Inr (rid, t)" and r: "sv_reqs t rid = Some r"
    and v: "buf_read (Some b, 0) 4 4 t = Inr v"
    and run0: "(let r = prepareRequest (r\<lparr>rq_callable_index := un_le v, rq_param_base := (Some b, 8),
                 rq_param_len := of_nat (length (the (sv_bufs t b))) - 8\<rparr>);
           s = put_req rid r (t\<lparr>sv_in_step2 := True\<rparr>)
       in case rq_next_step r of None \<Rightarrow> Inl NullDeref | Some st \<Rightarrow> run_step st rid s) = Inr s'"
    by (auto simp: server_step2_def)
  let ?r = "prepareRequest (r\<lparr>rq_callable_index := un_le v, rq_param_base := (Some b, 8),
                 rq_param_len := of_nat (length (the (sv_bufs t b))) - 8\<rparr>)"
  from run0 obtain st' where next_st: "rq_next_step ?r = Some st'"
    and run: "run_step st' rid (put_req rid ?r (t\<lparr>sv_in_step2 := True\<rparr>)) = Inr s'"
    unfolding Let_def by (cases "rq_next_step ?r") simp_all
  have buf: "sv_bufs t b \<noteq> None" using v by (auto simp: buf_read_def split: option.splits)
  have base: "rq_param_base ?r = (Some b, 8)" by (simp add: prepareRequest_def Let_def)
  have free': "\<not> holds_buf x b s" for x using free False by simp
  note su = step2_setup [OF n ok wf free' buf base]
  have "rq_next_step r = None"
    using n r by (auto simp: newRequest_def Let_def zero_request_def refCount_add_fields(4))
  then have "base_off st' = 8" by (intro prepareRequest_step [OF _ next_st]) simp
  then show ?thesis using run_step_mem [OF run] su by simp
qed

lemma server_delete_mem: "server_delete s = Inr s' \<Longrightarrow> mem_fields s' = mem_fields s"
proof -
  assume d: "server_delete s = Inr s'"
  show ?thesis
  proof (cases "sv_owned s")
    case True
    with d obtain t where t: "server_close s = Inr t" "refCount_add (-1) (t\<lparr>sv_owned := False\<rparr>) = Inr s'"
      by (auto simp: server_delete_def)
    show ?thesis
      using mem_fields_close [OF t(1)] mem_fields_refCount [OF t(2)] by (simp add: mem_fields_def)
  next
    case False
    with d show ?thesis by (simp add: server_delete_def)
  qed
qed

lemma serv_event_mem:
  assumes en: "enabled e s" and ev: "serv_event e s = Inr s'" and ok: "waiting_ok s" and wf: "serv_wf {} s"
  shows "waiting_ok s'"
proof (cases e)
  case (EReceived b m)
  with en have "sv_bufs s b = None" by simp
  let ?s = "s\<lparr>sv_wait_recv := False, sv_receive_error := None, sv_bufs := (sv_bufs s)(b \<mapsto> m)\<rparr>"
  have mt: "mem_fields ?s = mem_fields (s\<lparr>sv_bufs := (sv_bufs s)(b \<mapsto> m)\<rparr>)" by (simp add: mem_fields_def)
  have "waiting_ok ?s"
    using waiting_ok_fresh_buf(1) [OF ok \<open>sv_bufs s b = None\<close>] mem_fields_cong(1) [OF mt] by simp
  moreover have "\<not> holds_buf x b ?s" for x
    using waiting_ok_fresh_buf(2) [OF ok \<open>sv_bufs s b = None\<close>, of x] by (simp add: holds_buf_def)
  ultimately show ?thesis
    using server_step2_mem [of b ?s s'] ev wf EReceived by simp
next
  case (EReceiveFailed err)
  let ?s = "s\<lparr>sv_wait_recv := False, sv_receive_error := Some err\<rparr>"
  have mt: "mem_fields ?s = mem_fields s" by (simp add: mem_fields_def)
  show ?thesis
    using server_step2_mem [of 0 ?s s'] ev wf ok mem_fields_cong(1) [OF mt] EReceiveFailed by simp
next
  case EReturn
  with ev have "mem_fields s' = mem_fields s"
    by (auto simp: server_step2_return_def server_step1_def mem_fields_def split: if_splits)
  with ok show ?thesis using mem_fields_cong(1) by blast
next
  case (ESent rid err)
  with en obtain st where w: "sv_wait s rid = Some (WaitSend st)"
    by (auto split: option.splits awaited.splits)
  with wf obtain r where r: "sv_reqs s rid = Some r" by (auto simp: serv_wf_def)
  let ?t = "s\<lparr>sv_wait := (sv_wait s)(rid := None), sv_send_error := err\<rparr>"
  have "run_step st rid ?t = Inr s'" using ev ESent w by simp
  then show ?thesis using waiting_ok_sent [OF ok w r, of ?t] by (rule_tac run_step_mem) simp_all
next
  case (ENextStep rid c)
  with en wf obtain r where w: "sv_wait s rid = Some WaitCall" and r: "sv_reqs s rid = Some r"
    by (auto simp: serv_wf_def)
  let ?t = "put_req rid (complete_request c r) (take_param c r (s\<lparr>sv_wait := (sv_wait s)(rid := None)\<rparr>))"
  from waiting_ok_completed(2) [OF ok w r, of c] obtain st
    where st: "rq_next_step r = Some st" "cur_ok (base_off st) rid ?t" by blast
  have "run_step st rid ?t = Inr s'" using ev ENextStep r st(1) by auto
  then show ?thesis by (rule run_step_mem [OF _ waiting_ok_completed(1) [OF ok w r] st(2)])
next
  case EClose
  with ev ok show ?thesis using mem_fields_cong(1) [OF mem_fields_close] by simp
next
  case EDelete
  with ev ok show ?thesis using mem_fields_cong(1) [OF server_delete_mem] by simp
qed

lemma serv_reach_mem: "serv_reach s \<Longrightarrow> waiting_ok s"
proof (induction rule: serv_reach.induct)
  case (start fm oc s)
  then show ?case by (rule waiting_ok_start)
next
  case (step s e s')
  then show ?case by (auto elim!: serv_stepE intro: serv_event_mem serv_reach_wf)
qed

end
