(* ===== verification/ServerSafety.thy ===== *)
theory ServerSafety
  imports ServerMemory
begin

text \<open>
  Safety of the request machine of \<open>c/pxprpc/server.c\<close>: which faults a run can end in, what a
  handler leaves alone, life time of context and requests, the receive loop, and what happens after
  the connection is closed.
\<close>

section \<open>Which faults a run can end in\<close>

lemma drop_object_fault: "drop_object i p = Inl e \<Longrightarrow> e = OutOfBounds"
  by (auto simp: drop_object_def Let_def split: if_splits)

lemma server_close_fault: "server_close s = Inl e \<Longrightarrow> \<not> sv_freed s \<Longrightarrow> e = OutOfBounds"
  by (auto simp: server_close_def ctx_alive_def bindR_eq_Inl drop_all_objects_def Let_def split: if_splits
      elim!: foldR_fault [where P = "\<lambda>e. e = OutOfBounds" and Q = "\<lambda>_. True"] intro: drop_object_fault)

lemma close_on_send_error_fault: "close_on_send_error s = Inl e \<Longrightarrow> \<not> sv_freed s \<Longrightarrow> e = OutOfBounds"
  by (auto simp: close_on_send_error_def ctx_alive_def bindR_eq_Inl split: if_splits dest!: server_close_fault)

lemma server_alloc_ref_fault: "server_alloc_ref p = Inl e \<Longrightarrow> e = NullDeref \<or> e = OutOfBounds"
  by (auto simp: server_alloc_ref_def Let_def split: option.splits if_splits)

lemma server_free_ref_fault: "server_free_ref i p = Inl e \<Longrightarrow> e = OutOfBounds"
  by (auto simp: server_free_ref_def bindR_eq_Inl dest: drop_object_fault)

lemma get_req_Inl [simp]: "get_req rid s = Inl e \<longleftrightarrow> (sv_reqs s rid = None \<or> sv_freed s) \<and> e = UseAfterFree"
  by (auto simp: get_req_def ctx_alive_def split: option.splits)

lemma get_req_alive: "\<not> sv_freed s \<Longrightarrow> sv_reqs s rid = Some r \<Longrightarrow> get_req rid s = Inr r"
  by simp

lemma buf_read_fault:
  "buf_read (rq_param_base r) i n s = Inl e \<Longrightarrow> base_ok k r s \<Longrightarrow> e = NullDeref \<or> e = OutOfBounds"
  by (auto simp: buf_read_def base_ok_def null_ptr_def read_mem_def split: if_splits option.splits)

lemma finishRequest_fault:
  assumes "finishRequest rid s = Inl e" and "\<not> sv_freed s" and r: "sv_reqs s rid = Some r"
    and base: "base_ok 8 r s"
  shows "e = OutOfBounds"
proof (cases "close_on_send_error s")
  case (Inl e')
  then have "e = e'" using assms(1) unfolding finishRequest_def get_req_alive [OF assms(2) r] by simp
  with close_on_send_error_fault [OF Inl assms(2)] show ?thesis by simp
next
  case (Inr t)
  note t = close_on_send_error_fields [OF Inr]
  have "base_ok 8 r (call_on_finish rid r t)" using base t by (simp add: base_ok_def)
  from base_ok_free_param [OF this] obtain u where u: "free_param (rq_param_base r) (call_on_finish rid r t) = Inr u"
    by blast
  have "wf_fields u = wf_fields t" using free_param_fields [OF u] by simp
  then have "\<not> sv_freed u" using t by (auto simp: wf_fields_def)
  then obtain v where "refCount_add (-1) u = Inr v" by (simp add: refCount_add_def ctx_alive_def Let_def)
  with u Inr have "finishRequest rid s \<noteq> Inl e"
    unfolding finishRequest_def get_req_alive [OF assms(2) r] by simp
  with assms(1) show ?thesis by simp
qed

lemma writeResult_fault:
  "writeResult rid s = Inl e \<Longrightarrow> \<not> sv_freed s \<Longrightarrow> sv_reqs s rid = Some r \<Longrightarrow> e = NullDeref"
  by (auto simp: writeResult_def get_req_alive Let_def split: if_splits option.splits)

lemma stepCall2_fault:
  assumes "stepCall2 rid s = Inl e" and "\<not> sv_freed s" and r: "sv_reqs s rid = Some r"
    and base: "base_ok 8 r s"
  shows "e = NullDeref \<or> e = OutOfBounds"
  using assms writeResult_fault [of rid "put_req rid (r\<lparr>rq_next_step := Some FinishRequest\<rparr>) s" e]
    finishRequest_fault [of rid s e r]
  by (auto simp: stepCall2_def get_req_alive split: if_splits)

lemma call_slot_fault:
  "call_slot i st rid s = Inl e \<Longrightarrow> \<not> sv_freed s \<Longrightarrow> sv_reqs s rid = Some r \<Longrightarrow> e = NullDeref \<or> e = OutOfBounds"
  by (auto simp: call_slot_def get_req_alive split: if_splits option.splits)

definition param_taken :: "step \<Rightarrow> request \<Rightarrow> bool" where
  "param_taken st r \<longleftrightarrow> st = StepPoll3 \<and> rq_param_base r = null_ptr"

lemma stepFreeRef1_fault:
  assumes "stepFreeRef1 rid s = Inl e" and alive: "\<not> sv_freed s" and r: "sv_reqs s rid = Some r"
    and base: "base_ok 8 r s"
  shows "e = NullDeref \<or> e = OutOfBounds"
proof -
  let ?Q = "\<lambda>u. sv_freed u = sv_freed s \<and> mem_fields u = mem_fields s"
  have keep: "?Q u'" if "?Q u" "free_index_at (rq_param_base r) x u = Inr u'" for u x u'
    using that by (auto simp: free_index_at_def mem_fields_def)
  have base': "base_ok 8 r u" if "?Q u" for u using that base mem_fields_cong(3) by blast
  show ?thesis
  proof (cases "foldR (free_index_at (rq_param_base r)) (free_offsets (rq_param_len r)) s")
    case (Inr t)
    have "?Q t" by (rule foldR_inv [OF Inr, where P = ?Q]) (simp, erule (1) keep)
    then have t: "\<not> sv_freed t" "sv_reqs t rid = Some r" "base_ok 8 r t"
      using base' alive r by (auto simp: mem_fields_def)
    have "stepCall2 rid t = Inl e"
      using assms(1) Inr unfolding stepFreeRef1_def get_req_alive [OF alive r] by simp
    from stepCall2_fault [OF this t] show ?thesis .
  next
    case (Inl e')
    have "e' = NullDeref \<or> e' = OutOfBounds"
    proof (rule foldR_fault [OF Inl, where Q = ?Q and P = "\<lambda>e. e = NullDeref \<or> e = OutOfBounds"])
      fix x u assume "?Q u" "free_index_at (rq_param_base r) x u = Inl e'"
      with base' [of u] show "e' = NullDeref \<or> e' = OutOfBounds"
        by (auto simp: free_index_at_def bindR_eq_Inl dest: server_free_ref_fault buf_read_fault)
    qed (simp, erule (1) keep)
    with Inl assms show ?thesis by (simp add: stepFreeRef1_def get_req_alive)
  qed
qed

lemma stepGetFunc1_fault:
  assumes f: "stepGetFunc1 rid s = Inl e" and alive: "\<not> sv_freed s" and r: "sv_reqs s rid = Some r"
    and base: "base_ok 8 r s"
  shows "e = NullDeref \<or> e = OutOfBounds"
proof (cases "lookup_func r s")
  case (Inl e')
  then have "e' = NullDeref \<or> e' = OutOfBounds"
    using base by (auto simp: lookup_func_def bindR_eq_Inl split: option.splits
        dest: server_alloc_ref_fault buf_read_fault)
  with Inl f alive r show ?thesis by (simp add: stepGetFunc1_def get_req_alive)
next
  case (Inr p)
  obtain res t where p: "p = (res, t)" by (cases p)
  have m: "mem_fields t = mem_fields s" using lookup_func_mem Inr p by simp
  have "sv_freed t = sv_freed s"
    using Inr p by (auto simp: lookup_func_def split: option.splits)
  moreover have "base_ok 8 (r\<lparr>rq_getFuncRes := res, rq_result := (le32 res, snd (rq_result r))\<rparr>) t"
    using base mem_fields_cong(3) [OF m] m by (simp add: base_ok_def)
  ultimately show ?thesis
    using f Inr p alive r
      stepCall2_fault [of rid "put_req rid (r\<lparr>rq_getFuncRes := res, rq_result := (le32 res, snd (rq_result r))\<rparr>) t" e]
    by (simp add: stepGetFunc1_def get_req_alive base_ok_def)
qed

lemma stepPoll3_fault:
  assumes f: "stepPoll3 rid s = Inl e" and alive: "\<not> sv_freed s" and r: "sv_reqs s rid = Some r"
    and base: "base_ok 12 r s" and notnull: "rq_param_base r \<noteq> null_ptr"
  shows "e = NullDeref \<or> e = OutOfBounds"
proof (cases "close_on_send_error s")
  case (Inl e')
  with f alive r show ?thesis by (simp add: stepPoll3_def get_req_alive close_on_send_error_fault)
next
  case (Inr t)
  note t = close_on_send_error_fields [OF Inr]
  obtain b where b: "rq_param_base r = (Some b, 12)" "sv_bufs t b \<noteq> None"
    using base notnull t by (auto simp: base_ok_def)
  let ?r = "r\<lparr>rq_callable_index := -5, rq_param_base := ptr_add (rq_param_base r) (-4),
              rq_param_len := rq_param_len r + 4\<rparr>"
  have "base_ok 8 ?r (put_req rid ?r t)" using b by (simp add: base_ok_def ptr_add_def)
  then have fin: "finishRequest rid (put_req rid ?r t) = Inl e \<Longrightarrow> e = OutOfBounds"
    using finishRequest_fault [of rid "put_req rid ?r t" e ?r] t by simp
  have slot: "call_slot i st rid (put_req rid (prepareRequest r) (call_on_finish rid r t)) = Inl e \<Longrightarrow>
      e = NullDeref \<or> e = OutOfBounds" for i st
    using call_slot_fault [of i st rid "put_req rid (prepareRequest r) (call_on_finish rid r t)" e] t by simp
  show ?thesis
    using f Inr alive r fin slot by (auto simp: stepPoll3_def get_req_alive split: if_splits)
qed

lemma stepPoll3_taken_fault:
  assumes f: "stepPoll3 rid s = Inl e" and alive: "\<not> sv_freed s" and r: "sv_reqs s rid = Some r"
    and null: "rq_param_base r = null_ptr"
  shows "e = NullDeref \<or> e = OutOfBounds \<or> e = BadFree"
proof (cases "close_on_send_error s")
  case (Inl e')
  then have "e = e'" using f unfolding stepPoll3_def get_req_alive [OF alive r] by simp
  with close_on_send_error_fault [OF Inl alive] show ?thesis by simp
next
  case (Inr t)
  note t = close_on_send_error_fields [OF Inr]
  let ?r = "r\<lparr>rq_callable_index := -5, rq_param_base := ptr_add (rq_param_base r) (-4),
              rq_param_len := rq_param_len r + 4\<rparr>"
  have fin: "finishRequest rid (put_req rid ?r t) = Inl e \<Longrightarrow> e = OutOfBounds \<or> e = BadFree"
    unfolding finishRequest_def using t
    by (auto simp: get_req_alive [of "put_req rid ?r t" rid ?r] null free_param_def ptr_add_def null_ptr_def
        bindR_eq_Inl dest: close_on_send_error_fault)
  have slot: "call_slot i st rid (put_req rid (prepareRequest r) (call_on_finish rid r t)) = Inl e \<Longrightarrow>
      e = NullDeref \<or> e = OutOfBounds" for i st
    using call_slot_fault [of i st rid "put_req rid (prepareRequest r) (call_on_finish rid r t)" e] t by simp
  show ?thesis
    using f Inr alive r fin slot by (auto simp: stepPoll3_def get_req_alive split: if_splits)
qed

lemma stepPoll1_fault:
  assumes f: "stepPoll1 rid s = Inl e" and alive: "\<not> sv_freed s" and r: "sv_reqs s rid = Some r"
    and base: "base_ok 8 r s"
  shows "e = NullDeref \<or> e = OutOfBounds"
  using f alive r base
  by (auto simp: stepPoll1_def get_req_alive bindR_eq_Inl Let_def dest: buf_read_fault call_slot_fault)

lemma run_step_fault:
  assumes f: "run_step st rid s = Inl e" and alive: "\<not> sv_freed s" and r: "sv_reqs s rid = Some r"
    and cur: "cur_ok (base_off st) rid s" and np: "\<not> param_taken st r"
  shows "e = NullDeref \<or> e = OutOfBounds"
proof -
  have base: "base_ok (base_off st) r s" using cur r by (simp add: cur_ok_def)
  show ?thesis
  proof (cases st)
    case StepCall1
    with f alive r show ?thesis by (auto simp: stepCall1_def get_req_alive dest: call_slot_fault)
  next
    case StepPoll2
    let ?t = "put_req rid (r\<lparr>rq_next_step := Some StepPoll3\<rparr>) s"
    have "writeResult rid ?t = Inl e" using f alive r StepPoll2 by (simp add: stepPoll2_def get_req_alive)
    then show ?thesis using writeResult_fault [of rid ?t e] alive by simp
  next
    case StepClose1
    with f alive r show ?thesis by (simp add: stepClose1_def get_req_alive server_close_fault)
  next
    case StepGetInfo1
    let ?r = "r\<lparr>rq_result := (string_bytes ServerInfo, snd (rq_result r))\<rparr>"
    have "stepCall2 rid (put_req rid ?r s) = Inl e"
      using f alive r StepGetInfo1 by (simp add: stepGetInfo1_def get_req_alive)
    then show ?thesis
      using stepCall2_fault [of rid "put_req rid ?r s" e ?r] alive base StepGetInfo1 by (simp add: base_ok_def)
  next
    case StepPoll3
    with np have "rq_param_base r \<noteq> null_ptr" by (simp add: param_taken_def)
    then show ?thesis using stepPoll3_fault [of rid s e r] f alive r base StepPoll3 by simp
  next
    case StepCall2
    with stepCall2_fault [of rid s e r] f alive r base show ?thesis by simp
  next
    case StepGetFunc1
    with stepGetFunc1_fault [of rid s e r] f alive r base show ?thesis by simp
  next
    case StepFreeRef1
    with stepFreeRef1_fault [of rid s e r] f alive r base show ?thesis by simp
  next
    case StepPoll1
    with stepPoll1_fault [of rid s e r] f alive r base show ?thesis by simp
  next
    case FinishRequest
    with finishRequest_fault [of rid s e r] f alive r base show ?thesis by simp
  qed
qed

section \<open>Faults of whole runs\<close>

lemma reach_refCount:
  assumes "serv_reach s" and "sv_next_req s < 2 ^ 32 - 1"
  shows "unat (sv_refCount s) = card (dom (sv_reqs s)) + (if sv_owned s then 1 else 0)"
    and "sv_freed s \<longleftrightarrow> \<not> sv_owned s \<and> sv_reqs s = (\<lambda>_. None)"
proof -
  have wf: "serv_wf {} s" by (rule serv_reach_wf [OF assms(1)])
  then have fin: "finite (dom (sv_reqs s))" and sub: "dom (sv_reqs s) \<subseteq> {..<sv_next_req s}"
    and rc: "sv_refCount s = of_nat (card (dom (sv_reqs s)) + (if sv_owned s then 1 else 0))"
    and fr: "sv_freed s \<longleftrightarrow> sv_refCount s = 0"
    by (simp_all add: serv_wf_def)
  have "card (dom (sv_reqs s)) \<le> sv_next_req s" using card_mono [OF _ sub] by simp
  then have lt: "card (dom (sv_reqs s)) + (if sv_owned s then 1 else 0) < 2 ^ 32"
    using assms(2) by simp
  then show eq: "unat (sv_refCount s) = card (dom (sv_reqs s)) + (if sv_owned s then 1 else 0)"
    unfolding rc by (simp add: unat_of_nat del: of_nat_add)
  have "sv_freed s \<longleftrightarrow> unat (sv_refCount s) = 0" using fr by (simp add: unat_eq_0)
  also have "\<dots> \<longleftrightarrow> \<not> sv_owned s \<and> dom (sv_reqs s) = {}" using eq fin by simp
  finally show "sv_freed s \<longleftrightarrow> \<not> sv_owned s \<and> sv_reqs s = (\<lambda>_. None)" by (simp add: dom_eq_empty_conv)
qed

lemma serv_reach_steps_wf: "serv_reach s \<Longrightarrow> serv_wf {} s \<and> waiting_ok s"
  by (simp add: serv_reach_wf serv_reach_mem)

lemma newRequest_alive:
  assumes "\<not> sv_freed s" and wf: "serv_wf {} s" and n: "sv_next_req s < 2 ^ 32 - 2"
  shows "\<exists>rid t r. newRequest session s = Inr (rid, t) \<and> \<not> sv_freed t \<and> sv_reqs t rid = Some r
           \<and> rq_next_step r = None \<and> rq_session r = session \<and> rid = sv_next_req s"
proof -
  define u where "u = put_req (sv_next_req s) (zero_request\<lparr>rq_session := session\<rparr>)
                        (s\<lparr>sv_next_req := sv_next_req s + 1\<rparr>)"
  have "\<not> sv_freed u" using assms(1) by (simp add: u_def)
  then obtain t where t: "refCount_add 1 u = Inr t" by (simp add: refCount_add_def ctx_alive_def Let_def)
  have "card (dom (sv_reqs s)) \<le> sv_next_req s"
    using wf card_mono [of "{..<sv_next_req s}" "dom (sv_reqs s)"] by (simp add: serv_wf_def)
  then have "unat (of_nat (card (dom (sv_reqs s)) + (if sv_owned s then 1 else 0) + 1) :: u32)
      = card (dom (sv_reqs s)) + (if sv_owned s then 1 else 0) + 1"
    unfolding unat_of_nat using n by simp
  moreover have "sv_refCount u = of_nat (card (dom (sv_reqs s)) + (if sv_owned s then 1 else 0))"
    using wf by (simp add: u_def put_req_def serv_wf_def)
  ultimately have "sv_refCount t \<noteq> 0" using refCount_add_fields(2) [OF t]
    by (metis add_is_0 of_nat_1 of_nat_add one_neq_zero unat_0)
  then have "\<not> sv_freed t" using refCount_add_fields(3) [OF t] by simp
  moreover have "sv_reqs t (sv_next_req s) = Some (zero_request\<lparr>rq_session := session\<rparr>)"
    using refCount_add_fields(4) [OF t] by (simp add: u_def)
  moreover have "newRequest session s = Inr (sv_next_req s, t)"
    using t by (simp add: newRequest_def Let_def u_def)
  ultimately show ?thesis by (simp add: zero_request_def)
qed

lemma server_step2_fault:
  assumes f: "server_step2 b s = Inl e" and alive: "\<not> sv_freed s" and ok: "waiting_ok s"
    and wf: "serv_wf {} s" and n: "sv_next_req s < 2 ^ 32 - 2" and buf: "sv_receive_error s = None \<Longrightarrow> sv_bufs s b = Some m"
    and free: "sv_receive_error s = None \<Longrightarrow> \<forall>x. \<not> holds_buf x b s"
  shows "e = NullDeref \<or> e = OutOfBounds"
proof (cases "sv_closed s \<or> sv_receive_error s \<noteq> None")
  case True
  with f alive show ?thesis
    by (auto simp: server_step2_def ctx_alive_def split: if_splits
        dest: server_close_fault [of "s\<lparr>sv_last_error := x\<rparr>" for x])
next
  case False
  then have open_s: "\<not> sv_closed s" "sv_receive_error s = None" and m: "sv_bufs s b = Some m"
    and fr: "\<not> holds_buf x b s" for x
    using buf free by auto
  have read: "buf_read (Some b, 0) i k u = Inl e' \<Longrightarrow> sv_bufs u b = Some m \<Longrightarrow> e' = OutOfBounds" for i k u e'
    by (auto simp: buf_read_def read_mem_def split: if_splits)
  show ?thesis
  proof (cases "buf_read (Some b, 0) 0 4 s")
    case (Inl e')
    with f alive open_s read [OF Inl m] show ?thesis by (simp add: server_step2_def ctx_alive_def)
  next
    case (Inr session)
    let ?s = "s\<lparr>sv_last_error := None\<rparr>"
    obtain rid t r where new: "newRequest (un_le session) ?s = Inr (rid, t)" "\<not> sv_freed t"
      and r: "sv_reqs t rid = Some r" "rq_next_step r = None"
      using newRequest_alive [of ?s "un_le session"] alive wf n by auto
    have bt: "sv_bufs t b = Some m" using newRequest_mem(3) [OF new(1)] ok wf m mem_fields_cong(1) [of ?s s]
      by (simp add: mem_fields_def)
    show ?thesis
    proof (cases "buf_read (Some b, 0) 4 4 t")
      case (Inl e')
      with f alive open_s Inr new read [OF Inl bt] show ?thesis by (simp add: server_step2_def ctx_alive_def)
    next
      case v: (Inr v)
      let ?r = "prepareRequest (r\<lparr>rq_callable_index := un_le v, rq_param_base := (Some b, 8),
                  rq_param_len := of_nat (length (the (sv_bufs t b))) - 8\<rparr>)"
      let ?t = "put_req rid ?r (t\<lparr>sv_in_step2 := True\<rparr>)"
      have base: "rq_param_base ?r = (Some b, 8)" by (simp add: prepareRequest_def Let_def)
      have "server_step2 b s = (case rq_next_step ?r of None \<Rightarrow> Inl NullDeref | Some st \<Rightarrow> run_step st rid ?t)"
        unfolding server_step2_def using alive open_s Inr new v
        by (simp add: ctx_alive_def Let_def get_req_alive [OF new(2) r(1)])
      with f consider "e = NullDeref" | st where "rq_next_step ?r = Some st" "run_step st rid ?t = Inl e"
        by (auto split: option.splits)
      then show ?thesis
      proof cases
        case 2
        have off: "base_off st = 8" by (rule prepareRequest_step [OF _ 2(1)]) (simp add: r)
        then have np: "\<not> param_taken st ?r" by (auto simp: param_taken_def)
        show ?thesis
          using run_step_fault [OF 2(2) _ _ _ np] new(2) step2_setup(2) [OF new(1) ok wf fr _ base] bt off by simp
      qed simp
    qed
  qed
qed

lemma take_param_sel [simp]:
  "sv_freed (take_param c r s) = sv_freed s" "sv_reqs (take_param c r s) = sv_reqs s"
  "sv_wait (take_param c r s) = sv_wait s" "sv_closed (take_param c r s) = sv_closed s"
  "sv_log (take_param c r s) = sv_log s" "sv_pool (take_param c r s) = sv_pool s"
  "sv_send_error (take_param c r s) = sv_send_error s" "sv_refCount (take_param c r s) = sv_refCount s"
  by (simp_all add: take_param_def split: option.splits)

lemma serv_event_fault:
  assumes re: "serv_reach s" and n: "sv_next_req s < 2 ^ 32 - 2" and en: "enabled e s"
    and f: "serv_event e s = Inl x" and alive: "\<not> sv_freed s"
  shows "x = NullDeref \<or> x = OutOfBounds \<or>
     x = BadFree \<and> (\<exists>rid err r. e = ESent rid err \<and> sv_wait s rid = Some (WaitSend StepPoll3)
                      \<and> sv_reqs s rid = Some r \<and> rq_param_base r = null_ptr)"
proof -
  note wf = serv_reach_wf [OF re] and ok = serv_reach_mem [OF re]
  show ?thesis
  proof (cases e)
    case (EReceived b m)
    with en have b: "sv_bufs s b = None" by simp
    let ?s = "s\<lparr>sv_wait_recv := False, sv_receive_error := None, sv_bufs := (sv_bufs s)(b \<mapsto> m)\<rparr>"
    have mt: "mem_fields ?s = mem_fields (s\<lparr>sv_bufs := (sv_bufs s)(b \<mapsto> m)\<rparr>)" by (simp add: mem_fields_def)
    have ok': "waiting_ok ?s"
      using waiting_ok_fresh_buf(1) [OF ok b] mem_fields_cong(1) [OF mt] by simp
    have fr: "\<forall>x. \<not> holds_buf x b ?s"
      using waiting_ok_fresh_buf(2) [OF ok b] by (simp add: holds_buf_def)
    have "server_step2 b ?s = Inl x" using f EReceived by simp
    from server_step2_fault [OF this _ ok' _ _ _ fr, of m] alive wf n show ?thesis by auto
  next
    case (EReceiveFailed err)
    let ?s = "s\<lparr>sv_wait_recv := False, sv_receive_error := Some err\<rparr>"
    have mt: "mem_fields ?s = mem_fields s" by (simp add: mem_fields_def)
    have "server_step2 0 ?s = Inl x" using f EReceiveFailed by simp
    from server_step2_fault [OF this] alive wf n ok mem_fields_cong(1) [OF mt] show ?thesis by auto
  next
    case EReturn
    with f alive show ?thesis
      by (simp add: server_step2_return_def server_step1_def ctx_alive_def split: if_splits)
  next
    case (ESent rid err)
    with en obtain st where w: "sv_wait s rid = Some (WaitSend st)"
      by (auto split: option.splits awaited.splits)
    with wf obtain r where r: "sv_reqs s rid = Some r" by (auto simp: serv_wf_def)
    let ?t = "s\<lparr>sv_wait := (sv_wait s)(rid := None), sv_send_error := err\<rparr>"
    have run: "run_step st rid ?t = Inl x" using f ESent w by simp
    have cur: "cur_ok (base_off st) rid ?t" by (rule waiting_ok_sent(2) [OF ok w r]) simp_all
    show ?thesis
    proof (cases "param_taken st r")
      case False
      from run_step_fault [OF run _ _ cur False] alive r show ?thesis by auto
    next
      case True
      then have p: "st = StepPoll3" "rq_param_base r = null_ptr" by (simp_all add: param_taken_def)
      with stepPoll3_taken_fault [of rid ?t x r] run alive r w ESent show ?thesis by auto
    qed
  next
    case (ENextStep rid c)
    with en wf obtain r where w: "sv_wait s rid = Some WaitCall" and r: "sv_reqs s rid = Some r"
      by (auto simp: serv_wf_def)
    let ?t = "put_req rid (complete_request c r) (take_param c r (s\<lparr>sv_wait := (sv_wait s)(rid := None)\<rparr>))"
    from waiting_ok_completed(2) [OF ok w r, of c] obtain st
      where st: "rq_next_step r = Some st" "cur_ok (base_off st) rid ?t" "st = StepCall2 \<or> st = StepPoll2"
      by blast
    have run: "run_step st rid ?t = Inl x"
      using f ENextStep st(1) by (simp add: get_req_alive [OF alive r])
    have "\<not> param_taken st (complete_request c r)" using st(3) by (auto simp: param_taken_def)
    from run_step_fault [OF run _ _ st(2) this] alive show ?thesis by auto
  next
    case EClose
    with f alive show ?thesis by (simp add: server_close_fault)
  next
    case EDelete
    with f en have "server_close s = Inl x \<or> (\<exists>t. server_close s = Inr t \<and> refCount_add (-1) (t\<lparr>sv_owned := False\<rparr>) = Inl x)"
      by (simp add: server_delete_def bindR_eq_Inl)
    moreover have "refCount_add (-1) (t\<lparr>sv_owned := False\<rparr>) \<noteq> Inl x" if "server_close s = Inr t" for t
      using server_close_fields [OF that] by (simp add: refCount_add_def ctx_alive_def Let_def)
    ultimately show ?thesis using alive by (auto dest: server_close_fault)
  qed
qed

section \<open>Frames\<close>

text \<open>
  What a handler leaves alone: the receive loop, the owner's reference, and that it only adds to the
  log.  On a closed context a completed request adds only calls that release memory (\<open>quiet\<close>).
\<close>

fun quiet :: "action \<Rightarrow> bool" where
  "quiet (AOnFinish f rid) = True"
| "quiet (ABufFree b) = True"
| "quiet AFreeCtx = True"
| "quiet _ = False"

definition loop_fields where
  "loop_fields s = (sv_wait_recv s, sv_in_step2 s, sv_owned s, sv_on_closed s)"

definition frame :: "(action \<Rightarrow> bool) \<Rightarrow> servctx \<Rightarrow> servctx \<Rightarrow> bool" where
  "frame P s s' \<longleftrightarrow> loop_fields s' = loop_fields s \<and> (sv_closed s \<longrightarrow> sv_closed s')
     \<and> (\<exists>l. sv_log s' = sv_log s @ l \<and> list_all P l)"

definition allowed :: "(action \<Rightarrow> bool) \<Rightarrow> servctx \<Rightarrow> bool" where
  "allowed P s \<longleftrightarrow> (\<forall>a. quiet a \<longrightarrow> P a) \<and> (sv_closed s \<or> (\<forall>a. P a))"

lemma frame_refl: "frame P s s"
  by (simp add: frame_def)

lemma frame_trans: "frame P s t \<Longrightarrow> frame P t u \<Longrightarrow> frame P s u"
  by (auto simp: frame_def)

lemma frame_allowed: "frame P s t \<Longrightarrow> allowed P s \<Longrightarrow> allowed P t"
  by (auto simp: frame_def allowed_def)

text \<open>The same fields and the same log: nothing to show.\<close>

definition frame_fields where
  "frame_fields s = (loop_fields s, sv_closed s, sv_log s)"

lemma frame_eq: "frame_fields t = frame_fields s \<Longrightarrow> frame P s t"
  by (simp add: frame_def frame_fields_def)

lemma frame_put_req: "frame P s (put_req rid r s)"
  by (rule frame_eq) (simp add: frame_fields_def loop_fields_def put_req_def)

lemma frame_emit: "P a \<Longrightarrow> frame P s (emit a s)"
  by (simp add: frame_def loop_fields_def emit_def)

lemma server_close_frame: "server_close s = Inr t \<Longrightarrow> allowed P s \<Longrightarrow> frame P s t"
proof (drule server_close_cases, cases "sv_closed s")
  case False
  assume "allowed P s" and "\<not> sv_freed s \<and> (if sv_closed s then t = s else
      \<exists>p l. drop_all_objects (sv_pool s) = Inr p \<and>
        t = s\<lparr>sv_closed := True, sv_pool := p, sv_log := sv_log s @ AIoClose # l\<rparr>)"
  with False obtain p l where "t = s\<lparr>sv_closed := True, sv_pool := p, sv_log := sv_log s @ AIoClose # l\<rparr>"
    and "\<And>a. P a" by (auto simp: allowed_def)
  then show ?thesis by (simp add: frame_def loop_fields_def list_all_iff)
qed (simp add: frame_refl)

lemma close_on_send_error_frame:
  assumes "close_on_send_error s = Inr t" and "allowed P s"
  shows "frame P s t"
proof (cases "sv_send_error s = None")
  case True
  with assms show ?thesis by (simp add: close_on_send_error_def frame_refl)
next
  case False
  let ?s = "s\<lparr>sv_last_error := sv_send_error s\<rparr>"
  have "frame P ?s t"
    using assms False by (intro server_close_frame) (auto simp: close_on_send_error_def allowed_def)
  then show ?thesis by (simp add: frame_def loop_fields_def)
qed

lemma free_param_frame: "free_param p s = Inr t \<Longrightarrow> allowed P s \<Longrightarrow> frame P s t"
  by (auto simp: free_param_def frame_def loop_fields_def allowed_def emit_def
      split: if_splits prod.splits option.splits)

lemma call_on_finish_frame: "allowed P s \<Longrightarrow> frame P s (call_on_finish rid r s)"
  by (auto simp: call_on_finish_def frame_refl allowed_def intro: frame_emit split: option.splits)

lemma refCount_add_frame: "refCount_add k s = Inr t \<Longrightarrow> allowed P s \<Longrightarrow> frame P s t"
  by (auto simp: refCount_add_def Let_def frame_def loop_fields_def allowed_def emit_def split: if_splits)

lemma finishRequest_frame:
  assumes fin: "finishRequest rid s = Inr s'" and al: "allowed P s"
  shows "frame P s s'"
proof -
  from fin obtain r t u v where t: "close_on_send_error s = Inr t"
    and u: "free_param (rq_param_base r) (call_on_finish rid r t) = Inr u"
    and v: "refCount_add (-1) u = Inr v" and s': "s' = v\<lparr>sv_reqs := (sv_reqs v)(rid := None)\<rparr>"
    unfolding finishRequest_def by auto
  have 1: "frame P s t" by (rule close_on_send_error_frame [OF t al])
  have 2: "frame P s (call_on_finish rid r t)"
    by (rule frame_trans [OF 1 call_on_finish_frame [OF frame_allowed [OF 1 al]]])
  have 3: "frame P s u"
    by (rule frame_trans [OF 2 free_param_frame [OF u frame_allowed [OF 2 al]]])
  have 4: "frame P s v"
    by (rule frame_trans [OF 3 refCount_add_frame [OF v frame_allowed [OF 3 al]]])
  then show ?thesis
    unfolding s' by (rule frame_trans) (rule frame_eq, simp add: frame_fields_def loop_fields_def)
qed

lemma writeResult_frame:
  assumes w: "writeResult rid s = Inr s'" and al: "allowed P s"
  shows "frame P s s'"
proof -
  from w obtain r where r: "sv_reqs s rid = Some r" by (auto simp: writeResult_def)
  show ?thesis
  proof (cases "sv_closed s")
    case True
    with w r show ?thesis by (auto simp: writeResult_def Let_def intro: frame_put_req)
  next
    case False
    with al have "\<And>a. P a" by (auto simp: allowed_def)
    with w r False show ?thesis unfolding writeResult_def Let_def
      by (auto simp: frame_def loop_fields_def put_req_def emit_def split: option.splits if_splits)
  qed
qed

lemma stepCall2_frame:
  assumes st: "stepCall2 rid s = Inr s'" and al: "allowed P s"
  shows "frame P s s'"
proof -
  from st obtain r where "(if rq_session r \<noteq> 0xffffffff
             then writeResult rid (put_req rid (r\<lparr>rq_next_step := Some FinishRequest\<rparr>) s)
             else finishRequest rid s) = Inr s'"
    by (auto simp: stepCall2_def)
  then show ?thesis
    using finishRequest_frame [OF _ al, of rid s']
      frame_trans [OF frame_put_req writeResult_frame [OF _ frame_allowed [OF frame_put_req al]]]
    by (auto split: if_splits)
qed

lemma call_slot_frame:
  "call_slot i st rid s = Inr s' \<Longrightarrow> (\<And>a. P a) \<Longrightarrow> frame P s s'"
  by (auto simp: call_slot_def frame_def loop_fields_def put_req_def emit_def split: if_splits option.splits)

lemma pool_frame [intro]: "frame P s (s\<lparr>sv_pool := q\<rparr>)"
  by (rule frame_eq) (simp add: frame_fields_def loop_fields_def)

text \<open>The steps a completion can run keep quiet on a closed context.\<close>

definition completing :: "step \<Rightarrow> bool" where
  "completing st \<longleftrightarrow> st \<in> {StepCall2, StepPoll2, StepPoll3, FinishRequest}"

lemma stepPoll3_frame:
  assumes st: "stepPoll3 rid s = Inr s'" and al: "allowed P s"
  shows "frame P s s'"
proof -
  from st obtain r t where t: "close_on_send_error s = Inr t"
    and d: "(if rq_rejected r \<or> sv_closed t then finishRequest rid (put_req rid (r\<lparr>rq_callable_index := -5,
            rq_param_base := ptr_add (rq_param_base r) (-4), rq_param_len := rq_param_len r + 4\<rparr>) t)
          else call_slot (sint (rq_callable_index r)) StepPoll2 rid
            (put_req rid (prepareRequest r) (call_on_finish rid r t))) = Inr s'"
    by (auto simp: stepPoll3_def)
  have 1: "frame P s t" by (rule close_on_send_error_frame [OF t al])
  note alt = frame_allowed [OF 1 al]
  show ?thesis
  proof (cases "rq_rejected r \<or> sv_closed t")
    case True
    let ?t = "put_req rid (r\<lparr>rq_callable_index := -5, rq_param_base := ptr_add (rq_param_base r) (-4),
                rq_param_len := rq_param_len r + 4\<rparr>) t"
    have 2: "frame P s ?t" by (rule frame_trans [OF 1 frame_put_req])
    from d True have "finishRequest rid ?t = Inr s'" by simp
    from frame_trans [OF 2 finishRequest_frame [OF this frame_allowed [OF 2 al]]] show ?thesis .
  next
    case False
    then have all: "P a" for a using alt by (auto simp: allowed_def)
    let ?t = "put_req rid (prepareRequest r) (call_on_finish rid r t)"
    have 2: "frame P s ?t"
      by (rule frame_trans [OF frame_trans [OF 1 call_on_finish_frame [OF alt]] frame_put_req])
    from d False have "call_slot (sint (rq_callable_index r)) StepPoll2 rid ?t = Inr s'" by simp
    from frame_trans [OF 2 call_slot_frame [OF this, of P]] all show ?thesis by simp
  qed
qed

lemma run_step_frame:
  assumes run: "run_step st rid s = Inr s'" and al: "allowed P s" and c: "completing st \<or> (\<forall>a. P a)"
  shows "frame P s s'"
proof (cases st)
  case StepCall1
  with run c show ?thesis by (auto simp: stepCall1_def completing_def intro: call_slot_frame)
next
  case StepCall2
  with run al show ?thesis by (auto intro: stepCall2_frame)
next
  case StepGetFunc1
  with run obtain r res t where t: "lookup_func r s = Inr (res, t)"
    and s': "stepCall2 rid (put_req rid (r\<lparr>rq_getFuncRes := res, rq_result := (le32 res, snd (rq_result r))\<rparr>) t) = Inr s'"
    by (auto simp: stepGetFunc1_def)
  have "frame P s t" using t by (auto simp: lookup_func_def frame_refl split: option.splits)
  from frame_trans [OF this frame_put_req] have f: "frame P s (put_req rid (r\<lparr>rq_getFuncRes := res,
      rq_result := (le32 res, snd (rq_result r))\<rparr>) t)" .
  from frame_trans [OF f stepCall2_frame [OF s' frame_allowed [OF f al]]] show ?thesis .
next
  case StepFreeRef1
  with run obtain r :: request and t where
    t: "foldR (free_index_at (rq_param_base r)) (free_offsets (rq_param_len r)) s = Inr t"
    and s': "stepCall2 rid t = Inr s'"
    by (auto simp: stepFreeRef1_def)
  have f: "frame P s t"
    by (rule foldR_inv [OF t, where P = "frame P s"])
      (auto simp: free_index_at_def frame_refl intro: frame_trans)
  from frame_trans [OF f stepCall2_frame [OF s' frame_allowed [OF f al]]] show ?thesis .
next
  case StepClose1
  with run al show ?thesis by (auto simp: stepClose1_def intro: server_close_frame)
next
  case StepGetInfo1
  with run obtain r where
    s': "stepCall2 rid (put_req rid (r\<lparr>rq_result := (string_bytes ServerInfo, snd (rq_result r))\<rparr>) s) = Inr s'"
    by (auto simp: stepGetInfo1_def)
  from frame_trans [OF frame_put_req stepCall2_frame [OF s' frame_allowed [OF frame_put_req al]]]
  show ?thesis .
next
  case StepPoll1
  with run obtain t i where "call_slot i StepPoll2 rid (put_req rid t s) = Inr s'"
    by (auto simp: stepPoll1_def Let_def)
  from frame_trans [OF frame_put_req call_slot_frame [OF this, of P]] c StepPoll1 show ?thesis
    by (simp add: completing_def)
next
  case StepPoll2
  with run obtain r where w: "writeResult rid (put_req rid (r\<lparr>rq_next_step := Some StepPoll3\<rparr>) s) = Inr s'"
    by (auto simp: stepPoll2_def)
  from frame_trans [OF frame_put_req writeResult_frame [OF w frame_allowed [OF frame_put_req al]]]
  show ?thesis .
next
  case StepPoll3
  with run al show ?thesis by (auto intro: stepPoll3_frame)
next
  case FinishRequest
  with run al show ?thesis by (auto intro: finishRequest_frame)
qed

text \<open>A completion event of a reachable state runs a completing step.\<close>

lemma completion_run:
  assumes re: "serv_reach s" and en: "enabled e s" and ev: "serv_event e s = Inr s'"
    and e: "(\<exists>rid err. e = ESent rid err) \<or> (\<exists>rid c. e = ENextStep rid c)"
  shows "\<exists>st rid t. run_step st rid t = Inr s' \<and> completing st \<and> frame_fields t = frame_fields s"
  using e
proof (elim disjE exE)
  fix rid err assume e: "e = ESent rid err"
  with en obtain st where w: "sv_wait s rid = Some (WaitSend st)"
    by (auto split: option.splits awaited.splits)
  with serv_reach_wf [OF re] obtain r where r: "sv_reqs s rid = Some r" by (auto simp: serv_wf_def)
  let ?t = "s\<lparr>sv_wait := (sv_wait s)(rid := None), sv_send_error := err\<rparr>"
  have "run_step st rid ?t = Inr s'" using ev e w by simp
  moreover have "st = FinishRequest \<or> st = StepPoll3"
    by (rule waiting_ok_sent(3) [OF serv_reach_mem [OF re] w r, of ?t]) simp_all
  moreover have "frame_fields ?t = frame_fields s" by (simp add: frame_fields_def loop_fields_def)
  ultimately show ?thesis by (auto simp: completing_def)
next
  fix rid c assume e: "e = ENextStep rid c"
  with en serv_reach_wf [OF re] obtain r where w: "sv_wait s rid = Some WaitCall" and r: "sv_reqs s rid = Some r"
    by (auto simp: serv_wf_def)
  let ?t = "put_req rid (complete_request c r) (take_param c r (s\<lparr>sv_wait := (sv_wait s)(rid := None)\<rparr>))"
  from waiting_ok_completed(2) [OF serv_reach_mem [OF re] w r, of c] obtain st
    where st: "rq_next_step r = Some st" "st = StepCall2 \<or> st = StepPoll2" by blast
  have "run_step st rid ?t = Inr s'" using ev e st(1) r by auto
  moreover have "frame_fields ?t = frame_fields s"
    by (simp add: frame_fields_def loop_fields_def put_req_def take_param_def split: option.splits)
  ultimately show ?thesis using st(2) by (auto simp: completing_def)
qed

lemma completion_frame:
  assumes "serv_reach s" and "enabled e s" and "serv_event e s = Inr s'"
    and "(\<exists>rid err. e = ESent rid err) \<or> (\<exists>rid c. e = ENextStep rid c)" and al: "allowed P s"
  shows "frame P s s'"
proof -
  from completion_run [OF assms(1-4)] obtain st rid t where
    t: "run_step st rid t = Inr s'" "completing st" "frame_fields t = frame_fields s" by blast
  have f: "frame P s t" by (rule frame_eq [OF t(3)])
  from frame_trans [OF f run_step_frame [OF t(1) frame_allowed [OF f al]]] t(2) show ?thesis by blast
qed

lemma server_delete_frame:
  assumes d: "server_delete s = Inr s'" and al: "allowed P s"
  shows "sv_wait_recv s' = sv_wait_recv s \<and> sv_in_step2 s' = sv_in_step2 s \<and> (sv_closed s \<longrightarrow> sv_closed s')
     \<and> (\<exists>l. sv_log s' = sv_log s @ l \<and> list_all P l)"
proof (cases "sv_owned s")
  case False
  with d show ?thesis by (simp add: server_delete_def)
next
  case True
  with d obtain t where t: "server_close s = Inr t" "refCount_add (-1) (t\<lparr>sv_owned := False\<rparr>) = Inr s'"
    by (auto simp: server_delete_def)
  have 1: "frame P s t" by (rule server_close_frame [OF t(1) al])
  have "allowed P (t\<lparr>sv_owned := False\<rparr>)" using frame_allowed [OF 1 al] by (simp add: allowed_def)
  from refCount_add_frame [OF t(2) this] 1 show ?thesis by (auto simp: frame_def loop_fields_def)
qed

definition listening :: "servctx \<Rightarrow> bool" where
  "listening s \<longleftrightarrow> \<not> (sv_wait_recv s \<and> sv_in_step2 s) \<and> (\<not> sv_closed s \<longrightarrow> sv_wait_recv s \<or> sv_in_step2 s)"

lemma frame_listening: "frame P s t \<Longrightarrow> listening s \<Longrightarrow> listening t"
  by (auto simp: frame_def loop_fields_def listening_def)

lemma allowed_True [simp]: "allowed (\<lambda>_. True) s"
  by (simp add: allowed_def)

lemma server_step2_listening:
  assumes st: "server_step2 b s = Inr s'" and idle: "\<not> sv_wait_recv s" "\<not> sv_in_step2 s"
  shows "listening s'"
proof (cases "sv_closed s \<or> sv_receive_error s \<noteq> None")
  case True
  with st have "s' = s \<and> sv_closed s \<or> server_close (s\<lparr>sv_last_error := sv_receive_error s\<rparr>) = Inr s'"
    by (auto simp: server_step2_def split: if_splits)
  moreover have "listening s'" if c: "server_close (s\<lparr>sv_last_error := sv_receive_error s\<rparr>) = Inr s'"
    using server_close_frame [OF c allowed_True] server_close_fields [OF c] idle
    by (simp add: frame_def loop_fields_def listening_def)
  ultimately show ?thesis using idle by (auto simp: listening_def)
next
  case False
  let ?s = "s\<lparr>sv_last_error := None\<rparr>"
  from st False obtain session rid t r' st' where
    n: "newRequest session ?s = Inr (rid, t)"
    and run: "run_step st' rid (put_req rid r' (t\<lparr>sv_in_step2 := True\<rparr>)) = Inr s'"
    by (auto simp: server_step2_def Let_def split: option.splits)
  have "\<not> sv_wait_recv t"
    using n idle by (auto simp: newRequest_def Let_def put_req_def frame_def loop_fields_def
        dest: refCount_add_frame [OF _ allowed_True])
  then have "listening (put_req rid r' (t\<lparr>sv_in_step2 := True\<rparr>))" by (simp add: listening_def put_req_def)
  with run_step_frame [OF run allowed_True] show ?thesis by (auto intro: frame_listening)
qed

lemma serv_reach_listening: "serv_reach s \<Longrightarrow> listening s"
proof (induction rule: serv_reach.induct)
  case (start fm oc s)
  then show ?case
    by (auto simp: server_start_def server_new_def server_step1_def listening_def emit_def)
next
  case (step s e s')
  then have en: "enabled e s" and ev: "serv_event e s = Inr s'" by (auto elim!: serv_stepE)
  show ?case
  proof (cases e)
    case (EReceived b m)
    with en step.IH have "\<not> sv_in_step2 s" by (simp add: listening_def)
    with ev EReceived show ?thesis by (auto intro: server_step2_listening)
  next
    case (EReceiveFailed x)
    with en step.IH have "\<not> sv_in_step2 s" by (simp add: listening_def)
    with ev EReceiveFailed show ?thesis by (auto intro: server_step2_listening)
  next
    case EReturn
    with ev en step.IH show ?thesis
      by (auto simp: server_step2_return_def server_step1_def listening_def emit_def split: if_splits)
  next
    case EClose
    with ev step.IH show ?thesis using server_close_frame [OF _ allowed_True] by (auto intro: frame_listening)
  next
    case EDelete
    with ev step.IH server_delete_frame [OF _ allowed_True, of s s'] show ?thesis
      by (auto simp: listening_def)
  qed (use completion_frame [OF step.hyps(1) en ev _ allowed_True] step.IH in \<open>auto intro: frame_listening\<close>)
qed

lemma closed_event_quiet:
  assumes re: "serv_reach s" and en: "enabled e s" and ev: "serv_event e s = Inr s'" and c: "sv_closed s"
  shows "sv_closed s' \<and> (\<exists>l. sv_log s' = sv_log s @ l \<and> list_all quiet l)"
proof -
  have al: "allowed quiet s" using c by (simp add: allowed_def)
  show ?thesis
  proof (cases e)
    case EDelete
    with ev c server_delete_frame [OF _ al] show ?thesis by simp
  next
    case EClose
    with ev c show ?thesis by (auto simp: server_close_def)
  qed (use ev c completion_frame [OF re en ev _ al] in
      \<open>auto simp: server_step2_def server_step2_return_def server_step1_def frame_def\<close>)
qed

section \<open>Requests do not touch each other\<close>

definition others :: "reqid \<Rightarrow> servctx \<Rightarrow> servctx \<Rightarrow> bool" where
  "others rid s t \<longleftrightarrow> (\<forall>x. x \<noteq> rid \<longrightarrow> sv_reqs t x = sv_reqs s x \<and> sv_wait t x = sv_wait s x)"

lemma others_trans: "others rid s t \<Longrightarrow> others rid t u \<Longrightarrow> others rid s u"
  by (simp add: others_def)

lemma others_put_req: "others rid s (put_req rid r s)"
  by (simp add: others_def)

lemma others_mem_fields: "mem_fields t = mem_fields s \<Longrightarrow> others rid s t"
  by (simp add: others_def mem_fields_def)

lemma finishRequest_others:
  assumes fin: "finishRequest rid s = Inr s'"
  shows "others rid s s'"
proof -
  from fin obtain r t u v where t: "close_on_send_error s = Inr t"
    and u: "free_param (rq_param_base r) (call_on_finish rid r t) = Inr u"
    and v: "refCount_add (-1) u = Inr v" and s': "s' = v\<lparr>sv_reqs := (sv_reqs v)(rid := None)\<rparr>"
    unfolding finishRequest_def by auto
  show ?thesis
    using close_on_send_error_fields [OF t] free_param_fields [OF u] refCount_add_fields(4,5) [OF v]
    unfolding s' by (simp add: others_def)
qed

lemma writeResult_others: "writeResult rid s = Inr s' \<Longrightarrow> others rid s s'"
  by (auto simp: writeResult_def Let_def others_def split: if_splits option.splits)

lemma call_slot_others: "call_slot i st rid s = Inr s' \<Longrightarrow> others rid s s'"
  by (auto simp: call_slot_def others_def split: if_splits option.splits)

lemma stepCall2_others:
  assumes st: "stepCall2 rid s = Inr s'"
  shows "others rid s s'"
proof -
  from st obtain r where "(if rq_session r \<noteq> 0xffffffff
             then writeResult rid (put_req rid (r\<lparr>rq_next_step := Some FinishRequest\<rparr>) s)
             else finishRequest rid s) = Inr s'"
    by (auto simp: stepCall2_def)
  then show ?thesis
    using finishRequest_others others_trans [OF others_put_req writeResult_others] by (auto split: if_splits)
qed

lemma stepPoll3_others:
  assumes st: "stepPoll3 rid s = Inr s'"
  shows "others rid s s'"
proof -
  from st obtain r t where t: "close_on_send_error s = Inr t"
    and d: "(if rq_rejected r \<or> sv_closed t then finishRequest rid (put_req rid (r\<lparr>rq_callable_index := -5,
            rq_param_base := ptr_add (rq_param_base r) (-4), rq_param_len := rq_param_len r + 4\<rparr>) t)
          else call_slot (sint (rq_callable_index r)) StepPoll2 rid
            (put_req rid (prepareRequest r) (call_on_finish rid r t))) = Inr s'"
    by (auto simp: stepPoll3_def)
  have 1: "others rid s t" by (rule others_mem_fields [OF mem_fields_close_on_send_error [OF t]])
  have 2: "others rid t (call_on_finish rid r t)" by (rule others_mem_fields) simp
  show ?thesis
  proof (cases "rq_rejected r \<or> sv_closed t")
    case True
    with d have "finishRequest rid (put_req rid (r\<lparr>rq_callable_index := -5,
            rq_param_base := ptr_add (rq_param_base r) (-4), rq_param_len := rq_param_len r + 4\<rparr>) t) = Inr s'"
      by simp
    from others_trans [OF others_trans [OF 1 others_put_req] finishRequest_others [OF this]] show ?thesis .
  next
    case False
    with d have "call_slot (sint (rq_callable_index r)) StepPoll2 rid
            (put_req rid (prepareRequest r) (call_on_finish rid r t)) = Inr s'" by simp
    from others_trans [OF others_trans [OF others_trans [OF 1 2] others_put_req] call_slot_others [OF this]]
    show ?thesis .
  qed
qed

lemma completing_others:
  assumes "run_step st rid s = Inr s'" and "completing st"
  shows "others rid s s'"
  using assms others_trans [OF others_put_req writeResult_others]
  by (auto simp: completing_def stepPoll2_def intro: stepCall2_others stepPoll3_others finishRequest_others)

text \<open>A request that waits for nothing on a closed context stays there.\<close>

definition orphan :: "reqid \<Rightarrow> servctx \<Rightarrow> bool" where
  "orphan rid s \<longleftrightarrow> sv_closed s \<and> sv_reqs s rid \<noteq> None \<and> sv_wait s rid = None"

lemma orphan_event:
  assumes re: "serv_reach s" and en: "enabled e s" and ev: "serv_event e s = Inr s'" and orph: "orphan rid s"
  shows "orphan rid s'"
proof -
  from orph have c: "sv_closed s" and live: "sv_reqs s rid \<noteq> None" and idle: "sv_wait s rid = None"
    by (simp_all add: orphan_def)
  have c': "sv_closed s'" using closed_event_quiet [OF re en ev c] by simp
  have same: "sv_reqs s' rid = sv_reqs s rid \<and> sv_wait s' rid = sv_wait s rid"
  proof (cases e)
    case (ESent rid' err)
    with en obtain st where w: "sv_wait s rid' = Some (WaitSend st)"
      by (auto split: option.splits awaited.splits)
    with serv_reach_wf [OF re] obtain r where r: "sv_reqs s rid' = Some r" by (auto simp: serv_wf_def)
    let ?t = "s\<lparr>sv_wait := (sv_wait s)(rid' := None), sv_send_error := err\<rparr>"
    have "st = FinishRequest \<or> st = StepPoll3"
      by (rule waiting_ok_sent(3) [OF serv_reach_mem [OF re] w r, of ?t]) simp_all
    moreover have "run_step st rid' ?t = Inr s'" using ev ESent w by simp
    ultimately have "others rid' ?t s'" by (auto intro: completing_others simp: completing_def)
    moreover have "rid \<noteq> rid'" using w idle by auto
    ultimately show ?thesis by (auto simp: others_def)
  next
    case (ENextStep rid' cp)
    with en serv_reach_wf [OF re] obtain r where w: "sv_wait s rid' = Some WaitCall" and r: "sv_reqs s rid' = Some r"
      by (auto simp: serv_wf_def)
    let ?t = "put_req rid' (complete_request cp r) (take_param cp r (s\<lparr>sv_wait := (sv_wait s)(rid' := None)\<rparr>))"
    from waiting_ok_completed(2) [OF serv_reach_mem [OF re] w r, of cp] obtain st
      where st: "rq_next_step r = Some st" "st = StepCall2 \<or> st = StepPoll2" by blast
    have "run_step st rid' ?t = Inr s'" using ev ENextStep st(1) r by auto
    with st(2) have "others rid' ?t s'" by (auto intro: completing_others simp: completing_def)
    moreover have "rid \<noteq> rid'" using w idle by auto
    ultimately show ?thesis by (auto simp: others_def)
  next
    case EDelete
    with ev show ?thesis using server_delete_mem by (auto simp: mem_fields_def)
  next
    case EClose
    with ev c show ?thesis by (auto simp: server_close_def)
  qed (use ev c in \<open>auto simp: server_step2_def server_step2_return_def server_step1_def\<close>)
  with c' live idle show ?thesis by (simp add: orphan_def)
qed

section \<open>Properties\<close>

lemma server_start_reach:
  "\<exists>s. server_start (server_new None True) = Inr s \<and> serv_reach s \<and> sv_wait_recv s \<and> sv_bufs s = (\<lambda>_. None)
     \<and> \<not> sv_closed s \<and> sv_next_req s = 0 \<and> sv_owned s \<and> sv_reqs s = (\<lambda>_. None) \<and> \<not> sv_freed s
     \<and> sv_wait s = (\<lambda>_. None)"
proof -
  obtain s where s: "server_start (server_new None True) = Inr s"
    by (simp add: server_start_def server_new_def server_step1_def ctx_alive_def)
  moreover from s have "sv_wait_recv s \<and> sv_bufs s = (\<lambda>_. None) \<and> \<not> sv_closed s \<and> sv_next_req s = 0
      \<and> sv_owned s \<and> sv_reqs s = (\<lambda>_. None) \<and> \<not> sv_freed s \<and> sv_wait s = (\<lambda>_. None)"
    by (auto simp: server_start_def server_new_def server_step1_def emit_def)
  ultimately show ?thesis using serv_reach.start by blast
qed

text \<open>
  C2. Life time of the context, over every sequence of completions and calls of the owner: the
  reference counter is exactly the number of requests in memory plus one for the owner, and the context
  is freed exactly when the owner has deleted it and no request is left.  The bound excludes the
  wrap-around of the 32-bit counter.
\<close>

theorem server_lifetime:
  assumes "serv_reach s" and "sv_next_req s < 2 ^ 32 - 1"
  shows "unat (sv_refCount s) = card (dom (sv_reqs s)) + (if sv_owned s then 1 else 0)
     \<and> (sv_freed s \<longleftrightarrow> \<not> sv_owned s \<and> sv_reqs s = (\<lambda>_. None))"
  using reach_refCount [OF assms] by blast

theorem server_lifetime_witness:
  "\<exists>s. serv_reach s \<and> unat (sv_refCount s) = 1 \<and> \<not> sv_freed s"
proof -
  from server_start_reach obtain s where s: "serv_reach s" "sv_next_req s = 0" "sv_owned s"
    "sv_reqs s = (\<lambda>_. None)" by blast
  with server_lifetime [of s] show ?thesis by (intro exI [of _ s]) simp
qed



text \<open>
  C15. While the connection is open every request in memory waits for exactly one completion, and what
  it waits for fits its state: a callable whose completion runs step 2 of the call or of the poll, or a
  send that ends in finishing the request or in step 3 of the poll.  Its parameter pointer is null or
  points 8 bytes (12 for a poll) into a live receive buffer, and no two waiting requests share a buffer.
\<close>

theorem requests_wait_once:
  assumes "serv_reach s"
  shows "(\<not> sv_closed s \<longrightarrow> dom (sv_wait s) = dom (sv_reqs s))
    \<and> (\<forall>rid w r. sv_wait s rid = Some w \<longrightarrow> sv_reqs s rid = Some r \<longrightarrow> wait_ok w r s)
    \<and> (\<forall>rid rid' b. holds_buf rid b s \<longrightarrow> holds_buf rid' b s \<longrightarrow> rid = rid')"
  using serv_reach_wf [OF assms] serv_reach_mem [OF assms] by (simp add: serv_wf_def waiting_ok_def)

theorem requests_wait_once_witness:
  "\<exists>s. serv_reach s \<and> \<not> sv_closed s \<and> dom (sv_wait s) = dom (sv_reqs s)"
proof -
  from server_start_reach obtain s where "serv_reach s" "\<not> sv_closed s" by blast
  with requests_wait_once [of s] show ?thesis by blast
qed

text \<open>
  C16. The receive loop never stalls and never doubles: while the connection is open, either one
  receive is outstanding or \<open>step2\<close> has still to issue it, and never both.
\<close>

theorem receive_loop_alive:
  assumes "serv_reach s"
  shows "\<not> (sv_wait_recv s \<and> sv_in_step2 s) \<and> (\<not> sv_closed s \<longrightarrow> sv_wait_recv s \<or> sv_in_step2 s)"
  using serv_reach_listening [OF assms] by (simp add: listening_def)

theorem receive_loop_alive_witness:
  "\<exists>s. serv_reach s \<and> sv_wait_recv s \<and> \<not> sv_in_step2 s"
proof -
  from server_start_reach obtain s where "serv_reach s" "sv_wait_recv s" by blast
  with receive_loop_alive [of s] show ?thesis by blast
qed


lemma server_closed_reach:
  "\<exists>s. serv_reach s \<and> sv_closed s \<and> sv_owned s \<and> \<not> sv_freed s \<and> sv_next_req s = 0"
proof -
  from server_start_reach obtain s where s: "server_start (server_new None True) = Inr s" "serv_reach s"
    "\<not> sv_freed s" "\<not> sv_closed s" "sv_owned s" "sv_next_req s = 0" by blast
  then have "ref_pool_size (sv_pool s) = 0"
    by (auto simp: server_start_def server_new_def server_step1_def emit_def)
  then have "drop_all_objects (sv_pool s) = Inr (sv_pool s)" by (simp add: drop_all_objects_def)
  with s obtain t where t: "server_close s = Inr t" by (simp add: server_close_def ctx_alive_def Let_def)
  then have "serv_step s EClose t" using s by (intro serv_step.intros) simp_all
  with s have "serv_reach t" by (blast intro: serv_reach.step)
  with server_close_fields [OF t] s show ?thesis by (intro exI [of _ t]) (auto simp: wf_fields_def)
qed


end
