(* ===== verification/ServerReplies.thy ===== *)
theory ServerReplies
  imports ServerSafety
begin

text \<open>
  What the request machine of \<open>c/pxprpc/server.c\<close> answers: the state after a packet has been taken
  apart, the reply to a call, the built-in functions of negative index, polls, and the packets that
  make it fail.
\<close>

section \<open>Taking a packet apart\<close>

definition packet_of :: "u32 \<Rightarrow> u32 \<Rightarrow> bytes \<Rightarrow> bytes" where
  "packet_of session idx rest = le32 session @ le32 idx @ rest"

definition packet_request :: "u32 \<Rightarrow> u32 \<Rightarrow> nat \<Rightarrow> nat \<Rightarrow> request" where
  "packet_request session idx b len =
     prepareRequest (zero_request\<lparr>rq_session := session, rq_callable_index := idx,
       rq_param_base := (Some b, 8), rq_param_len := of_nat len\<rparr>)"

definition packet_state :: "nat \<Rightarrow> bytes \<Rightarrow> request \<Rightarrow> servctx \<Rightarrow> servctx" where
  "packet_state b m r s =
     s\<lparr>sv_wait_recv := False, sv_receive_error := None, sv_bufs := (sv_bufs s)(b \<mapsto> m),
       sv_last_error := None, sv_next_req := sv_next_req s + 1,
       sv_reqs := (sv_reqs s)(sv_next_req s \<mapsto> r), sv_refCount := sv_refCount s + 1,
       sv_in_step2 := True\<rparr>"

lemma packet_state_sel [simp]:
  "sv_reqs (packet_state b m r s) = (sv_reqs s)(sv_next_req s \<mapsto> r)"
  "sv_closed (packet_state b m r s) = sv_closed s" "sv_freed (packet_state b m r s) = sv_freed s"
  "sv_bufs (packet_state b m r s) = (sv_bufs s)(b \<mapsto> m)" "sv_pool (packet_state b m r s) = sv_pool s"
  "sv_wait (packet_state b m r s) = sv_wait s" "sv_log (packet_state b m r s) = sv_log s"
  "sv_funcmap (packet_state b m r s) = sv_funcmap s" "sv_owned (packet_state b m r s) = sv_owned s"
  by (simp_all add: packet_state_def)

lemma packet_request_sel [simp]:
  "rq_session (packet_request session idx b len) = session"
  "rq_param_base (packet_request session idx b len) = (Some b, 8)"
  "rq_param_len (packet_request session idx b len) = of_nat len"
  "rq_callable_index (packet_request session idx b len) = idx"
  "rq_rejected (packet_request session idx b len) = False"
  "rq_result (packet_request session idx b len) = ([], [])"
  "rq_on_finish (packet_request session idx b len) = None"
  by (simp_all add: packet_request_def prepareRequest_def zero_request_def Let_def)

lemma packet_param:
  "sv_bufs s b = Some (packet_of session idx rest) \<Longrightarrow> off + n \<le> length rest \<Longrightarrow>
     buf_read (Some b, 8) off n s = Inr (take n (drop off rest))"
  by (simp add: buf_read_def read_mem_def packet_of_def)

definition open_reach :: "servctx \<Rightarrow> bool" where
  "open_reach s \<longleftrightarrow> serv_reach s \<and> \<not> sv_closed s \<and> \<not> sv_freed s \<and> sv_next_req s < 2 ^ 32 - 2"

lemma receive_packet:
  assumes op: "open_reach s"
  shows "serv_event (EReceived b (packet_of session idx rest)) s =
    (let r = packet_request session idx b (length rest)
     in case rq_next_step r of None \<Rightarrow> Inl NullDeref
        | Some st \<Rightarrow> run_step st (sv_next_req s) (packet_state b (packet_of session idx rest) r s))"
proof -
  let ?m = "packet_of session idx rest"
  let ?s = "s\<lparr>sv_wait_recv := False, sv_receive_error := None, sv_bufs := (sv_bufs s)(b \<mapsto> ?m)\<rparr>"
  let ?u = "?s\<lparr>sv_last_error := None\<rparr>"
  from op have open_s: "\<not> sv_closed s" "\<not> sv_freed s" by (simp_all add: open_reach_def)
  have read: "buf_read (Some b, 0) 0 4 u = Inr (le32 session)" "buf_read (Some b, 0) 4 4 u = Inr (le32 idx)"
    if "sv_bufs u b = Some ?m" for u
    using that by (simp_all add: buf_read_def read_mem_def packet_of_def)
  have wf: "serv_wf {} ?u" using op serv_reach_wf by (simp add: open_reach_def)
  obtain rid t r where new: "newRequest session ?u = Inr (rid, t)" "\<not> sv_freed t" and r: "sv_reqs t rid = Some r"
    using newRequest_alive [of ?u session] wf op by (auto simp: open_reach_def)
  then have t: "rid = sv_next_req s" "r = zero_request\<lparr>rq_session := session\<rparr>"
    "t = put_req rid r (?u\<lparr>sv_next_req := sv_next_req s + 1, sv_refCount := sv_refCount s + 1\<rparr>)"
    by (auto simp: newRequest_def refCount_add_def Let_def put_req_def emit_def split: if_splits)
  let ?r = "packet_request session idx b (length rest)"
  have bt: "sv_bufs t b = Some ?m" by (simp add: t(3))
  have len: "of_nat (length ?m) - 8 = (of_nat (length rest) :: u32)" by (simp add: packet_of_def)
  have eq: "put_req rid ?r (t\<lparr>sv_in_step2 := True\<rparr>) = packet_state b ?m ?r s"
    by (simp add: t put_req_def packet_state_def)
  have req: "prepareRequest (r\<lparr>rq_callable_index := idx, rq_param_base := (Some b, 8),
      rq_param_len := of_nat (length (the (sv_bufs t b))) - 8\<rparr>) = ?r"
    by (simp only: bt option.sel len) (simp add: t(2) packet_request_def)
  have rd: "buf_read (Some b, 0) 0 4 ?s = Inr (le32 session)" by (rule read) simp
  have "serv_event (EReceived b ?m) s = server_step2 b ?s" by simp
  also have "\<dots> = (case rq_next_step ?r of None \<Rightarrow> Inl NullDeref
                     | Some st \<Rightarrow> run_step st rid (packet_state b ?m ?r s))"
    unfolding server_step2_def Let_def
    using open_s by (simp add: ctx_alive_def rd new(1) read(2) [OF bt] get_req_alive [OF new(2) r] req eq
        split: option.split)
  finally show ?thesis unfolding Let_def t(1) .
qed

lemma get_req_bind:
  "bindR (get_req rid s) f = (case sv_reqs s rid of None \<Rightarrow> Inl UseAfterFree
     | Some r \<Rightarrow> if sv_freed s then Inl UseAfterFree else f r)"
  by (simp add: get_req_def ctx_alive_def split: option.split)

lemma close_on_send_error_none:
  "sv_send_error s = None \<Longrightarrow> \<not> sv_freed s \<Longrightarrow> close_on_send_error s = Inr s"
  by (simp add: close_on_send_error_def ctx_alive_def)

section \<open>Sending the result\<close>

lemma writeResult_open:
  "sv_reqs s rid = Some r \<Longrightarrow> \<not> sv_freed s \<Longrightarrow> \<not> sv_closed s \<Longrightarrow> rq_next_step r = Some st \<Longrightarrow>
     writeResult rid s =
       (let r' = (if rq_rejected r then r\<lparr>rq_session := rq_session r XOR 0x80000000\<rparr> else r)
        in Inr (emit (ASend rid (le32 (rq_session r') @ result_parts r'))
             ((put_req rid r' s)\<lparr>sv_wait := (sv_wait s)(rid \<mapsto> WaitSend st)\<rparr>)))"
  by (simp add: writeResult_def get_req_alive Let_def)

definition reply_bytes :: "request \<Rightarrow> bytes" where
  "reply_bytes r = le32 (if rq_rejected r then rq_session r XOR 0x80000000 else rq_session r) @ result_parts r"

definition sent_request :: "step \<Rightarrow> request \<Rightarrow> request" where
  "sent_request st r = r\<lparr>rq_next_step := Some st,
     rq_session := (if rq_rejected r then rq_session r XOR 0x80000000 else rq_session r)\<rparr>"

lemma sent_request_sel [simp]:
  "rq_param_base (sent_request st r) = rq_param_base r" "rq_on_finish (sent_request st r) = rq_on_finish r"
  "rq_next_step (sent_request st r) = Some st" "rq_rejected (sent_request st r) = rq_rejected r"
  "rq_callable_index (sent_request st r) = rq_callable_index r"
  by (simp_all add: sent_request_def)

lemma stepCall2_open:
  assumes "sv_reqs s rid = Some r" and "\<not> sv_freed s" and "\<not> sv_closed s" and "rq_session r \<noteq> 0xffffffff"
  shows "\<exists>s'. stepCall2 rid s = Inr s' \<and> sv_log s' = sv_log s @ [ASend rid (reply_bytes r)]
           \<and> sv_wait s' = (sv_wait s)(rid \<mapsto> WaitSend FinishRequest) \<and> sv_pool s' = sv_pool s
           \<and> sv_bufs s' = sv_bufs s \<and> \<not> sv_closed s' \<and> \<not> sv_freed s' \<and> sv_refCount s' = sv_refCount s
           \<and> sv_reqs s' = (sv_reqs s)(rid \<mapsto> sent_request FinishRequest r)"
  using assms
  by (simp add: stepCall2_def get_req_alive writeResult_open Let_def reply_bytes_def result_parts_def
      sent_request_def emit_def put_req_def)

lemma finishRequest_open:
  assumes r: "sv_reqs s rid = Some r" and alive: "\<not> sv_freed s" and err: "sv_send_error s = None"
    and base: "base_ok 8 r s" and rc: "sv_refCount s \<noteq> 1"
  shows "\<exists>s'. finishRequest rid s = Inr s' \<and> sv_reqs s' = (sv_reqs s)(rid := None) \<and> \<not> sv_freed s'
     \<and> sv_closed s' = sv_closed s \<and> sv_wait s' = sv_wait s \<and> sv_pool s' = sv_pool s
     \<and> sv_log s' = sv_log s @ (case rq_on_finish r of None \<Rightarrow> [] | Some f \<Rightarrow> [AOnFinish f rid])
         @ (case fst (rq_param_base r) of None \<Rightarrow> [] | Some b \<Rightarrow> [ABufFree b])
     \<and> sv_bufs s' = (case fst (rq_param_base r) of None \<Rightarrow> sv_bufs s | Some b \<Rightarrow> (sv_bufs s)(b := None))"
proof -
  let ?t = "call_on_finish rid r s"
  have t: "sv_log ?t = sv_log s @ (case rq_on_finish r of None \<Rightarrow> [] | Some f \<Rightarrow> [AOnFinish f rid])"
    "sv_refCount ?t = sv_refCount s"
    by (simp_all add: call_on_finish_def emit_def split: option.split)
  define u where "u = (case fst (rq_param_base r) of None \<Rightarrow> ?t
                       | Some b \<Rightarrow> emit (ABufFree b) (?t\<lparr>sv_bufs := (sv_bufs ?t)(b := None)\<rparr>))"
  have u: "free_param (rq_param_base r) ?t = Inr u"
    using base by (auto simp: base_ok_def free_param_def ptr_add_def null_ptr_def u_def)
  have u_sel: "sv_refCount u = sv_refCount s" "sv_freed u = sv_freed s" "sv_reqs u = sv_reqs s"
    "sv_closed u = sv_closed s" "sv_wait u = sv_wait s" "sv_pool u = sv_pool s"
    "sv_log u = sv_log ?t @ (case fst (rq_param_base r) of None \<Rightarrow> [] | Some b \<Rightarrow> [ABufFree b])"
    "sv_bufs u = (case fst (rq_param_base r) of None \<Rightarrow> sv_bufs s | Some b \<Rightarrow> (sv_bufs s)(b := None))"
    by (simp_all add: u_def t(2) emit_def split: option.split)
  have "sv_refCount u - 1 \<noteq> 0" using rc u_sel(1) by simp
  then have v: "refCount_add (-1) u = Inr (u\<lparr>sv_refCount := sv_refCount u - 1\<rparr>)"
    using alive u_sel(2) by (simp add: refCount_add_def ctx_alive_def Let_def)
  have c: "close_on_send_error s = Inr s" using alive err by (simp add: close_on_send_error_def ctx_alive_def)
  have "finishRequest rid s = Inr ((u\<lparr>sv_refCount := sv_refCount u - 1\<rparr>)
      \<lparr>sv_reqs := (sv_reqs (u\<lparr>sv_refCount := sv_refCount u - 1\<rparr>))(rid := None)\<rparr>)"
    unfolding finishRequest_def get_req_alive [OF alive r] by (simp add: c u v)
  then show ?thesis using u_sel t alive by simp
qed

section \<open>The life of a call\<close>

text \<open>Reachable, open, and its owner still holds it: finishing a request does not free it.\<close>

lemma owned_refCount:
  assumes re: "serv_reach s" and n: "sv_next_req s < 2 ^ 32 - 1" and own: "sv_owned s"
    and r: "sv_reqs s rid = Some r"
  shows "sv_refCount s \<noteq> 1" and "\<not> sv_freed s"
proof -
  have "finite (dom (sv_reqs s))" using serv_reach_wf [OF re] by (simp add: serv_wf_def)
  moreover have "rid \<in> dom (sv_reqs s)" using r by auto
  ultimately have "0 < card (dom (sv_reqs s))" by (auto simp: card_gt_0_iff)
  then have "unat (sv_refCount s) \<noteq> 1" using reach_refCount(1) [OF re n] own by simp
  then show "sv_refCount s \<noteq> 1" by auto
  show "\<not> sv_freed s" using reach_refCount(2) [OF re n] own by simp
qed

definition call_result :: "completion \<Rightarrow> bytes" where
  "call_result c = (if fst (cp_result c) \<noteq> [] then fst (cp_result c) @ concat (snd (cp_result c)) else [])"

lemma call_reply_lemma:
  assumes re: "serv_reach s" and n: "sv_next_req s < 2 ^ 32 - 1" and own: "sv_owned s" and op: "\<not> sv_closed s"
    and w: "sv_wait s rid = Some WaitCall" and r: "sv_reqs s rid = Some r" and nx: "rq_next_step r = Some StepCall2"
    and sess: "rq_session r \<noteq> 0xffffffff"
  shows "\<exists>s1 s2. serv_event (ENextStep rid c) s = Inr s1 \<and> serv_event (ESent rid None) s1 = Inr s2
     \<and> enabled (ESent rid None) s1
     \<and> sv_log s1 = sv_log s @ [ASend rid (le32 (if cp_rejected c then rq_session r XOR 0x80000000 else rq_session r) @ call_result c)]
     \<and> sv_log s2 = sv_log s1 @ (case cp_on_finish c of None \<Rightarrow> [] | Some f \<Rightarrow> [AOnFinish f rid])
         @ (case fst (rq_param_base r) of Some b \<Rightarrow> if cp_takes_param c then [] else [ABufFree b] | None \<Rightarrow> [])
     \<and> sv_reqs s2 = (sv_reqs s)(rid := None) \<and> \<not> sv_closed s2
     \<and> (\<forall>b. fst (rq_param_base r) = Some b \<longrightarrow> sv_bufs s2 b = None)"
proof -
  let ?r = "complete_request c r"
  let ?t = "put_req rid ?r (take_param c r (s\<lparr>sv_wait := (sv_wait s)(rid := None)\<rparr>))"
  note ow = owned_refCount [OF re n own r]
  have t: "sv_reqs ?t = (sv_reqs s)(rid \<mapsto> ?r)" "\<not> sv_freed ?t" "\<not> sv_closed ?t" "rq_session ?r \<noteq> 0xffffffff"
    using ow op sess by (simp_all add: complete_request_def)
  obtain s1 where s1: "stepCall2 rid ?t = Inr s1" "sv_log s1 = sv_log ?t @ [ASend rid (reply_bytes ?r)]"
    "sv_wait s1 = (sv_wait ?t)(rid \<mapsto> WaitSend FinishRequest)" "sv_bufs s1 = sv_bufs ?t" "\<not> sv_closed s1"
    "\<not> sv_freed s1" "sv_refCount s1 = sv_refCount ?t" "sv_reqs s1 = (sv_reqs ?t)(rid \<mapsto> sent_request FinishRequest ?r)"
    using stepCall2_open [of ?t rid ?r] t by auto
  have ev1: "serv_event (ENextStep rid c) s = Inr s1"
    using s1(1) by (simp add: get_req_alive [OF ow(2) r] nx)
  let ?u = "s1\<lparr>sv_wait := (sv_wait s1)(rid := None), sv_send_error := None\<rparr>"
  have base: "base_ok 8 ?r ?t"
    using waiting_ok_completed(2) [OF serv_reach_mem [OF re] w r, of c] nx t(1) by (auto simp: cur_ok_def)
  have rc: "sv_refCount s1 = sv_refCount s" using s1(7) by (simp add: put_req_def)
  obtain s2 where s2: "finishRequest rid ?u = Inr s2" "sv_reqs s2 = (sv_reqs s1)(rid := None)"
    "sv_closed s2 = sv_closed s1"
    "sv_log s2 = sv_log s1 @ (case rq_on_finish ?r of None \<Rightarrow> [] | Some f \<Rightarrow> [AOnFinish f rid])
         @ (case fst (rq_param_base ?r) of None \<Rightarrow> [] | Some b \<Rightarrow> [ABufFree b])"
    "sv_bufs s2 = (case fst (rq_param_base ?r) of None \<Rightarrow> sv_bufs s1 | Some b \<Rightarrow> (sv_bufs s1)(b := None))"
    using finishRequest_open [of ?u rid "sent_request FinishRequest ?r"] s1 rc ow base
    by (auto simp: base_ok_def cong: option.case_cong)
  have ev2: "serv_event (ESent rid None) s1 = Inr s2" "enabled (ESent rid None) s1"
    using s2(1) s1(3) by simp_all
  have log1: "sv_log s1 = sv_log s @ [ASend rid (le32 (if cp_rejected c then rq_session r XOR 0x80000000
      else rq_session r) @ call_result c)]"
    using s1(2) by (simp add: reply_bytes_def call_result_def result_parts_def complete_request_def)
  have log2: "sv_log s2 = sv_log s1 @ (case cp_on_finish c of None \<Rightarrow> [] | Some f \<Rightarrow> [AOnFinish f rid])
      @ (case fst (rq_param_base r) of Some b \<Rightarrow> if cp_takes_param c then [] else [ABufFree b] | None \<Rightarrow> [])"
    using s2(4) by (simp add: complete_request_def null_ptr_def split: option.splits)
  have reqs: "sv_reqs s2 = (sv_reqs s)(rid := None)" using s2(2) s1(8) t(1) by simp
  have bufs: "sv_bufs s2 b = None" if "fst (rq_param_base r) = Some b" for b
    using that s2(5) s1(4) by (simp add: complete_request_def take_param_def null_ptr_def split: if_splits)
  from ev1 ev2 log1 log2 reqs bufs s2(3) s1(5) show ?thesis by blast
qed

section \<open>Signals and polls\<close>

lemma signal_lemma:
  assumes re: "serv_reach s" and n: "sv_next_req s < 2 ^ 32 - 1" and own: "sv_owned s" and op: "\<not> sv_closed s"
    and w: "sv_wait s rid = Some WaitCall" and r: "sv_reqs s rid = Some r" and nx: "rq_next_step r = Some StepCall2"
    and sess: "rq_session r = 0xffffffff" and err: "sv_send_error s = None"
  shows "\<exists>s'. serv_event (ENextStep rid c) s = Inr s' \<and> sv_reqs s' = (sv_reqs s)(rid := None) \<and> \<not> sv_closed s'
     \<and> sv_log s' = sv_log s @ (case cp_on_finish c of None \<Rightarrow> [] | Some f \<Rightarrow> [AOnFinish f rid])
         @ (case fst (rq_param_base r) of Some b \<Rightarrow> if cp_takes_param c then [] else [ABufFree b] | None \<Rightarrow> [])"
proof -
  let ?r = "complete_request c r"
  let ?t = "put_req rid ?r (take_param c r (s\<lparr>sv_wait := (sv_wait s)(rid := None)\<rparr>))"
  note ow = owned_refCount [OF re n own r]
  have base: "base_ok 8 ?r ?t"
    using waiting_ok_completed(2) [OF serv_reach_mem [OF re] w r, of c] nx by (auto simp: cur_ok_def)
  have "sv_refCount ?t = sv_refCount s" by (simp add: put_req_def)
  then obtain s' where s': "finishRequest rid ?t = Inr s'" "sv_reqs s' = (sv_reqs ?t)(rid := None)"
    "sv_closed s' = sv_closed ?t"
    "sv_log s' = sv_log ?t @ (case rq_on_finish ?r of None \<Rightarrow> [] | Some f \<Rightarrow> [AOnFinish f rid])
         @ (case fst (rq_param_base ?r) of None \<Rightarrow> [] | Some b \<Rightarrow> [ABufFree b])"
    using finishRequest_open [of ?t rid ?r] ow err base by auto
  have "stepCall2 rid ?t = finishRequest rid ?t"
    using ow sess by (simp add: stepCall2_def get_req_bind complete_request_def)
  then have "serv_event (ENextStep rid c) s = Inr s'"
    using s'(1) by (simp add: get_req_alive [OF ow(2) r] nx)
  with s' op show ?thesis
    by (intro exI [of _ s']) (simp add: complete_request_def null_ptr_def split: option.splits)
qed

lemma stepPoll2_open:
  assumes "sv_reqs s rid = Some r" and "\<not> sv_freed s" and "\<not> sv_closed s"
  shows "\<exists>s'. stepPoll2 rid s = Inr s' \<and> sv_log s' = sv_log s @ [ASend rid (reply_bytes r)]
           \<and> sv_wait s' = (sv_wait s)(rid \<mapsto> WaitSend StepPoll3) \<and> sv_pool s' = sv_pool s
           \<and> sv_bufs s' = sv_bufs s \<and> \<not> sv_closed s' \<and> \<not> sv_freed s' \<and> sv_refCount s' = sv_refCount s
           \<and> sv_reqs s' = (sv_reqs s)(rid \<mapsto> sent_request StepPoll3 r)"
  using assms
  by (simp add: stepPoll2_def get_req_alive writeResult_open Let_def reply_bytes_def result_parts_def
      sent_request_def emit_def put_req_def)

definition poll_again :: "reqid \<Rightarrow> request \<Rightarrow> addr \<Rightarrow> servctx \<Rightarrow> servctx \<Rightarrow> bool" where
  "poll_again rid r f s s' \<longleftrightarrow> sv_wait s' rid = Some WaitCall \<and> sv_bufs s' = sv_bufs s \<and> \<not> sv_closed s' \<and>
     (\<exists>r'. sv_reqs s' rid = Some r' \<and> rq_next_step r' = Some StepPoll2 \<and> rq_result r' = ([], [])
         \<and> rq_on_finish r' = None \<and> \<not> rq_rejected r' \<and> rq_session r' = rq_session r
         \<and> rq_callable_index r' = rq_callable_index r \<and> rq_param_base r' = rq_param_base r
         \<and> rq_param_len r' = rq_param_len r)"

lemma prepareRequest_sel [simp]:
  "rq_session (prepareRequest r) = rq_session r" "rq_callable_index (prepareRequest r) = rq_callable_index r"
  "rq_param_base (prepareRequest r) = rq_param_base r" "rq_param_len (prepareRequest r) = rq_param_len r"
  "rq_result (prepareRequest r) = ([], [])" "rq_on_finish (prepareRequest r) = None"
  "\<not> rq_rejected (prepareRequest r)"
  by (simp_all add: prepareRequest_def Let_def)

lemma poll_round_lemma:
  assumes re: "serv_reach s" and alive: "\<not> sv_freed s" and op: "\<not> sv_closed s"
    and w: "sv_wait s rid = Some WaitCall" and r: "sv_reqs s rid = Some r" and nx: "rq_next_step r = Some StepPoll2"
    and c: "\<not> cp_rejected c" "\<not> cp_takes_param c"
    and slot: "0 \<le> sint (rq_callable_index r)" "nat (sint (rq_callable_index r)) < length (slots (sv_pool s))"
      "ref_object (slots (sv_pool s) ! nat (sint (rq_callable_index r))) = Some f"
  shows "\<exists>s1 s2. serv_event (ENextStep rid c) s = Inr s1 \<and> serv_event (ESent rid None) s1 = Inr s2
     \<and> enabled (ESent rid None) s1
     \<and> sv_log s1 = sv_log s @ [ASend rid (le32 (rq_session r) @ call_result c)]
     \<and> sv_log s2 = sv_log s1 @ (case cp_on_finish c of None \<Rightarrow> [] | Some h \<Rightarrow> [AOnFinish h rid]) @ [ACall f rid]
     \<and> poll_again rid r f s s2"
proof -
  let ?r = "complete_request c r"
  let ?t = "put_req rid ?r (take_param c r (s\<lparr>sv_wait := (sv_wait s)(rid := None)\<rparr>))"
  have tp: "take_param c r u = u" for u using c by (simp add: take_param_def split: option.split)
  have rr: "rq_rejected ?r = False" "rq_session ?r = rq_session r" "rq_param_base ?r = rq_param_base r"
    "rq_on_finish ?r = cp_on_finish c" "rq_callable_index ?r = rq_callable_index r" "rq_param_len ?r = rq_param_len r"
    using c by (simp_all add: complete_request_def)
  obtain s1 where s1: "stepPoll2 rid ?t = Inr s1" "sv_log s1 = sv_log s @ [ASend rid (reply_bytes ?r)]"
    "sv_wait s1 = (sv_wait ?t)(rid \<mapsto> WaitSend StepPoll3)" "sv_pool s1 = sv_pool s" "sv_bufs s1 = sv_bufs s"
    "\<not> sv_closed s1" "\<not> sv_freed s1" "sv_reqs s1 = (sv_reqs s)(rid \<mapsto> sent_request StepPoll3 ?r)"
    using stepPoll2_open [of ?t rid ?r] alive op by (auto simp: tp)
  have ev1: "serv_event (ENextStep rid c) s = Inr s1"
    using s1(1) by (simp add: get_req_alive [OF alive r] nx)
  let ?u = "s1\<lparr>sv_wait := (sv_wait s1)(rid := None), sv_send_error := None\<rparr>"
  let ?q = "sent_request StepPoll3 ?r"
  have q: "rq_session ?q = rq_session r" "rq_param_len ?q = rq_param_len r" using rr by (simp_all add: sent_request_def)
  let ?v = "put_req rid (prepareRequest ?q) (call_on_finish rid ?q ?u)"
  have "stepPoll3 rid ?u = call_slot (sint (rq_callable_index r)) StepPoll2 rid ?v"
    using s1 rr by (simp add: stepPoll3_def get_req_bind close_on_send_error_none)
  also have "\<dots> = Inr (emit (ACall f rid) (put_req rid ((prepareRequest ?q)\<lparr>rq_next_step := Some StepPoll2\<rparr>)
                       (?v\<lparr>sv_wait := (sv_wait ?v)(rid \<mapsto> WaitCall)\<rparr>)))"
    using slot s1 by (simp add: call_slot_def get_req_bind)
  finally obtain s2 where s2: "stepPoll3 rid ?u = Inr s2"
    "s2 = emit (ACall f rid) (put_req rid ((prepareRequest ?q)\<lparr>rq_next_step := Some StepPoll2\<rparr>)
                       (?v\<lparr>sv_wait := (sv_wait ?v)(rid \<mapsto> WaitCall)\<rparr>))" by blast
  have ev2: "serv_event (ESent rid None) s1 = Inr s2" "enabled (ESent rid None) s1"
    using s2(1) s1(3) by simp_all
  have log2: "sv_log s2 = sv_log s1 @ (case cp_on_finish c of None \<Rightarrow> [] | Some h \<Rightarrow> [AOnFinish h rid]) @ [ACall f rid]"
    unfolding s2(2) by (simp add: call_on_finish_def rr split: option.split)
  have again: "poll_again rid r f s s2"
    unfolding s2(2) poll_again_def using s1 q rr by simp
  have "reply_bytes ?r = le32 (rq_session r) @ call_result c"
    using c by (simp add: reply_bytes_def call_result_def result_parts_def complete_request_def)
  with ev1 ev2 log2 again s1(2) show ?thesis by auto
qed

section \<open>The built-in functions\<close>

lemma packet_next [simp]:
  "rq_next_step (packet_request session (-1) b n) = Some StepGetFunc1"
  "rq_next_step (packet_request session (-2) b n) = Some StepFreeRef1"
  "rq_next_step (packet_request session (-3) b n) = Some StepClose1"
  "rq_next_step (packet_request session (-4) b n) = Some StepGetInfo1"
  by (simp_all add: packet_request_def prepareRequest_def zero_request_def Let_def)

lemma packet_next_none:
  "sint idx < -5 \<Longrightarrow> rq_next_step (packet_request session idx b n) = None"
  by (simp add: packet_request_def prepareRequest_def zero_request_def Let_def)

lemma packet_next_call:
  "0 \<le> sint idx \<Longrightarrow> rq_next_step (packet_request session idx b n) = Some StepCall1"
  by (simp add: packet_request_def prepareRequest_def zero_request_def Let_def)

text \<open>A reply to packet \<open>b\<close> has been handed to the io, its buffer is still held.\<close>

definition replied :: "u32 \<Rightarrow> bytes \<Rightarrow> servctx \<Rightarrow> servctx \<Rightarrow> bool" where
  "replied session out s s' \<longleftrightarrow> sv_log s' = sv_log s @ [ASend (sv_next_req s) (le32 session @ out)]
     \<and> sv_wait s' (sv_next_req s) = Some (WaitSend FinishRequest) \<and> \<not> sv_closed s' \<and> \<not> sv_freed s'"

lemma stepCall2_replied:
  assumes "sv_reqs t rid = Some r" and "\<not> sv_freed t" and "\<not> sv_closed t" and "rq_session r \<noteq> 0xffffffff"
    and "\<not> rq_rejected r" and "rid = sv_next_req s" and "sv_log t = sv_log s"
  shows "\<exists>s'. stepCall2 rid t = Inr s' \<and> replied (rq_session r) (result_parts r) s s' \<and> sv_pool s' = sv_pool t"
  using stepCall2_open [OF assms(1-4)] assms(5-7) by (auto simp: replied_def reply_bytes_def)

lemma getinfo_lemma:
  assumes op: "open_reach s" and sess: "session \<noteq> 0xffffffff"
  shows "\<exists>s'. serv_event (EReceived b (packet_of session (-4) rest)) s = Inr s'
           \<and> replied session (string_bytes ServerInfo) s s'"
proof -
  let ?r = "packet_request session (-4) b (length rest)"
  let ?t = "packet_state b (packet_of session (-4) rest) ?r s"
  let ?q = "?r\<lparr>rq_result := (string_bytes ServerInfo, snd (rq_result ?r))\<rparr>"
  have open_s: "\<not> sv_closed s" "\<not> sv_freed s" using op by (simp_all add: open_reach_def)
  have "result_parts ?q = string_bytes ServerInfo" by (simp add: result_parts_def)
  then obtain s' where "stepCall2 (sv_next_req s) (put_req (sv_next_req s) ?q ?t) = Inr s'"
    "replied session (string_bytes ServerInfo) s s'"
    using stepCall2_replied [of "put_req (sv_next_req s) ?q ?t" "sv_next_req s" ?q s] open_s sess by auto
  then show ?thesis
    using open_s unfolding receive_packet [OF op] Let_def by (simp add: stepGetInfo1_def get_req_bind)
qed

lemma free_indices:
  "sv_bufs s b = Some (packet_of se ix (pre @ concat (map le32 vs))) \<Longrightarrow> length pre = 4 * k \<Longrightarrow>
     foldR server_free_ref (map unat vs) (sv_pool s) = Inr q \<Longrightarrow>
     foldR (free_index_at (Some b, 8)) (map (\<lambda>k. 4 * k) [k..<k + length vs]) s = Inr (s\<lparr>sv_pool := q\<rparr>)"
proof (induction vs arbitrary: pre k s)
  case Nil
  then show ?case by simp
next
  case (Cons v vs)
  then obtain p where p: "server_free_ref (unat v) (sv_pool s) = Inr p"
    "foldR server_free_ref (map unat vs) p = Inr q" by auto
  have "buf_read (Some b, 8) (4 * k) 4 s = Inr (le32 v)"
    by (subst packet_param [OF Cons.prems(1)]) (simp_all add: Cons.prems(2))
  then have "free_index_at (Some b, 8) (4 * k) s = Inr (s\<lparr>sv_pool := p\<rparr>)"
    using p(1) by (simp add: free_index_at_def server_get_ref_def)
  moreover have "foldR (free_index_at (Some b, 8)) (map (\<lambda>k. 4 * k) [Suc k..<Suc k + length vs]) (s\<lparr>sv_pool := p\<rparr>)
      = Inr ((s\<lparr>sv_pool := p\<rparr>)\<lparr>sv_pool := q\<rparr>)"
    by (rule Cons.IH [of _ "pre @ le32 v"]) (use Cons.prems p(2) in simp_all)
  moreover have "[k..<k + length (v # vs)] = k # [Suc k..<Suc k + length vs]"
    by (simp only: list.size(4) upt_conv_Cons) (simp add: upt_conv_Cons del: upt_Suc)
  ultimately show ?case by (simp del: upt_Suc)
qed

lemma free_offsets_of:
  "4 * n < 2 ^ 32 \<Longrightarrow> free_offsets (of_nat (4 * n)) = map (\<lambda>k. 4 * k) [0..<n]"
  by (simp add: free_offsets_def unat_of_nat del: of_nat_mult)

lemma freeref_lemma:
  assumes op: "open_reach s" and sess: "session \<noteq> 0xffffffff" and len: "4 * length vs < 2 ^ 32"
    and free: "foldR server_free_ref (map unat vs) (sv_pool s) = Inr q"
  shows "\<exists>s'. serv_event (EReceived b (packet_of session (-2) (concat (map le32 vs)))) s = Inr s'
           \<and> replied session [] s s' \<and> sv_pool s' = q"
proof -
  let ?rest = "concat (map le32 vs)"
  let ?r = "packet_request session (-2) b (length ?rest)"
  let ?t = "packet_state b (packet_of session (-2) ?rest) ?r s"
  have open_s: "\<not> sv_closed s" "\<not> sv_freed s" using op by (simp_all add: open_reach_def)
  have fold: "foldR (free_index_at (Some b, 8)) (free_offsets (of_nat (length ?rest))) ?t = Inr (?t\<lparr>sv_pool := q\<rparr>)"
    using free_indices [of ?t b session "-2" "[]" vs 0 q] free
    unfolding length_concat_le32 free_offsets_of [OF len] by simp
  have "result_parts ?r = []" by (simp add: result_parts_def)
  then obtain s' where s': "stepCall2 (sv_next_req s) (?t\<lparr>sv_pool := q\<rparr>) = Inr s'" "replied session [] s s'" "sv_pool s' = q"
    using stepCall2_replied [of "?t\<lparr>sv_pool := q\<rparr>" "sv_next_req s" ?r s] open_s sess by auto
  have "stepFreeRef1 (sv_next_req s) ?t = Inr s'"
    unfolding stepFreeRef1_def get_req_bind using open_s fold s'(1) by simp
  then show ?thesis using s' unfolding receive_packet [OF op] Let_def by simp
qed

lemma getfunc_step:
  assumes op: "open_reach s" and sess: "session \<noteq> 0xffffffff" and len: "length name < 2 ^ 32"
    and res: "lookup_func (packet_request session (-1) b (length name))
               (packet_state b (packet_of session (-1) name) (packet_request session (-1) b (length name)) s) = Inr (i, t)"
    and t: "t = packet_state b (packet_of session (-1) name) (packet_request session (-1) b (length name)) s\<lparr>sv_pool := q\<rparr>"
  shows "\<exists>s'. serv_event (EReceived b (packet_of session (-1) name)) s = Inr s'
           \<and> replied session (le32 i) s s' \<and> sv_pool s' = q"
proof -
  let ?r = "packet_request session (-1) b (length name)"
  let ?t = "packet_state b (packet_of session (-1) name) ?r s"
  let ?q = "?r\<lparr>rq_getFuncRes := i, rq_result := (le32 i, snd (rq_result ?r))\<rparr>"
  have open_s: "\<not> sv_closed s" "\<not> sv_freed s" using op by (simp_all add: open_reach_def)
  have "result_parts ?q = le32 i" by (simp add: result_parts_def)
  then obtain s' where s': "stepCall2 (sv_next_req s) (put_req (sv_next_req s) ?q t) = Inr s'"
    "replied session (le32 i) s s'" "sv_pool s' = q"
    using stepCall2_replied [of "put_req (sv_next_req s) ?q t" "sv_next_req s" ?q s] open_s sess
    by (auto simp: t packet_request_sel)
  have "stepGetFunc1 (sv_next_req s) ?t = Inr s'"
    unfolding stepGetFunc1_def get_req_bind using open_s res s'(1) by simp
  then show ?thesis using s' unfolding receive_packet [OF op] Let_def by simp
qed

section \<open>Closing\<close>

definition hook_calls :: "pxprpc_ref list \<Rightarrow> (free_hook \<times> addr option) list" where
  "hook_calls rs = concat (map (\<lambda>r. case ref_on_free r of None \<Rightarrow> [] | Some h \<Rightarrow> [(h, ref_object r)]) rs)"

definition clear_ref :: "pxprpc_ref \<Rightarrow> pxprpc_ref" where
  "clear_ref r = r\<lparr>ref_object := None, ref_on_free := None\<rparr>"

lemma drop_prefix:
  "n \<le> length (slots p) \<Longrightarrow>
     foldR drop_object [0..<n] p = Inr (p\<lparr>slots := map clear_ref (take n (slots p)) @ drop n (slots p),
       hook_log := hook_log p @ hook_calls (take n (slots p))\<rparr>)"
proof (induction n)
  case 0
  then show ?case by (simp add: hook_calls_def)
next
  case (Suc n)
  let ?rs = "slots p"
  let ?t = "p\<lparr>slots := map clear_ref (take n ?rs) @ drop n ?rs,
       hook_log := hook_log p @ hook_calls (take n ?rs)\<rparr>"
  from Suc have t: "foldR drop_object [0..<n] p = Inr ?t" by simp
  have n: "n < length ?rs" using Suc.prems by simp
  have d: "drop n ?rs = ?rs ! n # drop (Suc n) ?rs" using n by (simp add: Cons_nth_drop_Suc)
  have nth: "slots ?t ! n = ?rs ! n" using n by (simp add: d nth_append)
  have "(slots ?t)[n := clear_ref (?rs ! n)] = map clear_ref (take (Suc n) ?rs) @ drop (Suc n) ?rs"
    using n by (simp add: d list_update_append take_Suc_conv_app_nth)
  moreover have "hook_calls (take (Suc n) ?rs) = hook_calls (take n ?rs)
      @ (case ref_on_free (?rs ! n) of None \<Rightarrow> [] | Some h \<Rightarrow> [(h, ref_object (?rs ! n))])"
    using n by (simp add: take_Suc_conv_app_nth hook_calls_def)
  ultimately have "drop_object n ?t = Inr (p\<lparr>slots := map clear_ref (take (Suc n) ?rs) @ drop (Suc n) ?rs,
       hook_log := hook_log p @ hook_calls (take (Suc n) ?rs)\<rparr>)"
    using n nth by (simp add: drop_object_def Let_def clear_ref_def)
  with t show ?case by (simp add: foldR_append)
qed

lemma drop_all_objects_eq:
  "length (slots p) = unat (ref_pool_size p) \<Longrightarrow>
     drop_all_objects p = Inr (p\<lparr>slots := map clear_ref (slots p), hook_log := hook_log p @ hook_calls (slots p)\<rparr>)"
  using drop_prefix [of "length (slots p)" p] by (simp add: drop_all_objects_def)

lemma close_packet_orphan:
  assumes op: "open_reach s" and len: "length (slots (sv_pool s)) = unat (ref_pool_size (sv_pool s))"
    and nw: "sv_wait s (sv_next_req s) = None"
  shows "\<exists>s'. serv_event (EReceived b (packet_of session (-3) rest)) s = Inr s' \<and> orphan (sv_next_req s) s'"
proof -
  let ?r = "packet_request session (-3) b (length rest)"
  let ?t = "packet_state b (packet_of session (-3) rest) ?r s"
  have open_s: "\<not> sv_closed s" "\<not> sv_freed s" using op by (simp_all add: open_reach_def)
  obtain s' where c: "server_close ?t = Inr s'"
    using open_s drop_all_objects_eq [OF len] by (simp add: server_close_def ctx_alive_def Let_def)
  have "orphan (sv_next_req s) s'" using server_close_fields [OF c] nw by (simp add: orphan_def)
  moreover have "stepClose1 (sv_next_req s) ?t = Inr s'"
    using open_s c by (simp add: stepClose1_def get_req_bind)
  ultimately show ?thesis unfolding receive_packet [OF op] Let_def by simp
qed

lemma orphan_steps:
  "(\<lambda>s t. \<exists>e. serv_step s e t)\<^sup>*\<^sup>* s t \<Longrightarrow> serv_reach s \<Longrightarrow> orphan rid s \<Longrightarrow> serv_reach t \<and> orphan rid t"
proof (induction rule: rtranclp_induct)
  case (step t u)
  then obtain e where e: "serv_step t e u" by blast
  with step have "serv_reach t" "orphan rid t" by auto
  with e show ?case
    using orphan_event serv_reach.step by (auto elim!: serv_stepE intro: serv_step.intros)
qed simp

section \<open>Concrete runs\<close>

definition run_events :: "event list \<Rightarrow> servctx \<Rightarrow> servctx res" where
  "run_events = foldR (\<lambda>e s. if enabled e s then serv_event e s else Inl Uninit)"

lemma run_events_reach: "run_events es s = Inr s' \<Longrightarrow> serv_reach s \<Longrightarrow> serv_reach s'"
  unfolding run_events_def
  by (erule foldR_inv [where P = serv_reach]) (auto split: if_splits intro: serv_reach.step serv_step.intros)

text \<open>A server with one function, named A, at address 77; its results.\<close>

definition ex_map :: "bytes \<Rightarrow> addr option" where
  "ex_map n = (if n = [0x41] then Some 77 else None)"

definition ex_run :: "event list \<Rightarrow> servctx res" where
  "ex_run es = bindR (server_start (server_new (Some ex_map) True)) (run_events es)"

definition ex_done :: completion where
  "ex_done = \<lparr>cp_result = ([7, 8], []), cp_rejected = False, cp_on_finish = Some 3, cp_takes_param = False\<rparr>"

text \<open>The client looks the function up and gets index 0.\<close>

definition ex_lookup :: "event list" where
  "ex_lookup = [EReceived 0 (packet_of 5 (-1) [0x41]), EReturn, ESent 0 None]"

lemma ex_run_reach: "ex_run es = Inr s \<Longrightarrow> serv_reach s"
  unfolding ex_run_def by (auto intro: run_events_reach serv_reach.start)

lemma ex_run_obtain:
  "(case ex_run es of Inl _ \<Rightarrow> False | Inr s \<Rightarrow> P s) \<Longrightarrow> \<exists>s. serv_reach s \<and> P s"
  using ex_run_reach by (auto split: sum.splits)

section \<open>Properties\<close>

text \<open>
  C5. The life of a call, from the completion by the callable to the release of its memory.  The reply
  is one message: the session of the request (with its top bit flipped if the callable rejected)
  followed by the parts of the result, the whole result being dropped when its first part is empty.
  When the io has sent it, the \<open>on_finish\<close> hook is called, then the receive buffer freed unless the
  callable took it over, and the request is gone; the connection stays open.
\<close>

theorem call_reply:
  assumes "serv_reach s" and "sv_next_req s < 2 ^ 32 - 1" and "sv_owned s" and "\<not> sv_closed s"
    and "sv_wait s rid = Some WaitCall" and "sv_reqs s rid = Some r" and "rq_next_step r = Some StepCall2"
    and "rq_session r \<noteq> 0xffffffff"
  shows "\<exists>s1 s2. serv_event (ENextStep rid c) s = Inr s1 \<and> serv_event (ESent rid None) s1 = Inr s2
     \<and> enabled (ESent rid None) s1
     \<and> sv_log s1 = sv_log s @ [ASend rid (le32 (if cp_rejected c then rq_session r XOR 0x80000000 else rq_session r) @ call_result c)]
     \<and> sv_log s2 = sv_log s1 @ (case cp_on_finish c of None \<Rightarrow> [] | Some f \<Rightarrow> [AOnFinish f rid])
         @ (case fst (rq_param_base r) of Some b \<Rightarrow> if cp_takes_param c then [] else [ABufFree b] | None \<Rightarrow> [])
     \<and> sv_reqs s2 = (sv_reqs s)(rid := None) \<and> \<not> sv_closed s2
     \<and> (\<forall>b. fst (rq_param_base r) = Some b \<longrightarrow> sv_bufs s2 b = None)"
  by (rule call_reply_lemma [OF assms])

definition ex_call :: "u32 \<Rightarrow> event list" where
  "ex_call session = ex_lookup @ [EReceived 1 (packet_of session 0 [1, 2]), EReturn]"

theorem call_reply_witness:
  "\<exists>s s1 s2. serv_reach s \<and> serv_event (ENextStep 1 ex_done) s = Inr s1 \<and> serv_event (ESent 1 None) s1 = Inr s2
     \<and> sv_log s2 = sv_log s @ [ASend 1 (le32 6 @ [7, 8]), AOnFinish 3 1, ABufFree 1]"
proof -
  let ?P = "\<lambda>s. sv_next_req s = 2 \<and> sv_owned s \<and> \<not> sv_closed s \<and> sv_wait s 1 = Some WaitCall \<and>
    (case sv_reqs s 1 of None \<Rightarrow> False | Some r \<Rightarrow> rq_next_step r = Some StepCall2 \<and> rq_session r = 6
       \<and> rq_param_base r = (Some 1, 8))"
  have "case ex_run (ex_call 6) of Inl _ \<Rightarrow> False | Inr s \<Rightarrow> ?P s" by code_simp
  from ex_run_obtain [OF this] obtain s where re: "serv_reach s" and P: "?P s" by blast
  then obtain r where r: "sv_reqs s 1 = Some r" "rq_next_step r = Some StepCall2" "rq_session r = 6"
    "rq_param_base r = (Some 1, 8)"
    by (auto split: option.splits)
  from call_reply [OF re _ _ _ _ r(1,2), of ex_done] P r(3,4) re show ?thesis
    by (auto simp: ex_done_def call_result_def)
qed

text \<open>
  A request with session 0xffffffff gets no answer: when its callable completes, nothing is sent
  and the request is finished on the spot.
\<close>

theorem signal_no_reply:
  assumes "serv_reach s" and "sv_next_req s < 2 ^ 32 - 1" and "sv_owned s" and "\<not> sv_closed s"
    and "sv_wait s rid = Some WaitCall" and "sv_reqs s rid = Some r" and "rq_next_step r = Some StepCall2"
    and "rq_session r = 0xffffffff" and "sv_send_error s = None"
  shows "\<exists>s'. serv_event (ENextStep rid c) s = Inr s' \<and> sv_reqs s' = (sv_reqs s)(rid := None) \<and> \<not> sv_closed s'
     \<and> sv_log s' = sv_log s @ (case cp_on_finish c of None \<Rightarrow> [] | Some f \<Rightarrow> [AOnFinish f rid])
         @ (case fst (rq_param_base r) of Some b \<Rightarrow> if cp_takes_param c then [] else [ABufFree b] | None \<Rightarrow> [])"
  by (rule signal_lemma [OF assms])

theorem signal_no_reply_witness:
  "\<exists>s s'. serv_reach s \<and> serv_event (ENextStep 1 ex_done) s = Inr s' \<and> sv_log s' = sv_log s @ [AOnFinish 3 1, ABufFree 1]"
proof -
  let ?P = "\<lambda>s. sv_next_req s = 2 \<and> sv_owned s \<and> \<not> sv_closed s \<and> sv_wait s 1 = Some WaitCall \<and> sv_send_error s = None \<and>
    (case sv_reqs s 1 of None \<Rightarrow> False | Some r \<Rightarrow> rq_next_step r = Some StepCall2 \<and> rq_session r = 0xffffffff
       \<and> rq_param_base r = (Some 1, 8))"
  have "case ex_run (ex_call 0xffffffff) of Inl _ \<Rightarrow> False | Inr s \<Rightarrow> ?P s" by code_simp
  from ex_run_obtain [OF this] obtain s where re: "serv_reach s" and P: "?P s" by blast
  then obtain r where r: "sv_reqs s 1 = Some r" "rq_next_step r = Some StepCall2" "rq_session r = 0xffffffff"
    "rq_param_base r = (Some 1, 8)"
    by (auto split: option.splits)
  from signal_no_reply [OF re _ _ _ _ r(1,2,3), of ex_done] P r(4) re show ?thesis
    by (auto simp: ex_done_def)
qed


definition ex_poll :: "event list" where
  "ex_poll = ex_lookup @ [EReceived 1 (packet_of 9 (-5) (le32 0)), EReturn]"


lemma ex_start:
  "\<exists>s. open_reach s \<and> sv_wait_recv s \<and> sv_bufs s 0 = None \<and> sv_funcmap s = Some ex_map
      \<and> sv_pool s = pool_new \<and> sv_next_req s = 0 \<and> sv_log s = [AReceive] \<and> sv_on_closed s"
proof -
  obtain s where s: "server_start (server_new (Some ex_map) True) = Inr s"
    by (simp add: server_start_def server_new_def server_step1_def ctx_alive_def)
  have "open_reach s"
    using s serv_reach.start [OF s]
    by (auto simp: open_reach_def server_start_def server_new_def server_step1_def emit_def)
  moreover from s have "sv_wait_recv s \<and> sv_bufs s 0 = None \<and> sv_funcmap s = Some ex_map
      \<and> sv_pool s = pool_new \<and> sv_next_req s = 0 \<and> sv_log s = [AReceive] \<and> sv_on_closed s"
    by (auto simp: server_start_def server_new_def server_step1_def emit_def pool_new_def)
  ultimately show ?thesis by blast
qed

text \<open>
  Looking a function up by name.  If the function map knows it, the reply is the index of a slot
  that was not in use and now holds the function, and no other slot changes its use; if it does not
  know it, the reply is -1 and the pool is left as it was.
\<close>

theorem getfunc_reply:
  assumes "open_reach s" and "session \<noteq> 0xffffffff" and "length name < 2 ^ 32"
    and "sv_funcmap s = Some get" and "pool_ok (sv_pool s)" and "pool_room (sv_pool s)"
  shows "\<exists>s'. serv_event (EReceived b (packet_of session (-1) name)) s = Inr s' \<and>
    (case get name of
       None \<Rightarrow> replied session (le32 (-1)) s s' \<and> sv_pool s' = sv_pool s
     | Some f \<Rightarrow> \<exists>i. replied session (le32 (of_nat i)) s s' \<and> i \<notin> live_slots (sv_pool s)
           \<and> pool_ok (sv_pool s') \<and> live_slots (sv_pool s') = insert i (live_slots (sv_pool s))
           \<and> ref_object (slots (sv_pool s') ! i) = Some f)"
proof -
  let ?r = "packet_request session (-1) b (length name)"
  let ?t = "packet_state b (packet_of session (-1) name) ?r s"
  have fm: "sv_funcmap ?t = Some get" using assms(4) by simp
  have "unat (of_nat (length name) :: u32) = length name" using assms(3) by (simp add: unat_of_nat)
  then have read: "buf_read (Some b, 8) 0 (unat (of_nat (length name) :: u32)) ?t = Inr name"
    using packet_param [of ?t b session "-1" name 0 "length name"] by simp
  show ?thesis
  proof (cases "get name")
    case None
    then have "lookup_func ?r ?t = Inr (-1, ?t)" unfolding lookup_func_def fm by (simp add: read)
    from getfunc_step [OF assms(1-3) this, of "sv_pool s"] None show ?thesis by (simp add: packet_state_def)
  next
    case (Some f)
    obtain i q where al: "server_alloc_ref (sv_pool s) = Inr (i, q)" "i \<notin> live_slots (sv_pool s)" "pool_ok q"
      "live_slots q = insert i (live_slots (sv_pool s))" "i < length (slots q)"
      using server_alloc_ref_ok [OF assms(5,6)] by blast
    let ?q = "q\<lparr>slots := (slots q)[i := (slots q ! i)\<lparr>ref_object := Some f\<rparr>]\<rparr>"
    have "pool_ok ?q \<and> free_slots ?q = free_slots q"
      using al(3) by (intro pool_okI) (auto simp: pool_ok_def intro: chain_update)
    then have q: "pool_ok ?q" "live_slots ?q = insert i (live_slots (sv_pool s))"
      using al(4) by (auto simp: live_slots_def)
    have "lookup_func ?r ?t = Inr (of_nat i, ?t\<lparr>sv_pool := ?q\<rparr>)"
      unfolding lookup_func_def fm by (simp add: read Some al(1))
    from getfunc_step [OF assms(1-3) this refl] obtain s' where
      s': "serv_event (EReceived b (packet_of session (-1) name)) s = Inr s'"
        "replied session (le32 (of_nat i)) s s'" "sv_pool s' = ?q" by blast
    have "ref_object (slots (sv_pool s') ! i) = Some f" using s'(3) al(5) by simp
    with s' q al(2) Some show ?thesis by (intro exI [of _ s']) auto
  qed
qed

lemma pool_new_room: "pool_room pool_new"
  by (simp add: pool_room_def pool_new_def REF_POOL_EXPAND_COUNT_def)

theorem getfunc_reply_witness:
  "\<exists>s s' i. open_reach s \<and> serv_event (EReceived 0 (packet_of 5 (-1) [0x41])) s = Inr s' \<and> live_slots (sv_pool s') = {i}
     \<and> replied 5 (le32 (of_nat i)) s s'"
proof -
  from ex_start obtain s where s: "open_reach s" "sv_funcmap s = Some ex_map" "sv_pool s = pool_new" by blast
  then have "pool_ok (sv_pool s)" "pool_room (sv_pool s)" by (simp_all add: pool_new_room)
  from getfunc_reply [OF s(1) _ _ s(2) this, of 5 "[0x41]" 0] s show ?thesis
    by (auto simp: ex_map_def)
qed

text \<open>
  C19. The freeRef packet: when the listed references are distinct and in use, exactly they are
  given back, in the order of the packet, and the reply is empty.
\<close>

theorem freeref_reply:
  assumes "open_reach s" and "session \<noteq> 0xffffffff" and "4 * length vs < 2 ^ 32" and "pool_ok (sv_pool s)"
    and "distinct (map unat vs)" and "set (map unat vs) \<subseteq> live_slots (sv_pool s)"
  shows "\<exists>s'. serv_event (EReceived b (packet_of session (-2) (concat (map le32 vs)))) s = Inr s'
     \<and> replied session [] s s' \<and> pool_ok (sv_pool s')
     \<and> live_slots (sv_pool s') = live_slots (sv_pool s) - set (map unat vs)"
proof -
  obtain q where q: "foldR server_free_ref (map unat vs) (sv_pool s) = Inr q" "pool_ok q"
    "live_slots q = live_slots (sv_pool s) - set (map unat vs)"
    using pool_alloc.free_all [OF assms(4-6)] by blast
  from freeref_lemma [OF assms(1-3) q(1)] q show ?thesis by blast
qed

theorem freeref_reply_witness:
  "\<exists>s s'. serv_reach s \<and> live_slots (sv_pool s) = {0} \<and> serv_event (EReceived 1 (packet_of 6 (-2) (le32 0))) s = Inr s'
     \<and> live_slots (sv_pool s') = {}"
proof -
  have "case ex_run ex_lookup of Inl _ \<Rightarrow> False | Inr s \<Rightarrow> \<not> sv_closed s \<and> \<not> sv_freed s \<and> sv_next_req s = 1 \<and>
      free_slots (sv_pool s) = [1..<64] \<and> length (slots (sv_pool s)) = 64 \<and> ref_pool_size (sv_pool s) = 64 \<and>
      chain (slots (sv_pool s)) (free_ref_entry (sv_pool s)) [1..<64]" by code_simp
  from ex_run_obtain [OF this] obtain s where s: "serv_reach s" "\<not> sv_closed s" "\<not> sv_freed s" "sv_next_req s = 1"
    "free_slots (sv_pool s) = [1..<64]" "length (slots (sv_pool s)) = 64" "ref_pool_size (sv_pool s) = 64"
    "chain (slots (sv_pool s)) (free_ref_entry (sv_pool s)) [1..<64]" by blast
  then have op: "open_reach s" by (simp add: open_reach_def)
  have ok: "pool_ok (sv_pool s)" using s by (simp add: pool_ok_def del: upt_rec_numeral)
  have live: "live_slots (sv_pool s) = {0}" using s(5,6) by (auto simp: live_slots_def simp del: upt_rec_numeral)
  from freeref_reply [OF op _ _ ok, of 6 "[0]" 1] s(1) live show ?thesis by auto
qed

lemma short_packet:
  assumes op: "open_reach s" and len: "length m < 8"
  shows "serv_event (EReceived b m) s = Inl OutOfBounds"
proof -
  let ?s = "s\<lparr>sv_wait_recv := False, sv_receive_error := None, sv_bufs := (sv_bufs s)(b \<mapsto> m)\<rparr>"
  let ?u = "?s\<lparr>sv_last_error := None\<rparr>"
  have open_s: "\<not> sv_closed s" "\<not> sv_freed s" using op by (simp_all add: open_reach_def)
  have rd: "buf_read (Some b, 0) 0 4 ?s = (if 4 \<le> length m then Inr (take 4 m) else Inl OutOfBounds)"
    by (simp add: buf_read_def read_mem_def)
  have ev: "serv_event (EReceived b m) s = server_step2 b ?s" by simp
  show ?thesis
  proof (cases "4 \<le> length m")
    case False
    with open_s rd show ?thesis unfolding ev server_step2_def by (simp add: ctx_alive_def)
  next
    case True
    have wf: "serv_wf {} ?u" using op serv_reach_wf by (simp add: open_reach_def)
    obtain rid t where new: "newRequest (un_le (take 4 m)) ?u = Inr (rid, t)"
      using newRequest_alive [of ?u "un_le (take 4 m)"] wf op by (auto simp: open_reach_def)
    then have "sv_bufs t b = Some m"
      by (auto simp: newRequest_def Let_def put_req_def dest: refCount_add_fields(9))
    then have "buf_read (Some b, 0) 4 4 t = Inl OutOfBounds" using len by (simp add: buf_read_def read_mem_def)
    with True open_s rd new show ?thesis unfolding ev server_step2_def by (simp add: ctx_alive_def)
  qed
qed

lemma call_packet:
  assumes op: "open_reach s" and idx: "0 \<le> sint idx"
  shows "serv_event (EReceived b (packet_of session idx rest)) s
     = call_slot (sint idx) StepCall2 (sv_next_req s)
         (packet_state b (packet_of session idx rest) (packet_request session idx b (length rest)) s)"
  using op unfolding receive_packet [OF op] Let_def packet_next_call [OF idx]
  by (simp add: stepCall1_def get_req_bind open_reach_def)

text \<open>
  Malformed packets are not refused.  A packet shorter than the 8 bytes of session and index is
  read past its end; an index below -5 leaves \<open>next_step\<close> null, which is then called; a call of a
  reference outside the pool reads past the pool, and a call of a free reference calls a null pointer.
\<close>

theorem malformed_packets:
  assumes "open_reach s"
  shows "(length m < 8 \<longrightarrow> serv_event (EReceived b m) s = Inl OutOfBounds)
    \<and> (sint idx < -5 \<longrightarrow> serv_event (EReceived b (packet_of session idx rest)) s = Inl NullDeref)
    \<and> (0 \<le> sint idx \<longrightarrow> length (slots (sv_pool s)) \<le> nat (sint idx) \<longrightarrow>
        serv_event (EReceived b (packet_of session idx rest)) s = Inl OutOfBounds)
    \<and> (0 \<le> sint idx \<longrightarrow> nat (sint idx) < length (slots (sv_pool s)) \<longrightarrow>
        ref_object (slots (sv_pool s) ! nat (sint idx)) = None \<longrightarrow>
        serv_event (EReceived b (packet_of session idx rest)) s = Inl NullDeref)"
proof (intro conjI impI)
  assume "length m < 8"
  with assms show "serv_event (EReceived b m) s = Inl OutOfBounds" by (rule short_packet)
next
  assume "sint idx < -5"
  from packet_next_none [OF this] show "serv_event (EReceived b (packet_of session idx rest)) s = Inl NullDeref"
    unfolding receive_packet [OF assms] Let_def by simp
next
  assume "0 \<le> sint idx" and len: "length (slots (sv_pool s)) \<le> nat (sint idx)"
  with assms show "serv_event (EReceived b (packet_of session idx rest)) s = Inl OutOfBounds"
    unfolding call_packet [OF assms \<open>0 \<le> sint idx\<close>] by (simp add: call_slot_def get_req_bind open_reach_def)
next
  assume "0 \<le> sint idx" and "nat (sint idx) < length (slots (sv_pool s))"
    and "ref_object (slots (sv_pool s) ! nat (sint idx)) = None"
  with assms show "serv_event (EReceived b (packet_of session idx rest)) s = Inl NullDeref"
    unfolding call_packet [OF assms \<open>0 \<le> sint idx\<close>] by (simp add: call_slot_def get_req_bind open_reach_def)
qed

theorem malformed_packets_witness:
  "\<exists>s. open_reach s \<and> serv_event (EReceived 0 [1, 2, 3, 4, 5]) s = Inl OutOfBounds
     \<and> serv_event (EReceived 0 (packet_of 1 (-6) [])) s = Inl NullDeref"
proof -
  from ex_start obtain s where s: "open_reach s" by blast
  from malformed_packets [OF s, of "[1, 2, 3, 4, 5]" 0 "-6" 1 "[]"] s show ?thesis
    by (intro exI [of _ s]) simp
qed

text \<open>
  C20. Closing: \<open>on_free\<close> of every slot that has one is called once, in the order of the slots, with the
  object the slot held; afterwards every slot is empty, the io is closed, then \<open>on_closed\<close> called;
  closing again does nothing.
\<close>

theorem close_drops_objects:
  assumes "\<not> sv_freed s" and "\<not> sv_closed s"
    and "length (slots (sv_pool s)) = unat (ref_pool_size (sv_pool s))"
  shows "\<exists>s'. server_close s = Inr s' \<and> sv_closed s'
     \<and> hook_log (sv_pool s') = hook_log (sv_pool s) @ hook_calls (slots (sv_pool s))
     \<and> slots (sv_pool s') = map clear_ref (slots (sv_pool s))
     \<and> sv_log s' = sv_log s @ AIoClose # (if sv_on_closed s then [AOnClosed] else [])
     \<and> server_close s' = Inr s'"
  using assms drop_all_objects_eq [OF assms(3)]
  by (auto simp: server_close_def ctx_alive_def Let_def emit_def)

theorem close_drops_objects_witness:
  "\<exists>s s'. open_reach s \<and> server_close s = Inr s' \<and> sv_log s' = [AReceive, AIoClose, AOnClosed]"
proof -
  from ex_start obtain s where s: "open_reach s" "sv_pool s = pool_new" "sv_log s = [AReceive]" "sv_on_closed s" by blast
  then have "length (slots (sv_pool s)) = unat (ref_pool_size (sv_pool s))" by (simp add: pool_new_def)
  with close_drops_objects [of s] s show ?thesis by (auto simp: open_reach_def)
qed

text \<open>
  The close request of the client (index -3) leaks.  Its handler closes the connection but never
  finishes its own request, so the request stays in memory and keeps its reference: whatever happens
  afterwards, the deletion by the owner included, the context is never freed.
\<close>

theorem client_close_leaks:
  assumes "open_reach s" and "enabled (EReceived b (packet_of session (-3) rest)) s"
    and "serv_event (EReceived b (packet_of session (-3) rest)) s = Inr s'"
    and "(\<lambda>s t. \<exists>e. serv_step s e t)\<^sup>*\<^sup>* s' t" and "sv_next_req t < 2 ^ 32 - 1"
  shows "sv_reqs t (sv_next_req s) \<noteq> None \<and> \<not> sv_freed t"
proof -
  let ?r = "packet_request session (-3) b (length rest)"
  have re: "serv_reach s" and op: "\<not> sv_closed s" "\<not> sv_freed s" using assms(1) by (simp_all add: open_reach_def)
  have re': "serv_reach s'" by (rule serv_reach.step [OF re serv_step.intros [OF assms(2,3)]])
  have "server_close (packet_state b (packet_of session (-3) rest) ?r s) = Inr s'"
    using assms(3) op unfolding receive_packet [OF assms(1)] Let_def
    by (simp add: stepClose1_def get_req_bind)
  note c = server_close_fields [OF this]
  have "sv_next_req s \<notin> dom (sv_reqs s)" "dom (sv_wait s) \<subseteq> dom (sv_reqs s)"
    using serv_reach_wf [OF re] unfolding serv_wf_def by blast+
  then have "orphan (sv_next_req s) s'" using c by (auto simp: orphan_def)
  from orphan_steps [OF assms(4) re' this] have t: "serv_reach t" "orphan (sv_next_req s) t" by simp_all
  then show ?thesis using reach_refCount(2) [OF t(1) assms(5)] by (auto simp: orphan_def)
qed

theorem client_close_leaks_witness:
  "\<exists>s s'. open_reach s \<and> serv_event (EReceived 0 (packet_of 1 (-3) [])) s = Inr s' \<and> sv_reqs s' 0 \<noteq> None \<and> \<not> sv_freed s'"
proof -
  from ex_start obtain s where s: "open_reach s" "sv_wait_recv s" "sv_bufs s 0 = None" "sv_pool s = pool_new"
    "sv_next_req s = 0" by blast
  then have en: "enabled (EReceived 0 (packet_of 1 (-3) [])) s" by simp
  have w: "sv_wait s 0 = None" using s(1,5) serv_reach_wf by (fastforce simp: open_reach_def serv_wf_def)
  obtain s' where s': "serv_event (EReceived 0 (packet_of 1 (-3) [])) s = Inr s'"
    using close_packet_orphan [OF s(1), of 0 1 "[]"] s w by (auto simp: pool_new_def simp del: serv_event.simps)
  have "server_close (packet_state 0 (packet_of 1 (-3) []) (packet_request 1 (-3) 0 0) s) = Inr s'"
    using s' s(1) unfolding receive_packet [OF s(1)] Let_def
    by (simp add: stepClose1_def get_req_bind open_reach_def)
  from server_close_fields [OF this] s(5) have "sv_next_req s' = 1"
    by (simp add: wf_fields_def packet_state_def)
  with client_close_leaks [OF s(1) en s', of s'] s s' show ?thesis
    by (intro exI [of _ s] exI [of _ s']) (simp del: serv_event.simps)
qed

text \<open>
  A use after free that a run can reach: the io reports the failure of a send before the handler of
  the packet has returned, the connection is closed for it, the owner deletes the context, and the
  rest of \<open>step2\<close> reads the freed context.
\<close>

theorem step1_after_delete:
  "\<exists>s. serv_reach s \<and> enabled EReturn s \<and> serv_event EReturn s = Inl UseAfterFree"
proof -
  have "case ex_run [EReceived 0 (packet_of 1 (-4) []), ESent 0 (Some ''e''), EDelete] of Inl _ \<Rightarrow> False
        | Inr s \<Rightarrow> enabled EReturn s \<and> sv_freed s" by code_simp
  from ex_run_obtain [OF this] show ?thesis
    by (auto simp: server_step2_return_def server_step1_def ctx_alive_def)
qed

text \<open>
  A wrong free that a run can reach: a polled callable takes its parameter over (sets
  \<open>parameter.base\<close> to null) and rejects; step 3 of the poll then "recovers" the base by subtracting 4
  from the null pointer and hands a wild address to \<open>io->buf_free\<close>.
\<close>

theorem poll_frees_wild_pointer:
  "\<exists>s. serv_reach s \<and> enabled (ESent 1 None) s \<and> serv_event (ESent 1 None) s = Inl BadFree"
proof -
  have "case ex_run (ex_poll @ [ENextStep 1 (ex_done\<lparr>cp_rejected := True, cp_takes_param := True\<rparr>)]) of
        Inl _ \<Rightarrow> False | Inr s \<Rightarrow> enabled (ESent 1 None) s \<and>
          (case serv_event (ESent 1 None) s of Inl e \<Rightarrow> e = BadFree | Inr _ \<Rightarrow> False)"
    by code_simp
  from ex_run_obtain [OF this] obtain s where s: "serv_reach s" "enabled (ESent 1 None) s"
    "case serv_event (ESent 1 None) s of Inl e \<Rightarrow> e = BadFree | Inr _ \<Rightarrow> False" by blast
  then have "serv_event (ESent 1 None) s = Inl BadFree" by (cases "serv_event (ESent 1 None) s") simp_all
  with s(1,2) show ?thesis by blast
qed

end
