(* ===== verification/PipeConn.thy ===== *)
theory PipeConn
  imports Prelude "HOL-Library.Multiset"
begin

text \<open>
  A connection of \<open>c/pxprpc_pipe/pxprpc_pipe.c\<close>.  The code calls the completion callbacks of its users
  in the middle of its functions, and a callback may call the connection again, so the functions are
  kept as code frames on a control stack: a frame runs up to the next callback, which gives the turn to
  the user.  Send requests are cells of a store linked through \<open>next\<close>, as in the code; the lists they
  form are an abstraction proved below.  A callback is the pair of function and argument, named by a
  number; the parts of a message are what the sender's buffer holds until the send completes.
\<close>

section \<open>State\<close>

datatype side = ClientSide | ServerSide

fun other :: "side \<Rightarrow> side" where
  "other ClientSide = ServerSide"
| "other ServerSide = ClientSide"

type_synonym callback = nat
type_synonym ioid = nat

record io_req =
  ir_self :: side
  ir_parts :: "bytes list"
  ir_cb :: callback
  ir_next :: "ioid option"

datatype pipe_entry =
    PostSend side bytes callback | PostRecv side callback
  | RefuseSend side callback string | RefuseRecv side callback string
  | CallRecv side callback "bytes option" "string option"
  | CallSend side callback "string option"

record pipe_conn =
  pn_send_error :: "side \<Rightarrow> string option"
  pn_receive_error :: "side \<Rightarrow> string option"
  pn_send :: "side \<Rightarrow> ioid option"
  pn_recv :: "side \<Rightarrow> callback option"
  pn_closed :: "side \<Rightarrow> bool"
  pn_reqs :: "ioid \<Rightarrow> io_req option"
  pn_next :: ioid
  pn_freed :: bool
  pn_log :: "pipe_entry list"

definition error_connection_closed :: string where
  "error_connection_closed = ''Connection closed.''"

definition error_overlapped_receive :: string where
  "error_overlapped_receive = ''Overlapped receive is not supported''"

definition transfer_buffer :: "bytes list \<Rightarrow> bytes" where
  "transfer_buffer parts = concat parts"

definition conn_alive :: "pipe_conn \<Rightarrow> pipe_conn res" where
  "conn_alive c = (if pn_freed c then Inl UseAfterFree else Inr c)"

definition io_get :: "ioid \<Rightarrow> pipe_conn \<Rightarrow> io_req res" where
  "io_get i c = (case pn_reqs c i of None \<Rightarrow> Inl UseAfterFree | Some q \<Rightarrow> Inr q)"

definition io_free :: "ioid \<Rightarrow> pipe_conn \<Rightarrow> pipe_conn res" where
  "io_free i c = (case pn_reqs c i of None \<Rightarrow> Inl BadFree
                  | Some q \<Rightarrow> Inr (c\<lparr>pn_reqs := (pn_reqs c)(i := None)\<rparr>))"

definition say :: "pipe_entry \<Rightarrow> pipe_conn \<Rightarrow> pipe_conn" where
  "say e c = c\<lparr>pn_log := pn_log c @ [e]\<rparr>"

definition pipe_connection_new :: pipe_conn where
  "pipe_connection_new =
     \<lparr>pn_send_error = (\<lambda>_. None), pn_receive_error = (\<lambda>_. None), pn_send = (\<lambda>_. None),
      pn_recv = (\<lambda>_. None), pn_closed = (\<lambda>_. False), pn_reqs = (\<lambda>_. None), pn_next = 0,
      pn_freed = False, pn_log = []\<rparr>"

section \<open>Code frames\<close>

text \<open>
  \<open>PumpHalf d\<close> is the branch of \<open>_pxprpcPipePump\<close> that serves the receiver \<open>d\<close>, \<open>PumpSent\<close> and
  \<open>PumpFree\<close> its last two statements; the \<open>Close\<close> frames are the four parts and the end of
  \<open>_pxprpcPipeConnectionClosing\<close>; \<open>UserTurn\<close> is a callback that has not returned.
\<close>

datatype pframe =
    PumpHalf side | PumpSent side ioid | PumpFree side ioid
  | CloseRecv side | CloseSend side | CloseSendNext side ioid | CloseEnd
  | UserTurn

fun pump_rest :: "side \<Rightarrow> pframe list" where
  "pump_rest ClientSide = [PumpHalf ServerSide]"
| "pump_rest ServerSide = []"

definition pump_half :: "side \<Rightarrow> pipe_conn \<Rightarrow> (pipe_conn \<times> pframe list) res" where
  "pump_half d c =
     bindR (conn_alive c) (\<lambda>c.
     case (pn_recv c d, pn_send c (other d)) of
       (Some cb, Some i) \<Rightarrow>
         bindR (io_get i c) (\<lambda>q.
         let c = c\<lparr>pn_send := (pn_send c)(other d := ir_next q), pn_recv := (pn_recv c)(d := None)\<rparr>
         in Inr (say (CallRecv d cb (Some (transfer_buffer (ir_parts q))) (pn_receive_error c d)) c,
                 [UserTurn, PumpSent d i]))
     | _ \<Rightarrow> Inr (c, pump_rest d))"

definition pump_sent :: "side \<Rightarrow> ioid \<Rightarrow> pipe_conn \<Rightarrow> (pipe_conn \<times> pframe list) res" where
  "pump_sent d i c =
     bindR (io_get i c) (\<lambda>q.
     Inr (say (CallSend (other d) (ir_cb q) (pn_send_error c (other d))) c, [UserTurn, PumpFree d i]))"

definition pump_free :: "side \<Rightarrow> ioid \<Rightarrow> pipe_conn \<Rightarrow> (pipe_conn \<times> pframe list) res" where
  "pump_free d i c = bindR (io_free i c) (\<lambda>c. Inr (c, pump_rest d))"

fun after_close_recv :: "side \<Rightarrow> pframe list" where
  "after_close_recv ServerSide = [CloseRecv ClientSide]"
| "after_close_recv ClientSide = [CloseSend ServerSide]"

definition close_recv :: "side \<Rightarrow> pipe_conn \<Rightarrow> (pipe_conn \<times> pframe list) res" where
  "close_recv d c =
     bindR (conn_alive c) (\<lambda>c.
     case pn_recv c d of
       None \<Rightarrow> Inr (c, after_close_recv d)
     | Some cb \<Rightarrow>
         Inr (say (CallRecv d cb None (pn_receive_error c d)) (c\<lparr>pn_recv := (pn_recv c)(d := None)\<rparr>),
              UserTurn # after_close_recv d))"

fun after_close_send :: "side \<Rightarrow> pframe list" where
  "after_close_send ServerSide = [CloseSend ClientSide]"
| "after_close_send ClientSide = [CloseEnd]"

definition close_send :: "side \<Rightarrow> pipe_conn \<Rightarrow> (pipe_conn \<times> pframe list) res" where
  "close_send d c =
     bindR (conn_alive c) (\<lambda>c.
     case pn_send c d of
       None \<Rightarrow> Inr (c, after_close_send d)
     | Some i \<Rightarrow>
         bindR (io_get i c) (\<lambda>q.
         Inr (say (CallSend d (ir_cb q) (pn_send_error c d)) c, [UserTurn, CloseSendNext d i])))"

definition close_send_next :: "side \<Rightarrow> ioid \<Rightarrow> pipe_conn \<Rightarrow> (pipe_conn \<times> pframe list) res" where
  "close_send_next d i c =
     bindR (conn_alive c) (\<lambda>c.
     bindR (io_get i c) (\<lambda>q.
     bindR (io_free i (c\<lparr>pn_send := (pn_send c)(d := ir_next q)\<rparr>)) (\<lambda>c.
     Inr (c, [CloseSend d]))))"

definition close_end :: "pipe_conn \<Rightarrow> (pipe_conn \<times> pframe list) res" where
  "close_end c =
     bindR (conn_alive c) (\<lambda>c.
     Inr (if pn_closed c ClientSide \<and> pn_closed c ServerSide then c\<lparr>pn_freed := True\<rparr> else c, []))"

fun code_step :: "pframe \<Rightarrow> pipe_conn \<Rightarrow> (pipe_conn \<times> pframe list) res" where
  "code_step (PumpHalf d) c = pump_half d c"
| "code_step (PumpSent d i) c = pump_sent d i c"
| "code_step (PumpFree d i) c = pump_free d i c"
| "code_step (CloseRecv d) c = close_recv d c"
| "code_step (CloseSend d) c = close_send d c"
| "code_step (CloseSendNext d i) c = close_send_next d i c"
| "code_step CloseEnd c = close_end c"
| "code_step UserTurn c = Inr (c, [])"

section \<open>Calls of the users\<close>

text \<open>The loop to the last request; the fuel is the number of requests ever allocated.\<close>

fun last_io :: "nat \<Rightarrow> ioid \<Rightarrow> pipe_conn \<Rightarrow> ioid res" where
  "last_io 0 i c = Inl Uninit"
| "last_io (Suc n) i c =
     bindR (io_get i c) (\<lambda>q. case ir_next q of None \<Rightarrow> Inr i | Some j \<Rightarrow> last_io n j c)"

definition append_io :: "side \<Rightarrow> bytes list \<Rightarrow> callback \<Rightarrow> pipe_conn \<Rightarrow> pipe_conn res" where
  "append_io d parts cb c =
     (let i = pn_next c;
          c = c\<lparr>pn_reqs := (pn_reqs c)(i \<mapsto> \<lparr>ir_self = d, ir_parts = parts, ir_cb = cb, ir_next = None\<rparr>),
                pn_next := i + 1\<rparr>
      in case pn_send c d of
           None \<Rightarrow> Inr (c\<lparr>pn_send := (pn_send c)(d \<mapsto> i)\<rparr>)
         | Some h \<Rightarrow>
             bindR (last_io (pn_next c) h c) (\<lambda>j.
             bindR (io_get j c) (\<lambda>q.
             Inr (c\<lparr>pn_reqs := (pn_reqs c)(j \<mapsto> q\<lparr>ir_next := Some i\<rparr>)\<rparr>))))"

definition pipe_send :: "side \<Rightarrow> bytes list \<Rightarrow> callback \<Rightarrow> pipe_conn \<Rightarrow> (pipe_conn \<times> pframe list) res" where
  "pipe_send d parts cb c =
     bindR (conn_alive c) (\<lambda>c.
     let c = c\<lparr>pn_send_error := (pn_send_error c)(d := None)\<rparr>
     in if pn_closed c ClientSide \<or> pn_closed c ServerSide
        then Inr (say (RefuseSend d cb error_connection_closed)
                   (c\<lparr>pn_send_error := (pn_send_error c)(d \<mapsto> error_connection_closed)\<rparr>), [UserTurn])
        else bindR (append_io d parts cb c) (\<lambda>c.
             Inr (say (PostSend d (transfer_buffer parts) cb) c, [PumpHalf ClientSide])))"

definition pipe_receive :: "side \<Rightarrow> callback \<Rightarrow> pipe_conn \<Rightarrow> (pipe_conn \<times> pframe list) res" where
  "pipe_receive d cb c =
     bindR (conn_alive c) (\<lambda>c.
     let c = c\<lparr>pn_receive_error := (pn_receive_error c)(d := None)\<rparr>
     in if pn_recv c d \<noteq> None
        then Inr (say (RefuseRecv d cb error_overlapped_receive)
                   (c\<lparr>pn_receive_error := (pn_receive_error c)(d \<mapsto> error_overlapped_receive)\<rparr>), [UserTurn])
        else if pn_closed c ClientSide \<or> pn_closed c ServerSide
        then Inr (say (RefuseRecv d cb error_connection_closed)
                   (c\<lparr>pn_receive_error := (pn_receive_error c)(d \<mapsto> error_connection_closed)\<rparr>), [UserTurn])
        else Inr (say (PostRecv d cb) (c\<lparr>pn_recv := (pn_recv c)(d \<mapsto> cb)\<rparr>), [PumpHalf ClientSide]))"

definition pipe_close :: "side \<Rightarrow> pipe_conn \<Rightarrow> (pipe_conn \<times> pframe list) res" where
  "pipe_close d c =
     bindR (conn_alive c) (\<lambda>c.
     Inr (c\<lparr>pn_closed := (pn_closed c)(d := True),
            pn_receive_error := (\<lambda>_. Some error_connection_closed),
            pn_send_error := (\<lambda>_. Some error_connection_closed)\<rparr>, [CloseRecv ServerSide]))"

text \<open>The functions of the two ends.\<close>

definition client_send :: "bytes list \<Rightarrow> callback \<Rightarrow> pipe_conn \<Rightarrow> (pipe_conn \<times> pframe list) res" where
  [simp]: "client_send parts cb c = pipe_send ClientSide parts cb c"

definition client_receive :: "callback \<Rightarrow> pipe_conn \<Rightarrow> (pipe_conn \<times> pframe list) res" where
  [simp]: "client_receive cb c = pipe_receive ClientSide cb c"

definition server_send :: "bytes list \<Rightarrow> callback \<Rightarrow> pipe_conn \<Rightarrow> (pipe_conn \<times> pframe list) res" where
  [simp]: "server_send parts cb c = pipe_send ServerSide parts cb c"

definition server_recv :: "callback \<Rightarrow> pipe_conn \<Rightarrow> (pipe_conn \<times> pframe list) res" where
  [simp]: "server_recv cb c = pipe_receive ServerSide cb c"

definition client_close :: "pipe_conn \<Rightarrow> (pipe_conn \<times> pframe list) res" where
  [simp]: "client_close c = pipe_close ClientSide c"

definition server_side_close :: "pipe_conn \<Rightarrow> (pipe_conn \<times> pframe list) res" where
  [simp]: "server_side_close c = pipe_close ServerSide c"

datatype pipe_op = OpSend side "bytes list" callback | OpRecv side callback | OpClose side

fun pipe_call :: "pipe_op \<Rightarrow> pipe_conn \<Rightarrow> (pipe_conn \<times> pframe list) res" where
  "pipe_call (OpSend ClientSide parts cb) c = client_send parts cb c"
| "pipe_call (OpSend ServerSide parts cb) c = server_send parts cb c"
| "pipe_call (OpRecv ClientSide cb) c = client_receive cb c"
| "pipe_call (OpRecv ServerSide cb) c = server_recv cb c"
| "pipe_call (OpClose ClientSide) c = client_close c"
| "pipe_call (OpClose ServerSide) c = server_side_close c"

lemma pipe_call_side:
  "pipe_call (OpSend d parts cb) c = pipe_send d parts cb c"
  "pipe_call (OpRecv d cb) c = pipe_receive d cb c"
  "pipe_call (OpClose d) c = pipe_close d c"
  by (cases d; simp)+

section \<open>Runs\<close>

text \<open>
  A run alternates between the code, as long as a code frame is on top, and the users: at a callback
  that has not returned, or outside of all calls, they may call the connection; the callback may return.
\<close>

datatype pipe_input = Code | Call pipe_op | Return

type_synonym pstate = "pipe_conn \<times> pframe list"

fun user_turn :: "pframe list \<Rightarrow> bool" where
  "user_turn [] = True"
| "user_turn (f # st) = (f = UserTurn)"

fun pipe_enabled :: "pipe_input \<Rightarrow> pstate \<Rightarrow> bool" where
  "pipe_enabled Code (c, st) = (\<not> user_turn st)"
| "pipe_enabled (Call op) (c, st) = user_turn st"
| "pipe_enabled Return (c, st) = (st \<noteq> [] \<and> user_turn st)"

fun pipe_event :: "pipe_input \<Rightarrow> pstate \<Rightarrow> pstate res" where
  "pipe_event Code (c, f # st) = bindR (code_step f c) (\<lambda>(c', fs). Inr (c', fs @ st))"
| "pipe_event (Call op) (c, st) = bindR (pipe_call op c) (\<lambda>(c', fs). Inr (c', fs @ st))"
| "pipe_event Return (c, f # st) = Inr (c, st)"
| "pipe_event _ (c, []) = Inr (c, [])"

inductive pipe_step :: "pstate \<Rightarrow> pipe_input \<Rightarrow> pstate \<Rightarrow> bool" where
  "pipe_enabled e s \<Longrightarrow> pipe_event e s = Inr s' \<Longrightarrow> pipe_step s e s'"

inductive_cases pipe_stepE: "pipe_step s e s'"

text \<open>
  Orderly use: a side closes once, not from inside a callback that reports a closing, the second close
  comes outside of all callbacks, and nobody uses the connection once both have closed it.
\<close>

fun closing_frame :: "pframe \<Rightarrow> bool" where
  "closing_frame (CloseRecv d) = True"
| "closing_frame (CloseSend d) = True"
| "closing_frame (CloseSendNext d i) = True"
| "closing_frame CloseEnd = True"
| "closing_frame _ = False"

fun orderly :: "pipe_input \<Rightarrow> pstate \<Rightarrow> bool" where
  "orderly (Call (OpClose d)) (c, st) =
     (\<not> pn_freed c \<and> \<not> pn_closed c d \<and> \<not> (\<exists>f\<in>set st. closing_frame f) \<and> (pn_closed c (other d) \<longrightarrow> st = []))"
| "orderly (Call op) (c, st) = (\<not> pn_freed c)"
| "orderly _ s = True"

inductive pipe_reach :: "pstate \<Rightarrow> bool" where
  new: "pipe_reach (pipe_connection_new, [])"
| step: "pipe_reach s \<Longrightarrow> orderly e s \<Longrightarrow> pipe_step s e s' \<Longrightarrow> pipe_reach s'"

section \<open>The queues as lists\<close>

fun io_chain :: "(ioid \<Rightarrow> io_req option) \<Rightarrow> ioid option \<Rightarrow> ioid list \<Rightarrow> bool" where
  "io_chain m e [] = (e = None)"
| "io_chain m e (i # is) = (e = Some i \<and> (\<exists>r. m i = Some r \<and> io_chain m (ir_next r) is))"

definition io_payload :: "(ioid \<Rightarrow> io_req option) \<Rightarrow> ioid \<Rightarrow> bytes" where
  "io_payload m i = (case m i of None \<Rightarrow> [] | Some r \<Rightarrow> transfer_buffer (ir_parts r))"

definition io_cb :: "(ioid \<Rightarrow> io_req option) \<Rightarrow> ioid \<Rightarrow> callback" where
  "io_cb m i = (case m i of None \<Rightarrow> 0 | Some r \<Rightarrow> ir_cb r)"

lemma io_chain_frame:
  "io_chain m e is \<Longrightarrow> (\<And>i. i \<in> set is \<Longrightarrow> m' i = m i) \<Longrightarrow> io_chain m' e is"
  by (induction "is" arbitrary: e) auto

lemma io_chain_dom: "io_chain m e is \<Longrightarrow> set is \<subseteq> dom m"
  by (induction "is" arbitrary: e) auto

lemma io_chain_None [simp]: "io_chain m None is \<longleftrightarrow> is = []"
  by (cases "is") auto

lemma io_chain_Some: "io_chain m (Some i) is \<longleftrightarrow> (\<exists>js r. is = i # js \<and> m i = Some r \<and> io_chain m (ir_next r) js)"
  by (cases "is") auto

lemma last_io_chain:
  "io_chain (pn_reqs c) (Some h) is \<Longrightarrow> length is \<le> n \<Longrightarrow>
     \<exists>r. last_io n h c = Inr (last is) \<and> pn_reqs c (last is) = Some r \<and> ir_next r = None"
proof (induction "is" arbitrary: h n)
  case (Cons i "is")
  then obtain r where r: "h = i" "pn_reqs c i = Some r" "io_chain (pn_reqs c) (ir_next r) is" by auto
  from Cons.prems obtain k where k: "n = Suc k" "length is \<le> k" by (cases n) auto
  show ?case
  proof (cases "ir_next r")
    case None
    with r k show ?thesis by (simp add: io_get_def)
  next
    case (Some j)
    with r(3) have "is \<noteq> []" by auto
    with Cons.IH [of j k] r k Some show ?thesis by (simp add: io_get_def)
  qed
qed simp

text \<open>Linking a new last request.\<close>

lemma io_chain_snoc:
  "io_chain m e is \<Longrightarrow> is \<noteq> [] \<Longrightarrow> distinct is \<Longrightarrow> i \<notin> set is \<Longrightarrow> m (last is) = Some r \<Longrightarrow>
     m' = m(i \<mapsto> q, last is \<mapsto> r\<lparr>ir_next := Some i\<rparr>) \<Longrightarrow> ir_next q = None \<Longrightarrow> io_chain m' e (is @ [i])"
proof (induction "is" arbitrary: e)
  case (Cons j "is")
  then obtain rj where rj: "e = Some j" "m j = Some rj" "io_chain m (ir_next rj) is" by auto
  show ?case
  proof (cases "is = []")
    case True
    with Cons.prems rj show ?thesis by simp
  next
    case False
    then have "last is \<in> set is" by simp
    with Cons.prems have "j \<noteq> last is" "j \<noteq> i" by auto
    then have "m' j = Some rj" using rj(2) Cons.prems(6) False by simp
    moreover have "io_chain m' (ir_next rj) (is @ [i])"
      by (rule Cons.IH) (use Cons.prems rj False in simp_all)
    ultimately show ?thesis using rj(1) by simp
  qed
qed simp

lemma all_side: "(\<forall>d. P d) \<longleftrightarrow> P ClientSide \<and> P ServerSide"
  using side.exhaust by metis

lemma other_other [simp]: "other (other d) = d"
  by (cases d) simp_all

lemma other_neq [simp]: "other d \<noteq> d" "d \<noteq> other d"
  by (cases d; simp)+

lemma side_cases2: "d' = d \<or> d' = other d"
  by (cases d; cases d') simp_all

section \<open>The invariant of orderly use\<close>

type_synonym queues = "side \<Rightarrow> ioid list"

fun frame_ids :: "pframe \<Rightarrow> ioid list" where
  "frame_ids (PumpSent d i) = [i]"
| "frame_ids (PumpFree d i) = [i]"
| "frame_ids _ = []"

definition inflight :: "pframe list \<Rightarrow> ioid list" where
  "inflight st = concat (map frame_ids st)"

definition store_ok :: "queues \<Rightarrow> pstate \<Rightarrow> bool" where
  "store_ok q s \<longleftrightarrow> (case s of (c, st) \<Rightarrow>
     (\<forall>d. io_chain (pn_reqs c) (pn_send c d) (q d))
   \<and> distinct (q ClientSide @ q ServerSide @ inflight st)
   \<and> dom (pn_reqs c) = set (q ClientSide @ q ServerSide @ inflight st)
   \<and> (\<forall>i\<ge>pn_next c. pn_reqs c i = None))"

text \<open>Below a code frame there is no frame of a closing; the last close empties the stack.\<close>

fun stack_ok :: "pframe list \<Rightarrow> bool" where
  "stack_ok [] = True"
| "stack_ok (f # st) = (if f = UserTurn then stack_ok st else \<not> (\<exists>g\<in>set st. closing_frame g))"

fun closing_only :: "pframe list \<Rightarrow> bool" where
  "closing_only [] = False"
| "closing_only (f # st) = (if st = [] then closing_frame f else f = UserTurn \<and> closing_only st)"

fun progress :: "pframe \<Rightarrow> pipe_conn \<Rightarrow> bool" where
  "progress (CloseRecv ServerSide) c = True"
| "progress (CloseRecv ClientSide) c = (pn_recv c ServerSide = None)"
| "progress (CloseSend ServerSide) c = (\<forall>d. pn_recv c d = None)"
| "progress (CloseSend ClientSide) c = ((\<forall>d. pn_recv c d = None) \<and> pn_send c ServerSide = None)"
| "progress (CloseSendNext ServerSide i) c = ((\<forall>d. pn_recv c d = None) \<and> pn_send c ServerSide = Some i)"
| "progress (CloseSendNext ClientSide i) c =
     ((\<forall>d. pn_recv c d = None) \<and> pn_send c ServerSide = None \<and> pn_send c ClientSide = Some i)"
| "progress CloseEnd c = (\<forall>d. pn_recv c d = None \<and> pn_send c d = None)"
| "progress _ c = True"

definition any_closed :: "pipe_conn \<Rightarrow> bool" where
  "any_closed c \<longleftrightarrow> pn_closed c ClientSide \<or> pn_closed c ServerSide"

definition shape_ok :: "pstate \<Rightarrow> bool" where
  "shape_ok s \<longleftrightarrow> (case s of (c, st) \<Rightarrow>
     stack_ok st
   \<and> (\<forall>f\<in>set st. closing_frame f \<longrightarrow> any_closed c \<and> progress f c)
   \<and> (any_closed c \<longrightarrow> (\<exists>f\<in>set st. closing_frame f) \<or> (\<forall>d. pn_recv c d = None \<and> pn_send c d = None))
   \<and> (pn_closed c ClientSide \<and> pn_closed c ServerSide \<and> \<not> pn_freed c \<longrightarrow> closing_only st)
   \<and> (pn_freed c \<longrightarrow> st = [] \<and> (\<forall>d. pn_send c d = None)))"

definition stable :: "side \<Rightarrow> pipe_conn \<Rightarrow> bool" where
  "stable d c \<longleftrightarrow> pn_recv c d = None \<or> pn_send c (other d) = None"

definition pump_ok :: "pstate \<Rightarrow> bool" where
  "pump_ok s \<longleftrightarrow> (case s of (c, st) \<Rightarrow>
     (\<not> stable ClientSide c \<longrightarrow> st \<noteq> [] \<and> hd st = PumpHalf ClientSide)
   \<and> (\<not> stable ServerSide c \<longrightarrow> st \<noteq> [] \<and> (hd st = PumpHalf ServerSide \<or> hd st = PumpHalf ClientSide \<and> stable ClientSide c)))"

text \<open>What a log says was accepted from a sender, and what its peer was given.\<close>

fun posted1 :: "side \<Rightarrow> pipe_entry \<Rightarrow> bytes list" where
  "posted1 d (PostSend d' p cb) = (if d' = d then [p] else [])"
| "posted1 d _ = []"

fun delivered1 :: "side \<Rightarrow> pipe_entry \<Rightarrow> bytes list" where
  "delivered1 d (CallRecv d' cb (Some p) err) = (if d' = d then [p] else [])"
| "delivered1 d _ = []"

definition posted :: "side \<Rightarrow> pipe_entry list \<Rightarrow> bytes list" where
  "posted d l = concat (map (posted1 d) l)"

definition delivered :: "side \<Rightarrow> pipe_entry list \<Rightarrow> bytes list" where
  "delivered d l = concat (map (delivered1 d) l)"

definition fifo_ok :: "queues \<Rightarrow> pstate \<Rightarrow> bool" where
  "fifo_ok q s \<longleftrightarrow> (case s of (c, st) \<Rightarrow> \<forall>d. \<exists>rest.
     posted d (pn_log c) = delivered (other d) (pn_log c) @ rest
   \<and> (\<not> any_closed c \<longrightarrow> rest = map (io_payload (pn_reqs c)) (q d)))"

text \<open>Callbacks accepted, called, and still to be called.\<close>

fun posted_cbs :: "pipe_entry list \<Rightarrow> callback multiset" where
  "posted_cbs [] = {#}"
| "posted_cbs (PostSend d p cb # l) = add_mset cb (posted_cbs l)"
| "posted_cbs (PostRecv d cb # l) = add_mset cb (posted_cbs l)"
| "posted_cbs (_ # l) = posted_cbs l"

fun called_cbs :: "pipe_entry list \<Rightarrow> callback multiset" where
  "called_cbs [] = {#}"
| "called_cbs (CallRecv d cb p e # l) = add_mset cb (called_cbs l)"
| "called_cbs (CallSend d cb e # l) = add_mset cb (called_cbs l)"
| "called_cbs (_ # l) = called_cbs l"

fun frame_cbs :: "(ioid \<Rightarrow> io_req option) \<Rightarrow> pframe \<Rightarrow> callback multiset" where
  "frame_cbs m (PumpSent d i) = {#io_cb m i#}"
| "frame_cbs m _ = {#}"

fun frame_done :: "(ioid \<Rightarrow> io_req option) \<Rightarrow> pframe \<Rightarrow> callback multiset" where
  "frame_done m (CloseSendNext d i) = {#io_cb m i#}"
| "frame_done m _ = {#}"

definition opt_cb :: "callback option \<Rightarrow> callback multiset" where
  "opt_cb x = (case x of None \<Rightarrow> {#} | Some cb \<Rightarrow> {#cb#})"

definition queue_cbs :: "(ioid \<Rightarrow> io_req option) \<Rightarrow> ioid list \<Rightarrow> callback multiset" where
  "queue_cbs m is = mset (map (io_cb m) is)"

definition stack_cbs :: "(ioid \<Rightarrow> io_req option) \<Rightarrow> pframe list \<Rightarrow> callback multiset" where
  "stack_cbs m st = sum_list (map (frame_cbs m) st)"

definition stack_done :: "(ioid \<Rightarrow> io_req option) \<Rightarrow> pframe list \<Rightarrow> callback multiset" where
  "stack_done m st = sum_list (map (frame_done m) st)"

lemma cbs_simps [simp]:
  "queue_cbs m [] = {#}" "queue_cbs m (i # is) = add_mset (io_cb m i) (queue_cbs m is)"
  "queue_cbs m (is @ js) = queue_cbs m is + queue_cbs m js"
  "stack_cbs m [] = {#}" "stack_cbs m (f # st) = frame_cbs m f + stack_cbs m st"
  "stack_done m [] = {#}" "stack_done m (f # st) = frame_done m f + stack_done m st"
  by (simp_all add: queue_cbs_def stack_cbs_def stack_done_def)

definition calls_ok :: "queues \<Rightarrow> pstate \<Rightarrow> bool" where
  "calls_ok q s \<longleftrightarrow> (case s of (c, st) \<Rightarrow>
     posted_cbs (pn_log c) + stack_done (pn_reqs c) st
       = called_cbs (pn_log c) + opt_cb (pn_recv c ClientSide) + opt_cb (pn_recv c ServerSide)
       + queue_cbs (pn_reqs c) (q ClientSide) + queue_cbs (pn_reqs c) (q ServerSide)
       + stack_cbs (pn_reqs c) st)"

definition pipe_inv :: "queues \<Rightarrow> pstate \<Rightarrow> bool" where
  "pipe_inv q s \<longleftrightarrow> store_ok q s \<and> shape_ok s \<and> pump_ok s \<and> fifo_ok q s \<and> calls_ok q s"

lemma pipe_inv_new: "pipe_inv (\<lambda>_. []) (pipe_connection_new, [])"
  by (simp add: pipe_inv_def store_ok_def shape_ok_def pump_ok_def fifo_ok_def calls_ok_def stable_def
      pipe_connection_new_def inflight_def posted_def delivered_def opt_cb_def any_closed_def)

section \<open>Code frames keep it\<close>

lemma log_append [simp]:
  "posted d (l @ [e]) = posted d l @ posted1 d e" "delivered d (l @ [e]) = delivered d l @ delivered1 d e"
  "posted_cbs (l @ l') = posted_cbs l + posted_cbs l'" "called_cbs (l @ l') = called_cbs l + called_cbs l'"
  by (simp_all add: posted_def delivered_def) (induction l rule: posted_cbs.induct; simp; fail
      | induction l rule: called_cbs.induct; simp)+

lemma say_sel [simp]:
  "pn_send (say e c) = pn_send c" "pn_recv (say e c) = pn_recv c" "pn_closed (say e c) = pn_closed c"
  "pn_reqs (say e c) = pn_reqs c" "pn_next (say e c) = pn_next c" "pn_freed (say e c) = pn_freed c"
  "pn_log (say e c) = pn_log c @ [e]" "pn_send_error (say e c) = pn_send_error c"
  "pn_receive_error (say e c) = pn_receive_error c"
  by (simp_all add: say_def)

lemma stack_ok_no_closing: "\<not> (\<exists>g\<in>set st. closing_frame g) \<Longrightarrow> stack_ok st"
  by (induction st) auto

lemma inflight_simps [simp]:
  "inflight [] = []" "inflight (f # st) = frame_ids f @ inflight st" "inflight (st @ st') = inflight st @ inflight st'"
  by (simp_all add: inflight_def)

lemma no_closing_none:
  "shape_ok (c, f # st) \<Longrightarrow> \<not> closing_frame f \<Longrightarrow> f \<noteq> UserTurn \<Longrightarrow>
     \<not> any_closed c \<or> (\<forall>d. pn_recv c d = None \<and> pn_send c d = None)"
  by (auto simp: shape_ok_def)

lemma not_freed: "shape_ok (c, f # st) \<Longrightarrow> \<not> pn_freed c"
  by (auto simp: shape_ok_def)

lemma pump_half_idle:
  assumes inv: "pipe_inv q (c, PumpHalf d # st)" and idle: "pn_recv c d = None \<or> pn_send c (other d) = None"
  shows "pump_half d c = Inr (c, pump_rest d) \<and> pipe_inv q (c, pump_rest d @ st)"
proof
  have shape: "shape_ok (c, PumpHalf d # st)" and store: "store_ok q (c, PumpHalf d # st)"
    and pump: "pump_ok (c, PumpHalf d # st)" and fifo: "fifo_ok q (c, PumpHalf d # st)"
    and calls: "calls_ok q (c, PumpHalf d # st)"
    using inv by (simp_all add: pipe_inv_def)
  show "pump_half d c = Inr (c, pump_rest d)"
    using idle not_freed [OF shape] by (auto simp: pump_half_def conn_alive_def split: option.splits)
  have "shape_ok (c, pump_rest d @ st)"
    using shape by (cases d) (auto simp: shape_ok_def intro: stack_ok_no_closing split: if_splits)
  moreover have "pump_ok (c, pump_rest d @ st)"
    using pump idle by (cases d) (auto simp: pump_ok_def stable_def)
  moreover have "store_ok q (c, pump_rest d @ st)"
    using store by (cases d) (simp_all add: store_ok_def)
  moreover have "calls_ok q (c, pump_rest d @ st)"
    using calls by (cases d) (simp_all add: calls_ok_def)
  moreover have "fifo_ok q (c, pump_rest d @ st)" using fifo by (simp add: fifo_ok_def)
  ultimately show "pipe_inv q (c, pump_rest d @ st)" by (simp add: pipe_inv_def)
qed

lemma pump_half_active:
  assumes inv: "pipe_inv q (c, PumpHalf d # st)" and cb: "pn_recv c d = Some cb" and i: "pn_send c (other d) = Some i"
  shows "\<exists>c' q'. pump_half d c = Inr (c', [UserTurn, PumpSent d i]) \<and> pipe_inv q' (c', UserTurn # PumpSent d i # st)"
proof -
  have shape: "shape_ok (c, PumpHalf d # st)" and store: "store_ok q (c, PumpHalf d # st)"
    and pump: "pump_ok (c, PumpHalf d # st)" and fifo: "fifo_ok q (c, PumpHalf d # st)"
    and calls: "calls_ok q (c, PumpHalf d # st)"
    using inv by (simp_all add: pipe_inv_def)
  have op: "\<not> any_closed c" using no_closing_none [OF shape] cb by auto
  have nocl: "\<not> (\<exists>g\<in>set st. closing_frame g)" using shape by (simp add: shape_ok_def)
  have "io_chain (pn_reqs c) (pn_send c (other d)) (q (other d))" using store by (simp add: store_ok_def)
  then have "io_chain (pn_reqs c) (Some i) (q (other d))" unfolding i .
  then obtain "is" r where isq: "q (other d) = i # is" "pn_reqs c i = Some r" "io_chain (pn_reqs c) (ir_next r) is"
    by (auto simp: io_chain_Some)
  let ?e = "CallRecv d cb (Some (transfer_buffer (ir_parts r))) (pn_receive_error c d)"
  let ?c = "say ?e (c\<lparr>pn_send := (pn_send c)(other d := ir_next r), pn_recv := (pn_recv c)(d := None)\<rparr>)"
  let ?q = "q(other d := is)"
  let ?st = "UserTurn # PumpSent d i # st"
  have "pump_half d c = Inr (?c, [UserTurn, PumpSent d i])"
    using not_freed [OF shape] cb i isq(2) by (simp add: pump_half_def conn_alive_def io_get_def)
  moreover have "store_ok ?q (?c, ?st)"
    using store isq by (cases d) (auto simp: store_ok_def all_side)
  moreover have "shape_ok (?c, ?st)"
    using shape op nocl by (auto simp: shape_ok_def any_closed_def)
  moreover have "pump_ok (?c, ?st)"
    using pump cb i by (cases d) (auto simp: pump_ok_def stable_def)
  moreover have "fifo_ok ?q (?c, ?st)"
    using fifo op isq(1,2) by (cases d) (auto simp: fifo_ok_def all_side any_closed_def io_payload_def)
  moreover have "calls_ok ?q (?c, ?st)"
    using calls isq(1,2) cb by (cases d) (auto simp: calls_ok_def opt_cb_def)
  ultimately show ?thesis by (intro exI [of _ ?c] exI [of _ ?q]) (simp add: pipe_inv_def)
qed

lemma pump_sent_step:
  assumes inv: "pipe_inv q (c, PumpSent d i # st)"
  shows "\<exists>c'. pump_sent d i c = Inr (c', [UserTurn, PumpFree d i]) \<and> pipe_inv q (c', UserTurn # PumpFree d i # st)"
proof -
  have shape: "shape_ok (c, PumpSent d i # st)" and store: "store_ok q (c, PumpSent d i # st)"
    and pump: "pump_ok (c, PumpSent d i # st)" and fifo: "fifo_ok q (c, PumpSent d i # st)"
    and calls: "calls_ok q (c, PumpSent d i # st)"
    using inv by (simp_all add: pipe_inv_def)
  have "i \<in> dom (pn_reqs c)" using store by (auto simp: store_ok_def)
  then obtain r where r: "pn_reqs c i = Some r" by auto
  let ?c = "say (CallSend (other d) (ir_cb r) (pn_send_error c (other d))) c"
  let ?st = "UserTurn # PumpFree d i # st"
  have "pump_sent d i c = Inr (?c, [UserTurn, PumpFree d i])" by (simp add: pump_sent_def io_get_def r)
  moreover have "store_ok q (?c, ?st)" using store by (simp add: store_ok_def)
  moreover have "shape_ok (?c, ?st)"
    using shape by (auto simp: shape_ok_def any_closed_def split: if_splits)
  moreover have "pump_ok (?c, ?st)" using pump by (auto simp: pump_ok_def stable_def)
  moreover have "fifo_ok q (?c, ?st)" using fifo by (simp add: fifo_ok_def any_closed_def)
  moreover have "calls_ok q (?c, ?st)" using calls r by (simp add: calls_ok_def io_cb_def)
  ultimately show ?thesis by (intro exI [of _ ?c]) (simp add: pipe_inv_def)
qed

text \<open>Freeing a request that no list and no frame refers to any more.\<close>

lemma free_req_maps:
  assumes "i \<notin> set is"
  shows "io_chain (m(i := None)) e is = io_chain m e is"
    and "map (io_payload (m(i := None))) is = map (io_payload m) is"
    and "queue_cbs (m(i := None)) is = queue_cbs m is"
proof -
  show "io_chain (m(i := None)) e is = io_chain m e is"
    by (rule iffI; erule io_chain_frame; use assms in auto)
  show "map (io_payload (m(i := None))) is = map (io_payload m) is"
    using assms by (auto simp: io_payload_def)
  have "map (io_cb (m(i := None))) is = map (io_cb m) is" using assms by (auto simp: io_cb_def)
  then show "queue_cbs (m(i := None)) is = queue_cbs m is" unfolding queue_cbs_def by (rule arg_cong)
qed

lemma frame_cbs_other:
  "i \<notin> set (inflight st) \<Longrightarrow> (\<forall>d. CloseSendNext d i \<notin> set st) \<Longrightarrow>
     stack_cbs (m(i := None)) st = stack_cbs m st \<and> stack_done (m(i := None)) st = stack_done m st"
proof (induction st)
  case (Cons f st)
  then show ?case by (cases f) (auto simp: io_cb_def)
qed simp

lemma progress_reqs: "progress f (c\<lparr>pn_reqs := m\<rparr>) = progress f c"
  by (cases "(f, c)" rule: progress.cases) simp_all

lemma pump_free_step:
  assumes inv: "pipe_inv q (c, PumpFree d i # st)"
  shows "\<exists>c'. pump_free d i c = Inr (c', pump_rest d) \<and> pipe_inv q (c', pump_rest d @ st)"
proof -
  have shape: "shape_ok (c, PumpFree d i # st)" and store: "store_ok q (c, PumpFree d i # st)"
    and pump: "pump_ok (c, PumpFree d i # st)" and fifo: "fifo_ok q (c, PumpFree d i # st)"
    and calls: "calls_ok q (c, PumpFree d i # st)"
    using inv by (simp_all add: pipe_inv_def)
  have "i \<in> dom (pn_reqs c)" using store by (auto simp: store_ok_def)
  then obtain r where r: "pn_reqs c i = Some r" by auto
  have nin: "i \<notin> set (q e)" "i \<notin> set (inflight st)" for e
    using store by (cases e; auto simp: store_ok_def)+
  have ncl: "\<forall>d. CloseSendNext d i \<notin> set st" using shape by (auto simp: shape_ok_def)
  let ?c = "c\<lparr>pn_reqs := (pn_reqs c)(i := None)\<rparr>"
  note maps = free_req_maps [OF nin(1), where m = "pn_reqs c"] frame_cbs_other [OF nin(2) ncl, where m = "pn_reqs c"]
  have "pump_free d i c = Inr (?c, pump_rest d)" by (simp add: pump_free_def io_free_def r)
  moreover have "store_ok q (?c, pump_rest d @ st)"
  proof -
    have "distinct (q ClientSide @ q ServerSide @ inflight st)"
      "dom (pn_reqs ?c) = set (q ClientSide @ q ServerSide @ inflight st)"
      using store nin by (auto simp: store_ok_def)
    moreover have "inflight (pump_rest d) = []" by (cases d) simp_all
    ultimately show ?thesis using store maps(1) by (auto simp: store_ok_def)
  qed
  moreover have "shape_ok (?c, pump_rest d @ st)"
    using shape by (cases d) (auto simp: shape_ok_def any_closed_def intro: stack_ok_no_closing split: if_splits)
  moreover have "pump_ok (?c, pump_rest d @ st)"
    using pump by (cases d) (auto simp: pump_ok_def stable_def)
  moreover have "fifo_ok q (?c, pump_rest d @ st)"
    using fifo by (simp add: fifo_ok_def any_closed_def maps(2) del: map_eq_conv)
  moreover have "calls_ok q (?c, pump_rest d @ st)"
    using calls maps(3,4) by (cases d) (simp_all add: calls_ok_def)
  ultimately show ?thesis by (intro exI [of _ ?c]) (simp add: pipe_inv_def)
qed

lemma close_recv_step:
  assumes inv: "pipe_inv q (c, CloseRecv d # st)"
  shows "\<exists>c' fs. close_recv d c = Inr (c', fs) \<and> pipe_inv q (c', fs @ st)"
proof -
  have shape: "shape_ok (c, CloseRecv d # st)" and store: "store_ok q (c, CloseRecv d # st)"
    and pump: "pump_ok (c, CloseRecv d # st)" and fifo: "fifo_ok q (c, CloseRecv d # st)"
    and calls: "calls_ok q (c, CloseRecv d # st)"
    using inv by (simp_all add: pipe_inv_def)
  show ?thesis
  proof (cases "pn_recv c d")
    case None
    have "close_recv d c = Inr (c, after_close_recv d)"
      using None not_freed [OF shape] by (simp add: close_recv_def conn_alive_def)
    moreover have "shape_ok (c, after_close_recv d @ st)"
      using shape None by (cases d) (auto simp: shape_ok_def all_side split: if_splits)
    moreover have "store_ok q (c, after_close_recv d @ st)" using store by (cases d) (simp_all add: store_ok_def)
    moreover have "pump_ok (c, after_close_recv d @ st)" using pump by (cases d) (auto simp: pump_ok_def)
    moreover have "calls_ok q (c, after_close_recv d @ st)" using calls by (cases d) (simp_all add: calls_ok_def)
    moreover have "fifo_ok q (c, after_close_recv d @ st)" using fifo by (simp add: fifo_ok_def)
    ultimately show ?thesis by (intro exI [of _ c] exI [of _ "after_close_recv d"]) (simp add: pipe_inv_def)
  next
    case (Some cb)
    let ?c = "say (CallRecv d cb None (pn_receive_error c d)) (c\<lparr>pn_recv := (pn_recv c)(d := None)\<rparr>)"
    let ?fs = "UserTurn # after_close_recv d"
    have "close_recv d c = Inr (?c, ?fs)"
      using Some not_freed [OF shape] by (simp add: close_recv_def conn_alive_def)
    moreover have "shape_ok (?c, ?fs @ st)"
      using shape by (cases d) (auto simp: shape_ok_def all_side any_closed_def split: if_splits)
    moreover have "store_ok q (?c, ?fs @ st)" using store by (cases d) (simp_all add: store_ok_def)
    moreover have "pump_ok (?c, ?fs @ st)" using pump by (cases d) (auto simp: pump_ok_def stable_def)
    moreover have "calls_ok q (?c, ?fs @ st)"
      using calls Some by (cases d) (simp_all add: calls_ok_def opt_cb_def)
    moreover have "fifo_ok q (?c, ?fs @ st)" using fifo by (simp add: fifo_ok_def any_closed_def)
    ultimately show ?thesis by (intro exI [of _ ?c] exI [of _ ?fs]) (simp add: pipe_inv_def)
  qed
qed

lemma close_send_step:
  assumes inv: "pipe_inv q (c, CloseSend d # st)"
  shows "\<exists>c' fs. close_send d c = Inr (c', fs) \<and> pipe_inv q (c', fs @ st)"
proof -
  have shape: "shape_ok (c, CloseSend d # st)" and store: "store_ok q (c, CloseSend d # st)"
    and pump: "pump_ok (c, CloseSend d # st)" and fifo: "fifo_ok q (c, CloseSend d # st)"
    and calls: "calls_ok q (c, CloseSend d # st)"
    using inv by (simp_all add: pipe_inv_def)
  show ?thesis
  proof (cases "pn_send c d")
    case None
    have "close_send d c = Inr (c, after_close_send d)"
      using None not_freed [OF shape] by (simp add: close_send_def conn_alive_def)
    moreover have "shape_ok (c, after_close_send d @ st)"
      using shape None by (cases d) (auto simp: shape_ok_def all_side split: if_splits)
    moreover have "store_ok q (c, after_close_send d @ st)" using store by (cases d) (simp_all add: store_ok_def)
    moreover have "pump_ok (c, after_close_send d @ st)" using pump by (cases d) (auto simp: pump_ok_def)
    moreover have "calls_ok q (c, after_close_send d @ st)" using calls by (cases d) (simp_all add: calls_ok_def)
    moreover have "fifo_ok q (c, after_close_send d @ st)" using fifo by (simp add: fifo_ok_def)
    ultimately show ?thesis by (intro exI [of _ c] exI [of _ "after_close_send d"]) (simp add: pipe_inv_def)
  next
    case (Some i)
    have "io_chain (pn_reqs c) (pn_send c d) (q d)" using store by (simp add: store_ok_def)
    then obtain "is" r where isq: "q d = i # is" "pn_reqs c i = Some r"
      unfolding Some by (auto simp: io_chain_Some)
    let ?c = "say (CallSend d (ir_cb r) (pn_send_error c d)) c"
    let ?fs = "[UserTurn, CloseSendNext d i]"
    have "close_send d c = Inr (?c, ?fs)"
      using Some isq not_freed [OF shape] by (simp add: close_send_def conn_alive_def io_get_def)
    moreover have "shape_ok (?c, ?fs @ st)"
      using shape Some by (cases d) (auto simp: shape_ok_def all_side any_closed_def split: if_splits)
    moreover have "store_ok q (?c, ?fs @ st)" using store by (simp add: store_ok_def)
    moreover have "pump_ok (?c, ?fs @ st)" using pump by (auto simp: pump_ok_def stable_def)
    moreover have "calls_ok q (?c, ?fs @ st)"
      using calls isq by (simp add: calls_ok_def io_cb_def)
    moreover have "fifo_ok q (?c, ?fs @ st)" using fifo by (simp add: fifo_ok_def any_closed_def)
    ultimately show ?thesis by (intro exI [of _ ?c] exI [of _ ?fs]) (simp add: pipe_inv_def)
  qed
qed

lemma close_send_next_step:
  assumes inv: "pipe_inv q (c, CloseSendNext d i # st)"
  shows "\<exists>c' q'. close_send_next d i c = Inr (c', [CloseSend d]) \<and> pipe_inv q' (c', CloseSend d # st)"
proof -
  have shape: "shape_ok (c, CloseSendNext d i # st)" and store: "store_ok q (c, CloseSendNext d i # st)"
    and pump: "pump_ok (c, CloseSendNext d i # st)" and fifo: "fifo_ok q (c, CloseSendNext d i # st)"
    and calls: "calls_ok q (c, CloseSendNext d i # st)"
    using inv by (simp_all add: pipe_inv_def)
  have head: "pn_send c d = Some i" using shape by (cases d) (auto simp: shape_ok_def)
  have cl: "any_closed c" using shape by (auto simp: shape_ok_def)
  have "io_chain (pn_reqs c) (pn_send c d) (q d)" using store by (simp add: store_ok_def)
  then obtain "is" r where isq: "q d = i # is" "pn_reqs c i = Some r" "io_chain (pn_reqs c) (ir_next r) is"
    unfolding head by (auto simp: io_chain_Some)
  have nin: "i \<notin> set is" "i \<notin> set (q (other d))" "i \<notin> set (inflight st)"
    using store isq by (cases d; auto simp: store_ok_def)+
  have ncl: "\<forall>d. CloseSendNext d i \<notin> set st" using shape by (auto simp: shape_ok_def)
  let ?c = "c\<lparr>pn_send := (pn_send c)(d := ir_next r), pn_reqs := (pn_reqs c)(i := None)\<rparr>"
  let ?q = "q(d := is)"
  note m1 = free_req_maps [OF nin(1), where m = "pn_reqs c"]
    and m2 = free_req_maps [OF nin(2), where m = "pn_reqs c"]
    and m3 = frame_cbs_other [OF nin(3) ncl, where m = "pn_reqs c"]
  have "close_send_next d i c = Inr (?c, [CloseSend d])"
    using not_freed [OF shape] isq by (simp add: close_send_next_def conn_alive_def io_get_def io_free_def)
  moreover have "store_ok ?q (?c, CloseSend d # st)"
  proof -
    have "io_chain (pn_reqs ?c) (pn_send ?c e) (?q e)" for e
      using side_cases2 [of e d] store isq m1(1) m2(1) by (auto simp: store_ok_def)
    moreover have "dom (pn_reqs ?c) = set (?q ClientSide @ ?q ServerSide @ inflight (CloseSend d # st))"
      using store isq nin by (cases d) (auto simp: store_ok_def)
    ultimately show ?thesis using store isq by (cases d) (auto simp: store_ok_def)
  qed
  moreover have "shape_ok (?c, CloseSend d # st)"
    using shape by (cases d) (auto simp: shape_ok_def all_side any_closed_def split: if_splits)
  moreover have "pump_ok (?c, CloseSend d # st)"
    using shape by (cases d) (auto simp: pump_ok_def shape_ok_def stable_def)
  moreover have "calls_ok ?q (?c, CloseSend d # st)"
    using calls isq m1(3) m2(3) m3 by (cases d) (simp_all add: calls_ok_def io_cb_def)
  moreover have "fifo_ok ?q (?c, CloseSend d # st)"
    using fifo cl unfolding fifo_ok_def any_closed_def by (simp add: all_side) blast
  ultimately show ?thesis by (intro exI [of _ ?c] exI [of _ ?q]) (simp add: pipe_inv_def)
qed

lemma close_end_step:
  assumes inv: "pipe_inv q (c, CloseEnd # st)"
  shows "\<exists>c'. close_end c = Inr (c', []) \<and> pipe_inv q (c', st)"
proof -
  have shape: "shape_ok (c, CloseEnd # st)" and store: "store_ok q (c, CloseEnd # st)"
    and pump: "pump_ok (c, CloseEnd # st)" and fifo: "fifo_ok q (c, CloseEnd # st)"
    and calls: "calls_ok q (c, CloseEnd # st)"
    using inv by (simp_all add: pipe_inv_def)
  let ?c = "if pn_closed c ClientSide \<and> pn_closed c ServerSide then c\<lparr>pn_freed := True\<rparr> else c"
  have "close_end c = Inr (?c, [])" using not_freed [OF shape] by (simp add: close_end_def conn_alive_def)
  moreover have "shape_ok (?c, st)"
    using shape not_freed [OF shape]
    by (auto simp: shape_ok_def any_closed_def intro: stack_ok_no_closing split: if_splits)
  moreover have "store_ok q (?c, st)" using store by (simp add: store_ok_def)
  moreover have "pump_ok (?c, st)" using shape by (auto simp: pump_ok_def shape_ok_def stable_def)
  moreover have "calls_ok q (?c, st)" using calls by (simp add: calls_ok_def)
  moreover have "fifo_ok q (c, st)" "fifo_ok q (c\<lparr>pn_freed := True\<rparr>, st)"
    using fifo by (simp_all add: fifo_ok_def any_closed_def)
  then have "fifo_ok q (?c, st)" by simp
  ultimately show ?thesis by (intro exI [of _ ?c]) (simp add: pipe_inv_def)
qed

section \<open>Calls of the users keep it\<close>

lemma user_turn_no_pump: "user_turn st \<Longrightarrow> pump_ok (c, st) \<Longrightarrow> stable ClientSide c \<and> stable ServerSide c"
  by (cases st) (auto simp: pump_ok_def)

lemma refuse_step:
  assumes inv: "pipe_inv q (c, st)" and nf: "\<not> pn_freed c"
    and posts: "\<And>d. posted1 d e = []" "\<And>d. delivered1 d e = []" "posted_cbs [e] = {#}" "called_cbs [e] = {#}"
    and same: "pn_send c' = pn_send c" "pn_recv c' = pn_recv c" "pn_closed c' = pn_closed c" "pn_reqs c' = pn_reqs c"
      "pn_next c' = pn_next c" "pn_freed c' = pn_freed c" "pn_log c' = pn_log c @ [e]" and ut: "user_turn st"
  shows "pipe_inv q (c', UserTurn # st)"
proof -
  have shape: "shape_ok (c, st)" and store: "store_ok q (c, st)" and pump: "pump_ok (c, st)"
    and fifo: "fifo_ok q (c, st)" and calls: "calls_ok q (c, st)"
    using inv by (simp_all add: pipe_inv_def)
  have pr: "progress f c' = progress f c" for f
    by (cases "(f, c)" rule: progress.cases) (simp_all add: same)
  have "shape_ok (c', UserTurn # st)"
    using shape nf unfolding shape_ok_def any_closed_def by (simp add: same pr) (cases st; simp)
  moreover have "store_ok q (c', UserTurn # st)" using store by (simp add: store_ok_def same)
  moreover have "pump_ok (c', UserTurn # st)"
    using user_turn_no_pump [OF ut pump] by (simp add: pump_ok_def stable_def same)
  moreover have "fifo_ok q (c', UserTurn # st)" using fifo posts by (simp add: fifo_ok_def any_closed_def same)
  moreover have "calls_ok q (c', UserTurn # st)"
    using calls posts(3,4) by (simp add: calls_ok_def same del: posted_cbs.simps called_cbs.simps)
  ultimately show ?thesis by (simp add: pipe_inv_def)
qed

lemma append_io_step:
  assumes store: "store_ok q (c, st)"
  shows "\<exists>c'. append_io d parts cb c = Inr c' \<and> store_ok (q(d := q d @ [pn_next c])) (c', st)
    \<and> pn_recv c' = pn_recv c \<and> pn_closed c' = pn_closed c \<and> pn_freed c' = pn_freed c \<and> pn_log c' = pn_log c
    \<and> pn_send c' (other d) = pn_send c (other d) \<and> pn_send c' d \<noteq> None
    \<and> (\<forall>i\<in>dom (pn_reqs c). io_cb (pn_reqs c') i = io_cb (pn_reqs c) i \<and> io_payload (pn_reqs c') i = io_payload (pn_reqs c) i)
    \<and> io_cb (pn_reqs c') (pn_next c) = cb \<and> io_payload (pn_reqs c') (pn_next c) = transfer_buffer parts"
proof -
  let ?i = "pn_next c"
  let ?q = "\<lparr>ir_self = d, ir_parts = parts, ir_cb = cb, ir_next = None\<rparr>"
  let ?m = "(pn_reqs c)(?i \<mapsto> ?q)"
  let ?c = "c\<lparr>pn_reqs := ?m, pn_next := ?i + 1\<rparr>"
  have chains: "io_chain (pn_reqs c) (pn_send c e) (q e)" for e using store by (simp add: store_ok_def)
  have fresh: "pn_reqs c ?i = None" using store by (simp add: store_ok_def)
  have doms: "dom (pn_reqs c) = set (q ClientSide @ q ServerSide @ inflight st)"
    using store by (simp add: store_ok_def)
  have bound: "i < ?i" if "pn_reqs c i = Some r" for i r
  proof (rule ccontr)
    assume "\<not> i < ?i"
    then have "pn_reqs c i = None" using store by (simp add: store_ok_def)
    with that show False by simp
  qed
  have "?i \<notin> set (q ClientSide @ q ServerSide @ inflight st)"
    unfolding doms [symmetric] using fresh by auto
  then have nin: "?i \<notin> set (q e)" "?i \<notin> set (inflight st)" for e by (cases e; simp)+
  have chain': "io_chain ?m (pn_send c e) (q e)" for e
    by (rule io_chain_frame [OF chains]) (use nin in auto)
  show ?thesis
  proof (cases "pn_send c d")
    case None
    with chains [of d] have qd: "q d = []" by simp
    let ?c' = "?c\<lparr>pn_send := (pn_send c)(d \<mapsto> ?i)\<rparr>"
    have "append_io d parts cb c = Inr ?c'" by (simp add: append_io_def Let_def None)
    moreover have "store_ok (q(d := q d @ [?i])) (?c', st)"
    proof -
      have "io_chain (pn_reqs ?c') (pn_send ?c' e) ((q(d := q d @ [?i])) e)" for e
        using chain' [of e] qd by simp
      moreover have "distinct ((q(d := q d @ [?i])) ClientSide @ (q(d := q d @ [?i])) ServerSide @ inflight st)"
        using store nin qd by (cases d) (auto simp: store_ok_def)
      moreover have "dom (pn_reqs ?c') = set ((q(d := q d @ [?i])) ClientSide @ (q(d := q d @ [?i])) ServerSide @ inflight st)"
        using store qd by (cases d) (auto simp: store_ok_def)
      ultimately show ?thesis using store by (simp add: store_ok_def)
    qed
    ultimately show ?thesis
      using fresh by (intro exI [of _ ?c']) (auto simp: io_cb_def io_payload_def)
  next
    case (Some h)
    then have qd: "q d \<noteq> []" using chains [of d] by auto
    have "length (q d) \<le> pn_next ?c"
    proof -
      have "set (q d) \<subseteq> {..<?i}" using io_chain_dom [OF chains [of d]] bound by auto
      moreover have "distinct (q d)" using store by (cases d) (simp_all add: store_ok_def)
      ultimately have "length (q d) \<le> ?i"
        using card_mono [of "{..<?i}" "set (q d)"] by (simp add: distinct_card)
      then show ?thesis by simp
    qed
    moreover have "io_chain (pn_reqs ?c) (Some h) (q d)" using chain' [of d] Some by simp
    ultimately obtain r where last: "last_io (pn_next ?c) h ?c = Inr (last (q d))" and r: "pn_reqs ?c (last (q d)) = Some r"
      using last_io_chain by blast
    have ll: "last (q d) \<in> set (q d)" "last (q d) \<noteq> ?i" using qd nin by (auto dest: last_in_set)
    let ?m' = "?m(last (q d) \<mapsto> r\<lparr>ir_next := Some ?i\<rparr>)"
    let ?c' = "?c\<lparr>pn_reqs := ?m'\<rparr>"
    have "append_io d parts cb c = bindR (last_io (pn_next ?c) h ?c) (\<lambda>j. bindR (io_get j ?c) (\<lambda>x.
        Inr (?c\<lparr>pn_reqs := (pn_reqs ?c)(j \<mapsto> x\<lparr>ir_next := Some ?i\<rparr>)\<rparr>)))"
      by (simp add: append_io_def Let_def Some del: last_io.simps)
    also have "\<dots> = Inr ?c'" unfolding last bindR_Inr io_get_def r by simp
    finally have "append_io d parts cb c = Inr ?c'" .
    moreover have "store_ok (q(d := q d @ [?i])) (?c', st)"
    proof -
      have dist: "distinct (q ClientSide @ q ServerSide @ inflight st)" using store by (simp add: store_ok_def)
      have rl: "pn_reqs c (last (q d)) = Some r" using r ll(2) by simp
      have dd: "distinct (q d)" using dist by (cases d) simp_all
      have "io_chain ?m' (pn_send c d) (q d @ [?i])"
        by (rule io_chain_snoc [OF chains qd dd nin(1) rl refl]) simp
      moreover have "io_chain ?m' (pn_send c (other d)) (q (other d))"
        by (rule io_chain_frame [OF chain']) (use dist ll in \<open>cases d; auto\<close>)
      ultimately have "io_chain (pn_reqs ?c') (pn_send ?c' e) ((q(d := q d @ [?i])) e)" for e
        using side_cases2 [of e d] by (elim disjE) simp_all
      moreover have "distinct ((q(d := q d @ [?i])) ClientSide @ (q(d := q d @ [?i])) ServerSide @ inflight st)"
        using dist nin by (cases d) auto
      moreover have "dom (pn_reqs ?c') = set ((q(d := q d @ [?i])) ClientSide @ (q(d := q d @ [?i])) ServerSide @ inflight st)"
        using store ll(1) by (cases d) (auto simp: store_ok_def)
      moreover have "last (q d) < ?i" using bound r ll(2) by simp
      ultimately show ?thesis using store by (simp add: store_ok_def)
    qed
    ultimately show ?thesis
      using fresh r ll Some by (intro exI [of _ ?c']) (auto simp: io_cb_def io_payload_def)
  qed
qed

lemma pipe_inv_errors [simp]:
  "pipe_inv q (c\<lparr>pn_send_error := e\<rparr>, st) = pipe_inv q (c, st)"
  "pipe_inv q (c\<lparr>pn_receive_error := e\<rparr>, st) = pipe_inv q (c, st)"
proof -
  have p1: "progress f (c\<lparr>pn_send_error := e\<rparr>) = progress f c" for f
    by (cases "(f, c)" rule: progress.cases) simp_all
  have p2: "progress f (c\<lparr>pn_receive_error := e\<rparr>) = progress f c" for f
    by (cases "(f, c)" rule: progress.cases) simp_all
  show "pipe_inv q (c\<lparr>pn_send_error := e\<rparr>, st) = pipe_inv q (c, st)"
    by (simp add: pipe_inv_def store_ok_def shape_ok_def pump_ok_def stable_def fifo_ok_def calls_ok_def any_closed_def p1)
  show "pipe_inv q (c\<lparr>pn_receive_error := e\<rparr>, st) = pipe_inv q (c, st)"
    by (simp add: pipe_inv_def store_ok_def shape_ok_def pump_ok_def stable_def fifo_ok_def calls_ok_def any_closed_def p2)
qed

lemma open_no_closing: "shape_ok (c, st) \<Longrightarrow> \<not> any_closed c \<Longrightarrow> \<not> (\<exists>g\<in>set st. closing_frame g)"
  by (auto simp: shape_ok_def)

lemma accepted_send:
  assumes inv: "pipe_inv q (c, st)" and op: "\<not> any_closed c" and ut: "user_turn st" and nf: "\<not> pn_freed c"
  shows "\<exists>c' q'. append_io d parts cb c = Inr c'
     \<and> pipe_inv q' (say (PostSend d (transfer_buffer parts) cb) c', PumpHalf ClientSide # st)"
proof -
  have shape: "shape_ok (c, st)" and store: "store_ok q (c, st)" and pump: "pump_ok (c, st)"
    and fifo: "fifo_ok q (c, st)" and calls: "calls_ok q (c, st)"
    using inv by (simp_all add: pipe_inv_def)
  let ?i = "pn_next c"
  from append_io_step [OF store, of d parts cb] obtain c' where
    c': "append_io d parts cb c = Inr c'" "store_ok (q(d := q d @ [?i])) (c', st)"
      "pn_recv c' = pn_recv c" "pn_closed c' = pn_closed c" "pn_freed c' = pn_freed c" "pn_log c' = pn_log c"
      "pn_send c' (other d) = pn_send c (other d)"
    and req: "\<And>i. i \<in> dom (pn_reqs c) \<Longrightarrow> io_cb (pn_reqs c') i = io_cb (pn_reqs c) i"
      "\<And>i. i \<in> dom (pn_reqs c) \<Longrightarrow> io_payload (pn_reqs c') i = io_payload (pn_reqs c) i"
      "io_cb (pn_reqs c') ?i = cb" "io_payload (pn_reqs c') ?i = transfer_buffer parts"
    by blast
  let ?c = "say (PostSend d (transfer_buffer parts) cb) c'"
  let ?q = "q(d := q d @ [?i])" and ?st = "PumpHalf ClientSide # st"
  have dom: "set (q e) \<subseteq> dom (pn_reqs c)" "set (inflight st) \<subseteq> dom (pn_reqs c)" for e
    using store by (cases e; auto simp: store_ok_def)+
  have qcb: "queue_cbs (pn_reqs c') (q e) = queue_cbs (pn_reqs c) (q e)" for e
    unfolding queue_cbs_def using dom(1) [of e] req(1) by (intro arg_cong [where f = mset] map_cong) auto
  have qpay: "map (io_payload (pn_reqs c')) (q e) = map (io_payload (pn_reqs c)) (q e)" for e
    using dom(1) [of e] req(2) by (intro map_cong) auto
  have nocl: "\<not> (\<exists>g\<in>set st. closing_frame g)" by (rule open_no_closing [OF shape op])
  have fcb: "frame_cbs (pn_reqs c') f = frame_cbs (pn_reqs c) f \<and> frame_done (pn_reqs c') f = frame_done (pn_reqs c) f"
    if "f \<in> set st" for f
  proof -
    have "set (frame_ids f) \<subseteq> dom (pn_reqs c)" using that dom(2) by (auto simp: inflight_def)
    with req(1) nocl that show ?thesis by (cases f) auto
  qed
  have scb: "stack_cbs (pn_reqs c') st = stack_cbs (pn_reqs c) st" "stack_done (pn_reqs c') st = stack_done (pn_reqs c) st"
    unfolding stack_cbs_def stack_done_def using fcb by (auto intro!: arg_cong [where f = sum_list] map_cong)
  have "store_ok ?q (?c, ?st)" using c'(2) by (simp add: store_ok_def)
  moreover have "shape_ok (?c, ?st)"
    using shape nocl op c' nf by (simp add: shape_ok_def any_closed_def)
  moreover have "pump_ok (?c, ?st)"
    using user_turn_no_pump [OF ut pump] c'(3,7) by (cases d) (auto simp: pump_ok_def stable_def)
  moreover have "fifo_ok ?q (?c, ?st)"
    using fifo op qpay req(4) c'(4,6) by (cases d) (auto simp: fifo_ok_def any_closed_def all_side simp del: map_eq_conv)
  moreover have "calls_ok ?q (?c, ?st)"
    using calls qcb scb req(3) c'(3,6) by (cases d) (simp_all add: calls_ok_def)
  ultimately show ?thesis using c'(1) by (intro exI [of _ c'] exI [of _ ?q]) (simp add: pipe_inv_def)
qed

lemma pipe_send_step:
  assumes inv: "pipe_inv q (c, st)" and ut: "user_turn st" and nf: "\<not> pn_freed c"
  shows "\<exists>c' fs q'. pipe_send d parts cb c = Inr (c', fs) \<and> pipe_inv q' (c', fs @ st)"
proof (cases "pn_closed c ClientSide \<or> pn_closed c ServerSide")
  case True
  let ?c = "say (RefuseSend d cb error_connection_closed)
     (c\<lparr>pn_send_error := ((pn_send_error c)(d := None))(d \<mapsto> error_connection_closed)\<rparr>)"
  have "pipe_send d parts cb c = Inr (?c, [UserTurn])"
    using True nf by (simp add: pipe_send_def conn_alive_def Let_def)
  moreover have "pipe_inv q (?c, UserTurn # st)"
    by (rule refuse_step [OF inv nf, where e = "RefuseSend d cb error_connection_closed"]) (simp_all add: ut)
  ultimately show ?thesis by auto
next
  case False
  let ?c = "c\<lparr>pn_send_error := (pn_send_error c)(d := None)\<rparr>"
  have "pipe_inv q (?c, st)" using inv by simp
  from accepted_send [OF this _ ut, of d parts cb] False nf show ?thesis
    by (fastforce simp: pipe_send_def conn_alive_def Let_def any_closed_def)
qed

lemma pipe_receive_step:
  assumes inv: "pipe_inv q (c, st)" and ut: "user_turn st" and nf: "\<not> pn_freed c"
  shows "\<exists>c' fs. pipe_receive d cb c = Inr (c', fs) \<and> pipe_inv q (c', fs @ st)"
proof -
  let ?c = "\<lambda>err. say (RefuseRecv d cb err) (c\<lparr>pn_receive_error := ((pn_receive_error c)(d := None))(d \<mapsto> err)\<rparr>)"
  have refuse: "pipe_inv q (?c err, UserTurn # st)" for err
    by (rule refuse_step [OF inv nf, where e = "RefuseRecv d cb err"]) (simp_all add: ut)
  have shape: "shape_ok (c, st)" and store: "store_ok q (c, st)" and pump: "pump_ok (c, st)"
    and fifo: "fifo_ok q (c, st)" and calls: "calls_ok q (c, st)"
    using inv by (simp_all add: pipe_inv_def)
  consider "pn_recv c d \<noteq> None" | "pn_recv c d = None" "any_closed c" | "pn_recv c d = None" "\<not> any_closed c" by blast
  then show ?thesis
  proof cases
    case 1
    then have "pipe_receive d cb c = Inr (?c error_overlapped_receive, [UserTurn])"
      using nf by (simp add: pipe_receive_def conn_alive_def Let_def)
    with refuse show ?thesis by auto
  next
    case 2
    then have "pipe_receive d cb c = Inr (?c error_connection_closed, [UserTurn])"
      using nf by (simp add: pipe_receive_def conn_alive_def Let_def any_closed_def)
    with refuse show ?thesis by auto
  next
    case 3
    let ?c' = "say (PostRecv d cb) (c\<lparr>pn_receive_error := (pn_receive_error c)(d := None), pn_recv := (pn_recv c)(d \<mapsto> cb)\<rparr>)"
    let ?st = "PumpHalf ClientSide # st"
    have nocl: "\<not> (\<exists>g\<in>set st. closing_frame g)" by (rule open_no_closing [OF shape 3(2)])
    have "pipe_receive d cb c = Inr (?c', [PumpHalf ClientSide])"
      using 3 nf by (simp add: pipe_receive_def conn_alive_def Let_def any_closed_def)
    moreover have "store_ok q (?c', ?st)" using store by (simp add: store_ok_def)
    moreover have "shape_ok (?c', ?st)" using shape nocl 3(2) nf by (simp add: shape_ok_def any_closed_def)
    moreover have "pump_ok (?c', ?st)"
      using user_turn_no_pump [OF ut pump] by (cases d) (auto simp: pump_ok_def stable_def)
    moreover have "fifo_ok q (?c', ?st)" using fifo by (simp add: fifo_ok_def any_closed_def)
    moreover have "calls_ok q (?c', ?st)"
      using calls 3(1) by (cases d) (simp_all add: calls_ok_def opt_cb_def)
    ultimately show ?thesis by (intro exI [of _ ?c'] exI [of _ "[PumpHalf ClientSide]"]) (simp add: pipe_inv_def)
  qed
qed

lemma pipe_close_step:
  assumes inv: "pipe_inv q (c, st)" and ut: "user_turn st" and ord: "orderly (Call (OpClose d)) (c, st)"
  shows "\<exists>c' fs. pipe_close d c = Inr (c', fs) \<and> pipe_inv q (c', fs @ st)"
proof -
  have shape: "shape_ok (c, st)" and store: "store_ok q (c, st)" and pump: "pump_ok (c, st)"
    and fifo: "fifo_ok q (c, st)" and calls: "calls_ok q (c, st)"
    using inv by (simp_all add: pipe_inv_def)
  let ?c = "c\<lparr>pn_closed := (pn_closed c)(d := True), pn_receive_error := (\<lambda>_. Some error_connection_closed),
            pn_send_error := (\<lambda>_. Some error_connection_closed)\<rparr>"
  let ?st = "CloseRecv ServerSide # st"
  have nocl: "\<not> (\<exists>g\<in>set st. closing_frame g)" using ord by simp
  have "pipe_close d c = Inr (?c, [CloseRecv ServerSide])" using ord by (simp add: pipe_close_def conn_alive_def)
  moreover have "store_ok q (?c, ?st)" using store by (simp add: store_ok_def)
  moreover have "shape_ok (?c, ?st)"
    using shape nocl ord by (cases d) (auto simp: shape_ok_def any_closed_def)
  moreover have "pump_ok (?c, ?st)"
    using user_turn_no_pump [OF ut pump] by (auto simp: pump_ok_def stable_def)
  moreover have "fifo_ok q (?c, ?st)"
    using fifo unfolding fifo_ok_def any_closed_def by (cases d) (simp_all, blast+)
  moreover have "calls_ok q (?c, ?st)" using calls by (simp add: calls_ok_def)
  ultimately show ?thesis by (intro exI [of _ ?c] exI [of _ "[CloseRecv ServerSide]"]) (simp add: pipe_inv_def)
qed

lemma return_step:
  assumes inv: "pipe_inv q (c, UserTurn # st)"
  shows "pipe_inv q (c, st)"
proof -
  have shape: "shape_ok (c, UserTurn # st)" using inv by (simp add: pipe_inv_def)
  have "shape_ok (c, st)" using shape by (simp add: shape_ok_def split: if_split_asm) blast
  moreover have "stable ClientSide c \<and> stable ServerSide c"
    by (rule user_turn_no_pump [of "UserTurn # st"]) (use inv in \<open>simp_all add: pipe_inv_def\<close>)
  then have "pump_ok (c, st)" by (simp add: pump_ok_def)
  ultimately show ?thesis
    using inv by (simp add: pipe_inv_def store_ok_def fifo_ok_def calls_ok_def)
qed

lemma pipe_event_step:
  assumes inv: "pipe_inv q s" and ord: "orderly e s" and en: "pipe_enabled e s"
  shows "\<exists>s' q'. pipe_event e s = Inr s' \<and> pipe_inv q' s'"
proof -
  obtain c st where s: "s = (c, st)" by (cases s)
  show ?thesis
  proof (cases e)
    case Code
    with en s obtain f st' where st: "st = f # st'" "f \<noteq> UserTurn" by (cases st) auto
    have inv': "pipe_inv q (c, f # st')" using inv s st by simp
    have "\<exists>c' fs q'. code_step f c = Inr (c', fs) \<and> pipe_inv q' (c', fs @ st')"
    proof (cases f)
      case (PumpHalf d)
      then show ?thesis
        using inv' pump_half_idle [of q c d st'] pump_half_active [of q c d st']
        by (cases "pn_recv c d"; cases "pn_send c (other d)") fastforce+
    next
      case (PumpSent d i)
      with pump_sent_step [of q c d i st'] inv' show ?thesis by fastforce
    next
      case (PumpFree d i)
      with pump_free_step [of q c d i st'] inv' show ?thesis by fastforce
    next
      case (CloseRecv d)
      with close_recv_step [of q c d st'] inv' show ?thesis by fastforce
    next
      case (CloseSend d)
      with close_send_step [of q c d st'] inv' show ?thesis by fastforce
    next
      case (CloseSendNext d i)
      with close_send_next_step [of q c d i st'] inv' show ?thesis by fastforce
    next
      case CloseEnd
      with close_end_step [of q c st'] inv' show ?thesis by fastforce
    next
      case UserTurn
      with st(2) show ?thesis by simp
    qed
    with Code s st show ?thesis by fastforce
  next
    case (Call op)
    with en s have ut: "user_turn st" by simp
    have "\<exists>c' fs q'. pipe_call op c = Inr (c', fs) \<and> pipe_inv q' (c', fs @ st)"
    proof (cases op)
      case (OpSend d parts cb)
      with ord Call s pipe_send_step [of q c st d parts cb] inv ut show ?thesis by (simp add: pipe_call_side)
    next
      case (OpRecv d cb)
      with ord Call s pipe_receive_step [of q c st d cb] inv ut show ?thesis by (auto simp: pipe_call_side)
    next
      case (OpClose d)
      with ord Call s pipe_close_step [of q c st d] inv ut show ?thesis by (auto simp: pipe_call_side)
    qed
    with Call s show ?thesis by fastforce
  next
    case Return
    with en s obtain st' where "st = UserTurn # st'" by (cases st) auto
    with Return s inv return_step [of q c st'] show ?thesis by auto
  qed
qed

lemma pipe_reach_inv: "pipe_reach s \<Longrightarrow> \<exists>q. pipe_inv q s"
proof (induction rule: pipe_reach.induct)
  case new
  then show ?case using pipe_inv_new by blast
next
  case (step s e s')
  then obtain q where "pipe_inv q s" by blast
  with step.hyps(2,3) show ?case using pipe_event_step [of q s e] by (auto elim!: pipe_stepE)
qed

section \<open>Serving and connecting\<close>

text \<open>The list of servers; \<open>on_connect\<close> and \<open>p\<close> are the function and the argument it is called with.\<close>

record pipe_server =
  ps_name :: string
  ps_on_connect :: nat
  ps_p :: nat

fun unlink_after :: "pipe_server list \<Rightarrow> string \<Rightarrow> pipe_server list" where
  "unlink_after [] name = []"
| "unlink_after (s # ss) name = (if ps_name s = name then ss else s # unlink_after ss name)"

fun update_server :: "pipe_server list \<Rightarrow> string \<Rightarrow> nat \<Rightarrow> pipe_server list" where
  "update_server [] name f = []"
| "update_server (s # ss) name f =
     (if ps_name s = name then s\<lparr>ps_on_connect := f\<rparr> # ss else s # update_server ss name f)"

definition find_server :: "string \<Rightarrow> pipe_server list \<Rightarrow> pipe_server option" where
  "find_server name l = List.find (\<lambda>s. ps_name s = name) l"

text \<open>
  With a null \<open>on_connect\<close> the server found is unlinked from its predecessor; when it is the head of the
  list, the code assigns the head's own \<open>next\<close> to itself, so nothing changes.
\<close>

definition pipe_serve :: "string \<Rightarrow> nat option \<Rightarrow> nat \<Rightarrow> pipe_server list \<Rightarrow> pipe_server list" where
  "pipe_serve name on_connect p l =
     (case find_server name l of
        Some s \<Rightarrow>
          (case on_connect of
             None \<Rightarrow> (case l of [] \<Rightarrow> [] | h # ss \<Rightarrow> if ps_name h = name then l else h # unlink_after ss name)
           | Some f \<Rightarrow> update_server l name f)
      | None \<Rightarrow>
          (case on_connect of
             None \<Rightarrow> l
           | Some f \<Rightarrow> \<lparr>ps_name = name, ps_on_connect = f, ps_p = p\<rparr> # l))"

text \<open>Null, or the new connection and the call of \<open>on_connect\<close> with its argument.\<close>

definition pipe_connect :: "string \<Rightarrow> pipe_server list \<Rightarrow> (pipe_conn \<times> nat \<times> nat) option" where
  "pipe_connect name l =
     (case find_server name l of
        None \<Rightarrow> None
      | Some s \<Rightarrow> Some (pipe_connection_new, ps_on_connect s, ps_p s))"

lemma find_server_Cons:
  "find_server n (s # ss) = (if ps_name s = n then Some s else find_server n ss)"
  by (simp add: find_server_def)

lemma find_server_Nil [simp]: "find_server n [] = None"
  by (simp add: find_server_def)

lemma find_server_None: "find_server n l = None \<longleftrightarrow> n \<notin> ps_name ` set l"
  by (induction l) (auto simp: find_server_Cons)

lemma find_update_server:
  "find_server m (update_server l n f)
     = (if m = n then map_option (\<lambda>s. s\<lparr>ps_on_connect := f\<rparr>) (find_server n l) else find_server m l)"
  by (induction l) (auto simp: find_server_Cons)

lemma names_update_server [simp]: "map ps_name (update_server l n f) = map ps_name l"
  by (induction l) auto

lemma find_unlink_after:
  "distinct (map ps_name l) \<Longrightarrow>
     find_server m (unlink_after l n) = (if m = n then None else find_server m l)"
proof (induction l)
  case (Cons s ss)
  then show ?case using find_server_None [of n ss] by (auto simp: find_server_Cons)
qed simp

lemma unlink_after_subset: "set (map ps_name (unlink_after l n)) \<subseteq> set (map ps_name l)"
  by (induction l) auto

lemma distinct_unlink_after: "distinct (map ps_name l) \<Longrightarrow> distinct (map ps_name (unlink_after l n))"
proof (induction l)
  case (Cons s ss)
  then show ?case using unlink_after_subset [of ss n] by auto
qed simp

section \<open>Properties\<close>

text \<open>
  C21. In orderly use no call of the connection, no callback and no return of a callback, however deeply
  callbacks call the connection again, uses or frees memory that was freed.
\<close>

theorem pipe_no_fault:
  assumes "pipe_reach s" and "orderly e s" and "pipe_enabled e s"
  shows "\<exists>s'. pipe_event e s = Inr s'"
  using pipe_reach_inv [OF assms(1)] pipe_event_step [OF _ assms(2,3)] by blast

theorem pipe_no_fault_witness:
  "\<exists>s'. pipe_event (Call (OpSend ClientSide [[1, 2]] 7)) (pipe_connection_new, []) = Inr s'"
  by (rule pipe_no_fault [OF pipe_reach.new]) (simp_all add: pipe_connection_new_def)


definition run_pipe :: "pipe_input list \<Rightarrow> pstate res" where
  "run_pipe es = foldR (\<lambda>e s. if pipe_enabled e s then pipe_event e s else Inl Uninit) es (pipe_connection_new, [])"

definition run_orderly :: "pipe_input list \<Rightarrow> pstate res" where
  "run_orderly es = foldR (\<lambda>e s. if pipe_enabled e s \<and> orderly e s then pipe_event e s else Inl Uninit) es
     (pipe_connection_new, [])"

lemma run_orderly_reach: "run_orderly es = Inr s \<Longrightarrow> pipe_reach s"
  unfolding run_orderly_def
  by (erule foldR_inv [where P = pipe_reach])
    (auto split: if_splits intro: pipe_reach.intros pipe_step.intros)

definition ex_pipe :: "pipe_input list" where
  "ex_pipe = [Call (OpSend ClientSide [[1], [2]] 7), Code, Code, Call (OpRecv ServerSide 8), Code, Code,
     Return, Code, Return, Code, Call (OpRecv ServerSide 9), Code, Code]"

lemma ex_pipe_run:
  "\<exists>c. run_orderly ex_pipe = Inr (c, []) \<and> pn_recv c ServerSide = Some 9 \<and> \<not> any_closed c
     \<and> posted ClientSide (pn_log c) = [[1, 2]] \<and> posted_cbs (pn_log c) = {#7, 8, 9#}"
proof -
  have "case run_orderly ex_pipe of Inl _ \<Rightarrow> False | Inr (c, st) \<Rightarrow> st = [] \<and> pn_recv c ServerSide = Some 9
     \<and> \<not> any_closed c \<and> posted ClientSide (pn_log c) = [[1, 2]] \<and> posted_cbs (pn_log c) = {#7, 8, 9#}" by code_simp
  then show ?thesis by (auto split: sum.splits)
qed


text \<open>
  C22. Every completion callback is called exactly once: in orderly use and outside of all calls, the
  callbacks accepted so far are those called so far and those of the outstanding receives and queued
  sends.  Once both sides have closed, the connection is freed, every callback has been called, and no
  request is left in memory.
\<close>

theorem pipe_callbacks_once:
  assumes "pipe_reach (c, [])"
  shows "\<exists>qc qs. io_chain (pn_reqs c) (pn_send c ClientSide) qc \<and> io_chain (pn_reqs c) (pn_send c ServerSide) qs
     \<and> posted_cbs (pn_log c) = called_cbs (pn_log c) + opt_cb (pn_recv c ClientSide) + opt_cb (pn_recv c ServerSide)
           + queue_cbs (pn_reqs c) qc + queue_cbs (pn_reqs c) qs
     \<and> (pn_closed c ClientSide \<and> pn_closed c ServerSide \<longrightarrow>
          pn_freed c \<and> posted_cbs (pn_log c) = called_cbs (pn_log c) \<and> pn_reqs c = (\<lambda>_. None))"
proof -
  from pipe_reach_inv [OF assms] obtain q where inv: "pipe_inv q (c, [])" by blast
  then have store: "store_ok q (c, [])" and shape: "shape_ok (c, [])" and calls: "calls_ok q (c, [])"
    by (simp_all add: pipe_inv_def)
  have chains: "io_chain (pn_reqs c) (pn_send c e) (q e)" for e using store by (simp add: store_ok_def)
  have "pn_freed c \<and> posted_cbs (pn_log c) = called_cbs (pn_log c) \<and> pn_reqs c = (\<lambda>_. None)"
    if both: "pn_closed c ClientSide \<and> pn_closed c ServerSide"
  proof -
    have fr: "pn_freed c" and none: "pn_recv c e = None" "pn_send c e = None" for e
      using shape both by (auto simp: shape_ok_def any_closed_def)
    have "q e = []" for e using chains [of e] none(2) by simp
    then have "dom (pn_reqs c) = {}" "posted_cbs (pn_log c) = called_cbs (pn_log c)"
      using store calls none(1) by (simp_all add: store_ok_def calls_ok_def opt_cb_def)
    with fr show ?thesis by (simp add: dom_eq_empty_conv)
  qed
  moreover have "posted_cbs (pn_log c) = called_cbs (pn_log c) + opt_cb (pn_recv c ClientSide) + opt_cb (pn_recv c ServerSide)
           + queue_cbs (pn_reqs c) (q ClientSide) + queue_cbs (pn_reqs c) (q ServerSide)"
    using calls by (simp add: calls_ok_def)
  ultimately show ?thesis using chains by blast
qed

definition ex_pipe_closed :: "pipe_input list" where
  "ex_pipe_closed = [Call (OpSend ClientSide [[1]] 7), Code, Code, Call (OpClose ClientSide), Code, Code, Code, Code,
     Return, Code, Code, Code, Call (OpClose ServerSide), Code, Code, Code, Code, Code]"

theorem pipe_callbacks_once_witness:
  "\<exists>c. pipe_reach (c, []) \<and> pn_closed c ClientSide \<and> pn_closed c ServerSide \<and> pn_freed c
     \<and> called_cbs (pn_log c) = {#7#}"
proof -
  have "case run_orderly ex_pipe_closed of Inl _ \<Rightarrow> False | Inr (c, st) \<Rightarrow> st = [] \<and> pn_closed c ClientSide
     \<and> pn_closed c ServerSide \<and> posted_cbs (pn_log c) = {#7#}" by code_simp
  then obtain c where c: "run_orderly ex_pipe_closed = Inr (c, [])" "pn_closed c ClientSide" "pn_closed c ServerSide"
    "posted_cbs (pn_log c) = {#7#}" by (auto split: sum.splits)
  have re: "pipe_reach (c, [])" by (rule run_orderly_reach [OF c(1)])
  from pipe_callbacks_once [OF re] c re show ?thesis by auto
qed

text \<open>
  What the closing does not survive: a receive is outstanding on the server side, the client closes,
  and the callback that reports the closing to the server closes its own side, as
  \<open>pxprpc_server_close\<close> does.  The inner closing frees the connection, and the outer one goes on
  using it.
\<close>

theorem pipe_close_reentry:
  "\<exists>s. run_pipe [Call (OpRecv ServerSide 1), Code, Code, Call (OpClose ClientSide), Code,
        Call (OpClose ServerSide), Code, Code, Code, Code, Code, Return] = Inr s
     \<and> pipe_enabled Code s \<and> pipe_event Code s = Inl UseAfterFree"
proof -
  have "case run_pipe [Call (OpRecv ServerSide 1), Code, Code, Call (OpClose ClientSide), Code,
        Call (OpClose ServerSide), Code, Code, Code, Code, Code, Return] of Inl _ \<Rightarrow> False
     | Inr s \<Rightarrow> pn_freed (fst s) \<and> snd s = [CloseRecv ClientSide]" by code_simp
  then show ?thesis by (auto split: sum.splits simp: close_recv_def conn_alive_def)
qed

text \<open>
  Serving and connecting by name.  After a server is registered, connecting to its name reaches its
  function, with the argument of its first registration, on a fresh connection; other names are not
  affected and names stay unique.  Unregistering has an effect exactly when the server is not the
  first of the list.
\<close>

theorem serve_connect:
  assumes "distinct (map ps_name l)"
  shows "distinct (map ps_name (pipe_serve n g p l))
    \<and> (\<forall>f. g = Some f \<longrightarrow> pipe_connect n (pipe_serve n g p l)
          = Some (pipe_connection_new, f, case find_server n l of None \<Rightarrow> p | Some s \<Rightarrow> ps_p s))
    \<and> (g = None \<longrightarrow> (pipe_connect n (pipe_serve n g p l) = None \<longleftrightarrow> l = [] \<or> ps_name (hd l) \<noteq> n))
    \<and> (\<forall>m. m \<noteq> n \<longrightarrow> pipe_connect m (pipe_serve n g p l) = pipe_connect m l)"
proof (cases g)
  case (Some f)
  show ?thesis
  proof (cases "find_server n l")
    case None
    then have "n \<notin> set (map ps_name l)" using find_server_None by auto
    with None Some assms show ?thesis by (simp add: pipe_serve_def pipe_connect_def find_server_Cons)
  next
    case (Some s)
    with \<open>g = Some f\<close> assms show ?thesis by (simp add: pipe_serve_def pipe_connect_def find_update_server)
  qed
next
  case None
  show ?thesis
  proof (cases l)
    case Nil
    with None show ?thesis by (simp add: pipe_serve_def pipe_connect_def)
  next
    case (Cons h ss)
    have d: "distinct (map ps_name (unlink_after ss n))" "ps_name h \<notin> set (map ps_name (unlink_after ss n))"
      using assms Cons distinct_unlink_after [of ss n] unlink_after_subset [of ss n] by auto
    show ?thesis
      using None Cons assms d find_unlink_after [of ss _ n]
      by (auto simp: pipe_serve_def pipe_connect_def find_server_Cons split: option.splits)
  qed
qed

theorem serve_connect_witness:
  "pipe_connect ''a'' (pipe_serve ''a'' (Some 5) 6 []) = Some (pipe_connection_new, 5, 6)"
  using serve_connect [of "[]" "''a''" "Some 5" 6] by simp

end
