(* ===== verification/PpSerializer.thy ===== *)
theory PpSerializer
  imports Serializer
begin

text \<open>
  The C++ class \<open>Serializer\<close> of \<open>c/include/pxprpc_pp.hpp\<close>.  A method acts on \<open>wrapped\<close>, the C
  serializer; the member \<open>serializing\<close> is set by the two \<open>prepare\<close> methods and read by nobody, so
  it has no image.  A \<open>std::string\<close> is its bytes.  A conversion of a negative \<open>int\<close> to the size of a
  vector or string throws in the library: \<open>AllocFail\<close>.
\<close>

section \<open>Methods\<close>

definition prepareUnserializing :: "bytes \<Rightarrow> u32 \<Rightarrow> serializer" where
  "prepareUnserializing buf sz = ser_prepare_unser buf sz"

definition prepareSerializing :: "u8 \<Rightarrow> u32 \<Rightarrow> serializer res" where
  "prepareSerializing jk initBufSize = ser_prepare_ser jk (sint initBufSize)"

text \<open>The first element of the one-element array the C function filled.\<close>

definition first_of :: "('a list \<times> serializer) res \<Rightarrow> ('a \<times> serializer) res" where
  "first_of m = bindR m (\<lambda>(vs, s). Inr (hd vs, s))"

definition getInt :: "serializer \<Rightarrow> (u32 \<times> serializer) res" where
  "getInt s = first_of (ser_get_int s 1)"

definition getLong :: "serializer \<Rightarrow> (u64 \<times> serializer) res" where
  "getLong s = first_of (ser_get_long s 1)"

definition getFloat :: "serializer \<Rightarrow> (u32 \<times> serializer) res" where
  "getFloat s = first_of (ser_get_float s 1)"

definition getDouble :: "serializer \<Rightarrow> (u64 \<times> serializer) res" where
  "getDouble s = first_of (ser_get_double s 1)"

definition getVarint :: "serializer \<Rightarrow> (u32 \<times> serializer) res" where
  "getVarint s = ser_get_varint s"

definition getIntVec :: "int \<Rightarrow> serializer \<Rightarrow> (u32 list \<times> serializer) res" where
  "getIntVec n s = (if n < 0 then Inl AllocFail else ser_get_int s n)"

definition getLongVec :: "int \<Rightarrow> serializer \<Rightarrow> (u64 list \<times> serializer) res" where
  "getLongVec n s = (if n < 0 then Inl AllocFail else ser_get_long s n)"

definition getFloatVec :: "int \<Rightarrow> serializer \<Rightarrow> (u32 list \<times> serializer) res" where
  "getFloatVec n s = (if n < 0 then Inl AllocFail else ser_get_float s n)"

definition getDoubleVec :: "int \<Rightarrow> serializer \<Rightarrow> (u64 list \<times> serializer) res" where
  "getDoubleVec n s = (if n < 0 then Inl AllocFail else ser_get_double s n)"

text \<open>Size and pointer, the pointer as an offset into the buffer.\<close>

definition getBytes :: "serializer \<Rightarrow> ((u32 \<times> u32) \<times> serializer) res" where
  "getBytes s = bindR (ser_get_bytes s) (\<lambda>((pos, sz), s). Inr ((sz, pos), s))"

definition getString :: "serializer \<Rightarrow> (bytes \<times> serializer) res" where
  "getString s =
     bindR (getBytes s) (\<lambda>((sz, pos), s).
     if sint sz < 0 then Inl AllocFail
     else bindR (ser_slice s (pos, sz)) (\<lambda>str. Inr (str, s)))"

definition putInt :: "u32 \<Rightarrow> serializer \<Rightarrow> serializer res" where
  "putInt v s = ser_put_int s [v]"

definition putLong :: "u64 \<Rightarrow> serializer \<Rightarrow> serializer res" where
  "putLong v s = ser_put_long s [v]"

definition putFloat :: "u32 \<Rightarrow> serializer \<Rightarrow> serializer res" where
  "putFloat v s = ser_put_float s [v]"

definition putDouble :: "u64 \<Rightarrow> serializer \<Rightarrow> serializer res" where
  "putDouble v s = ser_put_double s [v]"

definition putBytes :: "bytes \<Rightarrow> u32 \<Rightarrow> serializer \<Rightarrow> serializer res" where
  "putBytes buf len s = ser_put_bytes s buf len"

definition putVarint :: "u32 \<Rightarrow> serializer \<Rightarrow> serializer res" where
  "putVarint v s = ser_put_varint s v"

definition putString :: "bytes \<Rightarrow> serializer \<Rightarrow> serializer res" where
  "putString v s = putBytes v (of_nat (length v)) s"

definition build :: "serializer \<Rightarrow> u32 \<times> bytes" where
  "build s = (let (buf, sz) = ser_build s in (sz, buf))"

text \<open>A \<open>pxprpc_bytes\<close> is a block and its length.\<close>

definition fromPxpBytes :: "bytes \<times> u32 \<Rightarrow> serializer" where
  "fromPxpBytes b = prepareUnserializing (fst b) (snd b)"

definition buildPxpBytes :: "serializer \<Rightarrow> bytes \<times> u32" where
  "buildPxpBytes s = (let (sz, buf) = build s in (buf, sz))"

section \<open>Readers whose result is fixed up to a property\<close>

text \<open>A pointer into the buffer depends on where the reader stands, what it points to does not.\<close>

definition ser_reads :: "(serializer \<Rightarrow> ('a \<times> serializer) res) \<Rightarrow> bytes \<Rightarrow> ('a \<Rightarrow> bool) \<Rightarrow> bool" where
  "ser_reads g v P \<longleftrightarrow>
     (\<forall>s rest. ser_rd_ok s \<and> ser_in s = v @ rest \<longrightarrow>
        (\<exists>x s'. g s = Inr (x, s') \<and> P x \<and> ser_rd_ok s' \<and> ser_in s' = rest \<and> ser_buf s' = ser_buf s))"

lemma ser_readsD:
  "ser_reads g v P \<Longrightarrow> ser_rd_ok s \<Longrightarrow> ser_in s = v @ rest \<Longrightarrow>
     \<exists>x s'. g s = Inr (x, s') \<and> P x \<and> ser_rd_ok s' \<and> ser_in s' = rest \<and> ser_buf s' = ser_buf s"
  by (simp add: ser_reads_def)

lemma ser_reads_takes: "ser_takes g v x \<Longrightarrow> P x \<Longrightarrow> ser_reads g v P"
  by (fastforce simp: ser_reads_def ser_takes_def)

lemma ser_reads_return: "P x \<Longrightarrow> ser_reads (\<lambda>s. Inr (x, s)) [] P"
  by (simp add: ser_reads_def)

lemma ser_reads_mono: "ser_reads g v P \<Longrightarrow> (\<And>x. P x \<Longrightarrow> Q x) \<Longrightarrow> ser_reads g v Q"
  unfolding ser_reads_def by blast

lemma ser_reads_bind:
  assumes g: "ser_reads g v P" and h: "\<And>x. P x \<Longrightarrow> ser_reads (h x) w Q"
  shows "ser_reads (\<lambda>s. bindR (g s) (\<lambda>(x, s). h x s)) (v @ w) Q"
  unfolding ser_reads_def
proof (intro allI impI, elim conjE)
  fix s rest assume ok: "ser_rd_ok s" and nxt: "ser_in s = (v @ w) @ rest"
  from ser_readsD [OF g ok] nxt obtain x t where
    t: "g s = Inr (x, t)" "P x" "ser_rd_ok t" "ser_in t = w @ rest" "ser_buf t = ser_buf s" by auto
  from ser_readsD [OF h [OF t(2)] t(3,4)] t show
    "\<exists>y s'. bindR (g s) (\<lambda>(x, s). h x s) = Inr (y, s') \<and> Q y \<and> ser_rd_ok s' \<and> ser_in s' = rest
       \<and> ser_buf s' = ser_buf s" by auto
qed

lemma ser_reads_map:
  "ser_reads g v P \<Longrightarrow> (\<And>x. P x \<Longrightarrow> Q (f x)) \<Longrightarrow> ser_reads (\<lambda>s. bindR (g s) (\<lambda>(x, s). Inr (f x, s))) v Q"
  using ser_reads_bind [of g v P "\<lambda>x s. Inr (f x, s)" "[]" Q] by (auto intro: ser_reads_return)

lemma get_many_reads:
  "(\<And>v. v \<in> set vs \<Longrightarrow> ser_reads g (enc v) (P v)) \<Longrightarrow>
     ser_reads (get_many g (length vs)) (concat (map enc vs)) (\<lambda>xs. list_all2 P vs xs)"
proof (induction vs)
  case Nil
  have "get_many g 0 = (\<lambda>s. Inr ([], s))" by (rule ext) simp
  then show ?case by (auto intro: ser_reads_return)
next
  case (Cons v vs)
  have eq: "get_many g (Suc (length vs)) =
      (\<lambda>s. bindR (g s) (\<lambda>(x, s). bindR (get_many g (length vs) s) (\<lambda>(xs, s). Inr (x # xs, s))))"
    by (rule ext) simp
  have "ser_reads (\<lambda>s. bindR (get_many g (length vs) s) (\<lambda>(xs, s). Inr (x # xs, s)))
      (concat (map enc vs)) (\<lambda>ys. list_all2 P (v # vs) ys)" if "P v x" for x
    using Cons that by (intro ser_reads_map [where P = "\<lambda>xs. list_all2 P vs xs"]) auto
  with Cons.prems show ?case
    unfolding list.map concat.simps list.size(4) add_0_right add_Suc_right eq
    by (intro ser_reads_bind [where P = "P v"]) auto
qed

section \<open>Strings and blocks\<close>

definition small_block :: "bytes \<Rightarrow> bool" where
  "small_block v \<longleftrightarrow> length v < 2 ^ 31 \<and> length v \<noteq> 255"

lemma length_code_ok: "small_block v \<Longrightarrow> (of_nat (length v) :: u32) \<noteq> 0xff"
proof
  assume v: "small_block v" and "(of_nat (length v) :: u32) = 0xff"
  then have "unat (of_nat (length v) :: u32) = 255" by simp
  with v show False by (simp add: small_block_def unat_of_nat)
qed

text \<open>The pointer \<open>getBytes\<close> returns, read in the buffer it points into.\<close>

lemma get_bytes_at:
  assumes v: "small_block v" and ok: "ser_rd_ok s" and nxt: "ser_in s = enc_bytes v @ rest"
  shows "\<exists>pos s'. ser_get_bytes s = Inr ((pos, of_nat (length v)), s') \<and> ser_slice s' (pos, of_nat (length v)) = Inr v
     \<and> ser_rd_ok s' \<and> ser_in s' = rest \<and> ser_buf s' = ser_buf s"
proof -
  have u: "unat (of_nat (length v) :: u32) = length v" using v by (simp add: small_block_def unat_of_nat)
  from ser_takesD [OF ser_get_varint_takes [OF length_code_ok [OF v]] ok] nxt obtain t where
    t: "ser_get_varint s = Inr (of_nat (length v), t)" "ser_rd_ok t" "ser_in t = v @ rest" "ser_buf t = ser_buf s"
    by (auto simp: enc_bytes_def)
  let ?t = "t\<lparr>ser_pos := ser_pos t + of_nat (length v)\<rparr>"
  have len: "unat (ser_pos t) + length v \<le> length (ser_buf t)"
    using arg_cong [OF t(3), of length] t(2) by (auto simp: ser_in_def ser_rd_ok_def)
  have pos: "unat (ser_pos t + of_nat (length v)) = unat (ser_pos t) + length v"
    using len t(2) by (intro unat_add_of_nat) (simp add: ser_rd_ok_def)
  have "ser_slice ?t (ser_pos t, of_nat (length v)) = Inr v"
    using t(2,3) u by (auto simp: ser_slice_def ser_rd_ok_def ser_in_def intro!: read_mem_prefix)
  moreover have "drop (unat (ser_pos t) + length v) (ser_buf t) = rest"
    using t(3) by (metis ser_in_def add.commute append_eq_conv_conj drop_drop)
  ultimately show ?thesis
    using t len pos by (intro exI [of _ "ser_pos t"] exI [of _ ?t]) (simp add: ser_get_bytes_def ser_rd_ok_def ser_in_def)
qed

lemma length_not_negative: "small_block v \<Longrightarrow> \<not> sint (of_nat (length v) :: u32) < 0"
proof -
  assume "small_block v"
  then have "unat (of_nat (length v) :: u32) < 2 ^ 31" by (simp add: small_block_def unat_of_nat)
  then show ?thesis by (simp add: sint_small)
qed

lemma getString_takes:
  assumes v: "small_block v"
  shows "ser_takes getString (enc_bytes v) v"
  unfolding ser_takes_def
proof (intro allI impI, elim conjE)
  fix s rest assume ok: "ser_rd_ok s" and nxt: "ser_in s = enc_bytes v @ rest"
  from get_bytes_at [OF v ok nxt] obtain pos t where
    "ser_get_bytes s = Inr ((pos, of_nat (length v)), t)" "ser_slice t (pos, of_nat (length v)) = Inr v"
    "ser_rd_ok t" "ser_in t = rest" "ser_buf t = ser_buf s" by blast
  with length_not_negative [OF v] show
    "\<exists>s'. getString s = Inr (v, s') \<and> ser_rd_ok s' \<and> ser_in s' = rest \<and> ser_buf s' = ser_buf s"
    by (simp add: getString_def getBytes_def)
qed

lemma putString_emits: "small_block v \<Longrightarrow> ser_emits (putString v) (enc_bytes v)"
  using ser_put_bytes_emits [of v] by (simp add: putString_def [abs_def] putBytes_def small_block_def)

interpretation string_codec: wire_codec putString getString enc_bytes small_block
  by unfold_locales (rule putString_emits, assumption, rule getString_takes)

end
