(* ===== verification/TableSerializer.thy ===== *)
theory TableSerializer
  imports PpSerializer
begin

text \<open>
  The class \<open>TableSerializer\<close> of \<open>c/include/pxprpc_ext.hpp\<close>: a table of typed columns, its wire
  form and the ways to fill it.  A cell remembers which member of the union was written; reading
  another member is a fault, except for \<open>bool2\<close> read from \<open>i32\<close>, which every boolean cell of the
  code does (there is no constructor for \<open>bool\<close>, a \<open>bool\<close> converts to \<open>int32_t\<close>).
\<close>

section \<open>Cells\<close>

text \<open>A \<open>bytes\<close> cell is a pointer: the block it points into, the offset and the length.\<close>

datatype cell =
    CNone | CI32 u32 | CI64 u64 | CF32 u32 | CF64 u64 | CStr bytes | CBytes bytes nat u32

fun as_i32 :: "cell \<Rightarrow> u32 res" where
  "as_i32 (CI32 v) = Inr v"
| "as_i32 _ = Inl Uninit"

fun as_i64 :: "cell \<Rightarrow> u64 res" where
  "as_i64 (CI64 v) = Inr v"
| "as_i64 _ = Inl Uninit"

fun as_f32 :: "cell \<Rightarrow> u32 res" where
  "as_f32 (CF32 v) = Inr v"
| "as_f32 _ = Inl Uninit"

fun as_f64 :: "cell \<Rightarrow> u64 res" where
  "as_f64 (CF64 v) = Inr v"
| "as_f64 _ = Inl Uninit"

fun as_bool :: "cell \<Rightarrow> bool res" where
  "as_bool (CI32 v) = Inr ((ucast v :: u8) \<noteq> 0)"
| "as_bool _ = Inl Uninit"

fun as_str :: "cell \<Rightarrow> bytes" where
  "as_str (CStr v) = v"
| "as_str _ = []"

definition bool_cell :: "bool \<Rightarrow> cell" where
  "bool_cell b = CI32 (if b then 1 else 0)"

section \<open>State\<close>

record table =
  ts_flag :: u32
  ts_rowCnt :: int
  ts_columnsType :: bytes
  ts_columnsName :: "bytes list"
  ts_cols :: "cell list list"
  ts_posX :: int

definition table_new :: table where
  "table_new = \<lparr>ts_flag = 0, ts_rowCnt = 0, ts_columnsType = [], ts_columnsName = [], ts_cols = [], ts_posX = -1\<rparr>"

definition FLAG_NO_COLUMN_NAME :: u32 where
  "FLAG_NO_COLUMN_NAME = 1"

text \<open>The column types i, l, f, d, b, s, c.\<close>

definition known_type :: "u8 \<Rightarrow> bool" where
  "known_type typ \<longleftrightarrow> typ \<in> {0x69, 0x6c, 0x66, 0x64, 0x62, 0x73, 0x63}"

section \<open>Loading\<close>

definition get_bytes_cell :: "serializer \<Rightarrow> (cell \<times> serializer) res" where
  "get_bytes_cell s = bindR (getBytes s) (\<lambda>((sz, pos), s). Inr (CBytes (ser_buf s) (unat pos) sz, s))"

definition get_str_cell :: "serializer \<Rightarrow> (cell \<times> serializer) res" where
  "get_str_cell s = bindR (getString s) (\<lambda>(v, s). Inr (CStr v, s))"

definition get_bool_cell :: "serializer \<Rightarrow> (cell \<times> serializer) res" where
  "get_bool_cell s = bindR (getVarint s) (\<lambda>(v, s). Inr (bool_cell (v \<noteq> 0), s))"

definition push_col :: "('a \<Rightarrow> cell) \<Rightarrow> ('a list \<times> serializer) res \<Rightarrow> (cell list list \<times> serializer) res" where
  "push_col f m = bindR m (\<lambda>(vs, s). Inr ([map f vs], s))"

definition load_column :: "int \<Rightarrow> u8 \<Rightarrow> serializer \<Rightarrow> (cell list list \<times> serializer) res" where
  "load_column rowCnt typ s =
     (if typ = 0x69 then push_col CI32 (getIntVec rowCnt s)
      else if typ = 0x6c then push_col CI64 (getLongVec rowCnt s)
      else if typ = 0x66 then push_col CF32 (getFloatVec rowCnt s)
      else if typ = 0x64 then push_col CF64 (getDoubleVec rowCnt s)
      else if typ = 0x62 then push_col id (get_many get_bytes_cell (nat rowCnt) s)
      else if typ = 0x73 then push_col id (get_many get_str_cell (nat rowCnt) s)
      else if typ = 0x63 then push_col id (get_many get_bool_cell (nat rowCnt) s)
      else Inr ([], s))"

fun load_columns :: "int \<Rightarrow> bytes \<Rightarrow> serializer \<Rightarrow> (cell list list \<times> serializer) res" where
  "load_columns rowCnt [] s = Inr ([], s)"
| "load_columns rowCnt (typ # types) s =
     bindR (load_column rowCnt typ s) (\<lambda>(c, s).
     bindR (load_columns rowCnt types s) (\<lambda>(cs, s). Inr (c @ cs, s)))"

definition load_names :: "u32 \<Rightarrow> bytes \<Rightarrow> serializer \<Rightarrow> (bytes list \<times> serializer) res" where
  "load_names flag types s =
     (if flag AND FLAG_NO_COLUMN_NAME = 0 then get_many getString (length types) s else Inr ([], s))"

definition table_load :: "table \<Rightarrow> serializer \<Rightarrow> (table \<times> serializer) res" where
  "table_load t s =
     bindR (getVarint s) (\<lambda>(flag, s).
     bindR (getVarint s) (\<lambda>(rowCnt, s).
     bindR (getString s) (\<lambda>(types, s).
     bindR (load_names flag types s) (\<lambda>(names, s).
     bindR (load_columns (sint rowCnt) types s) (\<lambda>(cols, s).
     Inr (t\<lparr>ts_flag := flag, ts_rowCnt := sint rowCnt, ts_columnsType := types, ts_columnsName := names,
            ts_cols := ts_cols t @ cols\<rparr>, s))))))"

definition table_load_bytes :: "table \<Rightarrow> bytes \<times> u32 \<Rightarrow> table res" where
  "table_load_bytes t data = bindR (table_load t (prepareUnserializing (fst data) (snd data))) (\<lambda>(t, s). Inr t)"

definition table_load_tuple :: "table \<Rightarrow> u32 \<times> bytes \<Rightarrow> table res" where
  "table_load_tuple t data = bindR (table_load t (prepareUnserializing (snd data) (fst data))) (\<lambda>(t, s). Inr t)"

section \<open>Building\<close>

definition put_cell :: "u8 \<Rightarrow> cell \<Rightarrow> serializer \<Rightarrow> serializer res" where
  "put_cell typ c s =
     (if typ = 0x69 then bindR (as_i32 c) (\<lambda>v. putInt v s)
      else if typ = 0x6c then bindR (as_i64 c) (\<lambda>v. putLong v s)
      else if typ = 0x66 then bindR (as_f32 c) (\<lambda>v. putFloat v s)
      else if typ = 0x64 then bindR (as_f64 c) (\<lambda>v. putDouble v s)
      else if typ = 0x62 then
        (case c of CBytes m off len \<Rightarrow> putBytes (drop off m) len s | _ \<Rightarrow> Inl Uninit)
      else if typ = 0x73 then putString (as_str c) s
      else if typ = 0x63 then bindR (as_bool c) (\<lambda>b. putVarint (if b then 1 else 0) s)
      else Inr s)"

definition build_column :: "table \<Rightarrow> nat \<Rightarrow> serializer \<Rightarrow> serializer res" where
  "build_column t i s =
     (let typ = ts_columnsType t ! i
      in if \<not> known_type typ then Inr s
         else if i < length (ts_cols t) then foldR (put_cell typ) (ts_cols t ! i) s
         else Inl OutOfBounds)"

definition build_flag :: "table \<Rightarrow> u32" where
  "build_flag t = (if ts_columnsName t = [] \<and> ts_columnsType t \<noteq> [] then FLAG_NO_COLUMN_NAME else 0)"

definition buildSer :: "u8 \<Rightarrow> table \<Rightarrow> serializer option \<Rightarrow> serializer res" where
  "buildSer jk t ser =
     bindR (case ser of None \<Rightarrow> prepareSerializing jk 16 | Some s \<Rightarrow> Inr s) (\<lambda>s.
     bindR (putVarint (build_flag t) s) (\<lambda>s.
     bindR (putVarint (word_of_int (ts_rowCnt t)) s) (\<lambda>s.
     bindR (putString (ts_columnsType t) s) (\<lambda>s.
     bindR (if build_flag t AND FLAG_NO_COLUMN_NAME = 0 then foldR putString (ts_columnsName t) s else Inr s) (\<lambda>s.
     foldR (build_column t) [0..<length (ts_columnsType t)] s)))))"

section \<open>Rows and cells\<close>

definition push_cell :: "nat \<Rightarrow> cell \<Rightarrow> table \<Rightarrow> table res" where
  "push_cell i c t =
     (if i < length (ts_cols t) then Inr (t\<lparr>ts_cols := (ts_cols t)[i := ts_cols t ! i @ [c]]\<rparr>) else Inl OutOfBounds)"

definition inc_rowCnt :: "table \<Rightarrow> table res" where
  "inc_rowCnt t = (if ts_rowCnt t + 1 < 2 ^ 31 then Inr (t\<lparr>ts_rowCnt := ts_rowCnt t + 1\<rparr>) else Inl IntOverflow)"

definition addRow :: "cell list \<Rightarrow> table \<Rightarrow> table res" where
  "addRow row t =
     bindR (foldR (\<lambda>i t. if i < length row then push_cell i (row ! i) t else Inl OutOfBounds)
              [0..<length (ts_columnsType t)] t) inc_rowCnt"

fun getRow_cols :: "int \<Rightarrow> cell list list \<Rightarrow> cell list res" where
  "getRow_cols i [] = Inr []"
| "getRow_cols i (col # cols) =
     (if 0 \<le> i \<and> nat i < length col
      then bindR (getRow_cols i cols) (\<lambda>row. Inr (col ! nat i # row)) else Inl OutOfBounds)"

definition getRow :: "int \<Rightarrow> table \<Rightarrow> cell list res" where
  "getRow rowIndex t = getRow_cols rowIndex (ts_cols t)"

definition moveToNextValuePosX :: "table \<Rightarrow> table res" where
  "moveToNextValuePosX t =
     (let x = ts_posX t + 1;
          t = t\<lparr>ts_posX := (if int (length (ts_cols t)) \<le> x then 0 else x)\<rparr>
      in if ts_posX t = 0 then inc_rowCnt t else Inr t)"

definition addValue :: "cell \<Rightarrow> table \<Rightarrow> table res" where
  "addValue v t = bindR (moveToNextValuePosX t) (\<lambda>t. push_cell (nat (ts_posX t)) v t)"

definition setColumnsInfo :: "bytes \<Rightarrow> bytes list \<Rightarrow> table \<Rightarrow> table" where
  "setColumnsInfo types names t =
     t\<lparr>ts_columnsType := types, ts_columnsName := names,
       ts_cols := ts_cols t @ replicate (length types - length (ts_cols t)) []\<rparr>"

definition setColumnsType :: "bytes \<Rightarrow> table \<Rightarrow> table" where
  "setColumnsType types t = setColumnsInfo types [] t"

text \<open>\<open>emplace\<close> keeps the value of a key that is already there.\<close>

fun map_row :: "nat \<Rightarrow> nat \<Rightarrow> bytes list \<Rightarrow> cell list list \<Rightarrow> (bytes \<rightharpoonup> cell) \<Rightarrow> (bytes \<rightharpoonup> cell) res" where
  "map_row k row names [] m = Inr m"
| "map_row k row names (col # cols) m =
     (if k < length names \<and> row < length col
      then map_row (k + 1) row names cols (if m (names ! k) = None then m(names ! k \<mapsto> col ! row) else m)
      else Inl OutOfBounds)"

definition toMapArray :: "table \<Rightarrow> (bytes \<rightharpoonup> cell) list res" where
  "toMapArray t =
     foldR (\<lambda>row ms. bindR (map_row 0 row (ts_columnsName t) (ts_cols t) Map.empty) (\<lambda>m. Inr (ms @ [m])))
       [0..<nat (ts_rowCnt t)] []"

section \<open>What a table holds\<close>

datatype cell_value = V32 u32 | V64 u64 | VBytes bytes | VBool bool

fun bytes_at :: "cell \<Rightarrow> bytes option" where
  "bytes_at (CBytes m off len) = (if off + unat len \<le> length m then Some (take (unat len) (drop off m)) else None)"
| "bytes_at _ = None"

definition content :: "u8 \<Rightarrow> cell \<Rightarrow> cell_value option" where
  "content typ c =
     (if typ = 0x69 then (case c of CI32 v \<Rightarrow> Some (V32 v) | _ \<Rightarrow> None)
      else if typ = 0x6c then (case c of CI64 v \<Rightarrow> Some (V64 v) | _ \<Rightarrow> None)
      else if typ = 0x66 then (case c of CF32 v \<Rightarrow> Some (V32 v) | _ \<Rightarrow> None)
      else if typ = 0x64 then (case c of CF64 v \<Rightarrow> Some (V64 v) | _ \<Rightarrow> None)
      else if typ = 0x62 then map_option VBytes (bytes_at c)
      else if typ = 0x73 then (case c of CStr v \<Rightarrow> Some (VBytes v) | _ \<Rightarrow> None)
      else if typ = 0x63 then
        (case c of CI32 v \<Rightarrow> if v = 0 then Some (VBool False) else if v = 1 then Some (VBool True) else None | _ \<Rightarrow> None)
      else None)"

fun enc_value :: "cell_value \<Rightarrow> bytes" where
  "enc_value (V32 v) = le32 v"
| "enc_value (V64 v) = le64 v"
| "enc_value (VBytes v) = enc_bytes v"
| "enc_value (VBool b) = enc_varint (if b then 1 else 0)"

fun value_ok :: "cell_value \<Rightarrow> bool" where
  "value_ok (VBytes v) = small_block v"
| "value_ok _ = True"

definition cell_ok :: "u8 \<Rightarrow> cell \<Rightarrow> bool" where
  "cell_ok typ c \<longleftrightarrow> (\<exists>v. content typ c = Some v \<and> value_ok v)"

definition enc_cell :: "u8 \<Rightarrow> cell \<Rightarrow> bytes" where
  "enc_cell typ c = enc_value (the (content typ c))"

lemma put_cell_emits:
  assumes "cell_ok typ c"
  shows "ser_emits (put_cell typ c) (enc_cell typ c)"
proof -
  from assms obtain v where v: "content typ c = Some v" "value_ok v" by (auto simp: cell_ok_def)
  consider (i) "typ = 0x69" | (l) "typ = 0x6c" | (f) "typ = 0x66" | (d) "typ = 0x64" | (b) "typ = 0x62"
    | (s) "typ = 0x73" | (c) "typ = 0x63"
    using v(1) unfolding content_def by (metis option.distinct(1))
  then show ?thesis
  proof cases
    case i
    with v obtain w where "c = CI32 w" by (auto simp: content_def split: cell.splits)
    with i show ?thesis using ser_put_int_emits [of "[w]"]
      by (simp add: put_cell_def [abs_def] enc_cell_def content_def putInt_def)
  next
    case l
    with v obtain w where "c = CI64 w" by (auto simp: content_def split: cell.splits)
    with l show ?thesis using ser_put_long_emits [of "[w]"]
      by (simp add: put_cell_def [abs_def] enc_cell_def content_def putLong_def)
  next
    case f
    with v obtain w where "c = CF32 w" by (auto simp: content_def split: cell.splits)
    with f show ?thesis using ser_put_int_emits [of "[w]"]
      by (simp add: put_cell_def [abs_def] enc_cell_def content_def putFloat_def ser_put_float_def ser_put_int_def)
  next
    case d
    with v obtain w where "c = CF64 w" by (auto simp: content_def split: cell.splits)
    with d show ?thesis using ser_put_long_emits [of "[w]"]
      by (simp add: put_cell_def [abs_def] enc_cell_def content_def putDouble_def ser_put_double_def ser_put_long_def)
  next
    case b
    with v obtain m off len where c: "c = CBytes m off len" "off + unat len \<le> length m"
      "v = VBytes (take (unat len) (drop off m))"
      by (auto simp: content_def split: cell.splits if_splits elim!: bytes_at.elims)
    let ?w = "take (unat len) (drop off m)"
    have len: "length ?w = unat len" using c(2) by simp
    have w: "length ?w < 2 ^ 31" using v(2) c(3) by (simp add: small_block_def)
    have "ser_put_bytes s (drop off m) len = ser_put_bytes s ?w (of_nat (length ?w))" for s
      unfolding len using c(2) by (auto simp: ser_put_bytes_def read_mem_def)
    with ser_put_bytes_emits [OF w] b c(1,2) show ?thesis
      by (simp add: put_cell_def [abs_def] enc_cell_def content_def putBytes_def)
  next
    case s
    with v obtain w where "c = CStr w" "small_block w" by (auto simp: content_def split: cell.splits)
    with s putString_emits [of w] show ?thesis
      by (simp add: put_cell_def [abs_def] enc_cell_def content_def)
  next
    case c
    with v obtain w where "c = CI32 w" "w = 0 \<or> w = 1" by (auto simp: content_def split: cell.splits if_splits)
    with c show ?thesis using ser_put_varint_emits [of "if w = 0 then 0 else 1"]
      by (auto simp: put_cell_def [abs_def] enc_cell_def content_def putVarint_def)
  qed
qed

definition column_ok :: "int \<Rightarrow> u8 \<Rightarrow> cell list \<Rightarrow> bool" where
  "column_ok n typ col \<longleftrightarrow> known_type typ \<and> int (length col) = n \<and> (\<forall>c\<in>set col. cell_ok typ c)"

text \<open>Loading a column gives cells of the same content.\<close>

definition same_cells :: "u8 \<Rightarrow> cell list \<Rightarrow> cell list \<Rightarrow> bool" where
  "same_cells typ col col' \<longleftrightarrow> map (content typ) col' = map (content typ) col"

lemma get_bytes_cell_reads:
  "small_block v \<Longrightarrow> ser_reads get_bytes_cell (enc_bytes v) (\<lambda>c. bytes_at c = Some v)"
  unfolding ser_reads_def
proof (intro allI impI, elim conjE)
  fix s rest assume v: "small_block v" and ok: "ser_rd_ok s" and nxt: "ser_in s = enc_bytes v @ rest"
  have u: "unat (of_nat (length v) :: u32) = length v" using v by (simp add: small_block_def unat_of_nat)
  from get_bytes_at [OF v ok nxt] obtain pos t where
    t: "ser_get_bytes s = Inr ((pos, of_nat (length v)), t)" "ser_slice t (pos, of_nat (length v)) = Inr v"
    "ser_rd_ok t" "ser_in t = rest" "ser_buf t = ser_buf s" by blast
  then have "bytes_at (CBytes (ser_buf t) (unat pos) (of_nat (length v))) = Some v"
    by (auto simp: ser_slice_def read_mem_def split: if_splits)
  with t show "\<exists>x s'. get_bytes_cell s = Inr (x, s') \<and> bytes_at x = Some v \<and> ser_rd_ok s' \<and> ser_in s' = rest
      \<and> ser_buf s' = ser_buf s"
    by (simp add: get_bytes_cell_def getBytes_def)
qed

lemma get_str_cell_reads: "small_block v \<Longrightarrow> ser_reads get_str_cell (enc_bytes v) (\<lambda>c. c = CStr v)"
  using ser_takes_map [OF getString_takes, of v CStr] by (auto simp: get_str_cell_def [abs_def] intro: ser_reads_takes)

lemma get_bool_cell_reads:
  "ser_reads get_bool_cell (enc_varint (if b then 1 else 0)) (\<lambda>c. c = bool_cell b)"
  using ser_takes_map [OF ser_get_varint_takes [of "if b then 1 else 0"], of "\<lambda>v. bool_cell (v \<noteq> 0)"]
  by (auto simp: get_bool_cell_def [abs_def] getVarint_def intro: ser_reads_takes split: if_splits)

lemma push_col_reads:
  "ser_reads g v (\<lambda>xs. P (map f xs)) \<Longrightarrow>
     ser_reads (\<lambda>s. push_col f (g s)) v (\<lambda>cs. \<exists>col. cs = [col] \<and> P col)"
  unfolding push_col_def by (rule ser_reads_map) auto

lemma list_all2_same_cells:
  "list_all2 (\<lambda>c c'. content typ c' = content typ c) col col' \<Longrightarrow> same_cells typ col col'"
  by (auto simp: same_cells_def list_all2_conv_all_nth intro!: nth_equalityI)

lemma cells_eq_map:
  "(\<And>c. c \<in> set col \<Longrightarrow> \<exists>v. c = K v) \<Longrightarrow> \<exists>vs. col = map K vs"
proof (induction col)
  case (Cons c col)
  then have "\<exists>vs. col = map K vs" by simp
  moreover from Cons.prems [of c] obtain v where "c = K v" by auto
  ultimately obtain vs where "c # col = map K (v # vs)" by auto
  then show ?case by (rule exI)
qed simp

lemma cell_ok_i: "cell_ok 0x69 c \<Longrightarrow> \<exists>v. c = CI32 v"
  and cell_ok_l: "cell_ok 0x6c c \<Longrightarrow> \<exists>v. c = CI64 v"
  and cell_ok_f: "cell_ok 0x66 c \<Longrightarrow> \<exists>v. c = CF32 v"
  and cell_ok_d: "cell_ok 0x64 c \<Longrightarrow> \<exists>v. c = CF64 v"
  and cell_ok_b: "cell_ok 0x62 c \<Longrightarrow> \<exists>v. bytes_at c = Some v \<and> small_block v"
  and cell_ok_s: "cell_ok 0x73 c \<Longrightarrow> \<exists>v. c = CStr v \<and> small_block v"
  and cell_ok_c: "cell_ok 0x63 c \<Longrightarrow> \<exists>w. c = bool_cell w"
  by (cases c; force simp: cell_ok_def content_def bool_cell_def split: if_splits option.splits)+

lemma load_column_reads:
  assumes ok: "column_ok n typ col" and n: "8 * length col < 2 ^ 31"
  shows "ser_reads (load_column n typ) (concat (map (enc_cell typ) col)) (\<lambda>cs. \<exists>col'. cs = [col'] \<and> same_cells typ col col')"
proof -
  from ok have cells: "\<And>c. c \<in> set col \<Longrightarrow> cell_ok typ c" and len: "n = int (length col)" and kn: "known_type typ"
    by (auto simp: column_ok_def)
  from kn consider (i) "typ = 0x69" | (l) "typ = 0x6c" | (f) "typ = 0x66" | (d) "typ = 0x64" | (b) "typ = 0x62"
    | (s) "typ = 0x73" | (c) "typ = 0x63"
    unfolding known_type_def by blast
  then show ?thesis
  proof cases
    case i
    then have "\<And>c. c \<in> set col \<Longrightarrow> \<exists>v. c = CI32 v" using cells cell_ok_i by blast
    from cells_eq_map [OF this] obtain vs where vs: "col = map CI32 vs" by blast
    have enc: "concat (map (enc_cell typ) col) = concat (map le32 vs)"
      by (simp add: vs i enc_cell_def content_def comp_def)
    have "ser_reads (\<lambda>s. push_col CI32 (getIntVec n s)) (concat (map le32 vs)) (\<lambda>cs. \<exists>col'. cs = [col'] \<and> same_cells typ col col')"
      using ser_get_int_takes [of vs] n vs len
      by (intro push_col_reads ser_reads_takes [where x = vs]) (simp_all add: getIntVec_def same_cells_def)
    then show ?thesis unfolding enc using i by (simp add: load_column_def [abs_def])
  next
    case l
    then have "\<And>c. c \<in> set col \<Longrightarrow> \<exists>v. c = CI64 v" using cells cell_ok_l by blast
    from cells_eq_map [OF this] obtain vs where vs: "col = map CI64 vs" by blast
    have enc: "concat (map (enc_cell typ) col) = concat (map le64 vs)"
      by (simp add: vs l enc_cell_def content_def comp_def)
    have "ser_reads (\<lambda>s. push_col CI64 (getLongVec n s)) (concat (map le64 vs)) (\<lambda>cs. \<exists>col'. cs = [col'] \<and> same_cells typ col col')"
      using ser_get_long_takes [of vs] n vs len
      by (intro push_col_reads ser_reads_takes [where x = vs]) (simp_all add: getLongVec_def same_cells_def)
    then show ?thesis unfolding enc using l by (simp add: load_column_def [abs_def])
  next
    case f
    then have "\<And>c. c \<in> set col \<Longrightarrow> \<exists>v. c = CF32 v" using cells cell_ok_f by blast
    from cells_eq_map [OF this] obtain vs where vs: "col = map CF32 vs" by blast
    have enc: "concat (map (enc_cell typ) col) = concat (map le32 vs)"
      by (simp add: vs f enc_cell_def content_def comp_def)
    have "ser_reads (\<lambda>s. push_col CF32 (getFloatVec n s)) (concat (map le32 vs)) (\<lambda>cs. \<exists>col'. cs = [col'] \<and> same_cells typ col col')"
      using ser_get_int_takes [of vs] n vs len
      by (intro push_col_reads ser_reads_takes [where x = vs])
        (simp_all add: getFloatVec_def ser_get_float_def ser_get_int_def same_cells_def)
    then show ?thesis unfolding enc using f by (simp add: load_column_def [abs_def])
  next
    case d
    then have "\<And>c. c \<in> set col \<Longrightarrow> \<exists>v. c = CF64 v" using cells cell_ok_d by blast
    from cells_eq_map [OF this] obtain vs where vs: "col = map CF64 vs" by blast
    have enc: "concat (map (enc_cell typ) col) = concat (map le64 vs)"
      by (simp add: vs d enc_cell_def content_def comp_def)
    have "ser_reads (\<lambda>s. push_col CF64 (getDoubleVec n s)) (concat (map le64 vs)) (\<lambda>cs. \<exists>col'. cs = [col'] \<and> same_cells typ col col')"
      using ser_get_long_takes [of vs] n vs len
      by (intro push_col_reads ser_reads_takes [where x = vs])
        (simp_all add: getDoubleVec_def ser_get_double_def ser_get_long_def same_cells_def)
    then show ?thesis unfolding enc using d by (simp add: load_column_def [abs_def])
  next
    case b
    have "ser_reads (get_many get_bytes_cell (length col)) (concat (map (enc_cell typ) col))
        (\<lambda>xs. list_all2 (\<lambda>c c'. content typ c' = content typ c) col xs)"
    proof (rule get_many_reads)
      fix c assume "c \<in> set col"
      with cells b obtain v where v: "bytes_at c = Some v" "small_block v" using cell_ok_b by blast
      from ser_reads_mono [OF get_bytes_cell_reads [OF v(2)]] v b
      show "ser_reads get_bytes_cell (enc_cell typ c) (\<lambda>c'. content typ c' = content typ c)"
        by (simp add: enc_cell_def content_def)
    qed
    then have "ser_reads (\<lambda>s. push_col id (get_many get_bytes_cell (nat n) s)) (concat (map (enc_cell typ) col))
        (\<lambda>cs. \<exists>col'. cs = [col'] \<and> same_cells typ col col')"
      using len by (intro push_col_reads) (auto intro: ser_reads_mono list_all2_same_cells)
    then show ?thesis using b by (simp add: load_column_def [abs_def])
  next
    case s
    have "ser_reads (get_many get_str_cell (length col)) (concat (map (enc_cell typ) col))
        (\<lambda>xs. list_all2 (\<lambda>c c'. content typ c' = content typ c) col xs)"
    proof (rule get_many_reads)
      fix c assume "c \<in> set col"
      with cells s obtain v where v: "c = CStr v" "small_block v" using cell_ok_s by blast
      from ser_reads_mono [OF get_str_cell_reads [OF v(2)]] v s
      show "ser_reads get_str_cell (enc_cell typ c) (\<lambda>c'. content typ c' = content typ c)"
        by (simp add: enc_cell_def content_def)
    qed
    then have "ser_reads (\<lambda>s. push_col id (get_many get_str_cell (nat n) s)) (concat (map (enc_cell typ) col))
        (\<lambda>cs. \<exists>col'. cs = [col'] \<and> same_cells typ col col')"
      using len by (intro push_col_reads) (auto intro: ser_reads_mono list_all2_same_cells)
    then show ?thesis using s by (simp add: load_column_def [abs_def])
  next
    case c
    have "ser_reads (get_many get_bool_cell (length col)) (concat (map (enc_cell typ) col))
        (\<lambda>xs. list_all2 (\<lambda>c c'. content typ c' = content typ c) col xs)"
    proof (rule get_many_reads)
      fix x assume "x \<in> set col"
      with cells c obtain w where w: "x = bool_cell w" using cell_ok_c by blast
      from ser_reads_mono [OF get_bool_cell_reads [of w]] w c
      show "ser_reads get_bool_cell (enc_cell typ x) (\<lambda>c'. content typ c' = content typ x)"
        by (simp add: enc_cell_def content_def bool_cell_def split: if_splits)
    qed
    then have "ser_reads (\<lambda>s. push_col id (get_many get_bool_cell (nat n) s)) (concat (map (enc_cell typ) col))
        (\<lambda>cs. \<exists>col'. cs = [col'] \<and> same_cells typ col col')"
      using len by (intro push_col_reads) (auto intro: ser_reads_mono list_all2_same_cells)
    then show ?thesis using c by (simp add: load_column_def [abs_def])
  qed
qed


section \<open>The wire form of a table\<close>

definition enc_column :: "u8 \<times> cell list \<Rightarrow> bytes" where
  "enc_column tc = concat (map (enc_cell (fst tc)) (snd tc))"

definition enc_table :: "table \<Rightarrow> bytes" where
  "enc_table t =
     enc_varint (build_flag t) @ enc_varint (word_of_int (ts_rowCnt t)) @ enc_bytes (ts_columnsType t)
     @ concat (map enc_bytes (ts_columnsName t))
     @ concat (map enc_column (zip (ts_columnsType t) (ts_cols t)))"

text \<open>
  A table that can be written: one column of \<open>rowCnt\<close> cells per type, of a known type, each cell
  written through the member of its type; names for all columns or none; no length or count that the
  variable length integer cannot carry.
\<close>

definition table_ok :: "table \<Rightarrow> bool" where
  "table_ok t \<longleftrightarrow>
     0 \<le> ts_rowCnt t \<and> 8 * ts_rowCnt t < 2 ^ 31 \<and> ts_rowCnt t \<noteq> 255 \<and>
     small_block (ts_columnsType t) \<and>
     (ts_columnsName t = [] \<or> length (ts_columnsName t) = length (ts_columnsType t)) \<and>
     (\<forall>n\<in>set (ts_columnsName t). small_block n) \<and>
     list_all2 (column_ok (ts_rowCnt t)) (ts_columnsType t) (ts_cols t)"

definition same_table :: "table \<Rightarrow> table \<Rightarrow> bool" where
  "same_table t t' \<longleftrightarrow>
     ts_columnsType t' = ts_columnsType t \<and> ts_columnsName t' = ts_columnsName t \<and> ts_rowCnt t' = ts_rowCnt t \<and>
     length (ts_cols t') = length (ts_cols t) \<and>
     (\<forall>i < length (ts_cols t). same_cells (ts_columnsType t ! i) (ts_cols t ! i) (ts_cols t' ! i))"

lemma build_column_emits:
  assumes "list_all2 (column_ok n) (ts_columnsType t) (ts_cols t)" and "i < length (ts_columnsType t)"
  shows "ser_emits (build_column t i) (enc_column (ts_columnsType t ! i, ts_cols t ! i))"
proof -
  from assms have i: "i < length (ts_cols t)" and ok: "column_ok n (ts_columnsType t ! i) (ts_cols t ! i)"
    by (auto simp: list_all2_conv_all_nth)
  have "ser_emits (foldR (put_cell (ts_columnsType t ! i)) (ts_cols t ! i))
      (concat (map (enc_cell (ts_columnsType t ! i)) (ts_cols t ! i)))"
    using ok by (intro ser_emits_foldR put_cell_emits) (auto simp: column_ok_def)
  then show ?thesis
    using i ok by (simp add: build_column_def [abs_def] enc_column_def column_ok_def Let_def)
qed

lemma zip_as_nth: "length xs = length ys \<Longrightarrow> zip xs ys = map (\<lambda>i. (xs ! i, ys ! i)) [0..<length xs]"
  by (rule nth_equalityI) auto

lemma build_columns_emits:
  assumes "list_all2 (column_ok n) (ts_columnsType t) (ts_cols t)"
  shows "ser_emits (foldR (build_column t) [0..<length (ts_columnsType t)])
           (concat (map enc_column (zip (ts_columnsType t) (ts_cols t))))"
proof -
  have "length (ts_columnsType t) = length (ts_cols t)" using assms by (rule list_all2_lengthD)
  then have "map enc_column (zip (ts_columnsType t) (ts_cols t)) =
      map (\<lambda>i. enc_column (ts_columnsType t ! i, ts_cols t ! i)) [0..<length (ts_columnsType t)]"
    by (simp add: zip_as_nth comp_def)
  then show ?thesis
    using assms by (auto intro!: ser_emits_foldR build_column_emits)
qed

lemma build_flag_names: "build_flag t AND FLAG_NO_COLUMN_NAME \<noteq> 0 \<Longrightarrow> ts_columnsName t = []"
  by (auto simp: build_flag_def split: if_splits)

lemma build_names_emits:
  assumes "\<forall>n\<in>set (ts_columnsName t). small_block n"
  shows "ser_emits (\<lambda>s. if build_flag t AND FLAG_NO_COLUMN_NAME = 0 then foldR putString (ts_columnsName t) s else Inr s)
           (concat (map enc_bytes (ts_columnsName t)))"
proof (cases "build_flag t AND FLAG_NO_COLUMN_NAME = 0")
  case True
  then show ?thesis using string_codec.put_all_emits [OF assms] by simp
next
  case False
  with build_flag_names [OF False] show ?thesis by auto
qed

lemma buildSer_emits:
  assumes "table_ok t"
  shows "ser_emits (\<lambda>s. buildSer jk t (Some s)) (enc_table t)"
  unfolding buildSer_def enc_table_def option.case bindR_Inr putVarint_def
  using assms
  by (intro ser_emits_bind ser_put_varint_emits putString_emits build_names_emits build_columns_emits)
    (auto simp: table_ok_def)

lemma load_columns_reads:
  assumes "list_all2 (column_ok n) types cols" and "8 * n < 2 ^ 31"
  shows "ser_reads (load_columns n types) (concat (map enc_column (zip types cols)))
           (\<lambda>cs. length cs = length cols \<and> (\<forall>i < length cols. same_cells (types ! i) (cols ! i) (cs ! i)))"
  using assms(1)
proof (induction types cols rule: list_all2_induct)
  case Nil
  have "load_columns n [] = (\<lambda>s. Inr ([], s))" by (rule ext) simp
  then show ?case by (auto intro: ser_reads_return)
next
  case (Cons ty types col cols)
  have eq: "load_columns n (ty # types) =
      (\<lambda>s. bindR (load_column n ty s) (\<lambda>(c, s). bindR (load_columns n types s) (\<lambda>(cs, s). Inr (c @ cs, s))))"
    by (rule ext) simp
  have len: "8 * length col < 2 ^ 31" using Cons.hyps(1) assms(2) by (simp add: column_ok_def)
  have enc: "enc_column (ty, col) = concat (map (enc_cell ty) col)" by (simp add: enc_column_def)
  show ?case
    unfolding list.map zip_Cons_Cons concat.simps eq enc
  proof (rule ser_reads_bind [OF load_column_reads [OF Cons.hyps(1) len]])
    fix c assume c: "\<exists>col'. c = [col'] \<and> same_cells ty col col'"
    show "ser_reads (\<lambda>s. bindR (load_columns n types s) (\<lambda>(cs, s). Inr (c @ cs, s)))
        (concat (map enc_column (zip types cols)))
        (\<lambda>cs. length cs = length (col # cols)
           \<and> (\<forall>i < length (col # cols). same_cells ((ty # types) ! i) ((col # cols) ! i) (cs ! i)))"
      using Cons.IH by (rule ser_reads_map) (use c in \<open>auto simp: less_Suc_eq_0_disj\<close>)
  qed
qed

lemma load_names_reads:
  assumes "table_ok t"
  shows "ser_reads (load_names (build_flag t) (ts_columnsType t)) (concat (map enc_bytes (ts_columnsName t)))
           (\<lambda>names. names = ts_columnsName t)"
proof (cases "build_flag t AND FLAG_NO_COLUMN_NAME = 0")
  case True
  then have "length (ts_columnsType t) = length (ts_columnsName t)"
    using assms by (auto simp: table_ok_def build_flag_def FLAG_NO_COLUMN_NAME_def split: if_splits)
  with True assms string_codec.get_many_takes [of "ts_columnsName t"] show ?thesis
    by (auto simp: load_names_def [abs_def] table_ok_def intro: ser_reads_takes)
next
  case False
  with build_flag_names [OF False] show ?thesis
    by (auto simp: load_names_def [abs_def] intro: ser_reads_return)
qed

lemma rowCnt_word: "table_ok t \<Longrightarrow> sint (word_of_int (ts_rowCnt t) :: u32) = ts_rowCnt t"
proof -
  assume t: "table_ok t"
  then obtain n where n: "ts_rowCnt t = int n" "n < 2 ^ 31" by (auto simp: table_ok_def elim!: nonneg_int_cases)
  then show ?thesis using sint_small [of "of_nat n"] by (simp add: unat_of_nat)
qed

lemma rowCnt_not_ff: "table_ok t \<Longrightarrow> (word_of_int (ts_rowCnt t) :: u32) \<noteq> 0xff"
proof
  assume t: "table_ok t" and "(word_of_int (ts_rowCnt t) :: u32) = 0xff"
  then have "sint (word_of_int (ts_rowCnt t) :: u32) = 255" by simp
  with rowCnt_word [OF t] t show False by (simp add: table_ok_def)
qed

lemma build_flag_not_ff: "build_flag t \<noteq> 0xff"
  by (simp add: build_flag_def FLAG_NO_COLUMN_NAME_def)

lemma table_load_reads:
  assumes ok: "table_ok t" and fresh: "ts_cols t0 = []"
  shows "ser_reads (table_load t0) (enc_table t) (\<lambda>t'. same_table t t')"
proof -
  let ?types = "ts_columnsType t" and ?names = "ts_columnsName t"
  have cols: "ser_reads (\<lambda>s. bindR (load_columns (sint (word_of_int (ts_rowCnt t) :: u32)) ?types s) (\<lambda>(cols, s).
       Inr (t0\<lparr>ts_flag := flag, ts_rowCnt := sint (word_of_int (ts_rowCnt t) :: u32), ts_columnsType := ?types,
               ts_columnsName := ?names, ts_cols := ts_cols t0 @ cols\<rparr>, s)))
     (concat (map enc_column (zip ?types (ts_cols t)))) (\<lambda>t'. same_table t t')" for flag
    unfolding rowCnt_word [OF ok]
    by (rule ser_reads_map [OF load_columns_reads]) (use ok fresh in \<open>auto simp: table_ok_def same_table_def\<close>)
  have types: "small_block ?types" using ok by (simp add: table_ok_def)
  show ?thesis
    unfolding table_load_def [abs_def] enc_table_def getVarint_def
    apply (rule ser_reads_bind [OF ser_reads_takes [OF ser_get_varint_takes [OF build_flag_not_ff], of "\<lambda>x. x = build_flag t"]])
     apply simp
    apply (rule ser_reads_bind [OF ser_reads_takes [OF ser_get_varint_takes [OF rowCnt_not_ff [OF ok]], of "\<lambda>x. x = word_of_int (ts_rowCnt t)"]])
     apply simp
    apply (rule ser_reads_bind [OF ser_reads_takes [OF getString_takes [OF types], of "\<lambda>x. x = ?types"]])
     apply simp
    apply simp
    apply (rule ser_reads_bind [OF load_names_reads [OF ok]])
    using cols rowCnt_word [OF ok] by simp
qed


section \<open>Filling a table\<close>

text \<open>One more cell at the foot of the columns from \<open>k\<close> on.\<close>

fun push_from :: "nat \<Rightarrow> cell list \<Rightarrow> cell list list \<Rightarrow> cell list list" where
  "push_from k [] cols = cols"
| "push_from k (v # vs) cols = push_from (k + 1) vs (cols[k := cols ! k @ [v]])"

lemma length_push_from [simp]: "length (push_from k vs cols) = length cols"
  by (induction k vs cols rule: push_from.induct) auto

lemma push_from_before: "i < k \<Longrightarrow> push_from k vs cols ! i = cols ! i"
  by (induction k vs cols rule: push_from.induct) auto

lemma push_from_nth:
  "k + length vs \<le> length cols \<Longrightarrow> k \<le> i \<Longrightarrow> i < k + length vs \<Longrightarrow>
     push_from k vs cols ! i = cols ! i @ [vs ! (i - k)]"
proof (induction k vs cols rule: push_from.induct)
  case (2 k v vs cols)
  show ?case
  proof (cases "i = k")
    case True
    with 2 show ?thesis by (simp add: push_from_before)
  next
    case False
    with 2 show ?thesis by (simp add: nth_Cons' Suc_diff_le)
  qed
qed simp

lemma push_row:
  "k + length vs \<le> length (ts_cols t) \<Longrightarrow> k + length vs \<le> length row \<Longrightarrow> vs = take (length vs) (drop k row) \<Longrightarrow>
     foldR (\<lambda>i t. if i < length row then push_cell i (row ! i) t else Inl OutOfBounds) [k..<k + length vs] t
       = Inr (t\<lparr>ts_cols := push_from k vs (ts_cols t)\<rparr>)"
proof (induction vs arbitrary: k t)
  case (Cons v vs)
  have upt: "[k..<k + length (v # vs)] = k # [Suc k..<Suc k + length vs]" by (simp add: upt_rec)
  from Cons.prems(2,3) have k: "row ! k = v" "vs = take (length vs) (drop (Suc k) row)"
    by (auto simp: Cons_nth_drop_Suc [symmetric] take_Suc_Cons)
  let ?t = "t\<lparr>ts_cols := (ts_cols t)[k := ts_cols t ! k @ [v]]\<rparr>"
  have "foldR (\<lambda>i t. if i < length row then push_cell i (row ! i) t else Inl OutOfBounds) [Suc k..<Suc k + length vs] ?t
      = Inr (?t\<lparr>ts_cols := push_from (Suc k) vs (ts_cols ?t)\<rparr>)"
    using Cons.prems k(2) by (intro Cons.IH) auto
  with k(1) Cons.prems(1,2) show ?case unfolding upt by (simp add: push_cell_def)
qed simp

lemma addRow_eq:
  assumes "length row = length (ts_columnsType t)" and "length (ts_cols t) = length (ts_columnsType t)"
    and "ts_rowCnt t + 1 < 2 ^ 31"
  shows "addRow row t = Inr (t\<lparr>ts_cols := push_from 0 row (ts_cols t), ts_rowCnt := ts_rowCnt t + 1\<rparr>)"
  using push_row [of 0 row t row] assms by (simp add: addRow_def inc_rowCnt_def)

lemma addValue_inside:
  "0 \<le> ts_posX t \<Longrightarrow> ts_posX t + int (length vs) < int (length (ts_cols t)) \<Longrightarrow>
     foldR addValue vs t =
       Inr (t\<lparr>ts_cols := push_from (nat (ts_posX t) + 1) vs (ts_cols t), ts_posX := ts_posX t + int (length vs)\<rparr>)"
proof (induction vs arbitrary: t)
  case (Cons v vs)
  have x: "nat (ts_posX t + 1) = Suc (nat (ts_posX t))" using Cons.prems(1) by simp
  let ?t = "t\<lparr>ts_cols := (ts_cols t)[Suc (nat (ts_posX t)) := ts_cols t ! Suc (nat (ts_posX t)) @ [v]],
              ts_posX := ts_posX t + 1\<rparr>"
  have "addValue v t = Inr ?t"
    using Cons.prems by (simp add: addValue_def moveToNextValuePosX_def push_cell_def Let_def x)
  moreover have "foldR addValue vs ?t = Inr (?t\<lparr>ts_cols := push_from (nat (ts_posX ?t) + 1) vs (ts_cols ?t),
      ts_posX := ts_posX ?t + int (length vs)\<rparr>)"
    using Cons.prems by (intro Cons.IH) auto
  ultimately show ?case using Cons.prems by (simp add: x)
qed simp

lemma addValue_row:
  assumes w: "length row = length (ts_cols t)" "row \<noteq> []"
    and x: "ts_posX t = -1 \<or> ts_posX t = int (length (ts_cols t)) - 1" and n: "ts_rowCnt t + 1 < 2 ^ 31"
  shows "foldR addValue row t =
    Inr (t\<lparr>ts_cols := push_from 0 row (ts_cols t), ts_rowCnt := ts_rowCnt t + 1, ts_posX := int (length row) - 1\<rparr>)"
proof -
  obtain v vs where row: "row = v # vs" using w(2) by (cases row) auto
  let ?t = "t\<lparr>ts_rowCnt := ts_rowCnt t + 1, ts_posX := 0, ts_cols := (ts_cols t)[0 := ts_cols t ! 0 @ [v]]\<rparr>"
  have "addValue v t = Inr ?t"
    using x n w row by (auto simp: addValue_def moveToNextValuePosX_def push_cell_def inc_rowCnt_def Let_def)
  with addValue_inside [of ?t vs] w(1) show ?thesis by (simp add: row)
qed

lemma getRow_cols_eq:
  "0 \<le> i \<Longrightarrow> (\<forall>col\<in>set cols. nat i < length col) \<Longrightarrow> getRow_cols i cols = Inr (map (\<lambda>col. col ! nat i) cols)"
  by (induction i cols rule: getRow_cols.induct) auto

lemma table_ok_shape:
  assumes "table_ok t"
  shows "length (ts_cols t) = length (ts_columnsType t)" "\<forall>col\<in>set (ts_cols t). length col = nat (ts_rowCnt t)"
  using assms by (auto simp: table_ok_def column_ok_def list_all2_conv_all_nth in_set_conv_nth) (metis nat_int)+

lemma getRow_eq:
  "table_ok t \<Longrightarrow> 0 \<le> i \<Longrightarrow> i < ts_rowCnt t \<Longrightarrow> getRow i t = Inr (map (\<lambda>col. col ! nat i) (ts_cols t))"
  unfolding getRow_def by (rule getRow_cols_eq) (auto dest: table_ok_shape(2))

lemma push_row_columns_ok:
  assumes "list_all2 (column_ok n) types cols" and "length row = length types"
    and "\<forall>i < length types. cell_ok (types ! i) (row ! i)"
  shows "list_all2 (column_ok (n + 1)) types (push_from 0 row cols)"
  using assms by (auto simp: list_all2_conv_all_nth push_from_nth column_ok_def)

section \<open>Properties\<close>

text \<open>
  C6. A well-typed table written by \<open>buildSer\<close> and loaded by a fresh \<open>TableSerializer\<close> comes back with
  the same types, names and number of rows and with cells of the same content, column by column.
\<close>

theorem table_roundtrip:
  assumes ok: "table_ok t" and small: "3 * (length (enc_table t) + 16) < 2 ^ 31"
  shows "\<exists>s t'. buildSer jk t None = Inr s \<and>
           table_load_bytes table_new (take (unat (snd (buildPxpBytes s))) (fst (buildPxpBytes s)), snd (buildPxpBytes s))
             = Inr t' \<and> same_table t t'"
proof -
  obtain s0 where s0: "prepareSerializing jk 16 = Inr s0"
    by (simp add: prepareSerializing_def ser_prepare_ser_def realloc_mem_def)
  then have s0_ok: "ser_ok s0" "ser_out s0 = []"
    by (auto simp: prepareSerializing_def dest!: ser_prepare_ser_ok)
  have "ser_fits s0 (length (enc_table t))" using small s0_ok by (simp add: ser_fits_def)
  from ser_emitsD [OF buildSer_emits [OF ok] s0_ok(1) this] s0_ok obtain s where
    s: "buildSer jk t (Some s0) = Inr s" "ser_ok s" "ser_out s = enc_table t" by auto
  have none: "buildSer jk t None = Inr s" using s(1) s0 by (simp add: buildSer_def)
  let ?r = "prepareUnserializing (ser_out s) (ser_pos s)"
  have "ser_rd_ok ?r" "ser_in ?r = enc_table t @ []"
    using small s(3) by (simp_all add: prepareUnserializing_def ser_prepare_unser_def ser_rd_ok_def ser_in_def)
  from ser_readsD [OF table_load_reads [OF ok, of table_new] this] obtain t' r where
    "table_load table_new ?r = Inr (t', r)" "same_table t t'" by (auto simp: table_new_def)
  with none show ?thesis
    by (auto simp: table_load_bytes_def buildPxpBytes_def build_def ser_build_def ser_out_def Let_def)
qed

theorem table_roundtrip_witness:
  "\<exists>s t'. buildSer 0 (table_new\<lparr>ts_columnsType := [0x69, 0x73], ts_columnsName := [[1], [2]], ts_rowCnt := 1,
       ts_cols := [[CI32 7], [CStr [65, 66]]]\<rparr>) None = Inr s \<and>
     table_load_bytes table_new (take (unat (snd (buildPxpBytes s))) (fst (buildPxpBytes s)), snd (buildPxpBytes s)) = Inr t' \<and>
     ts_columnsName t' = [[1], [2]] \<and> ts_rowCnt t' = 1"
proof -
  let ?t = "table_new\<lparr>ts_columnsType := [0x69, 0x73], ts_columnsName := [[1], [2]], ts_rowCnt := 1,
       ts_cols := [[CI32 7], [CStr [65, 66]]]\<rparr>"
  have ok: "table_ok ?t"
    by (simp add: table_ok_def table_new_def column_ok_def cell_ok_def content_def known_type_def small_block_def)
  have small: "3 * (length (enc_table ?t) + 16) < 2 ^ 31"
    by (simp add: enc_table_def table_new_def enc_column_def enc_cell_def content_def enc_bytes_def enc_varint_def
        build_flag_def)
  from table_roundtrip [OF ok small, of 0] show ?thesis
    by (auto simp: same_table_def)
qed

text \<open>
  C23. Adding values one by one with \<open>addValue\<close> fills the table left to right, top to bottom: for any
  rows of the table's width it gives the table that \<open>addRow\<close> builds from them, with the write
  position at the end of a row.
\<close>

theorem addValue_addRow:
  assumes "length (ts_cols t) = length (ts_columnsType t)" and "ts_columnsType t \<noteq> []"
    and "ts_posX t = -1 \<or> ts_posX t = int (length (ts_cols t)) - 1"
    and "\<forall>row\<in>set rows. length row = length (ts_columnsType t)" and "rows \<noteq> []"
    and "ts_rowCnt t + int (length rows) < 2 ^ 31"
  shows "foldR addValue (concat rows) t =
           bindR (foldR addRow rows t) (\<lambda>t'. Inr (t'\<lparr>ts_posX := int (length (ts_columnsType t)) - 1\<rparr>))
       \<and> (\<exists>t'. foldR addRow rows t = Inr t')"
proof -
  have "foldR addValue (concat rows) (t\<lparr>ts_posX := x\<rparr>) =
      bindR (foldR addRow rows t)
        (\<lambda>t'. Inr (t'\<lparr>ts_posX := if rows = [] then x else int (length (ts_columnsType t)) - 1\<rparr>))
      \<and> (\<exists>t'. foldR addRow rows t = Inr t')"
    if "x = -1 \<or> x = int (length (ts_cols t)) - 1" for x
    using assms(1,2,4,6) that
  proof (induction rows arbitrary: t x)
    case (Cons row rows)
    let ?w = "length (ts_columnsType t)"
    let ?u = "t\<lparr>ts_cols := push_from 0 row (ts_cols t), ts_rowCnt := ts_rowCnt t + 1\<rparr>"
    have row: "addRow row t = Inr ?u" using Cons.prems by (intro addRow_eq) auto
    have "row \<noteq> []" using Cons.prems by auto
    with addValue_row [of row "t\<lparr>ts_posX := x\<rparr>"] Cons.prems
    have vals: "foldR addValue row (t\<lparr>ts_posX := x\<rparr>) = Inr (?u\<lparr>ts_posX := int ?w - 1\<rparr>)" by simp
    have "foldR addValue (concat rows) (?u\<lparr>ts_posX := int ?w - 1\<rparr>) =
      bindR (foldR addRow rows ?u)
        (\<lambda>t'. Inr (t'\<lparr>ts_posX := if rows = [] then int ?w - 1 else int (length (ts_columnsType ?u)) - 1\<rparr>))
      \<and> (\<exists>t'. foldR addRow rows ?u = Inr t')"
      using Cons.prems by (intro Cons.IH) auto
    with row vals show ?case by (simp add: foldR_append)
  qed (auto intro: exI)
  from this [of "ts_posX t"] assms(3,5) show ?thesis by simp
qed

theorem addValue_addRow_witness:
  "foldR addValue [CI32 1, CI32 2, CI32 3, CI32 4] (setColumnsType [0x69, 0x69] table_new) =
     bindR (foldR addRow [[CI32 1, CI32 2], [CI32 3, CI32 4]] (setColumnsType [0x69, 0x69] table_new))
       (\<lambda>t'. Inr (t'\<lparr>ts_posX := 1\<rparr>))"
  using addValue_addRow [of "setColumnsType [0x69, 0x69] table_new" "[[CI32 1, CI32 2], [CI32 3, CI32 4]]"]
  by (simp add: setColumnsType_def setColumnsInfo_def table_new_def)


text \<open>
  C24. \<open>addRow\<close> with a cell of the right kind for every column keeps the table well typed: it still can
  be written, the new row is its last one, and no row before it changes.
\<close>

theorem addRow_well_typed:
  assumes ok: "table_ok t" and row: "length row = length (ts_columnsType t)"
    and cells: "\<forall>i < length row. cell_ok (ts_columnsType t ! i) (row ! i)"
    and n: "ts_rowCnt t + 1 \<noteq> 255" "8 * (ts_rowCnt t + 1) < 2 ^ 31"
  shows "\<exists>t'. addRow row t = Inr t' \<and> table_ok t' \<and> ts_rowCnt t' = ts_rowCnt t + 1 \<and>
           getRow (ts_rowCnt t) t' = Inr row \<and>
           (\<forall>i. 0 \<le> i \<longrightarrow> i < ts_rowCnt t \<longrightarrow> getRow i t' = getRow i t)"
proof -
  let ?cols = "push_from 0 row (ts_cols t)"
  let ?t = "t\<lparr>ts_cols := ?cols, ts_rowCnt := ts_rowCnt t + 1\<rparr>"
  note shape = table_ok_shape [OF ok]
  have add: "addRow row t = Inr ?t" using shape row n by (intro addRow_eq) auto
  have ok': "table_ok ?t"
    using ok n push_row_columns_ok [of "ts_rowCnt t" "ts_columnsType t" "ts_cols t" row] row cells
    by (simp add: table_ok_def)
  have nth: "\<And>i. i < length row \<Longrightarrow> ?cols ! i = ts_cols t ! i @ [row ! i]"
    using push_from_nth [of 0 row "ts_cols t"] row shape(1) by simp
  have len: "\<And>i. i < length row \<Longrightarrow> length (ts_cols t ! i) = nat (ts_rowCnt t)"
    using shape row by simp
  have pos: "0 \<le> ts_rowCnt t" using ok by (simp add: table_ok_def)
  have "map (\<lambda>col. col ! nat (ts_rowCnt t)) ?cols = row"
    using nth len row shape(1) by (intro nth_equalityI) (auto simp: nth_append)
  with getRow_eq [OF ok', of "ts_rowCnt t"] pos have last: "getRow (ts_rowCnt t) ?t = Inr row" by simp
  have "getRow i ?t = getRow i t" if i: "0 \<le> i" "i < ts_rowCnt t" for i
  proof -
    have "map (\<lambda>col. col ! nat i) ?cols = map (\<lambda>col. col ! nat i) (ts_cols t)"
      using nth len row shape(1) i by (intro nth_equalityI) (auto simp: nth_append)
    with getRow_eq [OF ok', of i] getRow_eq [OF ok i] i show ?thesis by simp
  qed
  with add ok' last show ?thesis by auto
qed

theorem addRow_well_typed_witness:
  "\<exists>t'. addRow [CI32 7, CStr [65]] (setColumnsType [0x69, 0x73] table_new) = Inr t' \<and> table_ok t' \<and>
     getRow 0 t' = Inr [CI32 7, CStr [65]]"
proof -
  let ?t = "setColumnsType [0x69, 0x73] table_new"
  have "table_ok ?t"
    by (simp add: table_ok_def table_new_def column_ok_def known_type_def small_block_def setColumnsType_def
        setColumnsInfo_def)
  moreover have "\<forall>i < length [CI32 7, CStr [65]]. cell_ok (ts_columnsType ?t ! i) ([CI32 7, CStr [65]] ! i)"
    by (auto simp: less_Suc_eq cell_ok_def content_def small_block_def setColumnsType_def setColumnsInfo_def)
  moreover have "length [CI32 7, CStr [65]] = length (ts_columnsType ?t)"
    "ts_rowCnt ?t = 0" by (simp_all add: setColumnsType_def setColumnsInfo_def table_new_def)
  ultimately show ?thesis using addRow_well_typed [of ?t "[CI32 7, CStr [65]]"] by auto
qed

text \<open>
  \<open>load\<close> replaces types, names and the number of rows but only appends to the columns: after a
  second load the table describes the second data while its first columns, the ones \<open>getRow\<close> starts
  with and \<open>buildSer\<close> writes, are still those of the first.
\<close>

theorem reload_keeps_columns:
  assumes ok: "table_ok t2" and rd: "ser_rd_ok s" "ser_in s = enc_table t2" and i: "i < length (ts_cols t1)"
  shows "\<exists>t' s'. table_load t1 s = Inr (t', s') \<and> ts_columnsType t' = ts_columnsType t2 \<and>
           ts_rowCnt t' = ts_rowCnt t2 \<and> ts_cols t' ! i = ts_cols t1 ! i \<and>
           length (ts_cols t') = length (ts_cols t1) + length (ts_cols t2)"
proof -
  have *: "table_load t1 s = bindR (table_load (t1\<lparr>ts_cols := []\<rparr>) s)
      (\<lambda>(t, s). Inr (t\<lparr>ts_cols := ts_cols t1 @ ts_cols t\<rparr>, s))"
    by (auto simp: table_load_def bindR_assoc intro!: bindR_cong)
  from ser_readsD [OF table_load_reads [OF ok] rd(1), of "t1\<lparr>ts_cols := []\<rparr>" "[]"] rd(2) obtain t' s' where
    "table_load (t1\<lparr>ts_cols := []\<rparr>) s = Inr (t', s')" "same_table t2 t'" by auto
  with * i show ?thesis by (auto simp: same_table_def nth_append)
qed

theorem reload_keeps_columns_witness:
  "\<exists>t' s'. table_load (table_new\<lparr>ts_columnsType := [0x69], ts_rowCnt := 1, ts_cols := [[CI32 5]]\<rparr>)
       (prepareUnserializing [1, 0, 1, 0x6c] 4) = Inr (t', s') \<and>
     ts_columnsType t' = [0x6c] \<and> ts_rowCnt t' = 0 \<and> ts_cols t' ! 0 = [CI32 5]"
proof -
  let ?t2 = "table_new\<lparr>ts_columnsType := [0x6c], ts_cols := [[]]\<rparr>"
  have ok: "table_ok ?t2"
    by (simp add: table_ok_def table_new_def column_ok_def known_type_def small_block_def)
  have "ser_rd_ok (prepareUnserializing [1, 0, 1, 0x6c] 4)" "ser_in (prepareUnserializing [1, 0, 1, 0x6c] 4) = enc_table ?t2"
    by (simp_all add: prepareUnserializing_def ser_prepare_unser_def ser_rd_ok_def ser_in_def enc_table_def table_new_def
        build_flag_def FLAG_NO_COLUMN_NAME_def enc_varint_def enc_bytes_def enc_column_def)
  from reload_keeps_columns [OF ok this, of 0
      "table_new\<lparr>ts_columnsType := [0x69], ts_rowCnt := 1, ts_cols := [[CI32 5]]\<rparr>"]
  show ?thesis by (fastforce simp: table_new_def)
qed

end
