(* ===== verification/PpCall.thy ===== *)
theory PpCall
  imports PpSerializer RefPool
begin

text \<open>
  Requests and functions of the C++ layer: \<open>PxpRequestWrap\<close>, \<open>NamedFunctionPP\<close> and \<open>FunctionMap\<close> of
  \<open>c/include/pxprpc_pp.hpp\<close>, \<open>NamedFunctionPPImpl1\<close> with its \<open>AsyncReturn\<close> and \<open>Parameter\<close>, and
  \<open>EventDispatcher\<close> of \<open>c/include/pxprpc_ext.hpp\<close>.  Every \<open>new\<close> is an allocation in an explicit heap,
  so that what a call leaves behind can be stated; a closure is the constructor that names it with the
  values it captured.  The C library is on the other side of \<open>next_step\<close>, whose calls are recorded with
  the reply they hand over, and calls \<open>on_finish\<close> later.
\<close>

section \<open>State\<close>

type_synonym oid = nat
type_synonym reqid = nat

text \<open>The closures kept in \<open>onReqFinished\<close> and in \<open>onFinishPP\<close>.\<close>

datatype finish_action =
    DeleteRaw oid | FreeBuiltAndDelete oid | ClearPending nat | UserFinish nat

datatype on_finish_pp = NoFinish | FinishCall oid oid | FinishRaw oid

text \<open>A result's \<open>base\<close>: null, an allocation of this layer, or a buffer of the caller with its bytes.\<close>

datatype result_base = NullBase | Alloc oid | Foreign bytes

datatype heap_obj =
    OWrap reqid on_finish_pp
  | OPara oid "oid option"                     \<comment> \<open>wrap, serializer\<close>
  | ORet oid "finish_action list"              \<comment> \<open>wrap, actions\<close>
  | OBlock bytes
  | OSer serializer

record preq =
  rq_parameter :: "bytes \<times> u32"
  rq_base :: result_base
  rq_length :: u32
  rq_next_part :: "bytes list"
  rq_rejected :: bool
  rq_callable_data :: "oid option"
  rq_wrapped :: bool                           \<comment> \<open>\<open>on_finish\<close> is \<open>__wrap_requestOnFinish\<close>\<close>

datatype pp_event = NextStep reqid bool bytes | UserCall nat

record pworld =
  pw_reqs :: "reqid \<Rightarrow> preq option"
  pw_heap :: "oid \<Rightarrow> heap_obj option"
  pw_fresh :: oid
  pw_pool :: ref_pool
  pw_pending :: "nat \<Rightarrow> oid option option"     \<comment> \<open>\<open>pendingReturn\<close> of each existing dispatcher\<close>
  pw_junk :: u8
  pw_log :: "pp_event list"

definition new_obj :: "heap_obj \<Rightarrow> pworld \<Rightarrow> oid \<times> pworld" where
  "new_obj x w = (pw_fresh w, w\<lparr>pw_heap := (pw_heap w)(pw_fresh w \<mapsto> x), pw_fresh := pw_fresh w + 1\<rparr>)"

definition del_obj :: "oid \<Rightarrow> pworld \<Rightarrow> pworld res" where
  "del_obj i w = (if pw_heap w i = None then Inl BadFree else Inr (w\<lparr>pw_heap := (pw_heap w)(i := None)\<rparr>))"

definition put_obj :: "oid \<Rightarrow> heap_obj \<Rightarrow> pworld \<Rightarrow> pworld" where
  "put_obj i x w = w\<lparr>pw_heap := (pw_heap w)(i \<mapsto> x)\<rparr>"

definition wrap_at :: "oid \<Rightarrow> pworld \<Rightarrow> (reqid \<times> on_finish_pp) res" where
  "wrap_at i w = (case pw_heap w i of Some (OWrap r f) \<Rightarrow> Inr (r, f) | _ \<Rightarrow> Inl UseAfterFree)"

definition ret_at :: "oid \<Rightarrow> pworld \<Rightarrow> (oid \<times> finish_action list) res" where
  "ret_at i w = (case pw_heap w i of Some (ORet x acts) \<Rightarrow> Inr (x, acts) | _ \<Rightarrow> Inl UseAfterFree)"

definition para_at :: "oid \<Rightarrow> pworld \<Rightarrow> (oid \<times> oid option) res" where
  "para_at i w = (case pw_heap w i of Some (OPara x s) \<Rightarrow> Inr (x, s) | _ \<Rightarrow> Inl UseAfterFree)"

definition ser_at :: "oid \<Rightarrow> pworld \<Rightarrow> serializer res" where
  "ser_at i w = (case pw_heap w i of Some (OSer s) \<Rightarrow> Inr s | _ \<Rightarrow> Inl UseAfterFree)"

definition req_at :: "reqid \<Rightarrow> pworld \<Rightarrow> preq res" where
  "req_at r w = (case pw_reqs w r of None \<Rightarrow> Inl UseAfterFree | Some q \<Rightarrow> Inr q)"

definition set_req :: "reqid \<Rightarrow> preq \<Rightarrow> pworld \<Rightarrow> pworld" where
  "set_req r q w = w\<lparr>pw_reqs := (pw_reqs w)(r \<mapsto> q)\<rparr>"

definition set_pending :: "nat \<Rightarrow> oid option \<Rightarrow> pworld \<Rightarrow> pworld res" where
  "set_pending d t w =
     (if pw_pending w d = None then Inl UseAfterFree else Inr (w\<lparr>pw_pending := (pw_pending w)(d \<mapsto> t)\<rparr>))"

lemmas pp_defs = new_obj_def del_obj_def put_obj_def wrap_at_def ret_at_def para_at_def ser_at_def req_at_def set_req_def

section \<open>PxpRequestWrap\<close>

definition wrap :: "reqid \<Rightarrow> pworld \<Rightarrow> (oid \<times> pworld) res" where
  "wrap r w =
     bindR (req_at r w) (\<lambda>q.
     case rq_callable_data q of
       Some i \<Rightarrow> Inr (i, w)
     | None \<Rightarrow>
         (let (i, w) = new_obj (OWrap r NoFinish) w
          in Inr (i, set_req r (q\<lparr>rq_callable_data := Some i, rq_wrapped := True\<rparr>) w)))"

text \<open>The bytes the library will send: the first part and those linked to it.\<close>

definition result_bytes :: "preq \<Rightarrow> pworld \<Rightarrow> bytes res" where
  "result_bytes q w =
     bindR (case rq_base q of
              NullBase \<Rightarrow> if rq_length q = 0 then Inr [] else Inl NullDeref
            | Foreign b \<Rightarrow> read_mem b 0 (unat (rq_length q))
            | Alloc i \<Rightarrow> (case pw_heap w i of Some (OBlock b) \<Rightarrow> read_mem b 0 (unat (rq_length q)) | _ \<Rightarrow> Inl UseAfterFree))
       (\<lambda>b. Inr (b @ concat (rq_next_part q)))"

definition nextStep :: "oid \<Rightarrow> pworld \<Rightarrow> pworld res" where
  "nextStep i w =
     bindR (wrap_at i w) (\<lambda>(r, f).
     bindR (req_at r w) (\<lambda>q.
     bindR (result_bytes q w) (\<lambda>b.
     Inr (w\<lparr>pw_log := pw_log w @ [NextStep r (rq_rejected q) b]\<rparr>))))"

text \<open>Changes of the C request through the wrap.\<close>

definition on_req :: "(preq \<Rightarrow> preq) \<Rightarrow> oid \<Rightarrow> pworld \<Rightarrow> pworld res" where
  "on_req f i w = bindR (wrap_at i w) (\<lambda>(r, _). bindR (req_at r w) (\<lambda>q. Inr (set_req r (f q) w)))"

definition setRejected :: "bool \<Rightarrow> oid \<Rightarrow> pworld \<Rightarrow> pworld res" where
  "setRejected b = on_req (\<lambda>q. q\<lparr>rq_rejected := b\<rparr>)"

definition alloc_hooked :: "free_hook \<Rightarrow> addr \<Rightarrow> pworld \<Rightarrow> (u32 \<times> pworld) res" where
  "alloc_hooked hook obj w =
     bindR (server_alloc_ref (pw_pool w)) (\<lambda>(i, p). Inr (of_nat i, w\<lparr>pw_pool := set_slot i obj (Some hook) p\<rparr>))"

definition allocRef :: "addr \<Rightarrow> pworld \<Rightarrow> (u32 \<times> pworld) res" where
  "allocRef obj = alloc_hooked WrapObjectOnFree obj"

text \<open>A function is entered by the address of its member \<open>callable\<close>, whose \<open>user_data\<close> leads back.\<close>

definition allocRef_function :: "addr \<Rightarrow> pworld \<Rightarrow> (u32 \<times> pworld) res" where
  "allocRef_function callable = alloc_hooked WrapCallableOnFree callable"

definition freeRef :: "u32 \<Rightarrow> pworld \<Rightarrow> pworld res" where
  "freeRef index w =
     bindR (server_free_ref (server_get_ref (pw_pool w) index) (pw_pool w)) (\<lambda>p. Inr (w\<lparr>pw_pool := p\<rparr>))"

definition dereference :: "(addr \<Rightarrow> addr) \<Rightarrow> u32 \<Rightarrow> pworld \<Rightarrow> addr option res" where
  "dereference user_data index w =
     (let p = pw_pool w; i = server_get_ref p index
      in if length (slots p) \<le> i then Inl OutOfBounds
         else let r = slots p ! i
              in if ref_on_free r = Some WrapObjectOnFree then Inr (ref_object r)
                 else if ref_on_free r = Some WrapCallableOnFree then
                   (case ref_object r of None \<Rightarrow> Inl NullDeref | Some c \<Rightarrow> Inr (Some (user_data c)))
                 else Inr None)"

section \<open>Finishing a request\<close>

definition del_base :: "oid \<Rightarrow> pworld \<Rightarrow> pworld res" where
  "del_base x w =
     bindR (wrap_at x w) (\<lambda>(r, _).
     bindR (req_at r w) (\<lambda>q.
     case rq_base q of NullBase \<Rightarrow> Inr w | Foreign b \<Rightarrow> Inl BadFree | Alloc i \<Rightarrow> del_obj i w))"

fun run_action :: "oid \<Rightarrow> finish_action \<Rightarrow> pworld \<Rightarrow> pworld res" where
  "run_action x (DeleteRaw b) w = del_obj b w"
| "run_action x (FreeBuiltAndDelete s) w = bindR (del_base x w) (del_obj s)"
| "run_action x (ClearPending d) w = set_pending d None w"
| "run_action x (UserFinish n) w = Inr (w\<lparr>pw_log := pw_log w @ [UserCall n]\<rparr>)"

definition delete_para :: "oid \<Rightarrow> pworld \<Rightarrow> pworld res" where
  "delete_para p w =
     bindR (para_at p w) (\<lambda>(x, s).
     bindR (case s of None \<Rightarrow> Inr w | Some i \<Rightarrow> del_obj i w) (del_obj p))"

fun run_on_finish :: "on_finish_pp \<Rightarrow> pworld \<Rightarrow> pworld res" where
  "run_on_finish NoFinish w = Inr w"
| "run_on_finish (FinishCall p t) w =
     bindR (ret_at t w) (\<lambda>(x, acts).
     bindR (foldR (run_action x) acts w) (\<lambda>w.
     bindR (delete_para p w) (del_obj t)))"
| "run_on_finish (FinishRaw b) w = del_obj b w"

definition onWrapFree :: "oid \<Rightarrow> pworld \<Rightarrow> pworld res" where
  "onWrapFree i w = bindR (wrap_at i w) (\<lambda>(r, f). bindR (run_on_finish f w) (del_obj i))"

definition wrap_requestOnFinish :: "reqid \<Rightarrow> pworld \<Rightarrow> pworld res" where
  "wrap_requestOnFinish r w =
     bindR (req_at r w) (\<lambda>q. case rq_callable_data q of None \<Rightarrow> Inl NullDeref | Some i \<Rightarrow> onWrapFree i w)"

section \<open>Calling a function\<close>

definition set_on_finish :: "oid \<Rightarrow> on_finish_pp \<Rightarrow> pworld \<Rightarrow> pworld res" where
  "set_on_finish i f w = bindR (wrap_at i w) (\<lambda>(r, _). Inr (put_obj i (OWrap r f) w))"

text \<open>\<open>call\<close> up to the handler, which gets the two new objects.\<close>

definition fn_call :: "oid \<Rightarrow> pworld \<Rightarrow> ((oid \<times> oid) \<times> pworld) res" where
  "fn_call i w =
     (let (p, w) = new_obj (OPara i None) w; (t, w) = new_obj (ORet i []) w
      in bindR (set_on_finish i (FinishCall p t) w) (\<lambda>w. Inr ((p, t), w)))"

definition wrap_call :: "reqid \<Rightarrow> pworld \<Rightarrow> ((oid \<times> oid) \<times> pworld) res" where
  "wrap_call r w = bindR (wrap r w) (\<lambda>(i, w). fn_call i w)"

section \<open>Parameter\<close>

definition asSerializer :: "oid \<Rightarrow> pworld \<Rightarrow> (oid \<times> pworld) res" where
  "asSerializer p w =
     bindR (para_at p w) (\<lambda>(x, s).
     case s of
       Some i \<Rightarrow> Inr (i, w)
     | None \<Rightarrow>
         bindR (wrap_at x w) (\<lambda>(r, _).
         bindR (req_at r w) (\<lambda>q.
         let (i, w) = new_obj (OSer (fromPxpBytes (rq_parameter q))) w
         in Inr (i, put_obj p (OPara x (Some i)) w))))"

definition next_value :: "(serializer \<Rightarrow> ('a \<times> serializer) res) \<Rightarrow> oid \<Rightarrow> pworld \<Rightarrow> ('a \<times> pworld) res" where
  "next_value get p w =
     bindR (asSerializer p w) (\<lambda>(i, w).
     bindR (ser_at i w) (\<lambda>s.
     bindR (get s) (\<lambda>(v, s). Inr (v, put_obj i (OSer s) w))))"

definition nextInt :: "oid \<Rightarrow> pworld \<Rightarrow> (u32 \<times> pworld) res" where "nextInt = next_value getInt"
definition nextLong :: "oid \<Rightarrow> pworld \<Rightarrow> (u64 \<times> pworld) res" where "nextLong = next_value getLong"
definition nextFloat :: "oid \<Rightarrow> pworld \<Rightarrow> (u32 \<times> pworld) res" where "nextFloat = next_value getFloat"
definition nextDouble :: "oid \<Rightarrow> pworld \<Rightarrow> (u64 \<times> pworld) res" where "nextDouble = next_value getDouble"
definition nextString :: "oid \<Rightarrow> pworld \<Rightarrow> (bytes \<times> pworld) res" where "nextString = next_value getString"
definition nextBytes :: "oid \<Rightarrow> pworld \<Rightarrow> ((u32 \<times> u32) \<times> pworld) res" where "nextBytes = next_value getBytes"

definition nextBool :: "oid \<Rightarrow> pworld \<Rightarrow> (bool \<times> pworld) res" where
  "nextBool p w = bindR (next_value getVarint p w) (\<lambda>(v, w). Inr (v \<noteq> 0, w))"

definition nextObject :: "(addr \<Rightarrow> addr) \<Rightarrow> oid \<Rightarrow> pworld \<Rightarrow> (addr option \<times> pworld) res" where
  "nextObject user_data p w = bindR (nextInt p w) (\<lambda>(i, w). bindR (dereference user_data i w) (\<lambda>obj. Inr (obj, w)))"

section \<open>AsyncReturn\<close>

definition push_action :: "oid \<Rightarrow> finish_action \<Rightarrow> pworld \<Rightarrow> pworld res" where
  "push_action t a w = bindR (ret_at t w) (\<lambda>(x, acts). Inr (put_obj t (ORet x (acts @ [a])) w))"

definition with_wrap :: "oid \<Rightarrow> (oid \<Rightarrow> pworld \<Rightarrow> pworld res) \<Rightarrow> pworld \<Rightarrow> pworld res" where
  "with_wrap t f w = bindR (ret_at t w) (\<lambda>(x, acts). f x w)"

definition resolve_parts :: "oid \<Rightarrow> bytes list \<Rightarrow> nat \<Rightarrow> pworld \<Rightarrow> pworld res" where
  "resolve_parts t parts n w =
     bindR (with_wrap t (on_req (\<lambda>q. q\<lparr>rq_base := (case parts of [] \<Rightarrow> NullBase | b # _ \<Rightarrow> Foreign b),
                                        rq_length := (case parts of [] \<Rightarrow> 0 | b # _ \<Rightarrow> of_nat (length b)),
                                        rq_next_part := tl parts\<rparr>)) w) (\<lambda>w.
     bindR (push_action t (UserFinish n) w) (with_wrap t nextStep))"

definition resolve_copy :: "oid \<Rightarrow> bytes \<Rightarrow> pworld \<Rightarrow> pworld res" where
  "resolve_copy t buf w =
     (let (b, w) = new_obj (OBlock buf) w
      in bindR (with_wrap t (on_req (\<lambda>q. q\<lparr>rq_base := Alloc b, rq_length := of_nat (length buf), rq_next_part := []\<rparr>)) w) (\<lambda>w.
         bindR (push_action t (DeleteRaw b) w) (with_wrap t nextStep)))"

text \<open>A serializer that owns its buffer: the object and the buffer are two allocations.\<close>

definition resolve_ser :: "oid \<Rightarrow> oid \<Rightarrow> oid \<Rightarrow> pworld \<Rightarrow> pworld res" where
  "resolve_ser t s b w =
     bindR (ser_at s w) (\<lambda>ser.
     bindR (with_wrap t (on_req (\<lambda>q. q\<lparr>rq_base := Alloc b, rq_length := snd (buildPxpBytes ser)\<rparr>)) w) (\<lambda>w.
     bindR (push_action t (FreeBuiltAndDelete s) w) (with_wrap t nextStep)))"

definition resolve_empty :: "oid \<Rightarrow> pworld \<Rightarrow> pworld res" where
  "resolve_empty t w =
     bindR (with_wrap t (on_req (\<lambda>q. q\<lparr>rq_base := NullBase, rq_length := 0\<rparr>)) w) (with_wrap t nextStep)"

text \<open>The \<open>resolve\<close> of a value: a new serializer with the value in it.\<close>

definition resolve_put :: "(serializer \<Rightarrow> serializer res) \<Rightarrow> oid \<Rightarrow> pworld \<Rightarrow> pworld res" where
  "resolve_put put t w =
     bindR (prepareSerializing (pw_junk w) 8) (\<lambda>ser.
     bindR (put ser) (\<lambda>ser.
     let (s, w) = new_obj (OSer ser) w; (b, w) = new_obj (OBlock (fst (buildPxpBytes ser))) w
     in resolve_ser t s b w))"

definition resolve_int :: "oid \<Rightarrow> u32 \<Rightarrow> pworld \<Rightarrow> pworld res" where "resolve_int t v = resolve_put (putInt v) t"
definition resolve_long :: "oid \<Rightarrow> u64 \<Rightarrow> pworld \<Rightarrow> pworld res" where "resolve_long t v = resolve_put (putLong v) t"
definition resolve_float :: "oid \<Rightarrow> u32 \<Rightarrow> pworld \<Rightarrow> pworld res" where "resolve_float t v = resolve_put (putFloat v) t"
definition resolve_double :: "oid \<Rightarrow> u64 \<Rightarrow> pworld \<Rightarrow> pworld res" where "resolve_double t v = resolve_put (putDouble v) t"
definition resolve_string :: "oid \<Rightarrow> bytes \<Rightarrow> pworld \<Rightarrow> pworld res" where "resolve_string t v = resolve_put (putString v) t"

definition resolve_object :: "oid \<Rightarrow> addr option \<Rightarrow> pworld \<Rightarrow> pworld res" where
  "resolve_object t obj w =
     (case obj of None \<Rightarrow> resolve_int t (-1) w
      | Some x \<Rightarrow> bindR (ret_at t w) (\<lambda>_. bindR (allocRef x w) (\<lambda>(refid, w). resolve_int t refid w)))"

definition resolve_function :: "oid \<Rightarrow> addr option \<Rightarrow> pworld \<Rightarrow> pworld res" where
  "resolve_function t callable w =
     (case callable of None \<Rightarrow> resolve_int t (-1) w
      | Some x \<Rightarrow> bindR (ret_at t w) (\<lambda>_. bindR (allocRef_function x w) (\<lambda>(refid, w). resolve_int t refid w)))"

text \<open>\<open>reject\<close> replaces \<open>onFinishPP\<close>.\<close>

definition reject :: "oid \<Rightarrow> bytes \<Rightarrow> pworld \<Rightarrow> pworld res" where
  "reject t msg w =
     (let (b, w) = new_obj (OBlock msg) w
      in bindR (with_wrap t (on_req (\<lambda>q. q\<lparr>rq_base := Alloc b, rq_length := of_nat (length msg), rq_next_part := []\<rparr>)) w) (\<lambda>w.
         bindR (with_wrap t (\<lambda>x. set_on_finish x (FinishRaw b)) w) (\<lambda>w.
         bindR (with_wrap t (setRejected True) w) (with_wrap t nextStep))))"

section \<open>EventDispatcher\<close>

definition overlap_call :: bytes where
  "overlap_call = map of_char ''EventDispatcher:Overlap call''"

definition dispatcher_closed :: bytes where
  "dispatcher_closed = map of_char ''EventDispatcher closed''"

definition dispatcher_handler :: "nat \<Rightarrow> oid \<Rightarrow> oid \<Rightarrow> pworld \<Rightarrow> pworld res" where
  "dispatcher_handler d p t w =
     (case pw_pending w d of
        None \<Rightarrow> Inl UseAfterFree
      | Some (Some q) \<Rightarrow>
          bindR (reject q overlap_call w) (\<lambda>w.
          bindR (reject t overlap_call w) (set_pending d None))
      | Some None \<Rightarrow> bindR (set_pending d (Some t) w) (push_action t (ClearPending d)))"

definition dispatcher_delete :: "nat \<Rightarrow> pworld \<Rightarrow> pworld res" where
  "dispatcher_delete d w =
     (case pw_pending w d of
        None \<Rightarrow> Inl BadFree
      | Some pend \<Rightarrow>
          bindR (case pend of None \<Rightarrow> Inr w | Some q \<Rightarrow> reject q dispatcher_closed w)
            (\<lambda>w. Inr (w\<lparr>pw_pending := (pw_pending w)(d := None)\<rparr>)))"

section \<open>FunctionMap\<close>

type_synonym function_map = "bytes \<rightharpoonup> addr"

definition fm_add :: "bytes \<Rightarrow> addr \<Rightarrow> function_map \<Rightarrow> function_map" where
  "fm_add name fn m = m(name \<mapsto> fn)"

definition fm_get :: "bytes \<Rightarrow> function_map \<Rightarrow> addr option" where
  "fm_get name m = m name"

text \<open>\<open>__wrap_funcmap_get\<close>: the name is the first \<open>namelen\<close> bytes at the pointer.\<close>

definition wrap_funcmap_get :: "function_map \<Rightarrow> bytes \<Rightarrow> nat \<Rightarrow> addr option res" where
  "wrap_funcmap_get m funcname namelen = bindR (read_mem funcname 0 namelen) (\<lambda>n. Inr (fm_get n m))"


section \<open>A call and what it owns\<close>

datatype resolution =
    RParts "bytes list" nat | RCopy bytes | REmpty | RInt u32 | RLong u64 | RFloat u32 | RDouble u64
  | RString bytes | RObject "addr option" | RFunction "addr option"

fun resolve :: "oid \<Rightarrow> resolution \<Rightarrow> pworld \<Rightarrow> pworld res" where
  "resolve t (RParts parts n) = resolve_parts t parts n"
| "resolve t (RCopy b) = resolve_copy t b"
| "resolve t REmpty = resolve_empty t"
| "resolve t (RInt v) = resolve_int t v"
| "resolve t (RLong v) = resolve_long t v"
| "resolve t (RFloat v) = resolve_float t v"
| "resolve t (RDouble v) = resolve_double t v"
| "resolve t (RString v) = resolve_string t v"
| "resolve t (RObject obj) = resolve_object t obj"
| "resolve t (RFunction f) = resolve_function t f"

text \<open>
  \<open>in_call r w0 i p t so w\<close>: the request \<open>r\<close> is in a call that began in \<open>w0\<close>; beyond the heap of \<open>w0\<close>
  there are its wrap \<open>i\<close>, parameter \<open>p\<close>, return \<open>t\<close> and, once a parameter has been read, a serializer.
\<close>

definition with_ser :: "(oid \<times> serializer) option \<Rightarrow> (oid \<Rightarrow> heap_obj option) \<Rightarrow> (oid \<Rightarrow> heap_obj option)" where
  "with_ser so m = (case so of None \<Rightarrow> m | Some (s, ser) \<Rightarrow> m(s \<mapsto> OSer ser))"

definition call_heap :: "reqid \<Rightarrow> pworld \<Rightarrow> oid \<Rightarrow> oid \<Rightarrow> oid \<Rightarrow> (oid \<times> serializer) option \<Rightarrow> finish_action list
    \<Rightarrow> (oid \<Rightarrow> heap_obj option)" where
  "call_heap r w0 i p t so acts =
     (with_ser so (pw_heap w0))(i \<mapsto> OWrap r (FinishCall p t), p \<mapsto> OPara i (map_option fst so), t \<mapsto> ORet i acts)"

definition call_ids :: "pworld \<Rightarrow> oid \<Rightarrow> oid \<Rightarrow> oid \<Rightarrow> (oid \<times> serializer) option \<Rightarrow> pworld \<Rightarrow> bool" where
  "call_ids w0 i p t so w \<longleftrightarrow>
     distinct (i # p # t # map fst (case so of None \<Rightarrow> [] | Some x \<Rightarrow> [x])) \<and>
     (\<forall>j \<in> set (i # p # t # map fst (case so of None \<Rightarrow> [] | Some x \<Rightarrow> [x])). pw_heap w0 j = None \<and> j < pw_fresh w) \<and>
     (\<forall>j \<ge> pw_fresh w. pw_heap w0 j = None)"

definition in_call :: "reqid \<Rightarrow> pworld \<Rightarrow> oid \<Rightarrow> oid \<Rightarrow> oid \<Rightarrow> (oid \<times> serializer) option \<Rightarrow> pworld \<Rightarrow> bool" where
  "in_call r w0 i p t so w \<longleftrightarrow>
     (\<exists>q. pw_reqs w r = Some q \<and> rq_callable_data q = Some i) \<and>
     pw_heap w = call_heap r w0 i p t so [] \<and> call_ids w0 i p t so w"

lemma wrap_call_begins:
  assumes "pw_reqs w r = Some q" and "rq_callable_data q = None" and "\<forall>j \<ge> pw_fresh w. pw_heap w j = None"
  shows "\<exists>w'. wrap_call r w = Inr ((pw_fresh w + 1, pw_fresh w + 2), w') \<and>
     in_call r w (pw_fresh w) (pw_fresh w + 1) (pw_fresh w + 2) None w' \<and>
     pw_reqs w' = (pw_reqs w)(r \<mapsto> q\<lparr>rq_callable_data := Some (pw_fresh w), rq_wrapped := True\<rparr>) \<and>
     pw_log w' = pw_log w \<and> pw_pool w' = pw_pool w \<and> pw_pending w' = pw_pending w \<and> pw_junk w' = pw_junk w"
  using assms
  by (simp add: wrap_call_def wrap_def fn_call_def set_on_finish_def pp_defs in_call_def call_ids_def call_heap_def
      with_ser_def fun_upd_twist)


lemma call_heap_at:
  assumes "call_ids w0 i p t so w"
  shows "call_heap r w0 i p t so acts i = Some (OWrap r (FinishCall p t))"
    and "call_heap r w0 i p t so acts p = Some (OPara i (map_option fst so))"
    and "call_heap r w0 i p t so acts t = Some (ORet i acts)"
  using assms by (auto simp: call_heap_def call_ids_def with_ser_def split: option.splits)

lemma call_heap_ser:
  "call_ids w0 i p t (Some (s, ser)) w \<Longrightarrow> call_heap r w0 i p t (Some (s, ser)) acts s = Some (OSer ser)"
  by (auto simp: call_heap_def call_ids_def with_ser_def)

lemma call_heap_fresh:
  "call_ids w0 i p t so w \<Longrightarrow> pw_fresh w \<le> j \<Longrightarrow> call_heap r w0 i p t so acts j = None"
  by (auto simp: call_heap_def call_ids_def with_ser_def split: option.splits)

lemma call_ids_fresh:
  assumes "call_ids w0 i p t so w" and "j \<in> set (i # p # t # map fst (case so of None \<Rightarrow> [] | Some x \<Rightarrow> [x]))"
  shows "j \<noteq> pw_fresh w" "j \<noteq> Suc (pw_fresh w)" "j \<noteq> Suc (Suc (pw_fresh w))"
proof -
  have "j < pw_fresh w" using assms unfolding call_ids_def by blast
  then show "j \<noteq> pw_fresh w" "j \<noteq> Suc (pw_fresh w)" "j \<noteq> Suc (Suc (pw_fresh w))" by auto
qed

lemma in_call_at:
  assumes "in_call r w0 i p t so w"
  shows "wrap_at i w = Inr (r, FinishCall p t)" "para_at p w = Inr (i, map_option fst so)" "ret_at t w = Inr (i, [])"
    "so = Some (s, ser) \<Longrightarrow> ser_at s w = Inr ser"
  using assms call_heap_at [of w0 i p t so w r "[]"] call_heap_ser [of w0 i p t s ser w r "[]"]
  by (auto simp: in_call_def wrap_at_def para_at_def ret_at_def ser_at_def)

lemma del_obj_Some: "pw_heap w i = Some x \<Longrightarrow> del_obj i w = Inr (w\<lparr>pw_heap := (pw_heap w)(i := None)\<rparr>)"
  by (simp add: del_obj_def)

text \<open>Reading a parameter keeps the call's heap, with the one serializer the parameter needs.\<close>

lemma next_value_in_call:
  assumes call: "in_call r w0 i p t so w" and run: "next_value get p w = Inr (v, w')"
  shows "\<exists>so'. in_call r w0 i p t so' w' \<and> pw_reqs w' = pw_reqs w \<and> pw_log w' = pw_log w \<and> pw_pool w' = pw_pool w
     \<and> pw_pending w' = pw_pending w \<and> pw_junk w' = pw_junk w"
proof (cases so)
  case (Some x)
  obtain s ser where so: "so = Some (s, ser)" using Some by (cases x) auto
  from run so in_call_at [OF call] obtain ser' where
    w': "w' = put_obj s (OSer ser') w" by (auto simp: next_value_def asSerializer_def)
  have ids: "call_ids w0 i p t so w" using call by (simp add: in_call_def)
  have "(call_heap r w0 i p t (Some (s, ser)) [])(s \<mapsto> OSer ser') = call_heap r w0 i p t (Some (s, ser')) []"
    using ids so by (auto simp: call_heap_def with_ser_def call_ids_def fun_eq_iff)
  with call so w' have "in_call r w0 i p t (Some (s, ser')) w'"
    by (simp add: in_call_def put_obj_def call_ids_def)
  with w' show ?thesis by (auto simp: put_obj_def)
next
  case None
  from call obtain q where q: "pw_reqs w r = Some q" by (auto simp: in_call_def)
  let ?s = "pw_fresh w"
  from run None in_call_at [OF call] q obtain ser' where
    w': "w' = put_obj ?s (OSer ser') (put_obj p (OPara i (Some ?s)) (snd (new_obj (OSer (fromPxpBytes (rq_parameter q))) w)))"
    by (auto simp: next_value_def asSerializer_def req_at_def new_obj_def Let_def)
  have ids: "call_ids w0 i p t None w" using call None by (simp add: in_call_def)
  have neq: "i \<noteq> ?s" "p \<noteq> ?s" "t \<noteq> ?s" using call_ids_fresh(1) [OF ids] by simp_all
  have heap: "pw_heap w' = call_heap r w0 i p t (Some (?s, ser')) []"
    using call None ids neq w' by (auto simp: in_call_def put_obj_def new_obj_def call_heap_def with_ser_def call_ids_def fun_eq_iff)
  have "call_ids w0 i p t (Some (?s, ser')) w'"
    using ids neq w' by (auto simp: call_ids_def put_obj_def new_obj_def)
  with heap call w' have "in_call r w0 i p t (Some (?s, ser')) w'" by (auto simp: in_call_def put_obj_def new_obj_def)
  with w' show ?thesis by (auto simp: put_obj_def new_obj_def)
qed

text \<open>
  The heap of a finished call: when the actions have undone what the resolution allocated, finishing
  gives the heap back as it was before the call.
\<close>

definition ready_to_finish :: "reqid \<Rightarrow> pworld \<Rightarrow> pworld \<Rightarrow> bool" where
  "ready_to_finish r w0 w \<longleftrightarrow>
     (\<exists>q i p t so acts w1. pw_reqs w r = Some q \<and> rq_callable_data q = Some i \<and> wrap_at i w = Inr (r, FinishCall p t) \<and>
        ret_at t w = Inr (i, acts) \<and> foldR (run_action i) acts w = Inr w1 \<and>
        pw_heap w1 = call_heap r w0 i p t so acts \<and> call_ids w0 i p t so w)"

lemma finish_call:
  assumes "ready_to_finish r w0 w"
  shows "\<exists>w'. wrap_requestOnFinish r w = Inr w' \<and> pw_heap w' = pw_heap w0"
proof -
  from assms obtain q i p t so acts w1 where q: "pw_reqs w r = Some q" "rq_callable_data q = Some i"
    and at: "wrap_at i w = Inr (r, FinishCall p t)" "ret_at t w = Inr (i, acts)"
    and acts: "foldR (run_action i) acts w = Inr w1" "pw_heap w1 = call_heap r w0 i p t so acts"
    and ids: "call_ids w0 i p t so w" unfolding ready_to_finish_def by blast
  note heap = call_heap_at [OF ids, of r acts]
  have para: "para_at p w1 = Inr (i, map_option fst so)" using heap(2) acts(2) by (simp add: para_at_def)
  let ?h = "case so of None \<Rightarrow> pw_heap w1 | Some x \<Rightarrow> (pw_heap w1)(fst x := None)"
  have "(case map_option fst so of None \<Rightarrow> Inr w1 | Some s \<Rightarrow> del_obj s w1) = Inr (w1\<lparr>pw_heap := ?h\<rparr>)"
    using acts(2) call_heap_ser [of w0 i p t _ _ w r acts] ids by (auto simp: del_obj_Some split: option.split)
  then have "delete_para p w1 = Inr (w1\<lparr>pw_heap := ?h(p := None)\<rparr>)"
    using para acts(2) heap(2) ids
    by (auto simp: delete_para_def call_ids_def del_obj_def split: option.split)
  moreover have "del_obj t (w1\<lparr>pw_heap := ?h(p := None)\<rparr>) = Inr (w1\<lparr>pw_heap := ?h(p := None, t := None)\<rparr>)"
    using acts(2) heap(3) ids by (auto simp: del_obj_def call_ids_def split: option.split)
  moreover have "del_obj i (w1\<lparr>pw_heap := ?h(p := None, t := None)\<rparr>) = Inr (w1\<lparr>pw_heap := ?h(p := None, t := None, i := None)\<rparr>)"
    using acts(2) heap(1) ids by (auto simp: del_obj_def call_ids_def split: option.split)
  moreover have "?h(p := None, t := None, i := None) = pw_heap w0"
    using acts(2) ids by (auto simp: call_heap_def with_ser_def call_ids_def fun_eq_iff split: option.split)
  ultimately show ?thesis
    using q at acts(1) by (simp add: wrap_requestOnFinish_def req_at_def onWrapFree_def)
qed


section \<open>The resolutions\<close>

lemma set_req_fields [simp]:
  "pw_heap (set_req r q w) = pw_heap w" "pw_reqs (set_req r q w) = (pw_reqs w)(r \<mapsto> q)"
  "pw_fresh (set_req r q w) = pw_fresh w" "pw_log (set_req r q w) = pw_log w" "pw_pool (set_req r q w) = pw_pool w"
  "wrap_at j (set_req r q w) = wrap_at j w" "ret_at j (set_req r q w) = ret_at j w" "ser_at j (set_req r q w) = ser_at j w"
  by (simp_all add: set_req_def wrap_at_def ret_at_def ser_at_def)

lemma put_obj_fields [simp]:
  "pw_heap (put_obj j x w) = (pw_heap w)(j \<mapsto> x)" "pw_reqs (put_obj j x w) = pw_reqs w"
  "pw_fresh (put_obj j x w) = pw_fresh w" "pw_log (put_obj j x w) = pw_log w" "pw_pool (put_obj j x w) = pw_pool w"
  by (simp_all add: put_obj_def)

lemma new_obj_fields [simp]:
  "fst (new_obj x w) = pw_fresh w" "pw_heap (snd (new_obj x w)) = (pw_heap w)(pw_fresh w \<mapsto> x)"
  "pw_reqs (snd (new_obj x w)) = pw_reqs w" "pw_fresh (snd (new_obj x w)) = Suc (pw_fresh w)"
  "pw_log (snd (new_obj x w)) = pw_log w" "pw_pool (snd (new_obj x w)) = pw_pool w" "pw_junk (snd (new_obj x w)) = pw_junk w"
  by (simp_all add: new_obj_def)

text \<open>
  The three steps every resolution consists of, from a world where return, wrap and request are linked:
  write the result into the request, add one action (or none), call \<open>next_step\<close>.
\<close>

definition linked :: "oid \<Rightarrow> oid \<Rightarrow> reqid \<Rightarrow> on_finish_pp \<Rightarrow> finish_action list \<Rightarrow> preq \<Rightarrow> pworld \<Rightarrow> bool" where
  "linked t i r f acts q w \<longleftrightarrow>
     pw_heap w t = Some (ORet i acts) \<and> pw_heap w i = Some (OWrap r f) \<and> pw_reqs w r = Some q \<and> t \<noteq> i"

lemma linked_at: "linked t i r f acts q w \<Longrightarrow> ret_at t w = Inr (i, acts) \<and> wrap_at i w = Inr (r, f) \<and> req_at r w = Inr q"
  by (simp add: linked_def ret_at_def wrap_at_def req_at_def)

lemma with_on_req:
  "linked t i r f acts q w \<Longrightarrow>
     with_wrap t (on_req g) w = Inr (set_req r (g q) w) \<and> linked t i r f acts (g q) (set_req r (g q) w)"
  using linked_at [of t i r f acts q w] by (simp add: with_wrap_def on_req_def linked_def)

lemma push_linked:
  "linked t i r f acts q w \<Longrightarrow>
     push_action t a w = Inr (put_obj t (ORet i (acts @ [a])) w) \<and> linked t i r f (acts @ [a]) q (put_obj t (ORet i (acts @ [a])) w)"
  using linked_at [of t i r f acts q w] by (simp add: push_action_def linked_def)

lemma next_linked:
  "linked t i r f acts q w \<Longrightarrow> result_bytes q w = Inr b \<Longrightarrow>
     with_wrap t nextStep w = Inr (w\<lparr>pw_log := pw_log w @ [NextStep r (rq_rejected q) b]\<rparr>)"
  using linked_at [of t i r f acts q w] by (simp add: with_wrap_def nextStep_def)

definition resolved :: "reqid \<Rightarrow> pworld \<Rightarrow> pworld \<Rightarrow> bool \<Rightarrow> bytes \<Rightarrow> pworld \<Rightarrow> bool" where
  "resolved r w0 w rej b w' \<longleftrightarrow> ready_to_finish r w0 w' \<and> pw_log w' = pw_log w @ [NextStep r rej b]"

lemma in_call_linked:
  "in_call r w0 i p t so w \<Longrightarrow> pw_reqs w r = Some q \<Longrightarrow>
     linked t i r (FinishCall p t) [] q w \<and> rq_callable_data q = Some i"
  using call_heap_at [of w0 i p t so w r "[]"] by (auto simp: in_call_def linked_def call_ids_def)

lemma ready_to_finishI:
  assumes call: "in_call r w0 i p t so w" and l: "linked t i r (FinishCall p t) acts q w'"
    and q: "rq_callable_data q = Some i" and fresh: "pw_fresh w \<le> pw_fresh w'"
    and run: "foldR (run_action i) acts w' = Inr w1" "pw_heap w1 = (pw_heap w)(t \<mapsto> ORet i acts)"
  shows "ready_to_finish r w0 w'"
proof -
  have ids: "call_ids w0 i p t so w'" using call fresh by (auto simp: in_call_def call_ids_def)
  have "pw_heap w1 = call_heap r w0 i p t so acts"
    using run(2) call by (simp add: in_call_def call_heap_def)
  with l q run(1) ids linked_at [OF l] show ?thesis
    unfolding ready_to_finish_def linked_def by blast
qed

lemma in_call_fresh:
  "in_call r w0 i p t so w \<Longrightarrow> pw_fresh w \<le> j \<Longrightarrow> pw_heap w j = None"
  "in_call r w0 i p t so w \<Longrightarrow> t < pw_fresh w \<and> i < pw_fresh w"
  using call_heap_fresh [of w0 i p t so w j r "[]"] by (auto simp: in_call_def call_ids_def)

lemma resolve_steps:
  assumes l: "linked t i r f [] q w"
    and b: "\<And>w'. pw_heap w' = (pw_heap w)(t \<mapsto> ORet i [a]) \<Longrightarrow> result_bytes (g q) w' = Inr b"
  shows "\<exists>w'. bindR (with_wrap t (on_req g) w) (\<lambda>w. bindR (push_action t a w) (with_wrap t nextStep)) = Inr w' \<and>
     linked t i r f [a] (g q) w' \<and> pw_heap w' = (pw_heap w)(t \<mapsto> ORet i [a]) \<and> pw_fresh w' = pw_fresh w \<and>
     pw_log w' = pw_log w @ [NextStep r (rq_rejected (g q)) b]"
proof -
  note s1 = with_on_req [OF l, of g]
  note s2 = push_linked [OF conjunct2 [OF s1], of a]
  let ?w = "put_obj t (ORet i ([] @ [a])) (set_req r (g q) w)"
  have "result_bytes (g q) ?w = Inr b" by (rule b) simp
  note s3 = next_linked [OF conjunct2 [OF s2] this]
  let ?v = "?w\<lparr>pw_log := pw_log ?w @ [NextStep r (rq_rejected (g q)) b]\<rparr>"
  have "linked t i r f [a] (g q) ?v" "pw_heap ?v = (pw_heap w)(t \<mapsto> ORet i [a])" "pw_fresh ?v = pw_fresh w"
    "pw_log ?v = pw_log w @ [NextStep r (rq_rejected (g q)) b]"
    using l s2 by (simp_all add: linked_def)
  with s1 s2 s3 show ?thesis by (intro exI [of _ ?v]) simp
qed

lemma resolve_parts_done:
  assumes call: "in_call r w0 i p t so w" and q: "pw_reqs w r = Some q" and small: "\<forall>b \<in> set parts. length b < 2 ^ 32"
  shows "\<exists>w'. resolve_parts t parts n w = Inr w' \<and> resolved r w0 w (rq_rejected q) (concat parts) w'"
proof -
  from in_call_linked [OF call q] have l: "linked t i r (FinishCall p t) [] q w" "rq_callable_data q = Some i" by auto
  let ?g = "\<lambda>q. q\<lparr>rq_base := (case parts of [] \<Rightarrow> NullBase | b # _ \<Rightarrow> Foreign b),
      rq_length := (case parts of [] \<Rightarrow> 0 | b # _ \<Rightarrow> of_nat (length b)), rq_next_part := tl parts\<rparr>"
  have b: "result_bytes (?g q) w' = Inr (concat parts)" for w'
    using small by (cases parts) (simp_all add: result_bytes_def read_mem_def unat_of_nat)
  from resolve_steps [OF l(1), of "UserFinish n" ?g, OF b] obtain w' where
    w': "resolve_parts t parts n w = Inr w'" "linked t i r (FinishCall p t) [UserFinish n] (?g q) w'"
    "pw_heap w' = (pw_heap w)(t \<mapsto> ORet i [UserFinish n])" "pw_fresh w' = pw_fresh w"
    "pw_log w' = pw_log w @ [NextStep r (rq_rejected q) (concat parts)]" by (auto simp: resolve_parts_def)
  have run: "foldR (run_action i) [UserFinish n] w' = Inr (w'\<lparr>pw_log := pw_log w' @ [UserCall n]\<rparr>)" by simp
  have "ready_to_finish r w0 w'"
    by (rule ready_to_finishI [OF call w'(2) _ _ run]) (use l(2) w'(3,4) in simp_all)
  with w'(1,5) show ?thesis by (auto simp: resolved_def)
qed

lemma resolve_copy_done:
  assumes call: "in_call r w0 i p t so w" and q: "pw_reqs w r = Some q" and small: "length buf < 2 ^ 32"
  shows "\<exists>w'. resolve_copy t buf w = Inr w' \<and> resolved r w0 w (rq_rejected q) buf w'"
proof -
  let ?b = "pw_fresh w" and ?w0 = "snd (new_obj (OBlock buf) w)"
  have tb: "t \<noteq> ?b" "i \<noteq> ?b" "pw_heap w ?b = None" using in_call_fresh [OF call] by auto
  from in_call_linked [OF call q] tb have l: "linked t i r (FinishCall p t) [] q ?w0"
    and cd: "rq_callable_data q = Some i" by (auto simp: linked_def)
  let ?g = "\<lambda>q. q\<lparr>rq_base := Alloc ?b, rq_length := of_nat (length buf), rq_next_part := []\<rparr>"
  have b: "result_bytes (?g q) w' = Inr buf" if "pw_heap w' = (pw_heap ?w0)(t \<mapsto> ORet i [DeleteRaw ?b])" for w'
    using small tb that by (simp add: result_bytes_def read_mem_def unat_of_nat)
  from resolve_steps [OF l, of "DeleteRaw ?b" ?g, OF b] obtain w' where
    w': "resolve_copy t buf w = Inr w'" "linked t i r (FinishCall p t) [DeleteRaw ?b] (?g q) w'"
    "pw_heap w' = (pw_heap w)(?b \<mapsto> OBlock buf, t \<mapsto> ORet i [DeleteRaw ?b])" "pw_fresh w' = Suc (pw_fresh w)"
    "pw_log w' = pw_log w @ [NextStep r (rq_rejected q) buf]" by (auto simp: resolve_copy_def case_prod_unfold Let_def)
  have run: "foldR (run_action i) [DeleteRaw ?b] w' = Inr (w'\<lparr>pw_heap := (pw_heap w')(?b := None)\<rparr>)"
    using tb w'(3) by (simp add: del_obj_def)
  have "(pw_heap w')(?b := None) = (pw_heap w)(t \<mapsto> ORet i [DeleteRaw ?b])"
    using tb unfolding w'(3) by (simp add: fun_upd_twist fun_upd_idem)
  then have "ready_to_finish r w0 w'"
    by (intro ready_to_finishI [OF call w'(2) _ _ run]) (use cd w'(4) in simp_all)
  with w'(1,5) show ?thesis by (auto simp: resolved_def)
qed

lemma resolve_empty_done:
  assumes call: "in_call r w0 i p t so w" and q: "pw_reqs w r = Some q"
  shows "\<exists>w'. resolve_empty t w = Inr w' \<and> resolved r w0 w (rq_rejected q) (concat (rq_next_part q)) w'"
proof -
  from in_call_linked [OF call q] have l: "linked t i r (FinishCall p t) [] q w" "rq_callable_data q = Some i" by auto
  let ?g = "\<lambda>q. q\<lparr>rq_base := NullBase, rq_length := 0\<rparr>"
  note s1 = with_on_req [OF l(1), of ?g]
  have "result_bytes (?g q) (set_req r (?g q) w) = Inr (concat (rq_next_part q))" by (simp add: result_bytes_def)
  note s2 = next_linked [OF conjunct2 [OF s1] this]
  let ?v = "(set_req r (?g q) w)\<lparr>pw_log := pw_log w @ [NextStep r (rq_rejected q) (concat (rq_next_part q))]\<rparr>"
  have v: "linked t i r (FinishCall p t) [] (?g q) ?v" using s1 by (simp add: linked_def)
  have "(pw_heap w)(t \<mapsto> ORet i []) = pw_heap w" using l(1) by (auto simp: linked_def)
  then have "ready_to_finish r w0 ?v"
    by (intro ready_to_finishI [OF call v, of ?v]) (use l(2) in simp_all)
  moreover have "resolve_empty t w = Inr ?v" using s1 s2 by (simp add: resolve_empty_def)
  ultimately show ?thesis by (simp add: resolved_def)
qed


lemma prepared_put:
  assumes "ser_emits put v" and "length v < 2 ^ 30"
  shows "\<exists>s0 s. prepareSerializing jk 8 = Inr s0 \<and> put s0 = Inr s \<and> ser_ok s \<and> ser_out s = v"
proof -
  obtain s0 where s0: "prepareSerializing jk 8 = Inr s0"
    by (simp add: prepareSerializing_def ser_prepare_ser_def realloc_mem_def)
  then have ok: "ser_ok s0" "ser_out s0 = []" by (auto simp: prepareSerializing_def dest!: ser_prepare_ser_ok)
  then have "ser_fits s0 (length v)" using assms(2) by (simp add: ser_fits_def)
  from ser_emitsD [OF assms(1) ok(1) this] ok(2) s0 show ?thesis by auto
qed

lemma resolve_put_done:
  assumes call: "in_call r w0 i p t so w" and q: "pw_reqs w r = Some q" and emits: "ser_emits put v" "length v < 2 ^ 30"
  shows "\<exists>w'. resolve_put put t w = Inr w' \<and> resolved r w0 w (rq_rejected q) (v @ concat (rq_next_part q)) w'"
proof -
  from prepared_put [OF emits, of "pw_junk w"] obtain s0 ser where
    ser: "prepareSerializing (pw_junk w) 8 = Inr s0" "put s0 = Inr ser" "ser_ok ser" "ser_out ser = v" by blast
  let ?s = "pw_fresh w" and ?b = "Suc (pw_fresh w)"
  let ?w1 = "snd (new_obj (OSer ser) w)"
  let ?w2 = "snd (new_obj (OBlock (ser_buf ser)) ?w1)"
  have tb: "t \<noteq> ?s" "i \<noteq> ?s" "t \<noteq> ?b" "i \<noteq> ?b" "pw_heap w ?s = None" "pw_heap w ?b = None"
    using in_call_fresh [OF call] by auto
  from in_call_linked [OF call q] tb have l: "linked t i r (FinishCall p t) [] q ?w2"
    and cd: "rq_callable_data q = Some i" by (auto simp: linked_def)
  let ?g = "\<lambda>q. q\<lparr>rq_base := Alloc ?b, rq_length := ser_pos ser\<rparr>"
  have out: "read_mem (ser_buf ser) 0 (unat (ser_pos ser)) = Inr v"
    using ser(3,4) by (auto simp: read_mem_def ser_ok_def ser_out_def)
  have b: "result_bytes (?g q) w' = Inr (v @ concat (rq_next_part q))"
    if "pw_heap w' = (pw_heap ?w2)(t \<mapsto> ORet i [FreeBuiltAndDelete ?s])" for w'
    using out tb that by (simp add: result_bytes_def)
  from resolve_steps [OF l, of "FreeBuiltAndDelete ?s" ?g, OF b] obtain w' where
    w': "bindR (with_wrap t (on_req ?g) ?w2) (\<lambda>w. bindR (push_action t (FreeBuiltAndDelete ?s) w) (with_wrap t nextStep)) = Inr w'"
    "linked t i r (FinishCall p t) [FreeBuiltAndDelete ?s] (?g q) w'"
    "pw_heap w' = (pw_heap w)(?s \<mapsto> OSer ser, ?b \<mapsto> OBlock (ser_buf ser), t \<mapsto> ORet i [FreeBuiltAndDelete ?s])"
    "pw_fresh w' = Suc (Suc (pw_fresh w))"
    "pw_log w' = pw_log w @ [NextStep r (rq_rejected q) (v @ concat (rq_next_part q))]" by auto
  have "resolve_put put t w = Inr w'"
    using ser w'(1) by (simp add: resolve_put_def resolve_ser_def case_prod_unfold Let_def ser_at_def buildPxpBytes_def
        build_def ser_build_def)
  moreover have "foldR (run_action i) [FreeBuiltAndDelete ?s] w' = Inr (w'\<lparr>pw_heap := (pw_heap w')(?b := None, ?s := None)\<rparr>)"
    using tb w'(3) linked_at [OF w'(2)] by (simp add: del_base_def del_obj_def)
  moreover have "(pw_heap w')(?b := None, ?s := None) = (pw_heap w)(t \<mapsto> ORet i [FreeBuiltAndDelete ?s])"
    using tb unfolding w'(3) by (simp add: fun_eq_iff)
  ultimately show ?thesis
    using ready_to_finishI [OF call w'(2), of "w'\<lparr>pw_heap := (pw_heap w')(?b := None, ?s := None)\<rparr>"] cd w'(4,5)
    by (simp add: resolved_def)
qed

section \<open>Replies\<close>

text \<open>What the client gets: \<open>k\<close> is the index of the reference a returned object is given.\<close>

fun reply :: "nat \<Rightarrow> resolution \<Rightarrow> bytes" where
  "reply k (RParts parts n) = concat parts"
| "reply k (RCopy b) = b"
| "reply k REmpty = []"
| "reply k (RInt v) = le32 v"
| "reply k (RLong v) = le64 v"
| "reply k (RFloat v) = le32 v"
| "reply k (RDouble v) = le64 v"
| "reply k (RString v) = enc_bytes v"
| "reply k (RObject obj) = le32 (if obj = None then -1 else of_nat k)"
| "reply k (RFunction f) = le32 (if f = None then -1 else of_nat k)"

fun resolution_ok :: "resolution \<Rightarrow> bool" where
  "resolution_ok (RParts parts n) \<longleftrightarrow> (\<forall>b \<in> set parts. length b < 2 ^ 32)"
| "resolution_ok (RCopy b) \<longleftrightarrow> length b < 2 ^ 32"
| "resolution_ok (RString v) \<longleftrightarrow> small_block v \<and> length v + 5 < 2 ^ 30"
| "resolution_ok _ \<longleftrightarrow> True"

lemma put_int_emits: "ser_emits (putInt v) (le32 v)"
  using ser_put_int_emits [of "[v]"] by (simp add: putInt_def [abs_def])

lemma put_long_emits: "ser_emits (putLong v) (le64 v)"
  using ser_put_long_emits [of "[v]"] by (simp add: putLong_def [abs_def])

lemma put_float_emits: "ser_emits (putFloat v) (le32 v)"
  using put_int_emits [of v] by (simp add: putFloat_def [abs_def] putInt_def [abs_def] ser_put_float_def ser_put_int_def)

lemma put_double_emits: "ser_emits (putDouble v) (le64 v)"
  using put_long_emits [of v] by (simp add: putDouble_def [abs_def] putLong_def [abs_def] ser_put_double_def ser_put_long_def)

lemma alloc_hooked_ok:
  assumes "pool_ok (pw_pool w)" and "pool_room (pw_pool w)"
  shows "\<exists>k pl. server_alloc_ref (pw_pool w) = Inr (k, pl) \<and> k < length (slots pl) \<and>
    alloc_hooked h x w = Inr (of_nat k, w\<lparr>pw_pool := set_slot k x (Some h) pl\<rparr>)"
proof -
  from server_alloc_ref_ok [OF assms] obtain k pl where "server_alloc_ref (pw_pool w) = Inr (k, pl)" "k < length (slots pl)"
    by blast
  then show ?thesis by (auto simp: alloc_hooked_def)
qed

lemma in_call_pool: "in_call r w0 i p t so (w\<lparr>pw_pool := pl\<rparr>) = in_call r w0 i p t so w"
  by (simp add: in_call_def call_ids_def)

lemma resolved_pool: "resolved r w0 (w\<lparr>pw_pool := pl\<rparr>) rej b w' = resolved r w0 w rej b w'"
  by (simp add: resolved_def)


lemma resolve_done:
  assumes call: "in_call r w0 i p t so w" and q: "pw_reqs w r = Some q" "rq_next_part q = []" and ok: "resolution_ok x"
    and pool: "pool_ok (pw_pool w)" "pool_room (pw_pool w)"
  shows "\<exists>k w'. resolve t x w = Inr w' \<and> resolved r w0 w (rq_rejected q) (reply k x) w'"
proof -
  have put: "\<exists>w'. resolve_put put t w = Inr w' \<and> resolved r w0 w (rq_rejected q) v w'"
    if "ser_emits put v" "length v < 2 ^ 30" for put v
    using resolve_put_done [OF call q(1) that] q(2) by simp
  have hooked: "\<exists>k w'. bindR (ret_at t w) (\<lambda>_. bindR (alloc_hooked h y w) (\<lambda>(refid, w). resolve_int t refid w)) = Inr w'
      \<and> resolved r w0 w (rq_rejected q) (le32 (of_nat k)) w'" for h y
  proof -
    from alloc_hooked_ok [OF pool, of h y] obtain k pl where
      k: "alloc_hooked h y w = Inr (of_nat k, w\<lparr>pw_pool := pl\<rparr>)" by blast
    have "in_call r w0 i p t so (w\<lparr>pw_pool := pl\<rparr>)" using call by (simp add: in_call_pool)
    from resolve_put_done [OF this, of q "putInt (of_nat k)" "le32 (of_nat k)"] q put_int_emits
    have "\<exists>w'. resolve_int t (of_nat k) (w\<lparr>pw_pool := pl\<rparr>) = Inr w' \<and> resolved r w0 w (rq_rejected q) (le32 (of_nat k)) w'"
      by (simp add: resolve_int_def resolved_pool)
    with k in_call_at(3) [OF call] show ?thesis by auto
  qed
  show ?thesis
  proof (cases x)
    case (RParts parts n)
    with resolve_parts_done [OF call q(1), of parts n] ok show ?thesis by simp
  next
    case (RCopy b)
    with resolve_copy_done [OF call q(1), of b] ok show ?thesis by simp
  next
    case REmpty
    with resolve_empty_done [OF call q(1)] q(2) show ?thesis by simp
  next
    case (RInt v)
    with put [OF put_int_emits] show ?thesis by (simp add: resolve_int_def)
  next
    case (RLong v)
    with put [OF put_long_emits] show ?thesis by (simp add: resolve_long_def)
  next
    case (RFloat v)
    with put [OF put_float_emits] show ?thesis by (simp add: resolve_float_def)
  next
    case (RDouble v)
    with put [OF put_double_emits] show ?thesis by (simp add: resolve_double_def)
  next
    case (RString v)
    have "length (enc_bytes v) < 2 ^ 30"
      using ok RString length_enc_varint [of "of_nat (length v)"] by (simp add: enc_bytes_def)
    with put [OF putString_emits this] ok RString show ?thesis by (simp add: resolve_string_def)
  next
    case (RObject obj)
    with put [OF put_int_emits, of "-1"] hooked [of WrapObjectOnFree] show ?thesis
      by (cases obj) (simp_all add: resolve_object_def allocRef_def resolve_int_def)
  next
    case (RFunction f)
    with put [OF put_int_emits, of "-1"] hooked [of WrapCallableOnFree] show ?thesis
      by (cases f) (simp_all add: resolve_function_def allocRef_function_def resolve_int_def)
  qed
qed

section \<open>Rejecting\<close>

lemma set_on_finish_linked:
  assumes "linked t i r f acts q w"
  shows "with_wrap t (\<lambda>x. set_on_finish x g) w = Inr (put_obj i (OWrap r g) w) \<and>
     linked t i r g acts q (put_obj i (OWrap r g) w)"
  using assms linked_at [OF assms] by (simp add: with_wrap_def set_on_finish_def linked_def)

text \<open>What a rejected call leaves behind: parameter, return and the serializer of the parameter.\<close>

lemma reject_done:
  assumes call: "in_call r w0 i p t so w" and q: "pw_reqs w r = Some q" and small: "length msg < 2 ^ 32"
  shows "\<exists>w' w''. reject t msg w = Inr w' \<and> pw_log w' = pw_log w @ [NextStep r True msg] \<and>
     wrap_requestOnFinish r w' = Inr w'' \<and>
     pw_heap w'' = (with_ser so (pw_heap w0))(p \<mapsto> OPara i (map_option fst so), t \<mapsto> ORet i [])"
proof -
  let ?b = "pw_fresh w" and ?w0 = "snd (new_obj (OBlock msg) w)"
  have tb: "t \<noteq> ?b" "i \<noteq> ?b" "pw_heap w ?b = None" using in_call_fresh [OF call] by auto
  from in_call_linked [OF call q] tb have l: "linked t i r (FinishCall p t) [] q ?w0"
    and cd: "rq_callable_data q = Some i" by (auto simp: linked_def)
  let ?g = "\<lambda>q. q\<lparr>rq_base := Alloc ?b, rq_length := of_nat (length msg), rq_next_part := []\<rparr>"
  note s1 = with_on_req [OF l, of ?g]
  note s2 = set_on_finish_linked [OF conjunct2 [OF s1], of "FinishRaw ?b"]
  note s3 = with_on_req [OF conjunct2 [OF s2], of "\<lambda>q. q\<lparr>rq_rejected := True\<rparr>"]
  let ?q = "(?g q)\<lparr>rq_rejected := True\<rparr>"
  let ?w = "set_req r ?q (put_obj i (OWrap r (FinishRaw ?b)) (set_req r (?g q) ?w0))"
  have b: "result_bytes ?q ?w = Inr msg"
    using small tb by (simp add: result_bytes_def read_mem_def unat_of_nat)
  note s4 = next_linked [OF conjunct2 [OF s3] b]
  let ?v = "?w\<lparr>pw_log := pw_log ?w @ [NextStep r (rq_rejected ?q) msg]\<rparr>"
  have rej: "reject t msg w = Inr ?v"
    using s1 s2 s3 s4 by (simp add: reject_def case_prod_unfold Let_def setRejected_def)
  have heap: "pw_heap ?v = (pw_heap w)(?b \<mapsto> OBlock msg, i \<mapsto> OWrap r (FinishRaw ?b))" by simp
  have v: "req_at r ?v = Inr ?q" "wrap_at i ?v = Inr (r, FinishRaw ?b)" by (simp_all add: req_at_def wrap_at_def)
  have fin: "wrap_requestOnFinish r ?v = Inr (?v\<lparr>pw_heap := (pw_heap ?v)(?b := None, i := None)\<rparr>)"
    using v cd tb heap by (simp add: wrap_requestOnFinish_def onWrapFree_def del_obj_def)
  have "(pw_heap ?v)(?b := None, i := None) = (with_ser so (pw_heap w0))(p \<mapsto> OPara i (map_option fst so), t \<mapsto> ORet i [])"
  proof -
    have h: "pw_heap w = call_heap r w0 i p t so []" and ids: "call_ids w0 i p t so w" using call by (simp_all add: in_call_def)
    then have "(pw_heap w)(i := None) = (with_ser so (pw_heap w0))(p \<mapsto> OPara i (map_option fst so), t \<mapsto> ORet i [])"
      by (auto simp: call_heap_def with_ser_def call_ids_def fun_eq_iff split: option.splits)
    moreover have "(pw_heap ?v)(?b := None, i := None) = (pw_heap w)(i := None)"
      unfolding heap using tb by (simp add: fun_eq_iff)
    ultimately show ?thesis by simp
  qed
  with fin rej show ?thesis by (intro exI [of _ ?v] exI [of _ "?v\<lparr>pw_heap := (pw_heap ?v)(?b := None, i := None)\<rparr>"]) simp
qed

section \<open>References to objects\<close>

lemma set_slot_at:
  "k < length (slots pl) \<Longrightarrow> slots (set_slot k x h pl) ! k = (slots pl ! k)\<lparr>ref_object := Some x, ref_on_free := h\<rparr>
     \<and> length (slots (set_slot k x h pl)) = length (slots pl)"
  by (simp add: set_slot_def)

lemma alloc_dereference:
  assumes pool: "pool_ok (pw_pool w)" "pool_room (pw_pool w)"
  shows "\<exists>n w'. alloc_hooked h x w = Inr (n, w') \<and>
    dereference user_data n w' = (case h of WrapObjectOnFree \<Rightarrow> Inr (Some x)
      | WrapCallableOnFree \<Rightarrow> Inr (Some (user_data x)) | OtherHook _ \<Rightarrow> Inr None) \<and>
    (\<exists>w''. freeRef n w' = Inr w'' \<and> hook_log (pw_pool w'') = hook_log (pw_pool w') @ [(h, Some x)])"
proof -
  from server_alloc_ref_ok [OF pool] obtain k pl where
    k: "server_alloc_ref (pw_pool w) = Inr (k, pl)" "k < length (slots pl)" "pool_ok pl" by blast
  have "length (slots pl) < 2 ^ 16" using k(3) unsigned_less [of "ref_pool_size pl"] by (simp add: pool_ok_def)
  then have n: "unat (of_nat k :: u32) = k" using k(2) by (simp add: unat_of_nat)
  let ?w = "w\<lparr>pw_pool := set_slot k x (Some h) pl\<rparr>"
  have a: "alloc_hooked h x w = Inr (of_nat k, ?w)" using k(1) by (simp add: alloc_hooked_def)
  moreover have "dereference user_data (of_nat k) ?w = (case h of WrapObjectOnFree \<Rightarrow> Inr (Some x)
      | WrapCallableOnFree \<Rightarrow> Inr (Some (user_data x)) | OtherHook _ \<Rightarrow> Inr None)"
    using n k(2) set_slot_at [OF k(2)] by (simp add: dereference_def server_get_ref_def Let_def split: free_hook.split)
  moreover have "\<exists>w''. freeRef (of_nat k) ?w = Inr w'' \<and> hook_log (pw_pool w'') = hook_log (pw_pool ?w) @ [(h, Some x)]"
    using n k(2) set_slot_at [OF k(2)]
    by (simp add: freeRef_def server_get_ref_def server_free_ref_def drop_object_def Let_def)
  ultimately show ?thesis by blast
qed

section \<open>Reading parameters\<close>

datatype param_read = PInt | PLong | PFloat | PDouble | PBool | PString | PBytes

fun read_param :: "oid \<Rightarrow> param_read \<Rightarrow> pworld \<Rightarrow> pworld res" where
  "read_param p PInt w = map_sum id snd (nextInt p w)"
| "read_param p PLong w = map_sum id snd (nextLong p w)"
| "read_param p PFloat w = map_sum id snd (nextFloat p w)"
| "read_param p PDouble w = map_sum id snd (nextDouble p w)"
| "read_param p PBool w = map_sum id snd (nextBool p w)"
| "read_param p PString w = map_sum id snd (nextString p w)"
| "read_param p PBytes w = map_sum id snd (nextBytes p w)"

lemma map_snd_Inr: "map_sum id snd m = Inr w \<longleftrightarrow> (\<exists>v. m = Inr (v, w))"
  by (cases m) auto

definition same_request :: "pworld \<Rightarrow> pworld \<Rightarrow> bool" where
  "same_request w w' \<longleftrightarrow> pw_reqs w' = pw_reqs w \<and> pw_log w' = pw_log w \<and> pw_pool w' = pw_pool w"

lemma read_param_in_call:
  assumes "in_call r w0 i p t so w" and "read_param p x w = Inr w'"
  shows "(\<exists>so. in_call r w0 i p t so w') \<and> same_request w w'"
  using assms(2)
  by (cases x) (auto simp: map_snd_Inr nextInt_def nextLong_def nextFloat_def nextDouble_def nextBool_def nextString_def
      nextBytes_def same_request_def dest!: next_value_in_call [OF assms(1)])

lemma read_params_in_call:
  assumes "foldR (read_param p) xs w = Inr w'" and "in_call r w0 i p t so w"
  shows "(\<exists>so. in_call r w0 i p t so w') \<and> same_request w w'"
proof (rule foldR_inv [OF assms(1), where P = "\<lambda>v. (\<exists>so. in_call r w0 i p t so v) \<and> same_request w v"])
  show "(\<exists>so. in_call r w0 i p t so w) \<and> same_request w w" using assms(2) by (auto simp: same_request_def)
next
  fix x s s' assume s: "(\<exists>so. in_call r w0 i p t so s) \<and> same_request w s" and run: "read_param p x s = Inr s'"
  then obtain so where call: "in_call r w0 i p t so s" by blast
  from read_param_in_call [OF call run] have "(\<exists>so. in_call r w0 i p t so s') \<and> same_request s s'" .
  with s show "(\<exists>so. in_call r w0 i p t so s') \<and> same_request w s'" by (simp add: same_request_def)
qed

section \<open>Properties\<close>


definition ex_req :: preq where
  "ex_req = \<lparr>rq_parameter = ([7, 0, 0, 0], 4), rq_base = NullBase, rq_length = 0, rq_next_part = [], rq_rejected = False,
     rq_callable_data = None, rq_wrapped = False\<rparr>"

definition ex_world :: pworld where
  "ex_world = \<lparr>pw_reqs = [0 \<mapsto> ex_req], pw_heap = (\<lambda>_. None), pw_fresh = 0, pw_pool = pool_new,
     pw_pending = [5 \<mapsto> None], pw_junk = 0, pw_log = []\<rparr>"



text \<open>
  \<open>reject\<close> replies the message, marked as an error, but it replaces the closure that cleans up: when the
  library has finished the request, the parameter object, the return object and the parameter's
  serializer are still allocated, and none of the actions registered for the end of the request ran.
\<close>

theorem reject_leaks:
  assumes q: "pw_reqs w r = Some q" "rq_callable_data q = None"
    and fresh: "\<forall>j \<ge> pw_fresh w. pw_heap w j = None"
    and call: "wrap_call r w = Inr ((p, t), w1)" and reads: "foldR (read_param p) xs w1 = Inr w2"
    and small: "length msg < 2 ^ 32"
  shows "\<exists>i so w3 w4. reject t msg w2 = Inr w3 \<and> pw_log w3 = pw_log w @ [NextStep r True msg] \<and>
           wrap_requestOnFinish r w3 = Inr w4 \<and> pw_heap w p = None \<and> pw_heap w t = None \<and>
           pw_heap w4 = (with_ser so (pw_heap w))(p \<mapsto> OPara i (map_option fst so), t \<mapsto> ORet i [])"
proof -
  from wrap_call_begins [OF q fresh] call obtain i where in1: "in_call r w i p t None w1"
    and w1: "pw_reqs w1 r = Some (q\<lparr>rq_callable_data := Some (pw_fresh w), rq_wrapped := True\<rparr>)"
      "pw_log w1 = pw_log w" by auto
  from read_params_in_call [OF reads in1] obtain so where in2: "in_call r w i p t so w2"
    and same: "same_request w1 w2" by blast
  have new: "pw_heap w p = None" "pw_heap w t = None" using in2 by (auto simp: in_call_def call_ids_def)
  from reject_done [OF in2 _ small] same w1 new show ?thesis by (fastforce simp: same_request_def)
qed

theorem reject_leaks_witness:
  "\<exists>p t w1 w2 w3 w4. wrap_call 0 ex_world = Inr ((p, t), w1) \<and> foldR (read_param p) [PInt] w1 = Inr w2 \<and>
     reject t [33] w2 = Inr w3 \<and> wrap_requestOnFinish 0 w3 = Inr w4 \<and> pw_heap ex_world t = None \<and> pw_heap w4 t \<noteq> None"
proof -
  have "case wrap_call 0 ex_world of Inl _ \<Rightarrow> False
     | Inr ((p, t), w1) \<Rightarrow> (case foldR (read_param p) [PInt] w1 of Inl _ \<Rightarrow> False | Inr _ \<Rightarrow> True)" by code_simp
  then obtain p t w1 w2 where w: "wrap_call 0 ex_world = Inr ((p, t), w1)" "foldR (read_param p) [PInt] w1 = Inr w2"
    by (auto split: sum.splits)
  from reject_leaks [OF _ _ _ w, of ex_req "[33]"] w show ?thesis
    by (auto simp: ex_world_def ex_req_def)
qed

text \<open>
  An \<open>EventDispatcher\<close> clears \<open>pendingReturn\<close> only when the request has finished, not when it is resolved.
  Two events in between resolve the same return twice: the request's next step is run twice, and
  finishing it frees the second reply buffer twice.
\<close>

theorem dispatcher_resolved_twice:
  "case wrap_call 0 ex_world of Inl _ \<Rightarrow> False
   | Inr ((p, t), w) \<Rightarrow>
      (case bindR (dispatcher_handler 5 p t w) (\<lambda>w. bindR (resolve_string t [65] w) (resolve_string t [66])) of
         Inl _ \<Rightarrow> False
       | Inr w \<Rightarrow>
          pw_pending w 5 = Some (Some t) \<and>
          pw_log w = [NextStep 0 False [1, 65], NextStep 0 False [1, 66]] \<and>
          (case wrap_requestOnFinish 0 w of Inl e \<Rightarrow> e = BadFree | Inr _ \<Rightarrow> False))"
  by code_simp

end
