(* ===== verification/UvSock.thy ===== *)
theory UvSock
  imports Prelude
begin

text \<open>
  One connection of \<open>c/pxprpc_libuv/pxprpc_libuv.c\<close>: the reader that cuts the byte stream into packets,
  and the writer that frames packets.  libuv is the environment: it asks for a buffer
  (\<open>sockUvAllocCb\<close>), fills a non-empty part of it from the stream and reports the number of bytes
  (\<open>uv_deliver\<close>), reports an error (\<open>uv_fail\<close>), or the completion of the oldest write.  Its function
  \<open>uv_strerror\<close> is a parameter.  A user callback is a number, and its calls are recorded with what the
  user sees at that moment; every callback is called in tail position, so what the user does in it comes
  after.  Allocations succeed, with indeterminate contents \<open>sc_junk\<close>.
\<close>

section \<open>State\<close>

type_synonym connid = nat
type_synonym callback = nat

text \<open>Where \<open>nextBuf.base\<close> points: into the length field or the block of the receiver's buffer.\<close>

datatype uv_base = NoBase | AtLength nat | AtBlock nat

record write_req =
  wr_onCompleted :: callback
  wr_packetSize :: u32

datatype sock_event =
    RecvDone callback bytes "bytes option" "string option"
  | SendDone callback "string option"

record sockconn =
  sc_attached :: bool              \<comment> \<open>\<open>serv\<close> is not null\<close>
  sc_prev :: "connid option"
  sc_next :: "connid option"
  sc_send_error :: "string option"
  sc_receive_error :: "string option"
  sc_readCb :: "callback option"
  sc_recvBuf :: bool               \<comment> \<open>\<open>recvBuf\<close> is not null\<close>
  sc_length :: bytes               \<comment> \<open>memory of \<open>recvBuf->length\<close>\<close>
  sc_base :: "bytes option"        \<comment> \<open>\<open>recvBuf->base\<close>\<close>
  sc_nextBuf :: "uv_base \<times> nat"
  sc_status :: u32
  sc_data :: bool                  \<comment> \<open>the handle's user data is set\<close>
  sc_reading :: bool               \<comment> \<open>between \<open>uv_read_start\<close> and \<open>uv_read_stop\<close>\<close>
  sc_writes :: "write_req list"    \<comment> \<open>accepted by \<open>uv_write\<close>, not completed\<close>
  sc_wire :: bytes                 \<comment> \<open>the stream \<open>uv_write\<close> was given\<close>
  sc_junk :: u8
  sc_log :: "sock_event list"

definition sockconn_zero :: "u8 \<Rightarrow> sockconn" where
  "sockconn_zero jk =
     \<lparr>sc_attached = False, sc_prev = None, sc_next = None, sc_send_error = None, sc_receive_error = None,
      sc_readCb = None, sc_recvBuf = False, sc_length = [], sc_base = None, sc_nextBuf = (NoBase, 0),
      sc_status = 0, sc_data = False, sc_reading = False, sc_writes = [], sc_wire = [], sc_junk = jk,
      sc_log = []\<rparr>"

section \<open>Reading\<close>

definition sockUvAllocCb :: "sockconn \<Rightarrow> uv_base \<times> nat" where
  "sockUvAllocCb s = sc_nextBuf s"

text \<open>The last statements of both branches: the callback, taken out of the connection and called.\<close>

definition fire_readCb :: "sockconn \<Rightarrow> sockconn" where
  "fire_readCb s =
     (case sc_readCb s of
        None \<Rightarrow> s
      | Some cb \<Rightarrow> s\<lparr>sc_readCb := None,
                      sc_log := sc_log s @ [RecvDone cb (sc_length s) (sc_base s) (sc_receive_error s)]\<rparr>)"

fun advance :: "uv_base \<Rightarrow> nat \<Rightarrow> uv_base" where
  "advance NoBase n = NoBase"
| "advance (AtLength off) n = AtLength (off + n)"
| "advance (AtBlock off) n = AtBlock (off + n)"

definition read_header :: "sockconn \<Rightarrow> sockconn" where
  "read_header s =
     (let n = unat (un_le (sc_length s) :: u32)
      in s\<lparr>sc_base := Some (replicate n (sc_junk s)), sc_nextBuf := (AtBlock 0, n)\<rparr>)"

definition read_body :: "nat \<Rightarrow> sockconn \<Rightarrow> sockconn" where
  "read_body n s =
     (let s = s\<lparr>sc_nextBuf := (advance (fst (sc_nextBuf s)) n, snd (sc_nextBuf s) - n)\<rparr>
      in if snd (sc_nextBuf s) = 0 then fire_readCb (s\<lparr>sc_reading := False, sc_recvBuf := False\<rparr>) else s)"

definition read_error :: "(int \<Rightarrow> string) \<Rightarrow> int \<Rightarrow> sockconn \<Rightarrow> sockconn" where
  "read_error uv_strerror nread s =
     fire_readCb (s\<lparr>sc_receive_error := Some (uv_strerror nread), sc_reading := False, sc_base := None,
                    sc_nextBuf := (NoBase, snd (sc_nextBuf s)), sc_recvBuf := False\<rparr>)"

definition sockUvReadCb :: "(int \<Rightarrow> string) \<Rightarrow> int \<Rightarrow> sockconn \<Rightarrow> sockconn res" where
  "sockUvReadCb uv_strerror nread s =
     (if 0 < nread then
        if \<not> sc_recvBuf s then Inl NullDeref
        else if sc_base s = None then Inr (read_header s)
        else Inr (read_body (nat nread) s)
      else if nread < 0 then
        if \<not> sc_recvBuf s then Inl NullDeref else Inr (read_error uv_strerror nread s)
      else Inr s)"

definition sockAbsIo1Receive :: "callback \<Rightarrow> sockconn \<Rightarrow> sockconn" where
  "sockAbsIo1Receive cb s =
     (if sc_recvBuf s
      then s\<lparr>sc_receive_error := Some ''overlap read is not allowed'',
             sc_log := sc_log s @ [RecvDone cb [] None (Some ''overlap read is not allowed'')]\<rparr>
      else s\<lparr>sc_recvBuf := True, sc_base := None, sc_length := replicate 4 0, sc_nextBuf := (AtLength 0, 4),
             sc_readCb := Some cb, sc_receive_error := None, sc_reading := True\<rparr>)"

section \<open>libuv on the reading side\<close>

text \<open>Bytes of the stream are copied to the buffer the allocation callback gave.\<close>

definition uv_fill :: "bytes \<Rightarrow> sockconn \<Rightarrow> sockconn res" where
  "uv_fill v s =
     (case fst (sockUvAllocCb s) of
        NoBase \<Rightarrow> Inl NullDeref
      | AtLength off \<Rightarrow> bindR (write_mem (sc_length s) off v) (\<lambda>m. Inr (s\<lparr>sc_length := m\<rparr>))
      | AtBlock off \<Rightarrow>
          (case sc_base s of None \<Rightarrow> Inl UseAfterFree
           | Some b \<Rightarrow> bindR (write_mem b off v) (\<lambda>m. Inr (s\<lparr>sc_base := Some m\<rparr>))))"

definition uv_deliver :: "(int \<Rightarrow> string) \<Rightarrow> bytes \<Rightarrow> sockconn \<Rightarrow> sockconn res" where
  "uv_deliver uv_strerror v s = bindR (uv_fill v s) (sockUvReadCb uv_strerror (int (length v)))"

text \<open>
  What libuv may do while reading: deliver at least one byte and no more than the buffer takes, or
  report an error; a buffer without room can only lead to an error (\<open>UV_ENOBUFS\<close>).
\<close>

definition uv_may_deliver :: "bytes \<Rightarrow> sockconn \<Rightarrow> bool" where
  "uv_may_deliver v s \<longleftrightarrow> sc_reading s \<and> v \<noteq> [] \<and> length v \<le> snd (sockUvAllocCb s)"

definition uv_fail :: "(int \<Rightarrow> string) \<Rightarrow> int \<Rightarrow> sockconn \<Rightarrow> sockconn res" where
  "uv_fail uv_strerror e s = sockUvReadCb uv_strerror e s"

section \<open>Writing\<close>

text \<open>\<open>packetSize\<close> is an \<open>int\<close> the unsigned lengths are added to: the sum wraps at 32 bits.\<close>

fun packet_size :: "bytes list \<Rightarrow> u32" where
  "packet_size [] = 0"
| "packet_size (p # ps) = of_nat (length p) + packet_size ps"

text \<open>\<open>r\<close> is what \<open>uv_write\<close> returns; the code does not look at it.\<close>

definition sockAbsIo1Send :: "bytes list \<Rightarrow> callback \<Rightarrow> int \<Rightarrow> sockconn \<Rightarrow> sockconn" where
  "sockAbsIo1Send parts cb r s =
     (let req = \<lparr>wr_onCompleted = cb, wr_packetSize = packet_size parts\<rparr>;
          s = s\<lparr>sc_send_error := None\<rparr>
      in if r < 0 then s
         else s\<lparr>sc_writes := sc_writes s @ [req],
                sc_wire := sc_wire s @ concat (le32 (wr_packetSize req) # parts)\<rparr>)"

definition sockUvWriteCb :: "(int \<Rightarrow> string) \<Rightarrow> int \<Rightarrow> sockconn \<Rightarrow> sockconn res" where
  "sockUvWriteCb uv_strerror status s =
     (case sc_writes s of
        [] \<Rightarrow> Inl UseAfterFree
      | req # reqs \<Rightarrow>
          (let s = (if status < 0 then s\<lparr>sc_send_error := Some (uv_strerror status)\<rparr> else s)
           in Inr (s\<lparr>sc_writes := reqs, sc_log := sc_log s @ [SendDone (wr_onCompleted req) (sc_send_error s)]\<rparr>)))"


section \<open>Runs of the reader\<close>

datatype reader_input = Receive callback | Bytes bytes

fun input_bytes :: "reader_input \<Rightarrow> bytes" where
  "input_bytes (Receive cb) = []"
| "input_bytes (Bytes v) = v"

fun reader_step :: "(int \<Rightarrow> string) \<Rightarrow> reader_input \<Rightarrow> sockconn \<Rightarrow> sockconn res" where
  "reader_step err (Receive cb) s = Inr (sockAbsIo1Receive cb s)"
| "reader_step err (Bytes v) s = (if uv_may_deliver v s then uv_deliver err v s else Inl Uninit)"

definition run_reader :: "(int \<Rightarrow> string) \<Rightarrow> reader_input list \<Rightarrow> sockconn \<Rightarrow> sockconn res" where
  "run_reader err is s = foldR (reader_step err) is s"

lemma run_reader_simps [simp]:
  "run_reader err [] s = Inr s"
  "run_reader err (i # is) s = bindR (reader_step err i s) (run_reader err is)"
  by (simp_all add: run_reader_def [abs_def])

lemma run_reader_append: "run_reader err (xs @ ys) s = bindR (run_reader err xs s) (run_reader err ys)"
  by (simp add: run_reader_def [abs_def] foldR_append)

text \<open>A packet is being read: \<open>got\<close> has arrived, \<open>n\<close> bytes are missing.\<close>

definition in_body :: "callback \<Rightarrow> bytes \<Rightarrow> nat \<Rightarrow> sockconn \<Rightarrow> bool" where
  "in_body cb got n s \<longleftrightarrow>
     sc_recvBuf s \<and> sc_reading s \<and> sc_readCb s = Some cb \<and> sc_receive_error s = None \<and>
     sc_nextBuf s = (AtBlock (length got), n) \<and>
     (\<exists>b. sc_base s = Some b \<and> take (length got) b = got \<and> length b = length got + n)"

definition idle :: "sockconn \<Rightarrow> bool" where
  "idle s \<longleftrightarrow> \<not> sc_recvBuf s \<and> \<not> sc_reading s \<and> sc_readCb s = None"

lemma deliver_body:
  assumes b: "in_body cb got n s" and v: "v \<noteq> []" "length v \<le> n"
  shows "\<exists>s'. reader_step err (Bytes v) s = Inr s' \<and> sc_length s' = sc_length s \<and>
     (if length v = n then idle s' \<and> sc_log s' = sc_log s @ [RecvDone cb (sc_length s) (Some (got @ v)) None]
      else in_body cb (got @ v) (n - length v) s' \<and> sc_log s' = sc_log s)"
proof -
  from b obtain blk where blk: "sc_base s = Some blk" "take (length got) blk = got" "length blk = length got + n"
    by (auto simp: in_body_def)
  let ?m = "got @ v @ drop (length got + length v) blk"
  have "write_mem blk (length got) v = Inr ?m" using blk v by (simp add: write_mem_def)
  moreover have "uv_may_deliver v s" using b v by (simp add: in_body_def uv_may_deliver_def sockUvAllocCb_def)
  moreover have "drop (length got + n) blk = []" using blk(3) by simp
  ultimately show ?thesis
    using b v blk
    by (auto simp: uv_deliver_def uv_fill_def sockUvAllocCb_def in_body_def sockUvReadCb_def read_body_def
        fire_readCb_def idle_def Let_def)
qed

lemma deliver_fragments:
  "in_body cb got n s \<Longrightarrow> 0 < n \<Longrightarrow> length (concat frs) = n \<Longrightarrow> [] \<notin> set frs \<Longrightarrow>
     \<exists>s'. run_reader err (map Bytes frs) s = Inr s' \<and> idle s' \<and>
       sc_log s' = sc_log s @ [RecvDone cb (sc_length s) (Some (got @ concat frs)) None]"
proof (induction frs arbitrary: got n s)
  case (Cons v frs)
  then have v: "v \<noteq> []" "length v \<le> n" by auto
  from deliver_body [OF Cons.prems(1) v] obtain t where t: "reader_step err (Bytes v) s = Inr t" "sc_length t = sc_length s"
    "if length v = n then idle t \<and> sc_log t = sc_log s @ [RecvDone cb (sc_length s) (Some (got @ v)) None]
     else in_body cb (got @ v) (n - length v) t \<and> sc_log t = sc_log s" by blast
  show ?case
  proof (cases "length v = n")
    case True
    then have "concat frs = []" using Cons.prems(3) by simp
    moreover from this have "frs = []" using Cons.prems(4) by (cases frs) auto
    ultimately show ?thesis using t True by simp
  next
    case False
    then have "0 < n - length v" "length (concat frs) = n - length v" "[] \<notin> set frs" using v Cons.prems by auto
    from Cons.IH [OF _ this, of "got @ v" t] t(3) False obtain u where
      "run_reader err (map Bytes frs) t = Inr u" "idle u"
      "sc_log u = sc_log t @ [RecvDone cb (sc_length t) (Some ((got @ v) @ concat frs)) None]" by auto
    with t False show ?thesis by (intro exI [of _ u]) simp
  qed
qed simp

text \<open>
  One packet, whatever the first fragment is: the length is what its bytes give over a zeroed length
  field, and the packet is the bytes that follow.
\<close>

lemma read_packet:
  assumes r: "\<not> sc_recvBuf r" and v: "v \<noteq> []" "length v \<le> 4"
    and n: "n = unat (un_le (v @ replicate (4 - length v) 0) :: u32)" "0 < n"
    and frs: "length (concat frs) = n" "[] \<notin> set frs"
  shows "\<exists>r'. run_reader err (Receive cb # Bytes v # map Bytes frs) r = Inr r' \<and> idle r' \<and>
     sc_log r' = sc_log r @ [RecvDone cb (v @ replicate (4 - length v) 0) (Some (concat frs)) None]"
proof -
  let ?s = "sockAbsIo1Receive cb r"
  let ?t = "read_header (?s\<lparr>sc_length := v @ replicate (4 - length v) 0\<rparr>)"
  have s: "sc_recvBuf ?s" "sc_reading ?s" "sc_base ?s = None" "sc_nextBuf ?s = (AtLength 0, 4)"
    "sc_length ?s = replicate 4 0" "sc_log ?s = sc_log r" "sc_readCb ?s = Some cb" "sc_receive_error ?s = None"
    using r by (simp_all add: sockAbsIo1Receive_def)
  have "write_mem (replicate 4 0) 0 v = Inr (v @ replicate (4 - length v) 0)"
    using v by (simp add: write_mem_def)
  then have step: "reader_step err (Bytes v) ?s = Inr ?t"
    using s v by (simp add: uv_may_deliver_def sockUvAllocCb_def uv_deliver_def uv_fill_def sockUvReadCb_def)
  have t: "in_body cb [] n ?t" "sc_length ?t = v @ replicate (4 - length v) 0" "sc_log ?t = sc_log r"
    using s n by (simp_all add: in_body_def read_header_def Let_def)
  from deliver_fragments [OF t(1) n(2) frs, of err] step t(2,3) show ?thesis by auto
qed

section \<open>Frames\<close>

definition frame :: "bytes \<Rightarrow> bytes" where
  "frame m = le32 (of_nat (length m)) @ m"

lemma packet_size_concat: "packet_size parts = of_nat (length (concat parts))"
  by (induction parts) simp_all

lemma sockAbsIo1Send_wire:
  "0 \<le> r \<Longrightarrow> sc_wire (sockAbsIo1Send parts cb r s) = sc_wire s @ frame (concat parts)"
  by (simp add: sockAbsIo1Send_def Let_def frame_def packet_size_concat)

definition send_all :: "(bytes list \<times> callback) list \<Rightarrow> sockconn \<Rightarrow> sockconn" where
  "send_all ms s = fold (\<lambda>(parts, cb). sockAbsIo1Send parts cb 0) ms s"

lemma send_all_wire: "sc_wire (send_all ms s) = sc_wire s @ concat (map (\<lambda>(parts, cb). frame (concat parts)) ms)"
  by (induction ms arbitrary: s) (auto simp: send_all_def sockAbsIo1Send_wire split: prod.splits)

lemma send_all_writes:
  "sc_writes (send_all ms s) = sc_writes s @ map (\<lambda>(parts, cb). \<lparr>wr_onCompleted = cb, wr_packetSize = packet_size parts\<rparr>) ms"
  by (induction ms arbitrary: s) (auto simp: send_all_def sockAbsIo1Send_def Let_def split: prod.splits)

text \<open>The reads of packets whose bodies arrive in the given fragments, each with its header in one piece.\<close>

fun whole_header_inputs :: "(callback \<times> bytes list) list \<Rightarrow> reader_input list" where
  "whole_header_inputs [] = []"
| "whole_header_inputs ((cb, frs) # ps) =
     Receive cb # Bytes (le32 (of_nat (length (concat frs)))) # map Bytes frs @ whole_header_inputs ps"

lemma bytes_of_fragments [simp]: "map (input_bytes \<circ> Bytes) frs = frs"
  by (induction frs) simp_all

lemma bytes_of_inputs:
  "concat (map input_bytes (whole_header_inputs ps)) = concat (map (\<lambda>(cb, frs). frame (concat frs)) ps)"
  by (induction ps rule: whole_header_inputs.induct) (simp_all add: frame_def)

lemma read_packets:
  "\<not> sc_recvBuf r \<Longrightarrow>
   \<forall>(cb, frs) \<in> set ps. concat frs \<noteq> [] \<and> length (concat frs) < 2 ^ 32 \<and> [] \<notin> set frs \<Longrightarrow>
   \<exists>r'. run_reader err (whole_header_inputs ps) r = Inr r' \<and> \<not> sc_recvBuf r' \<and>
     sc_log r' = sc_log r @ map (\<lambda>(cb, frs). RecvDone cb (le32 (of_nat (length (concat frs)))) (Some (concat frs)) None) ps"
proof (induction ps arbitrary: r rule: whole_header_inputs.induct)
  case (2 cb frs ps)
  let ?n = "length (concat frs)" and ?h = "le32 (of_nat (length (concat frs)) :: u32)"
  have len: "unat (of_nat ?n :: u32) = ?n" using "2.prems"(2) by (simp add: unat_of_nat)
  have n: "?n = unat (un_le (?h @ replicate (4 - length ?h) 0) :: u32)" "0 < ?n" "[] \<notin> set frs"
    using "2.prems"(2) len by simp_all
  from read_packet [OF "2.prems"(1) _ _ n(1,2) refl n(3), of err cb] obtain t where
    t: "run_reader err (Receive cb # Bytes ?h # map Bytes frs) r = Inr t" "idle t"
    "sc_log t = sc_log r @ [RecvDone cb ?h (Some (concat frs)) None]" by auto
  have rest: "\<forall>(cb, frs) \<in> set ps. concat frs \<noteq> [] \<and> length (concat frs) < 2 ^ 32 \<and> [] \<notin> set frs"
    using "2.prems"(2) by simp
  have "\<not> sc_recvBuf t" using t(2) by (simp add: idle_def)
  from "2.IH" [OF this rest] obtain u where u: "run_reader err (whole_header_inputs ps) t = Inr u" "\<not> sc_recvBuf u"
    "sc_log u = sc_log t @ map (\<lambda>(cb, frs). RecvDone cb (le32 (of_nat (length (concat frs)))) (Some (concat frs)) None) ps"
    by blast
  have "whole_header_inputs ((cb, frs) # ps) = (Receive cb # Bytes ?h # map Bytes frs) @ whole_header_inputs ps" by simp
  then have "run_reader err (whole_header_inputs ((cb, frs) # ps)) r = Inr u"
    using t(1) u(1) by (simp only: run_reader_append bindR_Inr)
  with u(2,3) t(3) show ?case by (intro exI [of _ u] conjI) simp_all
qed simp


lemma list_all2_frames:
  assumes "list_all2 (\<lambda>(parts, c) (cb, frs). concat frs = concat parts) ms ps"
  shows "map (\<lambda>(cb, frs). frame (concat frs)) ps = map (\<lambda>(parts, c). frame (concat parts)) ms"
  using assms by (induction rule: list_all2_induct) auto

lemma list_all2_small:
  assumes "list_all2 (\<lambda>(parts, c) (cb, frs). concat frs = concat parts) ms ps"
    and "\<forall>(parts, c) \<in> set ms. concat parts \<noteq> [] \<and> length (concat parts) < 2 ^ 32"
  shows "\<forall>(cb, frs) \<in> set ps. concat frs \<noteq> [] \<and> length (concat frs) < 2 ^ 32"
  using assms by (induction rule: list_all2_induct) (auto simp del: concat_eq_Nil_conv Nil_eq_concat_conv)

text \<open>
  A header that arrives in two pieces: the first \<open>k\<close> bytes are taken for the whole length field.
\<close>

lemma le32_list: "le32 w = [ucast w, ucast (drop_bit 8 w), ucast (drop_bit 8 (drop_bit 8 w)),
    ucast (drop_bit 8 (drop_bit 8 (drop_bit 8 w)))]"
  by (simp add: le32_def numeral_eq_Suc)

lemma le32_small:
  assumes "n < 256"
  shows "le32 (of_nat n) = [of_nat n, 0, 0, 0]"
proof -
  have "unat (drop_bit 8 (of_nat n :: u32)) = 0"
    using assms unfolding unat_drop_bit_eq unat_of_nat by (simp add: drop_bit_eq_div)
  then have "drop_bit 8 (of_nat n :: u32) = 0" by (simp add: unat_eq_zero)
  moreover have "(ucast (of_nat n :: u32) :: u8) = of_nat n"
    using assms by (simp add: unsigned_of_nat take_bit_nat_eq_self)
  ultimately show ?thesis by (simp add: le32_list)
qed


lemma packet_length_of_prefix:
  assumes "n < 256" and "1 \<le> k" and "k \<le> 4"
  shows "unat (un_le (take k (le32 (of_nat n)) @ replicate (4 - k) 0) :: u32) = n"
proof -
  have "take k (le32 (of_nat n)) @ replicate (4 - k) 0 = le32 (of_nat n)"
  proof -
    consider "k = 1" | "k = 2" | "k = 3" | "k = 4" using assms(2,3) by linarith
    then show ?thesis unfolding le32_small [OF assms(1)] by cases (simp_all add: numeral_eq_Suc)
  qed
  then show ?thesis using assms(1) by (simp add: unat_of_nat)
qed

section \<open>Properties\<close>

text \<open>
  C11. Sender, byte stream and receiver implement a channel of packets.  What the sends of \<open>ms\<close> put on the
  wire is exactly what the reader is given, in any fragmentation that leaves the four header bytes of
  each packet together; each receive then completes once, in order, without error, with the packet's
  bytes in a block of its own, and the reader is idle again.
\<close>

theorem packets_arrive:
  assumes frag: "list_all2 (\<lambda>(parts, c) (cb, frs). concat frs = concat parts) ms ps"
    and sizes: "\<forall>(parts, c) \<in> set ms. concat parts \<noteq> [] \<and> length (concat parts) < 2 ^ 32"
    and nonempty: "\<forall>(cb, frs) \<in> set ps. [] \<notin> set frs" and idle: "\<not> sc_recvBuf r"
  shows "sc_wire (send_all ms s) = sc_wire s @ concat (map input_bytes (whole_header_inputs ps)) \<and>
     (\<exists>r'. run_reader err (whole_header_inputs ps) r = Inr r' \<and> \<not> sc_recvBuf r' \<and>
        sc_log r' = sc_log r @ map (\<lambda>(cb, frs). RecvDone cb (le32 (of_nat (length (concat frs)))) (Some (concat frs)) None) ps)"
proof
  show "sc_wire (send_all ms s) = sc_wire s @ concat (map input_bytes (whole_header_inputs ps))"
    unfolding send_all_wire bytes_of_inputs list_all2_frames [OF frag] ..
  show "\<exists>r'. run_reader err (whole_header_inputs ps) r = Inr r' \<and> \<not> sc_recvBuf r' \<and>
      sc_log r' = sc_log r @ map (\<lambda>(cb, frs). RecvDone cb (le32 (of_nat (length (concat frs)))) (Some (concat frs)) None) ps"
    using list_all2_small [OF frag sizes] nonempty by (intro read_packets [OF idle]) blast
qed

theorem packets_arrive_witness:
  "\<exists>r'. run_reader (\<lambda>_. []) [Receive 5, Bytes [3, 0, 0, 0], Bytes [1], Bytes [2, 3]] (sockconn_zero 0) = Inr r' \<and>
     sc_wire (send_all [([[1, 2], [3]], 9)] (sockconn_zero 0)) = [3, 0, 0, 0, 1, 2, 3] \<and>
     sc_log r' = [RecvDone 5 [3, 0, 0, 0] (Some [1, 2, 3]) None]"
proof -
  have h: "le32 3 = [3, 0, 0, 0]" using le32_small [of 3] by simp
  from packets_arrive [of "[([[1, 2], [3]], 9)]" "[(5, [[1], [2, 3]])]" "sockconn_zero 0" "sockconn_zero 0" "\<lambda>_. []"]
  show ?thesis by (fastforce simp add: sockconn_zero_def h simp del: run_reader_simps)
qed

text \<open>
  The reader takes any first read for a whole header.  If only \<open>k < 4\<close> bytes of the header of a packet
  shorter than 256 bytes come with the first read, the rest of the header is taken for the packet's
  beginning: the receive completes without error, with the right length and the wrong bytes.  And an
  empty packet never arrives: after its header no byte can be delivered, and the error libuv reports
  instead is all the receiver gets.
\<close>

theorem header_faults:
  assumes idle: "\<not> sc_recvBuf r"
  shows "(0 < length m \<and> length m < 256 \<and> 1 \<le> k \<and> k < 4 \<and> [] \<notin> set frs \<and>
      concat frs = take (length m) (drop k (frame m)) \<longrightarrow>
    (\<exists>r'. run_reader err (Receive cb # Bytes (take k (frame m)) # map Bytes frs) r = Inr r' \<and>
      sc_log r' = sc_log r @ [RecvDone cb (le32 (of_nat (length m)))
        (Some (take (length m) (replicate (4 - k) 0 @ m))) None])) \<and>
    (\<exists>r'. run_reader err [Receive cb, Bytes (frame [])] r = Inr r' \<and> (\<forall>v. \<not> uv_may_deliver v r') \<and>
      (\<forall>e < 0. \<exists>r''. uv_fail err e r' = Inr r'' \<and>
         sc_log r'' = sc_log r @ [RecvDone cb (frame []) None (Some (err e))]))"
proof (intro conjI impI)
  assume "0 < length m \<and> length m < 256 \<and> 1 \<le> k \<and> k < 4 \<and> [] \<notin> set frs \<and>
      concat frs = take (length m) (drop k (frame m))"
  then have m: "0 < length m" "length m < 256" and k: "1 \<le> k" "k < 4" and frs: "[] \<notin> set frs"
    "concat frs = take (length m) (drop k (frame m))" by auto
  let ?v = "take k (frame m)"
  have v: "?v = take k (le32 (of_nat (length m)))" "length ?v = k" using k by (simp_all add: frame_def)
  have n: "length m = unat (un_le (?v @ replicate (4 - length ?v) 0) :: u32)"
    using packet_length_of_prefix [OF m(2) k(1)] k(2) v by simp
  have rest: "drop k (frame m) = replicate (4 - k) 0 @ m"
  proof -
    consider "k = 1" | "k = 2" | "k = 3" using k by linarith
    then show ?thesis unfolding frame_def le32_small [OF m(2)] by cases (simp_all add: numeral_eq_Suc)
  qed
  have len: "length (concat frs) = length m" using frs(2) rest k by simp
  have head: "?v @ replicate (4 - length ?v) 0 = le32 (of_nat (length m))"
  proof -
    consider "k = 1" | "k = 2" | "k = 3" using k by linarith
    then show ?thesis unfolding v le32_small [OF m(2)] by cases (simp_all add: numeral_eq_Suc)
  qed
  have "?v \<noteq> []" "length ?v \<le> 4" using v(2) k by auto
  from read_packet [OF idle this n m(1) len frs(1)] show
    "\<exists>r'. run_reader err (Receive cb # Bytes (take k (frame m)) # map Bytes frs) r = Inr r' \<and>
      sc_log r' = sc_log r @ [RecvDone cb (le32 (of_nat (length m)))
        (Some (take (length m) (replicate (4 - k) 0 @ m))) None]"
    unfolding head frs(2) rest by blast
next
  have h: "frame [] = [0, 0, 0, 0]" using le32_small [of 0] by (simp add: frame_def)
  let ?s = "sockAbsIo1Receive cb r"
  let ?r = "read_header (?s\<lparr>sc_length := [0, 0, 0, 0]\<rparr>)"
  have "run_reader err [Receive cb, Bytes (frame [])] r = Inr ?r"
    using idle by (simp add: h sockAbsIo1Receive_def uv_may_deliver_def uv_deliver_def uv_fill_def sockUvAllocCb_def
        sockUvReadCb_def write_mem_def)
  moreover have "\<not> uv_may_deliver v ?r" for v
    by (auto simp: uv_may_deliver_def sockUvAllocCb_def read_header_def Let_def)
  moreover have "uv_fail err e ?r = Inr (read_error err e ?r)"
    "sc_log (read_error err e ?r) = sc_log r @ [RecvDone cb (frame []) None (Some (err e))]" if "e < 0" for e
    using that idle by (simp_all add: h uv_fail_def sockUvReadCb_def read_header_def sockAbsIo1Receive_def Let_def
        read_error_def fire_readCb_def)
  ultimately show "\<exists>r'. run_reader err [Receive cb, Bytes (frame [])] r = Inr r' \<and> (\<forall>v. \<not> uv_may_deliver v r') \<and>
      (\<forall>e < 0. \<exists>r''. uv_fail err e r' = Inr r'' \<and>
         sc_log r'' = sc_log r @ [RecvDone cb (frame []) None (Some (err e))])" by blast
qed

theorem header_faults_witness:
  "\<exists>r'. run_reader (\<lambda>_. []) [Receive 1, Bytes [1], Bytes [0]] (sockconn_zero 0) = Inr r' \<and>
     sc_log r' = [RecvDone 1 [1, 0, 0, 0] (Some [0]) None]"
proof -
  have h: "le32 1 = [1, 0, 0, 0]" using le32_small [of 1] by simp
  then have "concat [[0]] = take (length [0xaa :: u8]) (drop 1 (frame [0xaa :: u8]))" by (simp add: frame_def)
  with header_faults [of "sockconn_zero 0" "[0xaa]" 1 "[[0]]" "\<lambda>_. []" 1] show ?thesis
    by (simp add: h frame_def sockconn_zero_def del: run_reader_simps)
qed

end
