(* ===== verification/UvServer.thy ===== *)
theory UvServer
  imports UvSock
begin

text \<open>
  The server of \<open>c/pxprpc_libuv/pxprpc_libuv.c\<close>: the accepted connections, a doubly linked list through
  the connections themselves, from the accept callback of libuv to the close callback that unlinks and
  frees a connection, and the deletion of the server.  What happens inside the contexts of the rpc
  library is recorded as calls; they come back as \<open>IoClose\<close> events.  \<open>uv_close\<close> hands a handle to libuv,
  which calls the close callback later, once.
\<close>

section \<open>State\<close>

datatype stream_type = UV_TCP | UV_NAMED_PIPE | UV_OTHER

datatype rpc_call = RpcNew connid | RpcStart connid | RpcDelete connid

record uvserver =
  us_loop :: nat
  us_listener :: nat
  us_funcmap :: nat
  us_status :: u32
  us_accepted :: "connid option"
  us_freed :: bool
  us_conns :: "connid \<Rightarrow> sockconn option"
  us_fresh :: connid
  us_closing :: "connid list"
  us_listening :: bool
  us_errormsg :: "string option"
  us_log :: "rpc_call list"

text \<open>The member \<open>status\<close> keeps what \<open>malloc\<close> left there; \<open>loop_of\<close> is the loop of a libuv handle.\<close>

definition pxprpc_libuv_server_new :: "(nat \<Rightarrow> nat) \<Rightarrow> u32 \<Rightarrow> nat option \<Rightarrow> nat \<Rightarrow> nat \<Rightarrow> uvserver" where
  "pxprpc_libuv_server_new loop_of junk loop listener funcmap =
     \<lparr>us_loop = (case loop of None \<Rightarrow> loop_of listener | Some l \<Rightarrow> l), us_listener = listener,
      us_funcmap = funcmap, us_status = junk, us_accepted = None, us_freed = False,
      us_conns = (\<lambda>_. None), us_fresh = 0, us_closing = [], us_listening = False, us_errormsg = None,
      us_log = []\<rparr>"

definition pxprpc_libuv_server_start :: "uvserver \<Rightarrow> uvserver" where
  "pxprpc_libuv_server_start s = s\<lparr>us_status := us_status s OR 2, us_listening := True\<rparr>"

definition conn_get :: "connid \<Rightarrow> uvserver \<Rightarrow> sockconn res" where
  "conn_get i s = (case us_conns s i of None \<Rightarrow> Inl UseAfterFree | Some c \<Rightarrow> Inr c)"

definition conn_upd :: "connid \<Rightarrow> (sockconn \<Rightarrow> sockconn) \<Rightarrow> uvserver \<Rightarrow> uvserver res" where
  "conn_upd i f s = bindR (conn_get i s) (\<lambda>c. Inr (s\<lparr>us_conns := (us_conns s)(i \<mapsto> f c)\<rparr>))"

section \<open>Operations\<close>

definition status_streamClosed :: u32 where
  "status_streamClosed = 2"

definition stream_closed :: "sockconn \<Rightarrow> bool" where
  "stream_closed c \<longleftrightarrow> sc_status c AND status_streamClosed \<noteq> 0"

definition sockAbsIo1Close :: "connid \<Rightarrow> uvserver \<Rightarrow> uvserver res" where
  "sockAbsIo1Close i s =
     bindR (conn_get i s) (\<lambda>c.
     if stream_closed c then Inr s
     else bindR (conn_upd i (\<lambda>c. c\<lparr>sc_status := sc_status c OR status_streamClosed\<rparr>) s)
            (\<lambda>s. Inr (s\<lparr>us_closing := us_closing s @ [i]\<rparr>)))"

definition buildLibuvSockconn :: "u8 \<Rightarrow> uvserver \<Rightarrow> (connid \<times> uvserver) res" where
  "buildLibuvSockconn jk s =
     (let i = us_fresh s;
          s = s\<lparr>us_fresh := i + 1, us_log := us_log s @ [RpcNew i]\<rparr>;
          new = (sockconn_zero jk)\<lparr>sc_attached := True\<rparr>
      in case us_accepted s of
           None \<Rightarrow> Inr (i, s\<lparr>us_accepted := Some i, us_conns := (us_conns s)(i \<mapsto> new)\<rparr>)
         | Some h \<Rightarrow>
             bindR (conn_upd h (\<lambda>c. c\<lparr>sc_prev := Some i\<rparr>) s) (\<lambda>s.
             Inr (i, s\<lparr>us_accepted := Some i, us_conns := (us_conns s)(i \<mapsto> new\<lparr>sc_next := Some h\<rparr>)\<rparr>)))"

definition freeLibuvSockconn :: "connid \<Rightarrow> uvserver \<Rightarrow> uvserver res" where
  "freeLibuvSockconn i s =
     bindR (conn_get i s) (\<lambda>sc.
     bindR (case sc_next sc of None \<Rightarrow> Inr s | Some n \<Rightarrow> conn_upd n (\<lambda>c. c\<lparr>sc_prev := sc_prev sc\<rparr>) s) (\<lambda>s.
     bindR (case sc_prev sc of None \<Rightarrow> Inr s | Some p \<Rightarrow> conn_upd p (\<lambda>c. c\<lparr>sc_next := sc_next sc\<rparr>) s) (\<lambda>s.
     bindR (if sc_attached sc
            then if us_freed s then Inl UseAfterFree
                 else Inr (if us_accepted s = Some i then s\<lparr>us_accepted := sc_next sc\<rparr> else s)
            else Inr s) (\<lambda>s.
     Inr (s\<lparr>us_conns := (us_conns s)(i := None), us_log := us_log s @ [RpcDelete i]\<rparr>)))))"

text \<open>The close callback finds the connection through the handle's user data.\<close>

definition freeLibuvSockconn2 :: "connid \<Rightarrow> uvserver \<Rightarrow> uvserver res" where
  "freeLibuvSockconn2 i s =
     bindR (conn_get i s) (\<lambda>c. if sc_data c then freeLibuvSockconn i s else Inl NullDeref)"

text \<open>\<open>r\<close> is what \<open>uv_accept\<close> returns.\<close>

definition uvListenConnectionCb :: "u8 \<Rightarrow> stream_type \<Rightarrow> int \<Rightarrow> uvserver \<Rightarrow> uvserver res" where
  "uvListenConnectionCb jk ty r s =
     bindR (buildLibuvSockconn jk s) (\<lambda>(i, s).
     if ty = UV_OTHER then Inl Abort
     else if r < 0 then Inr (s\<lparr>us_errormsg := Some ''libuv accept error''\<rparr>)
     else bindR (conn_upd i (\<lambda>c. c\<lparr>sc_data := True\<rparr>) s)
            (\<lambda>s. Inr (s\<lparr>us_log := us_log s @ [RpcStart i]\<rparr>)))"

text \<open>The loop of \<open>pxprpc_libuv_server_delete\<close>: it follows the links it finds, so it need not end.\<close>

partial_function (option) close_all :: "connid option \<Rightarrow> uvserver \<Rightarrow> uvserver res option" where
  "close_all n s =
     (case n of
        None \<Rightarrow> Some (Inr s)
      | Some i \<Rightarrow>
          (case conn_get i s of
             Inl e \<Rightarrow> Some (Inl e)
           | Inr c \<Rightarrow>
               (case bindR (conn_upd i (\<lambda>c. c\<lparr>sc_attached := False\<rparr>) s) (sockAbsIo1Close i) of
                  Inl e \<Rightarrow> Some (Inl e)
                | Inr s \<Rightarrow> close_all (sc_next c) s)))"

definition pxprpc_libuv_server_delete :: "uvserver \<Rightarrow> uvserver res option" where
  "pxprpc_libuv_server_delete s =
     map_option (\<lambda>r. bindR r (\<lambda>s. Inr (s\<lparr>us_freed := True\<rparr>))) (close_all (us_accepted s) s)"

section \<open>Events\<close>

datatype uv_input =
    Connect u8 stream_type int
  | IoClose connid
  | Closed connid
  | Delete

fun uv_event :: "uv_input \<Rightarrow> uvserver \<Rightarrow> uvserver res option" where
  "uv_event (Connect jk ty r) s = Some (uvListenConnectionCb jk ty r s)"
| "uv_event (IoClose i) s = Some (sockAbsIo1Close i s)"
| "uv_event (Closed i) s = Some (freeLibuvSockconn2 i (s\<lparr>us_closing := remove1 i (us_closing s)\<rparr>))"
| "uv_event Delete s = pxprpc_libuv_server_delete (s\<lparr>us_listening := False\<rparr>)"

text \<open>
  The owner closes the listener when it deletes the server; a connection is closed by its rpc context
  only while it exists.
\<close>

fun uv_enabled :: "uv_input \<Rightarrow> uvserver \<Rightarrow> bool" where
  "uv_enabled (Connect jk ty r) s \<longleftrightarrow> us_listening s"
| "uv_enabled (IoClose i) s \<longleftrightarrow> us_conns s i \<noteq> None"
| "uv_enabled (Closed i) s \<longleftrightarrow> i \<in> set (us_closing s)"
| "uv_enabled Delete s \<longleftrightarrow> \<not> us_freed s"

inductive uv_reach :: "uvserver \<Rightarrow> bool" where
  start: "uv_reach (pxprpc_libuv_server_start (pxprpc_libuv_server_new loop_of junk loop listener funcmap))"
| step: "uv_reach s \<Longrightarrow> uv_enabled e s \<Longrightarrow> uv_event e s = Some (Inr s') \<Longrightarrow> uv_reach s'"


inductive_cases uv_reachE: "uv_reach s"

section \<open>Doubly linked segments\<close>

text \<open>
  From the pointer \<open>n\<close>, reached from \<open>p\<close>, the connections \<open>xs\<close> follow each other, the last is \<open>p'\<close> and
  its link goes to \<open>n'\<close>.
\<close>

fun dllseg :: "(connid \<Rightarrow> sockconn option) \<Rightarrow> connid option \<Rightarrow> connid option \<Rightarrow> connid list
    \<Rightarrow> connid option \<Rightarrow> connid option \<Rightarrow> bool" where
  "dllseg m p n [] p' n' \<longleftrightarrow> n = n' \<and> p = p'"
| "dllseg m p n (x # xs) p' n' \<longleftrightarrow>
     n = Some x \<and> (\<exists>c. m x = Some c \<and> sc_prev c = p \<and> dllseg m (Some x) (sc_next c) xs p' n')"

lemma dllseg_append:
  "dllseg m p n (xs @ ys) p'' n'' \<longleftrightarrow> (\<exists>p' n'. dllseg m p n xs p' n' \<and> dllseg m p' n' ys p'' n'')"
  by (induction xs arbitrary: p n) auto

definition links :: "sockconn option \<Rightarrow> (connid option \<times> connid option) option" where
  "links oc = map_option (\<lambda>c. (sc_prev c, sc_next c)) oc"

lemma links_Some [simp]: "links (Some c) = Some (sc_prev c, sc_next c)"
  by (simp add: links_def)

lemma links_eq_Some: "links oc = Some pn \<longleftrightarrow> (\<exists>c. oc = Some c \<and> pn = (sc_prev c, sc_next c))"
  by (auto simp: links_def)

lemma dllseg_cong:
  "dllseg m p n xs p' n' \<Longrightarrow> (\<And>x. x \<in> set xs \<Longrightarrow> links (m' x) = links (m x)) \<Longrightarrow> dllseg m' p n xs p' n'"
proof (induction xs arbitrary: p n)
  case (Cons x xs)
  then obtain c where c: "n = Some x" "m x = Some c" "sc_prev c = p" "dllseg m (Some x) (sc_next c) xs p' n'" by auto
  have "links (m' x) = Some (sc_prev c, sc_next c)" using Cons.prems(2) [of x] c(2) by simp
  then obtain c' where "m' x = Some c'" "sc_prev c' = sc_prev c" "sc_next c' = sc_next c" by (auto simp: links_eq_Some)
  moreover have "dllseg m' (Some x) (sc_next c) xs p' n'" using Cons.prems(2) by (intro Cons.IH [OF c(4)]) simp
  ultimately show ?case using c by auto
qed simp

lemma dllseg_upd_other: "dllseg m p n xs p' n' \<Longrightarrow> i \<notin> set xs \<Longrightarrow> dllseg (m(i := v)) p n xs p' n'"
  by (erule dllseg_cong) auto

lemma dllseg_ends:
  "dllseg m p n xs p' n' \<Longrightarrow> n = (if xs = [] then n' else Some (hd xs)) \<and> p' = (if xs = [] then p else Some (last xs))"
  by (induction xs arbitrary: p n) (auto split: if_splits)

text \<open>What the two writes of an unlinking do to the segments on both sides.\<close>

lemma dllseg_set_prev:
  assumes "dllseg m p n (x # xs) p' n'" and "x \<notin> set xs" and "m x = Some c"
  shows "dllseg (m(x \<mapsto> c\<lparr>sc_prev := q\<rparr>)) q n (x # xs) p' n'"
  using assms by (auto intro: dllseg_upd_other)

lemma dllseg_set_next:
  assumes "dllseg m p n (xs @ [x]) p' n'" and "x \<notin> set xs" and "m x = Some c"
  shows "dllseg (m(x \<mapsto> c\<lparr>sc_next := n''\<rparr>)) p n (xs @ [x]) p' n''"
  using assms by (auto simp: dllseg_append intro: dllseg_upd_other)

definition unlinked :: "(connid \<Rightarrow> sockconn option) \<Rightarrow> connid \<Rightarrow> sockconn \<Rightarrow> (connid \<Rightarrow> sockconn option)" where
  "unlinked m i sc =
     (let m = (case sc_next sc of None \<Rightarrow> m | Some n \<Rightarrow> m(n := map_option (\<lambda>c. c\<lparr>sc_prev := sc_prev sc\<rparr>) (m n)));
          m = (case sc_prev sc of None \<Rightarrow> m | Some p \<Rightarrow> m(p := map_option (\<lambda>c. c\<lparr>sc_next := sc_next sc\<rparr>) (m p)))
      in m(i := None))"

lemma dllseg_unlink:
  assumes seg: "dllseg m None n (ys @ i # zs) l None" and d: "distinct (ys @ i # zs)"
  shows "\<exists>sc l'. m i = Some sc
     \<and> sc_next sc = (if zs = [] then None else Some (hd zs)) \<and> sc_prev sc = (if ys = [] then None else Some (last ys))
     \<and> dllseg (unlinked m i sc) None (if ys = [] then sc_next sc else n) (ys @ zs) l' None"
proof -
  from seg obtain p where ys: "dllseg m None n ys p (Some i)" and iz: "dllseg m p (Some i) (i # zs) l None"
    by (auto simp: dllseg_append)
  then obtain sc where sc: "m i = Some sc" "sc_prev sc = p" "dllseg m (Some i) (sc_next sc) zs l None" by auto
  have p: "p = (if ys = [] then None else Some (last ys))" using dllseg_ends [OF ys] by simp
  have nx: "sc_next sc = (if zs = [] then None else Some (hd zs))" using dllseg_ends [OF sc(3)] by auto
  let ?m1 = "case sc_next sc of None \<Rightarrow> m | Some n \<Rightarrow> m(n := map_option (\<lambda>c. c\<lparr>sc_prev := sc_prev sc\<rparr>) (m n))"
  have zs1: "dllseg ?m1 p (sc_next sc) zs (if zs = [] then p else l) None"
  proof (cases zs)
    case (Cons z zs')
    then obtain cz where "m z = Some cz" using sc(3) by auto
    with dllseg_set_prev [of m "Some i" "sc_next sc" z zs' l None cz p] sc Cons d nx show ?thesis by simp
  qed (use nx in simp)
  have ys1: "dllseg ?m1 None n ys p (Some i)"
    using nx d ys by (cases zs) (auto intro: dllseg_upd_other)
  let ?m2 = "case sc_prev sc of None \<Rightarrow> ?m1 | Some p \<Rightarrow> ?m1(p := map_option (\<lambda>c. c\<lparr>sc_next := sc_next sc\<rparr>) (?m1 p))"
  have "dllseg ?m2 None (if ys = [] then sc_next sc else n) ys p (sc_next sc) \<and>
        dllseg ?m2 p (sc_next sc) zs (if zs = [] then p else l) None"
  proof (cases ys rule: rev_cases)
    case Nil
    with p sc(2) zs1 show ?thesis by simp
  next
    case (snoc ys' y)
    then obtain cy where cy: "?m1 y = Some cy" using ys1 by (auto simp: dllseg_append)
    have y: "y \<notin> set ys'" "y \<notin> set zs" using d snoc by auto
    have "dllseg ?m1 None n (ys' @ [y]) p (Some i)" using ys1 snoc by simp
    note dllseg_set_next [OF this y(1) cy, of "sc_next sc"]
    moreover have "dllseg (?m1(y \<mapsto> cy\<lparr>sc_next := sc_next sc\<rparr>)) p (sc_next sc) zs (if zs = [] then p else l) None"
      using zs1 y(2) by (rule dllseg_upd_other)
    ultimately show ?thesis using p sc(2) snoc cy by simp
  qed
  moreover have "i \<notin> set ys" "i \<notin> set zs" using d by auto
  ultimately have "dllseg (?m2(i := None)) None (if ys = [] then sc_next sc else n) (ys @ zs) (if zs = [] then p else l) None"
    unfolding dllseg_append by (blast intro: dllseg_upd_other)
  then show ?thesis using sc(1,2) nx p by (auto simp: unlinked_def Let_def)
qed


section \<open>Invariant\<close>

definition conn_ok :: "bool \<Rightarrow> bool \<Rightarrow> sockconn \<Rightarrow> bool" where
  "conn_ok alive closing c \<longleftrightarrow> sc_attached c = alive \<and> stream_closed c = closing"

definition uv_inv :: "connid list \<Rightarrow> uvserver \<Rightarrow> bool" where
  "uv_inv xs s \<longleftrightarrow>
     distinct xs \<and> (\<forall>i. i \<in> set xs \<longleftrightarrow> us_conns s i \<noteq> None) \<and>
     (\<exists>n l. dllseg (us_conns s) None n xs l None \<and> (\<not> us_freed s \<longrightarrow> us_accepted s = n)) \<and>
     (\<forall>i c. us_conns s i = Some c \<longrightarrow> conn_ok (\<not> us_freed s) (i \<in> set (us_closing s)) c) \<and>
     distinct (us_closing s) \<and> set (us_closing s) \<subseteq> set xs \<and>
     (\<forall>i \<ge> us_fresh s. us_conns s i = None) \<and>
     (us_freed s \<longrightarrow> \<not> us_listening s \<and> set (us_closing s) = set xs)"

text \<open>The invariant looks at the links, at \<open>serv\<close> and at \<open>status\<close> of a connection, at nothing else.\<close>

lemma uv_inv_cong:
  assumes inv: "uv_inv xs s" and i: "us_conns s i = Some c"
    and c': "sc_prev c' = sc_prev c" "sc_next c' = sc_next c" "sc_attached c' = sc_attached c" "sc_status c' = sc_status c"
    and s': "us_conns s' = (us_conns s)(i \<mapsto> c')" "us_accepted s' = us_accepted s" "us_freed s' = us_freed s"
      "us_closing s' = us_closing s" "us_fresh s' = us_fresh s" "us_listening s' = us_listening s"
  shows "uv_inv xs s'"
proof -
  from inv obtain n l where seg: "dllseg (us_conns s) None n xs l None" "\<not> us_freed s \<longrightarrow> us_accepted s = n"
    by (auto simp: uv_inv_def)
  have "dllseg (us_conns s') None n xs l None"
    using seg(1) by (rule dllseg_cong) (use i c' s'(1) in auto)
  with seg(2) inv i c' s' show ?thesis
    unfolding uv_inv_def by (auto simp: conn_ok_def stream_closed_def)
qed

lemma conn_upd_Some: "us_conns s i = Some c \<Longrightarrow> conn_upd i f s = Inr (s\<lparr>us_conns := (us_conns s)(i \<mapsto> f c)\<rparr>)"
  by (simp add: conn_upd_def conn_get_def)

lemma unlinked_other:
  assumes "j \<noteq> i"
  shows "unlinked m i sc j = None \<longleftrightarrow> m j = None"
    and "unlinked m i sc j = Some c' \<Longrightarrow>
      \<exists>c. m j = Some c \<and> sc_attached c' = sc_attached c \<and> sc_status c' = sc_status c \<and> sc_data c' = sc_data c"
  using assms by (auto simp: unlinked_def Let_def split: option.splits if_splits)

lemma unlinked_self [simp]: "unlinked m i sc i = None"
  by (simp add: unlinked_def Let_def)

lemma freeLibuvSockconn_eq:
  assumes "us_conns s i = Some sc" and "\<forall>n. sc_next sc = Some n \<longrightarrow> us_conns s n \<noteq> None"
    and "\<forall>p. sc_prev sc = Some p \<longrightarrow> us_conns s p \<noteq> None" and "sc_attached sc \<longrightarrow> \<not> us_freed s"
  shows "freeLibuvSockconn i s = Inr (s\<lparr>us_conns := unlinked (us_conns s) i sc,
    us_accepted := if sc_attached sc \<and> us_accepted s = Some i then sc_next sc else us_accepted s,
    us_log := us_log s @ [RpcDelete i]\<rparr>)"
proof -
  let ?m = "us_conns s"
  let ?m1 = "case sc_next sc of None \<Rightarrow> ?m | Some n \<Rightarrow> ?m(n := map_option (\<lambda>c. c\<lparr>sc_prev := sc_prev sc\<rparr>) (?m n))"
  let ?m2 = "case sc_prev sc of None \<Rightarrow> ?m1 | Some p \<Rightarrow> ?m1(p := map_option (\<lambda>c. c\<lparr>sc_next := sc_next sc\<rparr>) (?m1 p))"
  have "(case sc_next sc of None \<Rightarrow> Inr s | Some n \<Rightarrow> conn_upd n (\<lambda>c. c\<lparr>sc_prev := sc_prev sc\<rparr>) s)
      = Inr (s\<lparr>us_conns := ?m1\<rparr>)"
    using assms(2) by (cases "sc_next sc") (auto simp: conn_upd_Some)
  moreover have "\<forall>p. sc_prev sc = Some p \<longrightarrow> ?m1 p \<noteq> None"
    using assms(2,3) by (cases "sc_next sc") auto
  then have "(case sc_prev sc of None \<Rightarrow> Inr (s\<lparr>us_conns := ?m1\<rparr>)
      | Some p \<Rightarrow> conn_upd p (\<lambda>c. c\<lparr>sc_next := sc_next sc\<rparr>) (s\<lparr>us_conns := ?m1\<rparr>)) = Inr (s\<lparr>us_conns := ?m2\<rparr>)"
    by (cases "sc_prev sc") (auto simp: conn_upd_Some)
  ultimately show ?thesis
    using assms(1,4) by (simp add: freeLibuvSockconn_def conn_get_def unlinked_def Let_def)
qed

lemma uv_inv_free:
  assumes inv: "uv_inv xs s" and i: "us_conns s i = Some sc" and cl: "i \<in> set (us_closing s)"
  shows "\<exists>s'. freeLibuvSockconn i (s\<lparr>us_closing := remove1 i (us_closing s)\<rparr>) = Inr s' \<and> uv_inv (remove1 i xs) s'
     \<and> us_closing s' = remove1 i (us_closing s) \<and> us_freed s' = us_freed s
     \<and> us_log s' = us_log s @ [RpcDelete i]"
proof -
  have "i \<in> set xs" using inv i by (auto simp: uv_inv_def)
  then obtain ys zs where xs: "xs = ys @ i # zs" by (meson split_list)
  have d: "distinct (ys @ i # zs)" using inv xs by (simp add: uv_inv_def)
  from inv obtain n l where seg: "dllseg (us_conns s) None n (ys @ i # zs) l None"
    and acc: "\<not> us_freed s \<longrightarrow> us_accepted s = n" using xs by (auto simp: uv_inv_def)
  from dllseg_unlink [OF seg d] i obtain l' where
    nx: "sc_next sc = (if zs = [] then None else Some (hd zs))" and pv: "sc_prev sc = (if ys = [] then None else Some (last ys))"
    and seg': "dllseg (unlinked (us_conns s) i sc) None (if ys = [] then sc_next sc else n) (ys @ zs) l' None" by auto
  have rem: "remove1 i xs = ys @ zs" using d xs by (simp add: remove1_append)
  have mem: "\<And>j. j \<in> set xs \<longleftrightarrow> us_conns s j \<noteq> None" using inv by (simp add: uv_inv_def)
  have att: "sc_attached sc = (\<not> us_freed s)" using inv i by (auto simp: uv_inv_def conn_ok_def)
  have head: "us_accepted s = Some i \<longleftrightarrow> ys = []" if "\<not> us_freed s"
    using dllseg_ends [OF seg] acc that d by (cases ys) auto
  have "zs \<noteq> [] \<longrightarrow> hd zs \<in> set xs" "ys \<noteq> [] \<longrightarrow> last ys \<in> set xs" using xs by auto
  then have present: "\<forall>n. sc_next sc = Some n \<longrightarrow> us_conns s n \<noteq> None" "\<forall>p. sc_prev sc = Some p \<longrightarrow> us_conns s p \<noteq> None"
    using nx pv mem [of "hd zs"] mem [of "last ys"] by (auto split: if_splits)
  let ?t = "s\<lparr>us_closing := remove1 i (us_closing s)\<rparr>"
  let ?u = "s\<lparr>us_closing := remove1 i (us_closing s), us_conns := unlinked (us_conns s) i sc,
    us_accepted := if sc_attached sc \<and> us_accepted s = Some i then sc_next sc else us_accepted s,
    us_log := us_log s @ [RpcDelete i]\<rparr>"
  have "freeLibuvSockconn i ?t = Inr ?u"
    using freeLibuvSockconn_eq [of ?t i sc] i present att by simp
  moreover have "uv_inv (ys @ zs) ?u"
    unfolding uv_inv_def
  proof (intro conjI)
    show "distinct (ys @ zs)" using d by simp
    show "\<forall>j. j \<in> set (ys @ zs) \<longleftrightarrow> us_conns ?u j \<noteq> None"
    proof
      fix j show "j \<in> set (ys @ zs) \<longleftrightarrow> us_conns ?u j \<noteq> None"
        using mem [of j] d xs unlinked_other(1) [of j i "us_conns s" sc] by (cases "j = i") auto
    qed
    show "\<exists>n l. dllseg (us_conns ?u) None n (ys @ zs) l None \<and> (\<not> us_freed ?u \<longrightarrow> us_accepted ?u = n)"
      using seg' head acc att by (intro exI [of _ "if ys = [] then sc_next sc else n"] exI [of _ l']) auto
    show "\<forall>j c. us_conns ?u j = Some c \<longrightarrow> conn_ok (\<not> us_freed ?u) (j \<in> set (us_closing ?u)) c"
    proof (intro allI impI)
      fix j c' assume j: "us_conns ?u j = Some c'"
      then have ne: "j \<noteq> i" by (cases "j = i") auto
      with unlinked_other(2) [OF ne, of "us_conns s" sc c'] j obtain c where "us_conns s j = Some c" "sc_attached c' = sc_attached c"
        "sc_status c' = sc_status c" by auto
      with inv ne show "conn_ok (\<not> us_freed ?u) (j \<in> set (us_closing ?u)) c'"
        by (auto simp: uv_inv_def conn_ok_def stream_closed_def)
    qed
    show "distinct (us_closing ?u)" "set (us_closing ?u) \<subseteq> set (ys @ zs)"
      using inv xs by (auto simp: uv_inv_def)
    show "us_freed ?u \<longrightarrow> \<not> us_listening ?u \<and> set (us_closing ?u) = set (ys @ zs)"
      using inv xs d by (auto simp: uv_inv_def)
    show "\<forall>j \<ge> us_fresh ?u. us_conns ?u j = None"
    proof (intro allI impI)
      fix j assume "us_fresh ?u \<le> j"
      then have "us_conns s j = None" using inv by (simp add: uv_inv_def)
      then show "us_conns ?u j = None" by (cases "j = i") (simp_all add: unlinked_other(1))
    qed
  qed
  ultimately show ?thesis unfolding rem by auto
qed


section \<open>The other events\<close>

lemma stream_closed_set [simp]: "stream_closed (c\<lparr>sc_status := w OR status_streamClosed\<rparr>)"
proof -
  have "bit ((w OR 2) AND 2) 1" by (simp add: bit_simps)
  then have "(w OR 2) AND 2 \<noteq> 0" by auto
  then show ?thesis by (simp add: stream_closed_def status_streamClosed_def)
qed

lemma stream_closed_other [simp]:
  "stream_closed (c\<lparr>sc_attached := b\<rparr>) = stream_closed c" "stream_closed (c\<lparr>sc_data := b\<rparr>) = stream_closed c"
  "stream_closed (c\<lparr>sc_prev := q\<rparr>) = stream_closed c" "stream_closed (c\<lparr>sc_next := q\<rparr>) = stream_closed c"
  by (simp_all add: stream_closed_def)

lemma uv_inv_close:
  assumes inv: "uv_inv xs s" and i: "us_conns s i = Some c"
  shows "\<exists>s'. sockAbsIo1Close i s = Inr s' \<and> uv_inv xs s' \<and> us_log s' = us_log s \<and> us_freed s' = us_freed s
     \<and> set (us_closing s') = insert i (set (us_closing s))"
proof (cases "stream_closed c")
  case True
  then have "i \<in> set (us_closing s)" using inv i by (auto simp: uv_inv_def conn_ok_def)
  with True inv i show ?thesis by (auto simp: sockAbsIo1Close_def conn_get_def)
next
  case False
  let ?c = "c\<lparr>sc_status := sc_status c OR status_streamClosed\<rparr>"
  let ?s = "s\<lparr>us_conns := (us_conns s)(i \<mapsto> ?c), us_closing := us_closing s @ [i]\<rparr>"
  have ni: "i \<notin> set (us_closing s)" "i \<in> set xs" "\<not> us_freed s"
    using inv i False by (auto simp: uv_inv_def conn_ok_def)
  from inv obtain n l where seg: "dllseg (us_conns s) None n xs l None" "\<not> us_freed s \<longrightarrow> us_accepted s = n"
    by (auto simp: uv_inv_def)
  have "dllseg (us_conns ?s) None n xs l None"
    using seg(1) by (rule dllseg_cong) (use i in auto)
  with seg(2) inv i ni have "uv_inv xs ?s"
    unfolding uv_inv_def by (auto simp: conn_ok_def)
  moreover have "sockAbsIo1Close i s = Inr ?s"
    using False i by (simp add: sockAbsIo1Close_def conn_get_def conn_upd_def)
  ultimately show ?thesis by auto
qed

lemma uv_inv_connect:
  assumes inv: "uv_inv xs s" and up: "us_listening s"
  shows "if ty = UV_OTHER then uvListenConnectionCb jk ty r s = Inl Abort
    else \<exists>s' c. uvListenConnectionCb jk ty r s = Inr s' \<and> uv_inv (us_fresh s # xs) s'
       \<and> us_conns s' (us_fresh s) = Some c \<and> sc_data c = (0 \<le> r)
       \<and> us_log s' = us_log s @ RpcNew (us_fresh s) # (if 0 \<le> r then [RpcStart (us_fresh s)] else [])"
proof -
  let ?i = "us_fresh s"
  have live: "\<not> us_freed s" using inv up by (auto simp: uv_inv_def)
  from inv live obtain l where seg: "dllseg (us_conns s) None (us_accepted s) xs l None" by (auto simp: uv_inv_def)
  have fresh: "us_conns s ?i = None" "?i \<notin> set xs" "?i \<notin> set (us_closing s)" using inv by (auto simp: uv_inv_def)
  let ?new = "(sockconn_zero jk)\<lparr>sc_attached := True, sc_next := us_accepted s\<rparr>"
  let ?old = "case us_accepted s of None \<Rightarrow> us_conns s
     | Some h \<Rightarrow> (us_conns s)(h := map_option (\<lambda>c. c\<lparr>sc_prev := Some ?i\<rparr>) (us_conns s h))"
  let ?s = "s\<lparr>us_fresh := ?i + 1, us_log := us_log s @ [RpcNew ?i], us_accepted := Some ?i,
     us_conns := ?old(?i \<mapsto> ?new)\<rparr>"
  have head: "us_accepted s = (if xs = [] then None else Some (hd xs))" using dllseg_ends [OF seg] by simp
  have ex: "\<forall>h. us_accepted s = Some h \<longrightarrow> h \<in> set xs \<and> us_conns s h \<noteq> None"
    using head inv by (auto simp: uv_inv_def)
  have build: "buildLibuvSockconn jk s = Inr (?i, ?s)"
    using ex by (cases "us_accepted s") (auto simp: buildLibuvSockconn_def conn_upd_def conn_get_def Let_def sockconn_zero_def)
  have old: "?old j = None \<longleftrightarrow> us_conns s j = None"
    "?old j = Some c' \<Longrightarrow> \<exists>c. us_conns s j = Some c \<and> sc_attached c' = sc_attached c \<and> stream_closed c' = stream_closed c" for j c'
    by (auto split: option.splits if_splits)
  have seg': "\<exists>l'. dllseg ?old (Some ?i) (us_accepted s) xs l' None"
  proof (cases xs)
    case (Cons x xs')
    then obtain c where "us_conns s x = Some c" using seg by auto
    with dllseg_set_prev [of "us_conns s" None "us_accepted s" x xs' l None c "Some ?i"] seg Cons head inv
    show ?thesis by (auto simp: uv_inv_def)
  qed (use head in auto)
  then obtain l' where "dllseg (?old(?i \<mapsto> ?new)) None (Some ?i) (?i # xs) l' None"
    using fresh(2) by (auto intro: dllseg_upd_other simp: sockconn_zero_def)
  then have inv': "uv_inv (?i # xs) ?s"
    unfolding uv_inv_def
  proof (intro conjI)
    show "\<forall>j. j \<in> set (?i # xs) \<longleftrightarrow> us_conns ?s j \<noteq> None"
    proof
      fix j
      have "j \<in> set xs \<longleftrightarrow> us_conns s j \<noteq> None" using inv by (simp add: uv_inv_def)
      then show "j \<in> set (?i # xs) \<longleftrightarrow> us_conns ?s j \<noteq> None"
        using old(1) [of j] by (cases "j = ?i") (simp_all del: not_None_eq)
    qed
    show "\<forall>j c. us_conns ?s j = Some c \<longrightarrow> conn_ok (\<not> us_freed ?s) (j \<in> set (us_closing ?s)) c"
    proof (intro allI impI)
      fix j c' assume j: "us_conns ?s j = Some c'"
      show "conn_ok (\<not> us_freed ?s) (j \<in> set (us_closing ?s)) c'"
      proof (cases "j = ?i")
        case True
        with j fresh live show ?thesis by (auto simp: conn_ok_def stream_closed_def sockconn_zero_def)
      next
        case False
        with old(2) [of j c'] j inv show ?thesis by (auto simp: uv_inv_def conn_ok_def)
      qed
    qed
    show "\<forall>j \<ge> us_fresh ?s. us_conns ?s j = None" using inv old(1) by (auto simp: uv_inv_def)
  qed (use inv fresh live in \<open>auto simp: uv_inv_def\<close>)
  let ?t = "?s\<lparr>us_conns := (us_conns ?s)(?i \<mapsto> ?new\<lparr>sc_data := True\<rparr>), us_log := us_log ?s @ [RpcStart ?i]\<rparr>"
  have "uv_inv (?i # xs) ?t"
    by (rule uv_inv_cong [OF inv', of ?i ?new]) simp_all
  have "uv_inv (?i # xs) (?s\<lparr>us_errormsg := Some ''libuv accept error''\<rparr>)" using inv' by (simp add: uv_inv_def)
  with build \<open>uv_inv (?i # xs) ?t\<close> show ?thesis
    by (auto simp: uvListenConnectionCb_def conn_upd_def conn_get_def sockconn_zero_def)
qed


section \<open>Deleting the server\<close>

definition detached :: "sockconn \<Rightarrow> sockconn" where
  "detached c = c\<lparr>sc_attached := False,
     sc_status := if stream_closed c then sc_status c else sc_status c OR status_streamClosed\<rparr>"

lemma detached_links [simp]: "sc_prev (detached c) = sc_prev c" "sc_next (detached c) = sc_next c"
  "\<not> sc_attached (detached c)" "sc_data (detached c) = sc_data c"
  by (simp_all add: detached_def)

lemma detached_closed [simp]: "stream_closed (detached c)"
proof (cases "stream_closed c")
  case True
  then show ?thesis by (simp add: detached_def stream_closed_def)
next
  case False
  then have "detached c = (c\<lparr>sc_attached := False\<rparr>)\<lparr>sc_status := sc_status c OR status_streamClosed\<rparr>"
    by (simp add: detached_def)
  then show ?thesis by (simp only: stream_closed_set)
qed

definition still_open :: "uvserver \<Rightarrow> connid \<Rightarrow> bool" where
  "still_open s i \<longleftrightarrow> (\<exists>c. us_conns s i = Some c \<and> \<not> stream_closed c)"

lemma detach_one:
  assumes "us_conns s i = Some c"
  shows "bindR (conn_upd i (\<lambda>c. c\<lparr>sc_attached := False\<rparr>) s) (sockAbsIo1Close i) =
    Inr (s\<lparr>us_conns := (us_conns s)(i \<mapsto> detached c), us_closing := us_closing s @ filter (still_open s) [i]\<rparr>)"
  using assms by (auto simp: conn_upd_def conn_get_def sockAbsIo1Close_def detached_def still_open_def)

lemma close_all_segment:
  "dllseg (us_conns s) p n xs l None \<Longrightarrow> distinct xs \<Longrightarrow>
     close_all n s = Some (Inr (s\<lparr>us_conns := (\<lambda>j. if j \<in> set xs then map_option detached (us_conns s j) else us_conns s j),
       us_closing := us_closing s @ filter (still_open s) xs\<rparr>))"
proof (induction xs arbitrary: p n s)
  case Nil
  then show ?case by (simp add: close_all.simps)
next
  case (Cons x xs)
  then obtain c where c: "n = Some x" "us_conns s x = Some c" "dllseg (us_conns s) (Some x) (sc_next c) xs l None"
    by auto
  let ?s = "s\<lparr>us_conns := (us_conns s)(x \<mapsto> detached c), us_closing := us_closing s @ filter (still_open s) [x]\<rparr>"
  have step: "close_all n s = close_all (sc_next c) ?s"
    by (subst close_all.simps) (simp add: c conn_get_def detach_one [OF c(2)])
  have "dllseg (us_conns ?s) (Some x) (sc_next c) xs l None"
    using c(3) Cons.prems(2) by (auto intro: dllseg_upd_other)
  from Cons.IH [OF this] Cons.prems(2) have ih:
    "close_all (sc_next c) ?s = Some (Inr (?s\<lparr>us_conns := (\<lambda>j. if j \<in> set xs then map_option detached (us_conns ?s j)
         else us_conns ?s j), us_closing := us_closing ?s @ filter (still_open ?s) xs\<rparr>))" by simp
  have "filter (still_open ?s) xs = filter (still_open s) xs"
    using Cons.prems(2) by (intro filter_cong) (auto simp: still_open_def)
  moreover have "(\<lambda>j. if j \<in> set xs then map_option detached (us_conns ?s j) else us_conns ?s j) =
      (\<lambda>j. if j \<in> set (x # xs) then map_option detached (us_conns s j) else us_conns s j)"
    using Cons.prems(2) c(2) by (auto simp: fun_eq_iff)
  ultimately show ?case unfolding step ih by simp
qed

lemma uv_inv_delete:
  assumes inv: "uv_inv xs s" and live: "\<not> us_freed s"
  shows "\<exists>s'. uv_event Delete s = Some (Inr s') \<and> uv_inv xs s' \<and> us_freed s' \<and> us_log s' = us_log s \<and>
     us_closing s' = us_closing s @ filter (still_open s) xs \<and>
     us_conns s' = (\<lambda>j. map_option detached (us_conns s j))"
proof -
  let ?t = "s\<lparr>us_listening := False\<rparr>"
  from inv live obtain l where seg: "dllseg (us_conns ?t) None (us_accepted s) xs l None"
    and d: "distinct xs" by (auto simp: uv_inv_def)
  have mem: "\<And>j. j \<in> set xs \<longleftrightarrow> us_conns s j \<noteq> None" using inv by (simp add: uv_inv_def)
  let ?m = "\<lambda>j. map_option detached (us_conns s j)"
  have "(\<lambda>j. if j \<in> set xs then map_option detached (us_conns ?t j) else us_conns ?t j) = ?m"
    using mem by (auto simp: fun_eq_iff)
  moreover have "filter (still_open ?t) xs = filter (still_open s) xs"
    by (intro filter_cong) (auto simp: still_open_def)
  ultimately have run: "uv_event Delete s = Some (Inr (?t\<lparr>us_conns := ?m,
      us_closing := us_closing s @ filter (still_open s) xs, us_freed := True\<rparr>))"
    using close_all_segment [OF seg d] by (simp add: pxprpc_libuv_server_delete_def)
  have cl: "still_open s j \<longleftrightarrow> j \<notin> set (us_closing s)" if "j \<in> set xs" for j
    using inv that mem by (auto simp: uv_inv_def still_open_def conn_ok_def)
  then have closing: "set (us_closing s @ filter (still_open s) xs) = set xs"
    "distinct (us_closing s @ filter (still_open s) xs)"
    using inv by (auto simp: uv_inv_def)
  have "dllseg ?m None (us_accepted s) xs l None"
    using seg by (rule dllseg_cong) (simp add: links_def option.map_comp comp_def)
  then have "uv_inv xs (?t\<lparr>us_conns := ?m, us_closing := us_closing s @ filter (still_open s) xs, us_freed := True\<rparr>)"
    using inv closing mem unfolding uv_inv_def by (auto simp: conn_ok_def)
  with run show ?thesis by auto
qed

section \<open>Reachable states\<close>

lemma uv_inv_start:
  "uv_inv [] (pxprpc_libuv_server_start (pxprpc_libuv_server_new loop_of junk loop listener funcmap))"
  by (simp add: uv_inv_def pxprpc_libuv_server_start_def pxprpc_libuv_server_new_def)

lemma freed_not_listening: "uv_inv xs s \<Longrightarrow> us_listening s \<Longrightarrow> \<not> us_freed s"
  by (auto simp: uv_inv_def)

lemma uv_event_inv:
  assumes inv: "uv_inv xs s" and en: "uv_enabled e s" and run: "uv_event e s = Some (Inr s')"
  shows "\<exists>xs. uv_inv xs s'"
proof (cases e)
  case (Connect jk ty r)
  with uv_inv_connect [OF inv, of ty jk r] en run show ?thesis by (cases "ty = UV_OTHER") auto
next
  case (IoClose i)
  with en obtain c where "us_conns s i = Some c" by auto
  with uv_inv_close [OF inv this] IoClose run show ?thesis by auto
next
  case (Closed i)
  then have cl: "i \<in> set (us_closing s)" using en by simp
  then obtain sc where "us_conns s i = Some sc" using inv unfolding uv_inv_def by blast
  with uv_inv_free [OF inv this cl] Closed run show ?thesis
    by (auto simp: freeLibuvSockconn2_def split: if_splits)
next
  case Delete
  with uv_inv_delete [OF inv] en run show ?thesis by auto
qed

lemma uv_reach_inv: "uv_reach s \<Longrightarrow> \<exists>xs. uv_inv xs s"
  by (induction rule: uv_reach.induct) (blast intro: uv_inv_start uv_event_inv)+


definition all_data :: "uvserver \<Rightarrow> bool" where
  "all_data s \<longleftrightarrow> (\<forall>i c. us_conns s i = Some c \<longrightarrow> sc_data c)"

definition close_callback :: "connid \<Rightarrow> uvserver \<Rightarrow> uvserver res" where
  "close_callback i s = freeLibuvSockconn2 i (s\<lparr>us_closing := remove1 i (us_closing s)\<rparr>)"

lemma freeLibuvSockconn_conns:
  assumes "freeLibuvSockconn i s = Inr s'" and "us_conns s i = Some sc"
  shows "us_conns s' j = (if j = i then None else us_conns s' j)"
    and "us_conns s' j = Some c' \<Longrightarrow> \<exists>c. us_conns s j = Some c \<and> sc_data c' = sc_data c"
  using assms
  by (auto simp: freeLibuvSockconn_def conn_get_def conn_upd_def split: option.splits if_splits)

lemma closing_empties:
  "us_closing s = is \<Longrightarrow> uv_inv xs s \<Longrightarrow> us_freed s \<Longrightarrow> all_data s \<Longrightarrow>
     \<exists>s'. foldR close_callback is s = Inr s' \<and> us_conns s' = (\<lambda>_. None) \<and> us_log s' = us_log s @ map RpcDelete is"
proof (induction "is" arbitrary: s xs)
  case Nil
  then have "us_conns s = (\<lambda>_. None)" by (auto simp: uv_inv_def)
  then show ?case by simp
next
  case (Cons i "is")
  then have cl: "i \<in> set (us_closing s)" by simp
  with Cons.prems(2) obtain sc where i: "us_conns s i = Some sc" unfolding uv_inv_def by blast
  let ?s = "s\<lparr>us_closing := remove1 i (us_closing s)\<rparr>"
  from uv_inv_free [OF Cons.prems(2) i cl] obtain t where t: "freeLibuvSockconn i ?s = Inr t" "uv_inv (remove1 i xs) t"
    "us_closing t = is" "us_freed t" "us_log t = us_log s @ [RpcDelete i]" using Cons.prems(1,3) by auto
  have "all_data t"
    using freeLibuvSockconn_conns(2) [OF t(1), of sc] i Cons.prems(4) by (fastforce simp: all_data_def)
  with Cons.IH [OF t(3,2,4)] obtain u where u: "foldR close_callback is t = Inr u" "us_conns u = (\<lambda>_. None)"
    "us_log u = us_log t @ map RpcDelete is" by blast
  have "close_callback i s = Inr t"
    using t(1) i Cons.prems(4) by (simp add: close_callback_def freeLibuvSockconn2_def conn_get_def all_data_def)
  with u t(5) show ?case by auto
qed

fun uv_fault :: "uv_input \<Rightarrow> uvserver \<Rightarrow> fault option" where
  "uv_fault (Connect jk ty r) s = (if ty = UV_OTHER then Some Abort else None)"
| "uv_fault (Closed i) s = (if sc_data (the (us_conns s i)) then None else Some NullDeref)"
| "uv_fault _ s = None"

section \<open>Properties\<close>

text \<open>
  C26. The accepted connections always form a proper doubly linked list from the server's head, and no
  event the environment may cause uses memory that was freed, follows a link for ever, or frees a
  connection twice.  The only faults left are the abort on an unknown stream type and the close
  callback of a connection whose accept failed: its handle never got its user data, so the callback
  works on a null pointer.
\<close>

theorem connection_list_safe:
  assumes "uv_reach s" and "uv_enabled e s"
  shows "(\<exists>xs l. distinct xs \<and> (\<forall>i. i \<in> set xs \<longleftrightarrow> us_conns s i \<noteq> None) \<and>
      (\<not> us_freed s \<longrightarrow> dllseg (us_conns s) None (us_accepted s) xs l None)) \<and>
    (case uv_fault e s of
       Some f \<Rightarrow> uv_event e s = Some (Inl f)
     | None \<Rightarrow> \<exists>s'. uv_event e s = Some (Inr s'))"
proof -
  from uv_reach_inv [OF assms(1)] obtain xs where inv: "uv_inv xs s" by blast
  then have list: "\<exists>xs l. distinct xs \<and> (\<forall>i. i \<in> set xs \<longleftrightarrow> us_conns s i \<noteq> None) \<and>
      (\<not> us_freed s \<longrightarrow> dllseg (us_conns s) None (us_accepted s) xs l None)"
    unfolding uv_inv_def by blast
  show ?thesis
  proof (cases e)
    case (Connect jk ty r)
    with uv_inv_connect [OF inv, of ty jk r] assms(2) list show ?thesis by (cases "ty = UV_OTHER") auto
  next
    case (IoClose i)
    with assms(2) obtain c where "us_conns s i = Some c" by auto
    with uv_inv_close [OF inv this] IoClose list show ?thesis by auto
  next
    case (Closed i)
    then have cl: "i \<in> set (us_closing s)" using assms(2) by simp
    then obtain sc where sc: "us_conns s i = Some sc" using inv unfolding uv_inv_def by blast
    with uv_inv_free [OF inv sc cl] Closed list show ?thesis
      by (auto simp: freeLibuvSockconn2_def conn_get_def)
  next
    case Delete
    with uv_inv_delete [OF inv] assms(2) list show ?thesis by auto
  qed
qed

definition ex_server :: uvserver where
  "ex_server = pxprpc_libuv_server_start (pxprpc_libuv_server_new id 0 None 3 0)"

definition run_uv :: "uv_input list \<Rightarrow> uvserver res" where
  "run_uv es = foldR (\<lambda>e s. if uv_enabled e s then (case uv_event e s of None \<Rightarrow> Inl Uninit | Some r \<Rightarrow> r) else Inl Uninit)
     es ex_server"

lemma run_uv_reach: "run_uv es = Inr s \<Longrightarrow> uv_reach s"
  unfolding run_uv_def ex_server_def
  by (erule foldR_inv [where P = uv_reach]) (auto split: if_splits option.splits intro: uv_reach.intros)

theorem connection_list_safe_witness:
  "\<exists>s. uv_reach s \<and> uv_enabled (Closed 0) s \<and> uv_event (Closed 0) s = Some (Inl NullDeref)"
proof -
  obtain s where s: "run_uv [Connect 0 UV_TCP (-1), IoClose 0] = Inr s" "us_closing s = [0]"
      "\<not> sc_data (the (us_conns s 0))"
  proof -
    have "case run_uv [Connect 0 UV_TCP (-1), IoClose 0] of Inl _ \<Rightarrow> False
       | Inr s \<Rightarrow> us_closing s = [0] \<and> \<not> sc_data (the (us_conns s 0))"
      by (simp add: run_uv_def ex_server_def pxprpc_libuv_server_start_def pxprpc_libuv_server_new_def
          uvListenConnectionCb_def buildLibuvSockconn_def Let_def sockAbsIo1Close_def conn_get_def conn_upd_def
          stream_closed_def sockconn_zero_def)
    then show ?thesis using that by (auto split: sum.splits)
  qed
  from run_uv_reach [OF s(1)] connection_list_safe [OF run_uv_reach [OF s(1)], of "Closed 0"] s(2,3)
  show ?thesis by auto
qed

text \<open>
  C27. Deleting the server terminates: in every reachable state the loop over the list ends, after it has
  detached every connection and closed each of them that was not closing already, exactly once.  When
  the close callbacks have run, every connection has been unlinked and freed and its rpc context
  deleted, provided no accept has failed.
\<close>

theorem server_delete_terminates:
  assumes "uv_reach s" and "\<not> us_freed s"
  shows "\<exists>s'. uv_event Delete s = Some (Inr s') \<and> us_freed s' \<and>
     distinct (us_closing s') \<and> (\<forall>i. i \<in> set (us_closing s') \<longleftrightarrow> us_conns s i \<noteq> None) \<and>
     (\<forall>i c. us_conns s' i = Some c \<longrightarrow> \<not> sc_attached c \<and> stream_closed c) \<and>
     (all_data s \<longrightarrow> (\<exists>s''. foldR close_callback (us_closing s') s' = Inr s'' \<and> us_conns s'' = (\<lambda>_. None) \<and>
         us_log s'' = us_log s @ map RpcDelete (us_closing s')))"
proof -
  from uv_reach_inv [OF assms(1)] obtain xs where inv: "uv_inv xs s" by blast
  from uv_inv_delete [OF this assms(2)] obtain s' where s': "uv_event Delete s = Some (Inr s')" "uv_inv xs s'" "us_freed s'"
    "us_log s' = us_log s" "us_conns s' = (\<lambda>j. map_option detached (us_conns s j))" by blast
  have "set (us_closing s') = set xs" "distinct (us_closing s')" using s'(2,3) by (simp_all add: uv_inv_def)
  moreover have "\<And>i. i \<in> set xs \<longleftrightarrow> us_conns s i \<noteq> None" using inv by (simp add: uv_inv_def)
  moreover have "all_data s'" if "all_data s" using that s'(5) by (auto simp: all_data_def)
  with closing_empties [OF refl s'(2,3)] s'(4) have "all_data s \<longrightarrow> (\<exists>s''. foldR close_callback (us_closing s') s' = Inr s''
      \<and> us_conns s'' = (\<lambda>_. None) \<and> us_log s'' = us_log s @ map RpcDelete (us_closing s'))" by simp
  ultimately show ?thesis using s'(1,3,5) by (intro exI [of _ s']) auto
qed

theorem server_delete_terminates_witness:
  "\<exists>s s'. uv_reach s \<and> us_conns s 0 \<noteq> None \<and> uv_event Delete s = Some (Inr s') \<and> 0 \<in> set (us_closing s')"
proof -
  obtain s where s: "run_uv [Connect 0 UV_TCP 0] = Inr s" "us_conns s 0 \<noteq> None" "\<not> us_freed s"
  proof -
    have "case run_uv [Connect 0 UV_TCP 0] of Inl _ \<Rightarrow> False | Inr s \<Rightarrow> us_conns s 0 \<noteq> None \<and> \<not> us_freed s"
      by (simp add: run_uv_def ex_server_def pxprpc_libuv_server_start_def pxprpc_libuv_server_new_def
          uvListenConnectionCb_def buildLibuvSockconn_def Let_def conn_get_def conn_upd_def sockconn_zero_def)
    then show ?thesis using that by (auto split: sum.splits)
  qed
  from server_delete_terminates [OF run_uv_reach [OF s(1)] s(3)] run_uv_reach [OF s(1)] s(2) show ?thesis by blast
qed

end
