(* ===== verification/RtBridge.thy ===== *)
theory RtBridge
  imports Prelude "HOL-Library.Multiset"
begin

text \<open>
  \<open>runtime_bridge/src/pxprpc_rtbridge.c\<close>: functions handed to the loop thread, the blocking calls other
  threads make through them, and the life of the loop.  A function is either the handler of a blocking
  request or one of another client.  The mutex makes the queue operations atomic, so each is one step;
  the steps of the callers and of the loop thread interleave freely.  The semaphore of a request is its
  counter, and its memory is the caller's stack frame: it exists until the call returns.  Connecting by
  name (\<open>pxprpc_pipe_connect\<close>) is the parameter \<open>connect\<close>; an io of the pipe completes a receive or a send
  by an event that carries the error it left in \<open>receive_error\<close> or \<open>send_error\<close>.
\<close>

section \<open>State\<close>

type_synonym reqid = nat
type_synonym ioid = nat

datatype task = IoHandle reqid | RunFn nat

datatype executor = AsyncExec | OtherExec

record ioreq =
  io_io :: "ioid option"
  io_rs :: nat
  io_sem :: nat
  io_err :: "string option"
  io_servname :: string

datatype rb_event =
    Posted task | Ran task | IoReceive reqid | IoSend reqid | IoClose ioid
  | Returned reqid "string option" "ioid option" | InitResult "string option"

record rtbridge =
  rb_loop :: "nat option"
  rb_queue :: "task list"                  \<comment> \<open>\<open>_rtbasyncqueue\<close>, along \<open>next\<close>\<close>
  rb_batch :: "task list"                  \<comment> \<open>\<open>queue\<close> of the running \<open>_rtbasyncb\<close>\<close>
  rb_wake :: bool                          \<comment> \<open>\<open>uv_async_send\<close> not yet answered\<close>
  rb_executor :: "executor option"
  rb_foreign :: "task list"                \<comment> \<open>handed to an executor set by others\<close>
  rb_stop :: bool
  rb_reqs :: "reqid \<Rightarrow> ioreq option"
  rb_fresh :: reqid
  rb_doing :: "reqid list"                 \<comment> \<open>receives and sends the io has not completed\<close>
  rb_threads :: nat                        \<comment> \<open>created, \<open>_newloopthread\<close> not yet begun\<close>
  rb_run_state :: nat
  rb_log :: "rb_event list"

definition rtbridge_zero :: rtbridge where
  "rtbridge_zero =
     \<lparr>rb_loop = None, rb_queue = [], rb_batch = [], rb_wake = False, rb_executor = None, rb_foreign = [],
      rb_stop = False, rb_reqs = (\<lambda>_. None), rb_fresh = 0, rb_doing = [], rb_threads = 0, rb_run_state = 0,
      rb_log = []\<rparr>"

definition rb_say :: "rb_event \<Rightarrow> rtbridge \<Rightarrow> rtbridge" where
  "rb_say e s = s\<lparr>rb_log := rb_log s @ [e]\<rparr>"

section \<open>Functions for the loop thread\<close>

definition rtbridge_async_exec :: "task \<Rightarrow> rtbridge \<Rightarrow> rtbridge" where
  "rtbridge_async_exec f s = rb_say (Posted f) (s\<lparr>rb_queue := f # rb_queue s, rb_wake := True\<rparr>)"

definition pipe_executor :: "task \<Rightarrow> rtbridge \<Rightarrow> rtbridge res" where
  "pipe_executor f s =
     (case rb_executor s of
        None \<Rightarrow> Inl NullDeref
      | Some AsyncExec \<Rightarrow> Inr (rtbridge_async_exec f s)
      | Some OtherExec \<Rightarrow> Inr (s\<lparr>rb_foreign := rb_foreign s @ [f]\<rparr>))"

text \<open>\<open>_rtbasyncb\<close>: it takes the whole queue and then walks along it.\<close>

definition rtbasyncb_take :: "rtbridge \<Rightarrow> rtbridge" where
  "rtbasyncb_take s = s\<lparr>rb_batch := rb_queue s, rb_queue := [], rb_wake := False\<rparr>"

section \<open>Blocking requests\<close>

definition set_ioreq :: "reqid \<Rightarrow> ioreq \<Rightarrow> rtbridge \<Rightarrow> rtbridge" where
  "set_ioreq r q s = s\<lparr>rb_reqs := (rb_reqs s)(r \<mapsto> q)\<rparr>"

definition ioreq_at :: "reqid \<Rightarrow> rtbridge \<Rightarrow> ioreq res" where
  "ioreq_at r s = (case rb_reqs s r of None \<Rightarrow> Inl UseAfterFree | Some q \<Rightarrow> Inr q)"

definition sem_post :: "reqid \<Rightarrow> rtbridge \<Rightarrow> rtbridge res" where
  "sem_post r s = bindR (ioreq_at r s) (\<lambda>q. Inr (set_ioreq r (q\<lparr>io_sem := io_sem q + 1\<rparr>) s))"

text \<open>\<open>err\<close> is what the io has in \<open>receive_error\<close> or \<open>send_error\<close>.\<close>

definition rtbiocb :: "reqid \<Rightarrow> string option \<Rightarrow> rtbridge \<Rightarrow> rtbridge res" where
  "rtbiocb r err s =
     bindR (ioreq_at r s) (\<lambda>q.
     sem_post r (if io_rs q = 1 \<or> io_rs q = 2 then set_ioreq r (q\<lparr>io_err := err\<rparr>) s else s))"

definition rtbiohandle :: "(string \<Rightarrow> ioid option) \<Rightarrow> reqid \<Rightarrow> rtbridge \<Rightarrow> rtbridge res" where
  "rtbiohandle connect r s =
     bindR (ioreq_at r s) (\<lambda>q.
     let q = q\<lparr>io_err := None\<rparr>; s = set_ioreq r q s
     in if io_rs q = 1 then
          (case io_io q of None \<Rightarrow> Inl NullDeref
           | Some i \<Rightarrow> Inr (rb_say (IoReceive r) (s\<lparr>rb_doing := rb_doing s @ [r]\<rparr>)))
        else if io_rs q = 2 then
          (case io_io q of None \<Rightarrow> Inl NullDeref
           | Some i \<Rightarrow> Inr (rb_say (IoSend r) (s\<lparr>rb_doing := rb_doing s @ [r]\<rparr>)))
        else if io_rs q = 3 then rtbiocb r None (set_ioreq r (q\<lparr>io_io := connect (io_servname q)\<rparr>) s)
        else if io_rs q = 4 then
          (case io_io q of None \<Rightarrow> Inl NullDeref | Some i \<Rightarrow> rtbiocb r None (rb_say (IoClose i) s))
        else if io_rs q = 6 then sem_post r (s\<lparr>rb_stop := True\<rparr>)
        else Inr s)"

text \<open>\<open>_rtbioreqdispatch\<close> up to the wait, and from the wait to the return.\<close>

definition rtbioreqdispatch :: "nat \<Rightarrow> ioid option \<Rightarrow> string \<Rightarrow> rtbridge \<Rightarrow> rtbridge res" where
  "rtbioreqdispatch rs io name s =
     (let r = rb_fresh s;
          s = set_ioreq r \<lparr>io_io = io, io_rs = rs, io_sem = 0, io_err = None, io_servname = name\<rparr>
                (s\<lparr>rb_fresh := r + 1\<rparr>)
      in pipe_executor (IoHandle r) s)"

definition rtbioreqdispatch_return :: "reqid \<Rightarrow> rtbridge \<Rightarrow> rtbridge res" where
  "rtbioreqdispatch_return r s =
     bindR (ioreq_at r s) (\<lambda>q.
     Inr (rb_say (Returned r (io_err q) (io_io q)) (s\<lparr>rb_reqs := (rb_reqs s)(r := None)\<rparr>)))"

definition rtbridge_brecv :: "ioid \<Rightarrow> rtbridge \<Rightarrow> rtbridge res" where
  "rtbridge_brecv io = rtbioreqdispatch 1 (Some io) []"

definition rtbridge_bsend :: "ioid \<Rightarrow> rtbridge \<Rightarrow> rtbridge res" where
  "rtbridge_bsend io = rtbioreqdispatch 2 (Some io) []"

definition rtbridge_pipe_connect :: "string \<Rightarrow> rtbridge \<Rightarrow> rtbridge res" where
  "rtbridge_pipe_connect name = rtbioreqdispatch 3 None name"

definition rtbridge_io_close :: "ioid \<Rightarrow> rtbridge \<Rightarrow> rtbridge res" where
  "rtbridge_io_close io = rtbioreqdispatch 4 (Some io) []"

definition rtbridge_deinit :: "rtbridge \<Rightarrow> rtbridge res" where
  "rtbridge_deinit = rtbioreqdispatch 6 None []"

section \<open>The loop\<close>

definition rtbridge_init_uv :: "nat \<Rightarrow> rtbridge \<Rightarrow> string option \<times> rtbridge" where
  "rtbridge_init_uv uvloop s =
     (if rb_loop s = None
      then (None, s\<lparr>rb_loop := Some uvloop, rb_wake := False, rb_stop := False,
                    rb_executor := (if rb_executor s = None then Some AsyncExec else rb_executor s)\<rparr>)
      else (Some ''inited'', s))"

text \<open>
  \<open>_newloopthread\<close> up to \<open>uv_run\<close>, with the new loop \<open>l\<close>; its error branch closes and frees the loop that
  another thread has set, but it cannot be taken: \<open>rtbloop\<close> was null just before.
\<close>

definition newloopthread_start :: "nat \<Rightarrow> rtbridge \<Rightarrow> rtbridge" where
  "newloopthread_start l s =
     (if rb_loop s \<noteq> None then rb_say (InitResult (Some ''inited'')) s
      else case rtbridge_init_uv l s of
             (Some err, s) \<Rightarrow> rb_say (InitResult (Some err)) (s\<lparr>rb_loop := None\<rparr>)
           | (None, s) \<Rightarrow> rb_say (InitResult None) (s\<lparr>rb_run_state := 2\<rparr>))"

text \<open>From the return of \<open>uv_run\<close> to the end of the thread; no callback of the bridge runs in between.\<close>

definition newloopthread_end :: "rtbridge \<Rightarrow> rtbridge" where
  "newloopthread_end s = s\<lparr>rb_executor := None, rb_wake := False, rb_stop := False, rb_loop := None, rb_run_state := 0\<rparr>"

definition rtbridge_init_and_run :: "rtbridge \<Rightarrow> rtbridge" where
  "rtbridge_init_and_run s =
     (if rb_loop s \<noteq> None then rb_say (InitResult (Some ''inited'')) s else s\<lparr>rb_threads := rb_threads s + 1\<rparr>)"

definition rtbridge_get_current_state :: "rtbridge \<Rightarrow> nat option \<times> nat" where
  "rtbridge_get_current_state s = (rb_loop s, rb_run_state s)"

section \<open>Steps\<close>

datatype rb_input =
    Post nat                      \<comment> \<open>\<open>pxprpc_pipe_executor\<close> called by any thread\<close>
  | Recv ioid | Send ioid | Connect string | Close ioid | Deinit
  | Return reqid
  | InitUv nat | InitAndRun | ThreadStart nat
  | Wake | RunNext | RunForeign | Complete reqid "string option" | LoopEnd

definition run_task :: "(string \<Rightarrow> ioid option) \<Rightarrow> task \<Rightarrow> rtbridge \<Rightarrow> rtbridge res" where
  "run_task connect f s =
     (case f of IoHandle r \<Rightarrow> rtbiohandle connect r (rb_say (Ran f) s) | RunFn n \<Rightarrow> Inr (rb_say (Ran f) s))"

fun rb_step :: "(string \<Rightarrow> ioid option) \<Rightarrow> rb_input \<Rightarrow> rtbridge \<Rightarrow> rtbridge res" where
  "rb_step connect (Post n) s = pipe_executor (RunFn n) s"
| "rb_step connect (Recv io) s = rtbridge_brecv io s"
| "rb_step connect (Send io) s = rtbridge_bsend io s"
| "rb_step connect (Connect name) s = rtbridge_pipe_connect name s"
| "rb_step connect (Close io) s = rtbridge_io_close io s"
| "rb_step connect Deinit s = rtbridge_deinit s"
| "rb_step connect (Return r) s = rtbioreqdispatch_return r s"
| "rb_step connect (InitUv l) s = (let (err, s) = rtbridge_init_uv l s in Inr (rb_say (InitResult err) s))"
| "rb_step connect InitAndRun s = Inr (rtbridge_init_and_run s)"
| "rb_step connect (ThreadStart l) s = Inr (newloopthread_start l (s\<lparr>rb_threads := rb_threads s - 1\<rparr>))"
| "rb_step connect Wake s = Inr (rtbasyncb_take s)"
| "rb_step connect RunNext s =
     (case rb_batch s of [] \<Rightarrow> Inr s | f # fs \<Rightarrow> run_task connect f (s\<lparr>rb_batch := fs\<rparr>))"
| "rb_step connect RunForeign s =
     (case rb_foreign s of [] \<Rightarrow> Inr s
      | f # fs \<Rightarrow> (case f of IoHandle r \<Rightarrow> rtbiohandle connect r (s\<lparr>rb_foreign := fs\<rparr>) | RunFn n \<Rightarrow> Inr (s\<lparr>rb_foreign := fs\<rparr>)))"
| "rb_step connect (Complete r err) s = rtbiocb r err (s\<lparr>rb_doing := remove1 r (rb_doing s)\<rparr>)"
| "rb_step connect LoopEnd s = Inr (newloopthread_end s)"

fun rb_enabled :: "rb_input \<Rightarrow> rtbridge \<Rightarrow> bool" where
  "rb_enabled (Return r) s \<longleftrightarrow> (case rb_reqs s r of None \<Rightarrow> False | Some q \<Rightarrow> 0 < io_sem q)"
| "rb_enabled (ThreadStart l) s \<longleftrightarrow> 0 < rb_threads s"
| "rb_enabled Wake s \<longleftrightarrow> rb_loop s \<noteq> None \<and> rb_wake s \<and> rb_batch s = []"
| "rb_enabled RunNext s \<longleftrightarrow> rb_batch s \<noteq> []"
| "rb_enabled RunForeign s \<longleftrightarrow> rb_foreign s \<noteq> []"
| "rb_enabled (Complete r err) s \<longleftrightarrow> r \<in> set (rb_doing s)"
| "rb_enabled LoopEnd s \<longleftrightarrow> rb_stop s \<and> rb_batch s = [] \<and> rb_run_state s = 2"
| "rb_enabled _ s \<longleftrightarrow> True"

inductive rb_reach :: "(string \<Rightarrow> ioid option) \<Rightarrow> rtbridge \<Rightarrow> bool" for connect where
  start: "rb_reach connect rtbridge_zero"
| step: "rb_reach connect s \<Longrightarrow> rb_enabled e s \<Longrightarrow> rb_step connect e s = Inr s' \<Longrightarrow> rb_reach connect s'"


section \<open>The order of the functions\<close>

fun posted :: "rb_event list \<Rightarrow> task list" where
  "posted [] = []"
| "posted (Posted f # es) = f # posted es"
| "posted (_ # es) = posted es"

fun ran :: "rb_event list \<Rightarrow> task list" where
  "ran [] = []"
| "ran (Ran f # es) = f # ran es"
| "ran (_ # es) = ran es"

lemma posted_append [simp]: "posted (es @ es') = posted es @ posted es'"
  by (induction es rule: posted.induct) simp_all

lemma ran_append [simp]: "ran (es @ es') = ran es @ ran es'"
  by (induction es rule: ran.induct) simp_all

text \<open>The batches in which the functions were taken: each was posted in the opposite order.\<close>

definition order_ok :: "rtbridge \<Rightarrow> bool" where
  "order_ok s \<longleftrightarrow>
     (\<exists>segs. ran (rb_log s) @ rb_batch s = concat segs \<and> posted (rb_log s) = concat (map rev segs) @ rev (rb_queue s))"

lemma order_ok_post: "order_ok s \<Longrightarrow> order_ok (rtbridge_async_exec f s)"
  by (simp add: order_ok_def rtbridge_async_exec_def rb_say_def)

lemma order_ok_take: "order_ok s \<Longrightarrow> rb_batch s = [] \<Longrightarrow> order_ok (rtbasyncb_take s)"
proof -
  assume "order_ok s" and b: "rb_batch s = []"
  then obtain segs where "ran (rb_log s) = concat segs" "posted (rb_log s) = concat (map rev segs) @ rev (rb_queue s)"
    by (auto simp: order_ok_def)
  with b show ?thesis
    by (auto simp: order_ok_def rtbasyncb_take_def intro!: exI [of _ "segs @ [rb_queue s]"])
qed

text \<open>Steps that move no function keep the order.\<close>

definition same_tasks :: "rtbridge \<Rightarrow> rtbridge \<Rightarrow> bool" where
  "same_tasks s s' \<longleftrightarrow> rb_queue s' = rb_queue s \<and> rb_batch s' = rb_batch s \<and>
     posted (rb_log s') = posted (rb_log s) \<and> ran (rb_log s') = ran (rb_log s)"

lemma same_tasks_order: "same_tasks s s' \<Longrightarrow> order_ok s \<Longrightarrow> order_ok s'"
  by (simp add: same_tasks_def order_ok_def)

lemma same_tasks_trans: "same_tasks s t \<Longrightarrow> same_tasks t u \<Longrightarrow> same_tasks s u"
  by (simp add: same_tasks_def)

lemma rtbiocb_same: "rtbiocb r err s = Inr s' \<Longrightarrow> same_tasks s s'"
  by (auto simp: rtbiocb_def sem_post_def set_ioreq_def same_tasks_def split: if_splits)

lemma rtbiohandle_same: "rtbiohandle connect r s = Inr s' \<Longrightarrow> same_tasks s s'"
  by (auto simp: rtbiohandle_def Let_def rb_say_def set_ioreq_def sem_post_def same_tasks_def
      dest!: rtbiocb_same split: if_splits option.splits)

section \<open>One token per waiting call\<close>

text \<open>
  A call that waits has exactly one of: its handler in a queue, an operation of the io under way, a post
  of its semaphore.  \<open>M\<close> counts the tokens in the hand of the running code.
\<close>

definition tokens :: "rtbridge \<Rightarrow> reqid \<Rightarrow> nat" where
  "tokens s r =
     count (mset (rb_queue s @ rb_batch s @ rb_foreign s)) (IoHandle r) + count (mset (rb_doing s)) r
     + (case rb_reqs s r of None \<Rightarrow> 0 | Some q \<Rightarrow> io_sem q)"

definition ioreq_ok :: "ioreq \<Rightarrow> bool" where
  "ioreq_ok q \<longleftrightarrow> io_rs q \<in> {1, 2, 3, 4, 6} \<and> (io_rs q \<in> {1, 2, 4} \<longrightarrow> io_io q \<noteq> None)"

definition tokens_ok :: "reqid multiset \<Rightarrow> rtbridge \<Rightarrow> bool" where
  "tokens_ok M s \<longleftrightarrow>
     (\<forall>r. count M r + tokens s r = (if rb_reqs s r = None then 0 else 1)) \<and>
     (\<forall>r \<ge> rb_fresh s. rb_reqs s r = None) \<and> (\<forall>r q. rb_reqs s r = Some q \<longrightarrow> ioreq_ok q)"

lemma tokens_ok_holder: "tokens_ok (add_mset r M) s \<Longrightarrow> \<exists>q. rb_reqs s r = Some q \<and> ioreq_ok q"
proof -
  assume ok: "tokens_ok (add_mset r M) s"
  then have "count (add_mset r M) r + tokens s r = (if rb_reqs s r = None then 0 else 1)" unfolding tokens_ok_def by blast
  then have "rb_reqs s r \<noteq> None" by (auto split: if_splits)
  with ok show ?thesis unfolding tokens_ok_def by blast
qed

lemma tokens_post:
  assumes ok: "tokens_ok (add_mset r M) s" and q: "rb_reqs s r = Some q"
    and q': "io_sem q' = io_sem q + 1" "ioreq_ok q'"
  shows "tokens_ok M (set_ioreq r q' s)"
proof -
  have "count M j + tokens (set_ioreq r q' s) j = (if rb_reqs (set_ioreq r q' s) j = None then 0 else 1)" for j
  proof -
    have "count (add_mset r M) j + tokens s j = (if rb_reqs s j = None then 0 else 1)"
      using ok unfolding tokens_ok_def by blast
    then show ?thesis using q q' by (cases "j = r") (auto simp: tokens_def set_ioreq_def)
  qed
  moreover have "\<forall>j \<ge> rb_fresh s. rb_reqs s j = None" using ok by (simp add: tokens_ok_def)
  ultimately show ?thesis
    using ok q q'(2) unfolding tokens_ok_def by (auto simp: set_ioreq_def)
qed

lemma tokens_doing:
  assumes ok: "tokens_ok (add_mset r M) s" and q: "rb_reqs s r = Some q"
    and q': "io_sem q' = io_sem q" "ioreq_ok q'"
  shows "tokens_ok M ((set_ioreq r q' s)\<lparr>rb_doing := rb_doing s @ [r]\<rparr>)"
proof -
  let ?s = "(set_ioreq r q' s)\<lparr>rb_doing := rb_doing s @ [r]\<rparr>"
  have "count M j + tokens ?s j = (if rb_reqs ?s j = None then 0 else 1)" for j
  proof -
    have "count (add_mset r M) j + tokens s j = (if rb_reqs s j = None then 0 else 1)"
      using ok unfolding tokens_ok_def by blast
    then show ?thesis using q q' by (cases "j = r") (auto simp: tokens_def set_ioreq_def)
  qed
  moreover have "\<forall>j \<ge> rb_fresh s. rb_reqs s j = None" using ok by (simp add: tokens_ok_def)
  ultimately show ?thesis
    using ok q q'(2) unfolding tokens_ok_def by (auto simp: set_ioreq_def)
qed

text \<open>The invariant looks at the queues, the requests and what the io is doing.\<close>

lemma tokens_ok_cong:
  assumes "tokens_ok M s" and "rb_queue s' @ rb_batch s' @ rb_foreign s' = rb_queue s @ rb_batch s @ rb_foreign s"
    and "rb_doing s' = rb_doing s" "rb_reqs s' = rb_reqs s" "rb_fresh s' = rb_fresh s"
  shows "tokens_ok M s'"
  using assms by (simp add: tokens_ok_def tokens_def)

lemma tokens_rtbiocb:
  assumes ok: "tokens_ok (add_mset r M) s"
  shows "\<exists>s' q q'. rtbiocb r err s = Inr s' \<and> tokens_ok M s' \<and> rb_reqs s r = Some q \<and> rb_reqs s' r = Some q' \<and>
     io_sem q' = io_sem q + 1 \<and> io_io q' = io_io q \<and> io_err q' = (if io_rs q = 1 \<or> io_rs q = 2 then err else io_err q) \<and>
     rb_log s' = rb_log s"
proof -
  from tokens_ok_holder [OF ok] obtain q where q: "rb_reqs s r = Some q" "ioreq_ok q" by blast
  let ?q = "(if io_rs q = 1 \<or> io_rs q = 2 then q\<lparr>io_err := err\<rparr> else q)\<lparr>io_sem := io_sem q + 1\<rparr>"
  have "rtbiocb r err s = Inr (set_ioreq r ?q s)"
    using q by (simp add: rtbiocb_def sem_post_def ioreq_at_def set_ioreq_def)
  moreover have "tokens_ok M (set_ioreq r ?q s)"
    using q(2) by (intro tokens_post [OF ok q(1)]) (auto simp: ioreq_ok_def)
  ultimately show ?thesis using q(1) by (auto simp: set_ioreq_def)
qed

lemma tokens_rtbiohandle:
  assumes ok: "tokens_ok (add_mset r M) s"
  shows "\<exists>s'. rtbiohandle connect r s = Inr s' \<and> tokens_ok M s'"
proof -
  from tokens_ok_holder [OF ok] obtain q where q: "rb_reqs s r = Some q" "ioreq_ok q" by blast
  have put: "tokens_ok (add_mset r M) (set_ioreq r (q\<lparr>io_err := None, io_io := x\<rparr>) s)"
    if "x = io_io q \<or> io_rs q = 3" for x
  proof -
    let ?s = "set_ioreq r (q\<lparr>io_err := None, io_io := x\<rparr>) s"
    have "tokens ?s j = tokens s j" for j using q(1) by (simp add: tokens_def set_ioreq_def)
    then show ?thesis using ok q that unfolding tokens_ok_def by (auto simp: set_ioreq_def ioreq_ok_def)
  qed
  consider (rs12) "io_rs q = 1 \<or> io_rs q = 2" | (rs3) "io_rs q = 3" | (rs4) "io_rs q = 4" | (rs6) "io_rs q = 6"
    using q(2) by (auto simp: ioreq_ok_def)
  then show ?thesis
  proof cases
    case rs12
    then obtain i where i: "io_io q = Some i" using q(2) by (auto simp: ioreq_ok_def)
    have "tokens_ok M ((set_ioreq r (q\<lparr>io_err := None\<rparr>) s)\<lparr>rb_doing := rb_doing s @ [r]\<rparr>)"
      using q(2) by (intro tokens_doing [OF ok q(1)]) (simp_all add: ioreq_ok_def)
    then have "tokens_ok M (rb_say e ((set_ioreq r (q\<lparr>io_err := None\<rparr>) s)\<lparr>rb_doing := rb_doing s @ [r]\<rparr>))" for e
      by (rule tokens_ok_cong) (simp_all add: rb_say_def)
    with rs12 i q(1) show ?thesis by (auto simp: rtbiohandle_def ioreq_at_def Let_def set_ioreq_def)
  next
    case rs3
    let ?q = "q\<lparr>io_err := None, io_io := connect (io_servname q)\<rparr>"
    have "set_ioreq r (q\<lparr>io_err := None, io_io := connect (io_servname q)\<rparr>) (set_ioreq r (q\<lparr>io_err := None\<rparr>) s)
        = set_ioreq r ?q s" by (simp add: set_ioreq_def)
    with tokens_rtbiocb [OF put, of "connect (io_servname q)" None] rs3 q(1) show ?thesis
      by (auto simp: rtbiohandle_def ioreq_at_def Let_def)
  next
    case rs4
    then obtain i where i: "io_io q = Some i" using q(2) by (auto simp: ioreq_ok_def)
    have "tokens_ok (add_mset r M) (rb_say (IoClose i) (set_ioreq r (q\<lparr>io_err := None\<rparr>) s))"
      using put [of "io_io q", OF disjI1 [OF refl]] by (elim tokens_ok_cong) (simp_all add: rb_say_def set_ioreq_def)
    from tokens_rtbiocb [OF this, of None] rs4 i q(1) show ?thesis
      by (auto simp: rtbiohandle_def ioreq_at_def Let_def)
  next
    case rs6
    have "tokens_ok (add_mset r M) ((set_ioreq r (q\<lparr>io_err := None\<rparr>) s)\<lparr>rb_stop := True\<rparr>)"
      using put [of "io_io q", OF disjI1 [OF refl]] by (elim tokens_ok_cong) (simp_all add: set_ioreq_def)
    from tokens_post [OF this, of "q\<lparr>io_err := None\<rparr>" "q\<lparr>io_err := None, io_sem := io_sem q + 1\<rparr>"] rs6 q show ?thesis
      by (simp add: rtbiohandle_def ioreq_at_def Let_def sem_post_def set_ioreq_def ioreq_ok_def)
  qed
qed


section \<open>Reachable states\<close>

lemma tokens_dispatch:
  assumes ok: "tokens_ok {#} s" and "ioreq_ok \<lparr>io_io = io, io_rs = rs, io_sem = 0, io_err = None, io_servname = name\<rparr>"
    and run: "rtbioreqdispatch rs io name s = Inr s'"
  shows "tokens_ok {#} s'"
proof -
  let ?r = "rb_fresh s"
  let ?q = "\<lparr>io_io = io, io_rs = rs, io_sem = 0, io_err = None, io_servname = name\<rparr>"
  have fresh: "rb_reqs s ?r = None" using ok by (simp add: tokens_ok_def)
  have none: "tokens s ?r = 0" using ok fresh unfolding tokens_ok_def by (metis add_is_0)
  let ?s = "set_ioreq ?r ?q (s\<lparr>rb_fresh := ?r + 1\<rparr>)"
  have s': "s' = rtbridge_async_exec (IoHandle ?r) ?s \<or> s' = ?s\<lparr>rb_foreign := rb_foreign ?s @ [IoHandle ?r]\<rparr>"
    using run by (auto simp: rtbioreqdispatch_def pipe_executor_def Let_def set_ioreq_def split: option.splits executor.splits)
  have tok: "tokens s' j = (if j = ?r then 1 else tokens s j)" for j
    using s' none fresh
    by (auto simp: tokens_def rtbridge_async_exec_def rb_say_def set_ioreq_def)
  have reqs: "rb_reqs s' = (rb_reqs s)(?r \<mapsto> ?q)" "rb_fresh s' = Suc ?r"
    using s' by (auto simp: rtbridge_async_exec_def rb_say_def set_ioreq_def)
  show ?thesis
    using ok assms(2) tok reqs unfolding tokens_ok_def by auto
qed

lemma dispatch_order:
  "order_ok s \<Longrightarrow> rtbioreqdispatch rs io name s = Inr s' \<Longrightarrow> order_ok s'"
  by (auto simp: rtbioreqdispatch_def pipe_executor_def Let_def order_ok_def set_ioreq_def rtbridge_async_exec_def rb_say_def
      split: option.splits executor.splits)

definition rb_inv :: "rtbridge \<Rightarrow> bool" where
  "rb_inv s \<longleftrightarrow> order_ok s \<and> tokens_ok {#} s"

lemma tokens_take_batch:
  assumes "tokens_ok {#} s" and "rb_batch s = IoHandle r # fs"
  shows "tokens_ok {#r#} (rb_say (Ran (IoHandle r)) (s\<lparr>rb_batch := fs\<rparr>))"
proof -
  have "tokens s j = count {#r#} j + tokens (rb_say (Ran (IoHandle r)) (s\<lparr>rb_batch := fs\<rparr>)) j" for j
    using assms(2) by (simp add: tokens_def rb_say_def)
  with assms(1) show ?thesis unfolding tokens_ok_def by (simp add: rb_say_def)
qed

lemma tokens_take_foreign:
  assumes "tokens_ok {#} s" and "rb_foreign s = IoHandle r # fs"
  shows "tokens_ok {#r#} (s\<lparr>rb_foreign := fs\<rparr>)"
proof -
  have "tokens s j = count {#r#} j + tokens (s\<lparr>rb_foreign := fs\<rparr>) j" for j
    using assms(2) by (simp add: tokens_def)
  with assms(1) show ?thesis unfolding tokens_ok_def by simp
qed

lemma tokens_take_doing:
  assumes "tokens_ok {#} s" and "r \<in> set (rb_doing s)"
  shows "tokens_ok {#r#} (s\<lparr>rb_doing := remove1 r (rb_doing s)\<rparr>)"
proof -
  have "mset (rb_doing s) = add_mset r (mset (remove1 r (rb_doing s)))" using assms(2) by simp
  then have "tokens s j = count {#r#} j + tokens (s\<lparr>rb_doing := remove1 r (rb_doing s)\<rparr>) j" for j
    unfolding tokens_def by (simp del: mset_remove1)
  with assms(1) show ?thesis unfolding tokens_ok_def by simp
qed

lemma tokens_foreign_fn: "tokens_ok M s \<Longrightarrow> rb_foreign s = RunFn n # fs \<Longrightarrow> tokens_ok M (s\<lparr>rb_foreign := fs\<rparr>)"
  by (simp add: tokens_ok_def tokens_def)

lemma tokens_return:
  assumes ok: "tokens_ok {#} s" and q: "rb_reqs s r = Some q" "0 < io_sem q"
  shows "tokens_ok {#} (rb_say e (s\<lparr>rb_reqs := (rb_reqs s)(r := None)\<rparr>))"
proof -
  let ?s = "rb_say e (s\<lparr>rb_reqs := (rb_reqs s)(r := None)\<rparr>)"
  have "tokens ?s j = (if j = r then 0 else tokens s j)" for j
  proof -
    have "tokens s r = 1" using ok q(1) by (simp add: tokens_ok_def)
    then have "count (mset (rb_queue s @ rb_batch s @ rb_foreign s)) (IoHandle r) + count (mset (rb_doing s)) r + io_sem q = 1"
      by (simp add: tokens_def q(1))
    then have "count (mset (rb_queue s @ rb_batch s @ rb_foreign s)) (IoHandle r) = 0" "count (mset (rb_doing s)) r = 0"
      using q(2) by linarith+
    then show ?thesis using q by (auto simp: tokens_def rb_say_def)
  qed
  with ok show ?thesis unfolding tokens_ok_def by (auto simp: rb_say_def)
qed

lemma run_next_inv:
  assumes inv: "rb_inv s" and b: "rb_batch s = f # fs"
  shows "\<exists>s'. run_task connect f (s\<lparr>rb_batch := fs\<rparr>) = Inr s' \<and> rb_inv s' \<and> rb_batch s' = fs
    \<and> ran (rb_log s') = ran (rb_log s) @ [f] \<and> rb_queue s' = rb_queue s"
proof -
  let ?s = "rb_say (Ran f) (s\<lparr>rb_batch := fs\<rparr>)"
  have o: "order_ok ?s" using inv b by (auto simp: rb_inv_def order_ok_def rb_say_def)
  show ?thesis
  proof (cases f)
    case (IoHandle r)
    with tokens_take_batch [of s r fs] inv b have "tokens_ok {#r#} ?s" by (simp add: rb_inv_def)
    from tokens_rtbiohandle [OF this, of connect] obtain s' where
      s': "rtbiohandle connect r ?s = Inr s'" "tokens_ok {#} s'" by blast
    from same_tasks_order [OF rtbiohandle_same [OF s'(1)] o] rtbiohandle_same [OF s'(1)] s' IoHandle show ?thesis
      by (auto simp: run_task_def rb_inv_def same_tasks_def rb_say_def)
  next
    case (RunFn n)
    have "tokens_ok {#} ?s"
      using inv b RunFn by (simp add: rb_inv_def tokens_ok_def tokens_def rb_say_def)
    with o RunFn show ?thesis by (simp add: run_task_def rb_inv_def rb_say_def)
  qed
qed

lemma rb_step_inv:
  assumes inv: "rb_inv s" and en: "rb_enabled e s" and run: "rb_step connect e s = Inr s'"
  shows "rb_inv s'"
proof -
  have o: "order_ok s" and t: "tokens_ok {#} s" using inv by (simp_all add: rb_inv_def)
  have quiet: "rb_inv s'" if "same_tasks s s'" "rb_foreign s' = rb_foreign s" "rb_doing s' = rb_doing s"
    "rb_reqs s' = rb_reqs s" "rb_fresh s' = rb_fresh s"
    using that same_tasks_order [OF that(1) o] tokens_ok_cong [OF t] by (simp add: rb_inv_def same_tasks_def)
  have disp: "rb_inv s'" if "rtbioreqdispatch rs io name s = Inr s'" "rs \<in> {1, 2, 3, 4, 6}" "rs \<in> {1, 2, 4} \<longrightarrow> io \<noteq> None"
    for rs io name
    using dispatch_order [OF o that(1)] tokens_dispatch [OF t _ that(1)] that(2,3) by (simp add: rb_inv_def ioreq_ok_def)
  show ?thesis
  proof (cases e)
    case (Post n)
    then have s': "s' = rtbridge_async_exec (RunFn n) s \<or> s' = s\<lparr>rb_foreign := rb_foreign s @ [RunFn n]\<rparr>"
      using run by (auto simp: pipe_executor_def split: option.splits executor.splits)
    have "tokens s' j = tokens s j" for j using s' by (auto simp: tokens_def rtbridge_async_exec_def rb_say_def)
    moreover have "rb_reqs s' = rb_reqs s" "rb_fresh s' = rb_fresh s"
      using s' by (auto simp: rtbridge_async_exec_def rb_say_def)
    ultimately have "tokens_ok {#} s'" using t by (simp add: tokens_ok_def)
    moreover have "order_ok s'" using s' o order_ok_post [OF o] by (auto simp: order_ok_def)
    ultimately show ?thesis by (simp add: rb_inv_def)
  next
    case (RunNext)
    then obtain f fs where b: "rb_batch s = f # fs" using en by (cases "rb_batch s") auto
    with run_next_inv [OF inv b, of connect] run RunNext show ?thesis by auto
  next
    case RunForeign
    then obtain f fs where b: "rb_foreign s = f # fs" using en by (cases "rb_foreign s") auto
    have of: "order_ok (s\<lparr>rb_foreign := fs\<rparr>)" using o by (simp add: order_ok_def)
    show ?thesis
    proof (cases f)
      case (IoHandle r)
      with tokens_take_foreign [OF t, of r fs] b have "tokens_ok {#r#} (s\<lparr>rb_foreign := fs\<rparr>)" by simp
      from tokens_rtbiohandle [OF this, of connect] RunForeign run b IoHandle
        same_tasks_order [OF rtbiohandle_same of] show ?thesis by (auto simp: rb_inv_def)
    next
      case (RunFn n)
      with RunForeign run b tokens_foreign_fn [OF t, of n fs] of show ?thesis by (simp add: rb_inv_def)
    qed
  next
    case (Complete r err)
    then have "r \<in> set (rb_doing s)" using en by simp
    from tokens_rtbiocb [OF tokens_take_doing [OF t this], of err] Complete run obtain
      "tokens_ok {#} s'" by auto
    moreover have "order_ok (s\<lparr>rb_doing := remove1 r (rb_doing s)\<rparr>)" using o by (simp add: order_ok_def)
    ultimately show ?thesis using Complete run same_tasks_order [OF rtbiocb_same] by (simp add: rb_inv_def)
  next
    case (Return r)
    then obtain q where q: "rb_reqs s r = Some q" "0 < io_sem q" using en by (auto split: option.splits)
    with Return run tokens_return [OF t q] o show ?thesis
      by (auto simp: rtbioreqdispatch_return_def ioreq_at_def rb_inv_def order_ok_def rb_say_def)
  next
    case Wake
    then have b: "rb_batch s = []" using en by simp
    have "tokens_ok {#} (rtbasyncb_take s)"
      using t by (rule tokens_ok_cong) (simp_all add: rtbasyncb_take_def b)
    with order_ok_take [OF o b] Wake run show ?thesis by (simp add: rb_inv_def)
  next
    case (InitUv l)
    with run show ?thesis
      by (intro quiet) (auto simp: rtbridge_init_uv_def rb_say_def same_tasks_def split: if_splits)
  next
    case InitAndRun
    with run show ?thesis
      by (intro quiet) (auto simp: rtbridge_init_and_run_def rb_say_def same_tasks_def split: if_splits)
  next
    case (ThreadStart l)
    with run show ?thesis
      by (intro quiet) (auto simp: newloopthread_start_def rtbridge_init_uv_def rb_say_def same_tasks_def split: if_splits)
  next
    case LoopEnd
    with run show ?thesis by (intro quiet) (auto simp: newloopthread_end_def same_tasks_def)
  next
    case (Recv io)
    with run show ?thesis by (intro disp [of 1 "Some io" "[]"]) (simp_all add: rtbridge_brecv_def)
  next
    case (Send io)
    with run show ?thesis by (intro disp [of 2 "Some io" "[]"]) (simp_all add: rtbridge_bsend_def)
  next
    case (Connect name)
    with run show ?thesis by (intro disp [of 3 None name]) (simp_all add: rtbridge_pipe_connect_def)
  next
    case (Close io)
    with run show ?thesis by (intro disp [of 4 "Some io" "[]"]) (simp_all add: rtbridge_io_close_def)
  next
    case Deinit
    with run show ?thesis by (intro disp [of 6 None "[]"]) (simp_all add: rtbridge_deinit_def)
  qed
qed

lemma rb_inv_start: "rb_inv rtbridge_zero"
  by (auto simp: rb_inv_def order_ok_def tokens_ok_def tokens_def rtbridge_zero_def intro: exI [of _ "[]"])

lemma rb_reach_inv: "rb_reach connect s \<Longrightarrow> rb_inv s"
  by (induction rule: rb_reach.induct) (rule rb_inv_start, rule rb_step_inv)

section \<open>Properties\<close>

lemma run_batch:
  "rb_inv s \<Longrightarrow> rb_batch s = fs \<Longrightarrow>
     \<exists>s'. foldR (\<lambda>_. rb_step connect RunNext) fs s = Inr s' \<and> rb_inv s' \<and> rb_batch s' = [] \<and>
       ran (rb_log s') = ran (rb_log s) @ fs"
proof (induction fs arbitrary: s)
  case (Cons f fs)
  from run_next_inv [OF Cons.prems, of connect] obtain t where
    t: "rb_step connect RunNext s = Inr t" "rb_inv t" "rb_batch t = fs" "ran (rb_log t) = ran (rb_log s) @ [f]"
    using Cons.prems(2) by auto
  from Cons.IH [OF t(2,3)] t show ?case by auto
qed simp


definition run_rb :: "rb_input list \<Rightarrow> rtbridge res" where
  "run_rb es = foldR (\<lambda>e s. if rb_enabled e s then rb_step (\<lambda>_. Some 3) e s else Inl Uninit) es rtbridge_zero"

lemma run_rb_reach: "run_rb es = Inr s \<Longrightarrow> rb_reach (\<lambda>_. Some 3) s"
  unfolding run_rb_def
  by (erule foldR_inv [where P = "rb_reach (\<lambda>_. Some 3)"]) (auto split: if_splits intro: rb_reach.intros)


text \<open>
  C29. A blocking call waits for its own operation and for nothing else.  While it waits, exactly one of
  three things holds: its handler is queued, the io is doing its operation, or its semaphore has been
  posted, once, and it can return.  When the io completes the operation, the call returns the error of
  that operation.
\<close>

theorem blocking_call:
  assumes "rb_reach connect s" and "rb_reqs s r = Some q"
  shows "tokens s r = 1 \<and>
     (rb_enabled (Return r) s \<longleftrightarrow> IoHandle r \<notin> set (rb_queue s @ rb_batch s @ rb_foreign s) \<and> r \<notin> set (rb_doing s)) \<and>
     (r \<in> set (rb_doing s) \<longrightarrow> (\<forall>err. \<exists>t u. rb_step connect (Complete r err) s = Inr t \<and> rb_enabled (Return r) t \<and>
        rb_step connect (Return r) t = Inr u \<and>
        rb_log u = rb_log s @ [Returned r (if io_rs q = 1 \<or> io_rs q = 2 then err else io_err q) (io_io q)] \<and>
        rb_reqs u r = None))"
proof -
  have tok: "tokens_ok {#} s" using rb_reach_inv [OF assms(1)] by (simp add: rb_inv_def)
  then have one: "tokens s r = 1" using assms(2) by (simp add: tokens_ok_def)
  then have sum: "count (mset (rb_queue s @ rb_batch s @ rb_foreign s)) (IoHandle r) + count (mset (rb_doing s)) r
      + io_sem q = 1" by (simp add: tokens_def assms(2))
  have zero: "count (mset xs) x = 0 \<longleftrightarrow> x \<notin> set xs" for xs :: "'b list" and x by (simp add: count_eq_zero_iff)
  have "0 < io_sem q \<longleftrightarrow> count (mset (rb_queue s @ rb_batch s @ rb_foreign s)) (IoHandle r) = 0
      \<and> count (mset (rb_doing s)) r = 0" using sum by linarith
  then have ready: "rb_enabled (Return r) s \<longleftrightarrow>
      IoHandle r \<notin> set (rb_queue s @ rb_batch s @ rb_foreign s) \<and> r \<notin> set (rb_doing s)"
    unfolding zero using assms(2) by simp
  have "\<exists>t u. rb_step connect (Complete r err) s = Inr t \<and> rb_enabled (Return r) t \<and>
        rb_step connect (Return r) t = Inr u \<and>
        rb_log u = rb_log s @ [Returned r (if io_rs q = 1 \<or> io_rs q = 2 then err else io_err q) (io_io q)] \<and>
        rb_reqs u r = None" if "r \<in> set (rb_doing s)" for err
    using tokens_rtbiocb [OF tokens_take_doing [OF tok that], of err] assms(2)
    by (auto simp: rtbioreqdispatch_return_def ioreq_at_def rb_say_def)
  with one ready show ?thesis by blast
qed

theorem blocking_call_witness:
  "\<exists>s t u. run_rb [InitUv 1, Recv 4, Wake, RunNext] = Inr s \<and> rb_step (\<lambda>_. Some 3) (Complete 0 (Some ''closed'')) s = Inr t \<and>
     rb_step (\<lambda>_. Some 3) (Return 0) t = Inr u \<and> last (rb_log u) = Returned 0 (Some ''closed'') (Some 4)"
proof -
  obtain s q where s: "run_rb [InitUv 1, Recv 4, Wake, RunNext] = Inr s" "rb_doing s = [0]" "rb_reqs s 0 = Some q"
      "io_rs q = 1" "io_io q = Some 4"
    by (simp add: run_rb_def rtbridge_zero_def rtbridge_init_uv_def rb_say_def pipe_executor_def rtbridge_async_exec_def
        rtbridge_brecv_def rtbioreqdispatch_def set_ioreq_def rtbasyncb_take_def run_task_def rtbiohandle_def
        ioreq_at_def Let_def)
  have "0 \<in> set (rb_doing s)" using s(2) by simp
  from blocking_call [OF run_rb_reach [OF s(1)] s(3), THEN conjunct2, THEN conjunct2, THEN mp, OF this, THEN spec,
      of "Some ''closed''"] obtain t u where
    "rb_step (\<lambda>_. Some 3) (Complete 0 (Some ''closed'')) s = Inr t" "rb_step (\<lambda>_. Some 3) (Return 0) t = Inr u"
    "rb_log u = rb_log s @ [Returned 0 (Some ''closed'') (Some 4)]" unfolding s(4,5) by auto
  with s(1) show ?thesis by (intro exI [of _ s] exI [of _ t] exI [of _ u]) simp
qed

text \<open>
  After \<open>pxprpc_rtbridge_init_uv\<close> and \<open>pxprpc_rtbridge_deinit\<close> the bridge still holds the loop: a second
  initialisation is refused.  And a function posted between the stop of its own loop and the end of the
  thread is left in the queue.
\<close>

lemma deinit_keeps_loop:
  "case run_rb [InitUv 1, Deinit, Wake, RunNext, Return 0, InitUv 2] of
     Inl _ \<Rightarrow> False | Inr s \<Rightarrow> last (rb_log s) = InitResult (Some ''inited'') \<and> rb_loop s = Some 1"
  by code_simp

lemma stop_forgets:
  "case run_rb [InitAndRun, ThreadStart 1, Deinit, Wake, RunNext, Recv 4, LoopEnd] of
     Inl _ \<Rightarrow> False | Inr s \<Rightarrow> rb_queue s = [IoHandle 1] \<and> rb_loop s = None \<and> \<not> rb_wake s"
  by code_simp

end
