(* ===== verification/MemFile.thy ===== *)
theory MemFile
  imports Prelude
begin

text \<open>
  \<open>runtime_bridge/include/memfile.h\<close>: mapping a file into memory, in the variants for Linux, for Windows
  and for other systems.  What the operating system answers is a parameter; the calls made to it are
  recorded, so that what is opened, mapped and allocated can be compared with what is given back.  A
  pointer is an option; the address \<open>MAP_FAILED\<close> that \<open>mmap\<close> answers on failure is not null.
\<close>

section \<open>Flags\<close>

definition MF_READ :: u8 where "MF_READ = 0x01"
definition MF_WRITE :: u8 where "MF_WRITE = 0x02"
definition MF_READWRITE :: u8 where "MF_READWRITE = MF_READ OR MF_WRITE"
definition MF_REWRITE :: u8 where "MF_REWRITE = 0x04"
definition MF_FASTREWRITE :: u8 where "MF_FASTREWRITE = 0x08"

definition mf_has :: "u8 \<Rightarrow> u8 \<Rightarrow> bool" where
  "mf_has flags f \<longleftrightarrow> flags AND f \<noteq> 0"

section \<open>Linux\<close>

datatype map_addr = MapFailed | MapAt nat

type_synonym block = nat

datatype os_call =
    OsOpen string nat nat           \<comment> \<open>name, flags, mode\<close>
  | OsWrite int | OsLseek int u64 | OsMmap u64 nat int | OsMunmap "map_addr option" u64 | OsClose int
  | OsMalloc block | OsFree block

record memfile_d =
  md_fd :: int
  md_size :: u64

record memfile =
  mf_intdata :: "block option"
  mf_data :: "map_addr option"

record mf_world =
  mw_blocks :: "block \<Rightarrow> memfile_d option"
  mw_next :: block
  mw_calls :: "os_call list"

text \<open>What the system answers to \<open>open\<close> and to \<open>mmap\<close>.\<close>

record os_env =
  oe_fd :: int
  oe_mem :: "map_addr option"

definition os_do :: "os_call \<Rightarrow> mf_world \<Rightarrow> mf_world" where
  "os_do c w = w\<lparr>mw_calls := mw_calls w @ [c]\<rparr>"

definition PROT_READ :: nat where "PROT_READ = 1"
definition PROT_WRITE :: nat where "PROT_WRITE = 2"
definition O_RDONLY :: nat where "O_RDONLY = 0"
definition O_WRONLY :: nat where "O_WRONLY = 1"
definition O_RDWR :: nat where "O_RDWR = 2"
definition O_CREAT :: nat where "O_CREAT = 64"

text \<open>The variable \<open>i\<close> is set only by the two flags; without them it is indeterminate.\<close>

definition memfile_open_flags :: "u8 \<Rightarrow> nat res" where
  "memfile_open_flags flags =
     (if mf_has flags MF_WRITE then Inr (O_CREAT + (if mf_has flags MF_READ then O_RDWR else O_WRONLY))
      else if mf_has flags MF_READ then Inr O_RDONLY else Inl Uninit)"

definition map_prot :: "u8 \<Rightarrow> nat" where
  "map_prot flags = (if mf_has flags MF_READ then PROT_READ else 0) + (if mf_has flags MF_WRITE then PROT_WRITE else 0)"

text \<open>\<open>S_IRUSR | S_IRGRP | S_IROTH\<close> is 292, \<open>S_IWUSR\<close> is 128.\<close>

definition open_mode :: "u8 \<Rightarrow> nat" where
  "open_mode flags = (if mf_has flags MF_READ then 292 else 0) + (if mf_has flags MF_WRITE then 128 else 0)"

text \<open>\<open>for(acc=0; acc<size; acc++) write(fd, " ", 1)\<close> with \<open>int acc\<close>: the loop from \<open>acc\<close> on.\<close>

function write_loop :: "nat \<Rightarrow> nat \<Rightarrow> os_call \<Rightarrow> mf_world \<Rightarrow> mf_world res" where
  "write_loop acc sz c w =
     (if acc < sz
      then if acc + 1 < 2 ^ 31 then write_loop (acc + 1) sz c (os_do c w) else Inl IntOverflow
      else Inr w)"
  by pat_completeness auto
termination by (relation "measure (\<lambda>(acc, sz, c, w). sz - acc)") auto

declare write_loop.simps [simp del]

definition linux_fill :: "u8 \<Rightarrow> u64 \<Rightarrow> int \<Rightarrow> mf_world \<Rightarrow> mf_world res" where
  "linux_fill flags sz fd w =
     (if mf_has flags MF_WRITE then
        if mf_has flags MF_REWRITE then write_loop 0 (unat sz) (OsWrite fd) w
        else if mf_has flags MF_FASTREWRITE then Inr (os_do (OsWrite fd) (os_do (OsLseek fd sz) w))
        else Inr w
      else Inr w)"

definition linux_memfile_create ::
    "os_env \<Rightarrow> string \<Rightarrow> u8 \<Rightarrow> u64 \<Rightarrow> mf_world \<Rightarrow> (string option \<times> memfile \<times> mf_world) res" where
  "linux_memfile_create env filename flags sz w =
     (let r = \<lparr>mf_intdata = None, mf_data = None\<rparr>
      in bindR (memfile_open_flags flags) (\<lambda>i.
         let w = os_do (OsOpen filename i (open_mode flags)) w
         in if oe_fd env < 0 then Inr (Some ''open failed'', r, w)
            else bindR (linux_fill flags sz (oe_fd env) w) (\<lambda>w.
                 let w = os_do (OsMmap sz (map_prot flags) (oe_fd env)) w
                 in if oe_mem env = None then Inr (Some ''mmap failed'', r, os_do (OsClose (oe_fd env)) w)
                    else let b = mw_next w;
                             w = os_do (OsMalloc b) (w\<lparr>mw_blocks := (mw_blocks w)(b \<mapsto> \<lparr>md_fd = oe_fd env, md_size = sz\<rparr>),
                                                       mw_next := b + 1\<rparr>)
                         in Inr (None, \<lparr>mf_intdata = Some b, mf_data = oe_mem env\<rparr>, w))))"

text \<open>\<open>if(mem == NULL) NULL;\<close> lacks a return.\<close>

definition linux_memfile_close :: "memfile option \<Rightarrow> mf_world \<Rightarrow> (memfile \<times> mf_world) res" where
  "linux_memfile_close mem w =
     (case mem of
        None \<Rightarrow> Inl NullDeref
      | Some m \<Rightarrow>
          (case mf_intdata m of
             None \<Rightarrow> Inr (m, w)
           | Some b \<Rightarrow>
               (case mw_blocks w b of
                  None \<Rightarrow> Inl UseAfterFree
                | Some d \<Rightarrow>
                    (let w = os_do (OsClose (md_fd d)) (os_do (OsMunmap (mf_data m) (md_size d)) w);
                         w = os_do (OsFree b) (w\<lparr>mw_blocks := (mw_blocks w)(b := None)\<rparr>)
                     in Inr (m\<lparr>mf_intdata := None, mf_data := None\<rparr>, w)))))"

section \<open>Windows\<close>

text \<open>A handle is a number: 0 is null, -1 is \<open>INVALID_HANDLE_VALUE\<close>.  The wide name is allocated and freed.\<close>

datatype win_call =
    WinAllocName | WinFreeName
  | WinCreateFile nat bool          \<comment> \<open>access; \<open>OPEN_ALWAYS\<close> rather than \<open>OPEN_EXISTING\<close>\<close>
  | WinWrite int | WinSeek int u32 | WinCreateMapping int nat u32 | WinMapView int nat u32
  | WinUnmap nat | WinCloseHandle int | WinMalloc block | WinFree block

record win_d =
  wd_fd :: int
  wd_fm :: int

record win_memfile =
  wm_intdata :: "block option"
  wm_data :: "nat option"

record win_world =
  ww_blocks :: "block \<Rightarrow> win_d option"
  ww_next :: block
  ww_calls :: "win_call list"

record win_env =
  we_wlen :: int
  we_fd :: int
  we_fm :: int
  we_mem :: "nat option"

definition win_do :: "win_call \<Rightarrow> win_world \<Rightarrow> win_world" where
  "win_do c w = w\<lparr>ww_calls := ww_calls w @ [c]\<rparr>"

definition win_access :: "u8 \<Rightarrow> nat" where
  "win_access flags = (if mf_has flags MF_READ then 0x80000000 else 0) + (if mf_has flags MF_WRITE then 0x40000000 else 0)"

definition win_protect :: "u8 \<Rightarrow> nat" where
  "win_protect flags = (if mf_has flags MF_WRITE then 4 else if mf_has flags MF_READ then 2 else 0)"

definition win_view :: "u8 \<Rightarrow> nat" where
  "win_view flags = (if mf_has flags MF_READ then 4 else 0) + (if mf_has flags MF_WRITE then 2 else 0)"

function win_write_loop :: "nat \<Rightarrow> nat \<Rightarrow> int \<Rightarrow> win_world \<Rightarrow> win_world res" where
  "win_write_loop cflag sz fd w =
     (if cflag < sz
      then if cflag + 1 < 2 ^ 31 then win_write_loop (cflag + 1) sz fd (win_do (WinWrite fd) w) else Inl IntOverflow
      else Inr w)"
  by pat_completeness auto
termination by (relation "measure (\<lambda>(cflag, sz, fd, w). sz - cflag)") auto

declare win_write_loop.simps [simp del]

definition win_fill :: "u8 \<Rightarrow> u32 \<Rightarrow> int \<Rightarrow> win_world \<Rightarrow> win_world res" where
  "win_fill flags sz fd w =
     (if mf_has flags MF_WRITE then
        if mf_has flags MF_REWRITE then win_write_loop 0 (unat sz) fd w
        else if mf_has flags MF_FASTREWRITE then Inr (win_do (WinSeek fd sz) w)
        else Inr w
      else Inr w)"

text \<open>When the mapping cannot be created, the null handle is closed, and the file's is not.\<close>

definition win_memfile_create :: "win_env \<Rightarrow> u8 \<Rightarrow> u32 \<Rightarrow> win_world \<Rightarrow> (string option \<times> win_memfile \<times> win_world) res" where
  "win_memfile_create env flags sz w =
     (let r = \<lparr>wm_intdata = None, wm_data = None\<rparr>
      in if we_wlen env = 0 then Inr (Some ''MultiByteToWideChar failed'', r, w)
         else
           let w = win_do WinFreeName (win_do (WinCreateFile (win_access flags) (mf_has flags MF_WRITE)) (win_do WinAllocName w))
           in if we_fd env = -1 then Inr (Some ''CreateFile failed'', r, w)
              else bindR (win_fill flags sz (we_fd env) w) (\<lambda>w.
                let w = win_do (WinCreateMapping (we_fd env) (win_protect flags) sz) w
                in if we_fm env = 0 then Inr (Some ''CreateFileMapping failed'', r, win_do (WinCloseHandle (we_fm env)) w)
                   else
                     let w = win_do (WinMapView (we_fm env) (win_view flags) sz) w
                     in if we_mem env = None
                        then Inr (Some ''MapViewOfFile failed'', r,
                                  win_do (WinCloseHandle (we_fd env)) (win_do (WinCloseHandle (we_fm env)) w))
                        else
                          let b = ww_next w;
                              w = win_do (WinMalloc b) (w\<lparr>ww_blocks := (ww_blocks w)(b \<mapsto> \<lparr>wd_fd = we_fd env, wd_fm = we_fm env\<rparr>),
                                                          ww_next := b + 1\<rparr>)
                          in Inr (None, \<lparr>wm_intdata = Some b, wm_data = we_mem env\<rparr>, w)))"

text \<open>\<open>intdata\<close> keeps the address of the freed block.\<close>

definition win_memfile_close :: "win_memfile option \<Rightarrow> win_world \<Rightarrow> (win_memfile option \<times> win_world) res" where
  "win_memfile_close mem w =
     (case mem of
        None \<Rightarrow> Inr (None, w)
      | Some m \<Rightarrow>
          (case wm_intdata m of
             None \<Rightarrow> Inr (Some m, w)
           | Some b \<Rightarrow>
               (case ww_blocks w b of
                  None \<Rightarrow> Inl UseAfterFree
                | Some d \<Rightarrow>
                    (let w = (case wm_data m of None \<Rightarrow> w | Some a \<Rightarrow> win_do (WinUnmap a) w);
                         w = win_do (WinCloseHandle (wd_fd d)) (win_do (WinCloseHandle (wd_fm d)) w)
                     in Inr (Some m, win_do (WinFree b) (w\<lparr>ww_blocks := (ww_blocks w)(b := None)\<rparr>))))))"

section \<open>Other systems\<close>

definition other_memfile_create :: "string option" where
  "other_memfile_create = Some ''Not implemeted''"

definition other_memfile_close :: "string option" where
  "other_memfile_close = Some ''Not implemeted''"

section \<open>What is taken is given back\<close>

lemma write_loop_eq:
  "sz < 2 ^ 31 \<Longrightarrow> acc \<le> sz \<Longrightarrow>
     write_loop acc sz c w = Inr (w\<lparr>mw_calls := mw_calls w @ replicate (sz - acc) c\<rparr>)"
proof (induction acc sz c w rule: write_loop.induct)
  case (1 acc sz c w)
  show ?case
  proof (cases "acc < sz")
    case True
    then have "replicate (sz - acc) c = c # replicate (sz - (acc + 1)) c"
      by (metis Suc_diff_Suc Suc_eq_plus1 replicate_Suc)
    with True 1 show ?thesis by (subst write_loop.simps) (simp add: os_do_def)
  next
    case False
    with 1 show ?thesis by (subst write_loop.simps) simp
  qed
qed

lemma win_write_loop_eq:
  "sz < 2 ^ 31 \<Longrightarrow> cflag \<le> sz \<Longrightarrow>
     win_write_loop cflag sz fd w = Inr (w\<lparr>ww_calls := ww_calls w @ replicate (sz - cflag) (WinWrite fd)\<rparr>)"
proof (induction cflag sz fd w rule: win_write_loop.induct)
  case (1 cflag sz fd w)
  show ?case
  proof (cases "cflag < sz")
    case True
    then have "replicate (sz - cflag) (WinWrite fd) = WinWrite fd # replicate (sz - (cflag + 1)) (WinWrite fd)"
      by (metis Suc_diff_Suc Suc_eq_plus1 replicate_Suc)
    with True 1 show ?thesis by (subst win_write_loop.simps) (simp add: win_do_def)
  next
    case False
    with 1 show ?thesis by (subst win_write_loop.simps) simp
  qed
qed

text \<open>The writes that fill the file.\<close>

definition fill_calls :: "u8 \<Rightarrow> u64 \<Rightarrow> int \<Rightarrow> os_call list" where
  "fill_calls flags sz fd =
     (if \<not> mf_has flags MF_WRITE then []
      else if mf_has flags MF_REWRITE then replicate (unat sz) (OsWrite fd)
      else if mf_has flags MF_FASTREWRITE then [OsLseek fd sz, OsWrite fd] else [])"

lemma linux_fill_eq:
  "unat sz < 2 ^ 31 \<Longrightarrow> linux_fill flags sz fd w = Inr (w\<lparr>mw_calls := mw_calls w @ fill_calls flags sz fd\<rparr>)"
  using write_loop_eq [of "unat sz" 0 "OsWrite fd" w]
  by (simp add: linux_fill_def fill_calls_def os_do_def)

definition win_fill_calls :: "u8 \<Rightarrow> u32 \<Rightarrow> int \<Rightarrow> win_call list" where
  "win_fill_calls flags sz fd =
     (if \<not> mf_has flags MF_WRITE then []
      else if mf_has flags MF_REWRITE then replicate (unat sz) (WinWrite fd)
      else if mf_has flags MF_FASTREWRITE then [WinSeek fd sz] else [])"

lemma win_fill_eq:
  "unat sz < 2 ^ 31 \<Longrightarrow> win_fill flags sz fd w = Inr (w\<lparr>ww_calls := ww_calls w @ win_fill_calls flags sz fd\<rparr>)"
  using win_write_loop_eq [of "unat sz" 0 fd w]
  by (simp add: win_fill_def win_fill_calls_def win_do_def)

text \<open>
  C35. Mapping a file on Linux.  Without the flags for reading and writing, the flags of \<open>open\<close> are an
  indeterminate value.  With one of them, a failed \<open>open\<close> leaves nothing behind; otherwise the file is
  opened, filled as the flags say and mapped, and closing the result unmaps what was mapped, closes
  what was opened and frees what was allocated, once; closing again does nothing.
\<close>

theorem memfile_life:
  assumes sz: "unat sz < 2 ^ 31" and mem: "oe_mem env \<noteq> None"
  shows "(memfile_open_flags flags = Inl Uninit \<longrightarrow> linux_memfile_create env name flags sz w = Inl Uninit) \<and>
    (\<forall>i. memfile_open_flags flags = Inr i \<longrightarrow>
      (oe_fd env < 0 \<longrightarrow> linux_memfile_create env name flags sz w =
         Inr (Some ''open failed'', \<lparr>mf_intdata = None, mf_data = None\<rparr>, os_do (OsOpen name i (open_mode flags)) w)) \<and>
      (0 \<le> oe_fd env \<longrightarrow> (\<exists>m w'. linux_memfile_create env name flags sz w = Inr (None, m, w') \<and> mf_data m = oe_mem env \<and>
         mw_calls w' = mw_calls w @ OsOpen name i (open_mode flags) # fill_calls flags sz (oe_fd env) @
           [OsMmap sz (map_prot flags) (oe_fd env), OsMalloc (mw_next w)] \<and>
         (\<exists>m' w''. linux_memfile_close (Some m) w' = Inr (m', w'') \<and>
           mw_calls w'' = mw_calls w' @ [OsMunmap (oe_mem env) sz, OsClose (oe_fd env), OsFree (mw_next w)] \<and>
           mw_blocks w'' = (mw_blocks w)(mw_next w := None) \<and> mf_data m' = None \<and>
           linux_memfile_close (Some m') w'' = Inr (m', w'')))))"
  using mem linux_fill_eq [OF sz]
  by (auto simp: linux_memfile_create_def linux_memfile_close_def os_do_def Let_def)

theorem memfile_life_witness:
  "\<exists>m w' m' w''. linux_memfile_create \<lparr>oe_fd = 3, oe_mem = Some (MapAt 4096)\<rparr> ''a'' MF_READWRITE 16
       \<lparr>mw_blocks = Map.empty, mw_next = 0, mw_calls = []\<rparr> = Inr (None, m, w') \<and>
     linux_memfile_close (Some m) w' = Inr (m', w'') \<and> mw_blocks w'' = Map.empty"
proof -
  have "memfile_open_flags MF_READWRITE = Inr 66"
    by (simp add: memfile_open_flags_def mf_has_def MF_READWRITE_def MF_READ_def MF_WRITE_def O_CREAT_def O_RDWR_def)
  with memfile_life [of 16 "\<lparr>oe_fd = 3, oe_mem = Some (MapAt 4096)\<rparr>" MF_READWRITE "''a''" "\<lparr>mw_blocks = Map.empty, mw_next = 0, mw_calls = []\<rparr>"]
  show ?thesis by auto
qed

text \<open>
  A failed \<open>mmap\<close> is not noticed: the answer is success, with \<open>MAP_FAILED\<close> as the address.  The system
  refuses a shared mapping of a file that is not open for reading, so a file opened with the flag for
  writing alone always ends this way.
\<close>

theorem mmap_failure_unnoticed:
  assumes sz: "unat sz < 2 ^ 31" and fd: "0 \<le> oe_fd env" and i: "memfile_open_flags flags = Inr i"
    and refused: "i mod 4 = O_WRONLY \<longrightarrow> oe_mem env = Some MapFailed"
    and write_only: "mf_has flags MF_WRITE" "\<not> mf_has flags MF_READ"
  shows "\<exists>m w'. linux_memfile_create env name flags sz w = Inr (None, m, w') \<and> mf_data m = Some MapFailed"
proof -
  have "oe_mem env = Some MapFailed"
    using i write_only refused by (auto simp: memfile_open_flags_def O_CREAT_def O_WRONLY_def)
  with fd i linux_fill_eq [OF sz] show ?thesis by (simp add: linux_memfile_create_def Let_def)
qed

text \<open>
  On Windows a mapping that is closed twice frees its block twice, reading it before; and when the file
  mapping cannot be created, the file's handle stays open.
\<close>

theorem win_close_twice:
  assumes sz: "unat sz < 2 ^ 31" and env: "we_wlen env \<noteq> 0" "we_fd env \<noteq> -1" "we_fm env \<noteq> 0" "we_mem env = Some a"
  shows "\<exists>m w1 m' w2. win_memfile_create env flags sz w = Inr (None, m, w1) \<and>
    win_memfile_close (Some m) w1 = Inr (m', w2) \<and>
    ww_calls w2 = ww_calls w1 @ [WinUnmap a, WinCloseHandle (we_fm env), WinCloseHandle (we_fd env), WinFree (ww_next w)] \<and>
    win_memfile_close m' w2 = Inl UseAfterFree"
  using env win_fill_eq [OF sz]
  by (simp add: win_memfile_create_def win_memfile_close_def win_do_def Let_def)

theorem win_mapping_leak:
  assumes sz: "unat sz < 2 ^ 31" and env: "we_wlen env \<noteq> 0" "we_fd env \<noteq> -1" "we_fd env \<noteq> 0" "we_fm env = 0"
    and w: "WinCloseHandle (we_fd env) \<notin> set (ww_calls w)"
  shows "\<exists>m w1. win_memfile_create env flags sz w = Inr (Some ''CreateFileMapping failed'', m, w1) \<and>
    WinCreateFile (win_access flags) (mf_has flags MF_WRITE) \<in> set (ww_calls w1) \<and> WinCloseHandle (we_fd env) \<notin> set (ww_calls w1)"
  using env w win_fill_eq [OF sz]
  by (auto simp: win_memfile_create_def win_do_def win_fill_calls_def Let_def)

end
