(* ===== verification/RtbBase.thy ===== *)
theory RtbBase
  imports PpCall PipeConn MemFile
begin

text \<open>
  The functions of \<open>runtime_bridge/c-modules/pxprpc_rtbridge_base/init.hpp\<close>: servers and connections of
  the pipe as remote objects, memory chunks, and the shared variables.  A handler works on the world of
  the C++ layer (\<open>PpCall\<close>) and on the objects of this module, which are named by their addresses; a
  \<open>static_cast\<close> of a pointer to an object of another class is a read of an indeterminate value.  The
  library \<open>memfile.h\<close>, the addresses the allocator chooses and the memory behind addresses a client
  sends are parameters.  The calls of an io are recorded; its completions are events.
\<close>

section \<open>State\<close>

type_synonym ionum = nat
type_synonym memid = nat

text \<open>\<open>newConn\<close> is empty or the closure of an accept, which captured its return.\<close>

record pipe_acceptor =
  pa_s :: bytes
  pa_newConn :: "oid option"
  pa_connected :: "ionum list"
  pa_waiting :: bool

record chunk =
  ck_createBy :: nat
  ck_size :: int
  ck_base :: "memid option"

datatype base_obj =
    BServer pipe_acceptor | BConn ionum bool | BChunk chunk | BTcp bytes u32

text \<open>Continuations of the io calls: the return to settle.\<close>

datatype io_call = CallClose ionum | CallSend ionum bytes oid | CallReceive ionum oid

record bworld =
  bw_pp :: pworld
  bw_objs :: "addr \<Rightarrow> base_obj option"
  bw_next :: addr
  bw_servers :: "pipe_server list"
  bw_next_io :: ionum
  bw_mem :: "memid \<Rightarrow> bytes option"
  bw_next_mem :: memid
  bw_vars :: "bytes \<rightharpoonup> bytes"
  bw_onchange :: "nat list"
  bw_calls :: "io_call list"

definition pp_do :: "(pworld \<Rightarrow> pworld res) \<Rightarrow> bworld \<Rightarrow> bworld res" where
  "pp_do f b = bindR (f (bw_pp b)) (\<lambda>w. Inr (b\<lparr>bw_pp := w\<rparr>))"

definition pp_get :: "(pworld \<Rightarrow> ('a \<times> pworld) res) \<Rightarrow> bworld \<Rightarrow> ('a \<times> bworld) res" where
  "pp_get f b = bindR (f (bw_pp b)) (\<lambda>(v, w). Inr (v, b\<lparr>bw_pp := w\<rparr>))"

definition new_base :: "base_obj \<Rightarrow> bworld \<Rightarrow> addr \<times> bworld" where
  "new_base x b = (bw_next b, b\<lparr>bw_objs := (bw_objs b)(bw_next b \<mapsto> x), bw_next := bw_next b + 1\<rparr>)"

definition put_base :: "addr \<Rightarrow> base_obj \<Rightarrow> bworld \<Rightarrow> bworld" where
  "put_base a x b = b\<lparr>bw_objs := (bw_objs b)(a \<mapsto> x)\<rparr>"

definition io_do :: "io_call \<Rightarrow> bworld \<Rightarrow> bworld" where
  "io_do c b = b\<lparr>bw_calls := bw_calls b @ [c]\<rparr>"

fun cast_server :: "base_obj option \<Rightarrow> pipe_acceptor res" where
  "cast_server None = Inl UseAfterFree"
| "cast_server (Some (BServer s)) = Inr s"
| "cast_server (Some _) = Inl Uninit"

fun cast_conn :: "base_obj option \<Rightarrow> (ionum \<times> bool) res" where
  "cast_conn None = Inl UseAfterFree"
| "cast_conn (Some (BConn io ac)) = Inr (io, ac)"
| "cast_conn (Some _) = Inl Uninit"

fun cast_chunk :: "base_obj option \<Rightarrow> chunk res" where
  "cast_chunk None = Inl UseAfterFree"
| "cast_chunk (Some (BChunk c)) = Inr c"
| "cast_chunk (Some _) = Inl Uninit"

text \<open>\<open>nextObject\<close> and the cast; a null object is dereferenced.\<close>

definition next_object_as :: "(base_obj option \<Rightarrow> 'a res) \<Rightarrow> oid \<Rightarrow> bworld \<Rightarrow> ((addr \<times> 'a) \<times> bworld) res" where
  "next_object_as cast p b =
     bindR (pp_get (nextObject id p) b) (\<lambda>(obj, b).
     case obj of None \<Rightarrow> Inl NullDeref
     | Some a \<Rightarrow> bindR (cast (bw_objs b a)) (\<lambda>x. Inr ((a, x), b)))"

section \<open>PxpPipeServer and PxpConnection\<close>

text \<open>A C string ends at its first zero byte.\<close>

definition c_str :: "bytes \<Rightarrow> string" where
  "c_str s = map (\<lambda>x. char_of (unat x)) (takeWhile (\<lambda>x. x \<noteq> 0) s)"

definition accept_aborted :: bytes where
  "accept_aborted = map of_char ''Accept aborted''"

text \<open>A connection object closes its io when it is deleted, unless it is told not to.\<close>

definition conn_new :: "ionum \<Rightarrow> base_obj" where
  "conn_new io = BConn io True"

definition setAutoClose :: "bool \<Rightarrow> ionum \<Rightarrow> base_obj" where
  "setAutoClose autoClose io = BConn io autoClose"

declare conn_new_def [simp] setAutoClose_def [simp]

text \<open>The closure of \<open>pxprpc_pipe_pp.accept\<close>; calling an empty \<open>std::function\<close> throws, and nobody catches.\<close>

definition call_newConn :: "oid option \<Rightarrow> ionum option \<Rightarrow> bworld \<Rightarrow> bworld res" where
  "call_newConn f io b =
     (case f of None \<Rightarrow> Inl Abort
      | Some t \<Rightarrow>
          (case io of
             None \<Rightarrow> pp_do (reject t accept_aborted) b
           | Some i \<Rightarrow> (let (a, b) = new_base (conn_new i) b in pp_do (resolve_object t (Some a)) b)))"

definition onConnect :: "addr \<Rightarrow> ionum \<Rightarrow> bworld \<Rightarrow> bworld res" where
  "onConnect a io b =
     bindR (cast_server (bw_objs b a)) (\<lambda>s.
     if pa_waiting s
     then call_newConn (pa_newConn s) (Some io) (put_base a (BServer (s\<lparr>pa_waiting := False\<rparr>)) b)
     else Inr (put_base a (BServer (s\<lparr>pa_connected := pa_connected s @ [io]\<rparr>)) b))"

definition wrap_on_connect :: "ionum \<Rightarrow> addr \<Rightarrow> bworld \<Rightarrow> bworld res" where
  "wrap_on_connect io1 server b = onConnect server io1 b"

text \<open>\<open>__wrap_on_connect\<close> is the only function registered here: it is number 0 of the pipe's list.\<close>

definition serve :: "addr \<Rightarrow> bworld \<Rightarrow> bworld res" where
  "serve a b =
     bindR (cast_server (bw_objs b a)) (\<lambda>s.
     Inr (b\<lparr>bw_servers := pipe_serve (c_str (pa_s s)) (Some 0) a (bw_servers b)\<rparr>))"

text \<open>The queue's front is removed after the closure has been called.\<close>

definition accept :: "addr \<Rightarrow> oid \<Rightarrow> bworld \<Rightarrow> bworld res" where
  "accept a t b =
     bindR (cast_server (bw_objs b a)) (\<lambda>s.
     case pa_connected s of
       [] \<Rightarrow> Inr (put_base a (BServer (s\<lparr>pa_newConn := Some t, pa_waiting := True\<rparr>)) b)
     | io # ios \<Rightarrow>
         bindR (call_newConn (Some t) (Some io) b) (\<lambda>b.
         bindR (cast_server (bw_objs b a)) (\<lambda>s.
         Inr (put_base a (BServer (s\<lparr>pa_connected := tl (pa_connected s)\<rparr>)) b))))"

definition delete_server :: "addr \<Rightarrow> pipe_acceptor \<Rightarrow> bworld \<Rightarrow> bworld res" where
  "delete_server a s b =
     call_newConn (pa_newConn s) None (b\<lparr>bw_servers := pipe_serve (c_str (pa_s s)) None 0 (bw_servers b)\<rparr>)"

definition delete_conn :: "ionum \<Rightarrow> bool \<Rightarrow> bworld \<Rightarrow> bworld" where
  "delete_conn io autoClose b = (if autoClose then io_do (CallClose io) b else b)"

text \<open>
  A connection by name: the pipe hands the server's side to the registered function with its argument
  and returns the client's side.
\<close>

definition connect_by_name :: "bytes \<Rightarrow> bworld \<Rightarrow> (ionum option \<times> bworld) res" where
  "connect_by_name name b =
     (case pipe_connect (c_str name) (bw_servers b) of
        None \<Rightarrow> Inr (None, b)
      | Some (conn, f, a) \<Rightarrow>
          (let i = bw_next_io b
           in bindR (wrap_on_connect i a (b\<lparr>bw_next_io := i + 2\<rparr>)) (\<lambda>b. Inr (Some (i + 1), b))))"

section \<open>MemoryChunk\<close>

definition new_mem :: "bytes \<Rightarrow> bworld \<Rightarrow> memid \<times> bworld" where
  "new_mem v b = (bw_next_mem b, b\<lparr>bw_mem := (bw_mem b)(bw_next_mem b \<mapsto> v), bw_next_mem := bw_next_mem b + 1\<rparr>)"

definition chunk_new :: chunk where
  "chunk_new = \<lparr>ck_createBy = 0, ck_size = 0, ck_base = None\<rparr>"

text \<open>A negative size becomes a size no allocator has: \<open>malloc\<close> gives null.\<close>

definition chunk_alloc :: "u8 \<Rightarrow> int \<Rightarrow> bworld \<Rightarrow> chunk \<times> bworld" where
  "chunk_alloc jk sz b =
     (if sz < 0 then (\<lparr>ck_createBy = 1, ck_size = sz, ck_base = None\<rparr>, b)
      else let (m, b) = new_mem (replicate (nat sz) jk) b in (\<lparr>ck_createBy = 1, ck_size = sz, ck_base = Some m\<rparr>, b))"

definition chunk_access :: "memid option \<Rightarrow> int \<Rightarrow> chunk" where
  "chunk_access base sz = \<lparr>ck_createBy = 2, ck_size = sz, ck_base = base\<rparr>"

definition filemap_mode :: "bytes \<Rightarrow> u8" where
  "filemap_mode mode = (if 0x72 \<in> set mode then MF_READ else 0) OR (if 0x77 \<in> set mode then MF_WRITE else 0)"

text \<open>
  \<open>memfile_create\<close> gives an error or the mapped bytes; the \<open>int32_t\<close> size becomes an \<open>unsigned long\<close>.
\<close>

definition chunk_filemap :: "(string \<Rightarrow> u8 \<Rightarrow> u64 \<Rightarrow> (bytes + bytes) res) \<Rightarrow> bytes \<Rightarrow> bytes \<Rightarrow> int \<Rightarrow> bworld
    \<Rightarrow> (bytes option \<times> chunk \<times> bworld) res" where
  "chunk_filemap memfile_create path mode sz b =
     bindR (memfile_create (c_str path) (filemap_mode mode) (word_of_int sz)) (\<lambda>out.
     Inr (case out of
        Inl err \<Rightarrow> (Some err, \<lparr>ck_createBy = 0, ck_size = sz, ck_base = None\<rparr>, b)
      | Inr v \<Rightarrow> (let (m, b) = new_mem v b in (None, \<lparr>ck_createBy = 3, ck_size = sz, ck_base = Some m\<rparr>, b))))"

text \<open>
  The Linux mapping of a file that holds \<open>content\<close>: the bytes of a mapping are those of the file, an access
  beyond the file's last byte or through \<open>MAP_FAILED\<close> is an error of the process.
\<close>

definition linux_mapfile :: "os_env \<Rightarrow> mf_world \<Rightarrow> bytes \<Rightarrow> string \<Rightarrow> u8 \<Rightarrow> u64 \<Rightarrow> (bytes + bytes) res" where
  "linux_mapfile env w content path flags sz =
     bindR (linux_memfile_create env path flags sz w) (\<lambda>(err, m, w).
     Inr (case err of
        Some e \<Rightarrow> Inl (map (\<lambda>c. of_nat (of_char c)) e)
      | None \<Rightarrow> Inr (case mf_data m of Some (MapAt a) \<Rightarrow> take (unat sz) content | _ \<Rightarrow> [])))"

definition delete_chunk :: "chunk \<Rightarrow> bworld \<Rightarrow> bworld res" where
  "delete_chunk c b =
     (if ck_createBy c = 1 \<or> ck_createBy c = 3 then
        (case ck_base c of
           None \<Rightarrow> Inr b
         | Some m \<Rightarrow> if bw_mem b m = None then Inl BadFree else Inr (b\<lparr>bw_mem := (bw_mem b)(m := None)\<rparr>))
      else Inr b)"

text \<open>Access through \<open>base+offset\<close>.\<close>

definition chunk_mem :: "chunk \<Rightarrow> bworld \<Rightarrow> (memid \<times> bytes) res" where
  "chunk_mem c b =
     (case ck_base c of None \<Rightarrow> Inl NullDeref
      | Some m \<Rightarrow> (case bw_mem b m of None \<Rightarrow> Inl UseAfterFree | Some v \<Rightarrow> Inr (m, v)))"

definition chunk_read :: "chunk \<Rightarrow> int \<Rightarrow> int \<Rightarrow> bworld \<Rightarrow> bytes res" where
  "chunk_read c off n b =
     (if n < 0 then Inl AllocFail
      else if n = 0 then Inr []
      else bindR (chunk_mem c b) (\<lambda>(m, v). if off < 0 then Inl OutOfBounds else read_mem v (nat off) (nat n)))"

definition chunk_write :: "chunk \<Rightarrow> int \<Rightarrow> bytes \<Rightarrow> bworld \<Rightarrow> bworld res" where
  "chunk_write c off data b =
     (if data = [] then Inr b
      else bindR (chunk_mem c b) (\<lambda>(m, v).
        if off < 0 then Inl OutOfBounds
        else bindR (write_mem v (nat off) data) (\<lambda>v'. Inr (b\<lparr>bw_mem := (bw_mem b)(m \<mapsto> v')\<rparr>))))"

text \<open>\<open>MemoryChunkOutputStream::write\<close> at position \<open>pos\<close>: the new position and world.\<close>

definition stream_write :: "chunk \<Rightarrow> int \<Rightarrow> bytes \<Rightarrow> bworld \<Rightarrow> (int \<times> bworld) res" where
  "stream_write c pos data b =
     bindR (if pos < ck_size c
            then chunk_write c pos (take (nat (min (ck_size c - pos) (int (length data)))) data) b else Inr b) (\<lambda>b.
     if pos + int (length data) < 2 ^ 31 then Inr (pos + int (length data), b) else Inl IntOverflow)"

section \<open>Shared variables\<close>

definition notify_one :: "bytes \<Rightarrow> nat \<Rightarrow> bworld \<Rightarrow> bworld res" where
  "notify_one name d b =
     (case pw_pending (bw_pp b) d of
        None \<Rightarrow> Inl UseAfterFree
      | Some None \<Rightarrow> Inr b
      | Some (Some q) \<Rightarrow> pp_do (resolve_string q name) b)"

definition rtbvarsSet :: "bytes \<Rightarrow> bytes \<Rightarrow> bworld \<Rightarrow> bworld res" where
  "rtbvarsSet name val b =
     foldR (notify_one name) (bw_onchange b)
       (b\<lparr>bw_vars := (if val = [] then (bw_vars b)(name := None) else (bw_vars b)(name \<mapsto> val))\<rparr>)"


section \<open>The functions\<close>

definition fn_serve :: "oid \<Rightarrow> oid \<Rightarrow> bworld \<Rightarrow> bworld res" where
  "fn_serve p t b =
     bindR (pp_get (nextString p) b) (\<lambda>(s, b).
     let (a, b) = new_base (BServer \<lparr>pa_s = s, pa_newConn = None, pa_connected = [], pa_waiting = False\<rparr>) b
     in bindR (serve a b) (pp_do (resolve_object t (Some a))))"

definition fn_accept :: "oid \<Rightarrow> oid \<Rightarrow> bworld \<Rightarrow> bworld res" where
  "fn_accept p t b = bindR (next_object_as cast_server p b) (\<lambda>((a, s), b). accept a t b)"

definition fn_connect :: "oid \<Rightarrow> oid \<Rightarrow> bworld \<Rightarrow> bworld res" where
  "fn_connect p t b =
     bindR (pp_get (nextString p) b) (\<lambda>(name, b).
     bindR (connect_by_name name b) (\<lambda>(io, b).
     case io of
       None \<Rightarrow> pp_do (resolve_object t None) b
     | Some i \<Rightarrow> (let (a, b) = new_base (conn_new i) b in pp_do (resolve_object t (Some a)) b)))"

definition fn_io_to_raw_addr :: "(ionum \<Rightarrow> u64) \<Rightarrow> oid \<Rightarrow> oid \<Rightarrow> bworld \<Rightarrow> bworld res" where
  "fn_io_to_raw_addr io_addr p t b =
     bindR (next_object_as cast_conn p b) (\<lambda>((a, (io, ac)), b). pp_do (resolve_long t (io_addr io)) b)"

definition fn_io_from_raw_addr :: "(u64 \<Rightarrow> ionum) \<Rightarrow> oid \<Rightarrow> oid \<Rightarrow> bworld \<Rightarrow> bworld res" where
  "fn_io_from_raw_addr addr_io p t b =
     bindR (pp_get (nextLong p) b) (\<lambda>(v, b).
     let (a, b) = new_base (conn_new (addr_io v)) b in pp_do (resolve_object t (Some a)) b)"

text \<open>The bytes of a parameter block: they stay in the request's buffer, the send refers to them there.\<close>

definition next_block :: "oid \<Rightarrow> bworld \<Rightarrow> (bytes \<times> bworld) res" where
  "next_block p b =
     bindR (pp_get (next_value (\<lambda>s. bindR (getBytes s) (\<lambda>((sz, pos), s).
        bindR (ser_slice s (pos, sz)) (\<lambda>v. Inr (v, s)))) p) b) Inr"

definition fn_io_send :: "oid \<Rightarrow> oid \<Rightarrow> bworld \<Rightarrow> bworld res" where
  "fn_io_send p t b =
     bindR (next_object_as cast_conn p b) (\<lambda>((a, (io, ac)), b).
     bindR (next_block p b) (\<lambda>(v, b). Inr (io_do (CallSend io v t) b)))"

definition io_send_done :: "oid \<Rightarrow> bytes option \<Rightarrow> bworld \<Rightarrow> bworld res" where
  "io_send_done t send_error b =
     (case send_error of Some err \<Rightarrow> pp_do (reject t err) b | None \<Rightarrow> pp_do (resolve_empty t) b)"

definition fn_io_receive :: "oid \<Rightarrow> oid \<Rightarrow> bworld \<Rightarrow> bworld res" where
  "fn_io_receive p t b =
     bindR (next_object_as cast_conn p b) (\<lambda>((a, (io, ac)), b). Inr (io_do (CallReceive io t) b))"

text \<open>\<open>n\<close> names the closure that gives the buffer back to the io.\<close>

definition io_receive_done :: "oid \<Rightarrow> nat \<Rightarrow> bytes option \<Rightarrow> bytes \<Rightarrow> bworld \<Rightarrow> bworld res" where
  "io_receive_done t n receive_error v b =
     (case receive_error of Some err \<Rightarrow> pp_do (reject t err) b | None \<Rightarrow> pp_do (resolve_parts t [v] n) b)"

text \<open>The return is never settled.\<close>

definition fn_io_set_auto_close :: "oid \<Rightarrow> oid \<Rightarrow> bworld \<Rightarrow> bworld res" where
  "fn_io_set_auto_close p t b =
     bindR (next_object_as cast_conn p b) (\<lambda>((a, (io, ac)), b).
     bindR (pp_get (nextBool p) b) (\<lambda>(v, b). Inr (put_base a (setAutoClose v io) b)))"

definition fn_new_tcp_rpc_server :: "oid \<Rightarrow> oid \<Rightarrow> bworld \<Rightarrow> bworld res" where
  "fn_new_tcp_rpc_server p t b =
     bindR (pp_get (nextString p) b) (\<lambda>(host, b).
     bindR (pp_get (nextInt p) b) (\<lambda>(port, b).
     let (a, b) = new_base (BTcp host port) b in pp_do (resolve_object t (Some a)) b))"

definition fn_memory_alloc :: "u8 \<Rightarrow> oid \<Rightarrow> oid \<Rightarrow> bworld \<Rightarrow> bworld res" where
  "fn_memory_alloc jk p t b =
     bindR (pp_get (nextInt p) b) (\<lambda>(sz, b).
     let (c, b) = chunk_alloc jk (sint sz) b; (a, b) = new_base (BChunk c) b
     in pp_do (resolve_object t (Some a)) b)"

text \<open>\<open>mem_at\<close>: the memory behind an address a client sends.\<close>

definition fn_memory_access :: "(u64 \<Rightarrow> memid option) \<Rightarrow> oid \<Rightarrow> oid \<Rightarrow> bworld \<Rightarrow> bworld res" where
  "fn_memory_access mem_at p t b =
     bindR (pp_get (nextLong p) b) (\<lambda>(addr, b).
     bindR (pp_get (nextInt p) b) (\<lambda>(sz, b).
     let (a, b) = new_base (BChunk (chunk_access (mem_at addr) (sint sz))) b
     in pp_do (resolve_object t (Some a)) b))"

definition fn_memory_read :: "oid \<Rightarrow> oid \<Rightarrow> bworld \<Rightarrow> bworld res" where
  "fn_memory_read p t b =
     bindR (next_object_as cast_chunk p b) (\<lambda>((a, c), b).
     bindR (pp_get (nextInt p) b) (\<lambda>(off, b).
     bindR (pp_get (nextInt p) b) (\<lambda>(sz, b).
     let n = (if sint sz = -1 then ck_size c else sint sz)
     in bindR (chunk_read c (sint off) n b) (\<lambda>v. pp_do (resolve_copy t v) b))))"

definition fn_memory_write :: "oid \<Rightarrow> oid \<Rightarrow> bworld \<Rightarrow> bworld res" where
  "fn_memory_write p t b =
     bindR (next_object_as cast_chunk p b) (\<lambda>((a, c), b).
     bindR (pp_get (nextInt p) b) (\<lambda>(off, b).
     bindR (next_block p b) (\<lambda>(v, b).
     bindR (chunk_write c (sint off) v b) (pp_do (resolve_empty t)))))"

text \<open>\<open>mem_addr\<close>: the address the allocator gave a block.\<close>

definition fn_memory_info :: "(memid option \<Rightarrow> u64) \<Rightarrow> oid \<Rightarrow> oid \<Rightarrow> bworld \<Rightarrow> bworld res" where
  "fn_memory_info mem_addr p t b =
     bindR (next_object_as cast_chunk p b) (\<lambda>((a, c), b).
     bindR (prepareSerializing (pw_junk (bw_pp b)) 16) (\<lambda>ser.
     bindR (putLong (mem_addr (ck_base c)) ser) (\<lambda>ser.
     bindR (putInt (word_of_int (ck_size c)) ser) (\<lambda>ser.
     pp_do (\<lambda>w. let (s, w) = new_obj (OSer ser) w; (k, w) = new_obj (OBlock (fst (buildPxpBytes ser))) w
                in resolve_ser t s k w) b))))"

definition fn_memory_mapfile :: "(string \<Rightarrow> u8 \<Rightarrow> u64 \<Rightarrow> (bytes + bytes) res) \<Rightarrow> oid \<Rightarrow> oid \<Rightarrow> bworld \<Rightarrow> bworld res" where
  "fn_memory_mapfile memfile_create p t b =
     bindR (pp_get (nextString p) b) (\<lambda>(path, b).
     bindR (pp_get (nextString p) b) (\<lambda>(mode, b).
     bindR (pp_get (nextInt p) b) (\<lambda>(sz, b).
     bindR (chunk_filemap memfile_create path mode (sint sz) b) (\<lambda>(err, c, b).
     case err of
       Some e \<Rightarrow> bindR (pp_do (reject t e) b) (delete_chunk c)
     | None \<Rightarrow> (let (a, b) = new_base (BChunk c) b in pp_do (resolve_object t (Some a)) b)))))"

text \<open>
  \<open>simpleffi_call\<close> calls the machine code at an address with 4 or with 16 words, whatever \<open>argc\<close> is; the code
  is the parameter \<open>ffi\<close>, which may change the world.
\<close>

definition ffi_args :: "chunk \<Rightarrow> nat \<Rightarrow> bworld \<Rightarrow> u64 list res" where
  "ffi_args argv n b =
     bindR (chunk_read argv 0 (8 * int n) b) (\<lambda>v. Inr (map (\<lambda>k. un_le (take 8 (drop (8 * k) v))) [0..<n]))"

definition simpleffi_call :: "(u64 \<Rightarrow> u64 list \<Rightarrow> bworld \<Rightarrow> u64 \<times> bworld) \<Rightarrow> u64 \<Rightarrow> int \<Rightarrow> chunk \<Rightarrow> bworld \<Rightarrow> (u64 \<times> bworld) res" where
  "simpleffi_call ffi fn argc argv b =
     bindR (ffi_args argv (if argc \<le> 4 then 4 else 16) b) (\<lambda>args. Inr (ffi fn args b))"

definition fn_simpleffi_call :: "(u64 \<Rightarrow> u64 list \<Rightarrow> bworld \<Rightarrow> u64 \<times> bworld) \<Rightarrow> oid \<Rightarrow> oid \<Rightarrow> bworld \<Rightarrow> bworld res" where
  "fn_simpleffi_call ffi p t b =
     bindR (pp_get (nextLong p) b) (\<lambda>(fn, b).
     bindR (next_object_as cast_chunk p b) (\<lambda>((a, c), b).
     bindR (simpleffi_call ffi fn (if ck_size c < 0 then - (- ck_size c div 8) else ck_size c div 8) c b) (\<lambda>(r, b).
     pp_do (resolve_long t r) b)))"

definition fn_sizeof_pointer :: "oid \<Rightarrow> oid \<Rightarrow> bworld \<Rightarrow> bworld res" where
  "fn_sizeof_pointer p t b = pp_do (resolve_int t 8) b"

definition fn_variable_get :: "oid \<Rightarrow> oid \<Rightarrow> bworld \<Rightarrow> bworld res" where
  "fn_variable_get p t b =
     bindR (pp_get (nextString p) b) (\<lambda>(name, b).
     pp_do (resolve_string t (case bw_vars b name of None \<Rightarrow> [] | Some v \<Rightarrow> v)) b)"

definition fn_variable_set :: "oid \<Rightarrow> oid \<Rightarrow> bworld \<Rightarrow> bworld res" where
  "fn_variable_set p t b =
     bindR (pp_get (nextString p) b) (\<lambda>(name, b).
     bindR (pp_get (nextString p) b) (\<lambda>(val, b).
     bindR (rtbvarsSet name val b) (pp_do (resolve_empty t))))"

text \<open>The new dispatcher has the address \<open>d\<close>, and so has its member \<open>callable\<close> here.\<close>

definition fn_variable_on_change :: "oid \<Rightarrow> oid \<Rightarrow> bworld \<Rightarrow> bworld res" where
  "fn_variable_on_change p t b =
     (let d = bw_next b;
          w = bw_pp b;
          b = b\<lparr>bw_next := d + 1, bw_onchange := d # bw_onchange b, bw_pp := w\<lparr>pw_pending := (pw_pending w)(d \<mapsto> None)\<rparr>\<rparr>
      in pp_do (resolve_function t (Some d)) b)"

definition delete_on_change :: "nat \<Rightarrow> bworld \<Rightarrow> bworld res" where
  "delete_on_change d b =
     bindR (pp_do (dispatcher_delete d) b) (\<lambda>b. Inr (b\<lparr>bw_onchange := remove1 d (bw_onchange b)\<rparr>))"


section \<open>Properties\<close>

lemma chunk_mem_Some: "ck_base c = Some m \<Longrightarrow> bw_mem b m = Some v \<Longrightarrow> chunk_mem c b = Inr (m, v)"
  by (simp add: chunk_mem_def)

lemma chunk_write_at:
  assumes "ck_base c = Some m" and "bw_mem b m = Some v" and "0 \<le> off" and "off + int (length data) \<le> int (length v)"
  shows "\<exists>b'. chunk_write c off data b = Inr b' \<and>
     bw_mem b' = (bw_mem b)(m \<mapsto> take (nat off) v @ data @ drop (nat off + length data) v)"
proof (cases "data = []")
  case True
  with assms(2) show ?thesis by (auto simp: chunk_write_def)
next
  case False
  have "nat off + length data \<le> length v" using assms(3,4) by simp
  with False assms(3) chunk_mem_Some [OF assms(1,2)] show ?thesis
    by (simp add: chunk_write_def write_mem_def)
qed

text \<open>What the chunk holds after \<open>n\<close> bytes \<open>w\<close> have been written to it in total.\<close>

definition filled :: "bytes \<Rightarrow> bytes \<Rightarrow> bytes" where
  "filled v w = take (length v) w @ drop (length w) v"

lemma filled_step:
  "pos = length w \<Longrightarrow> pos < length v \<Longrightarrow> n = min (length v - pos) (length data) \<Longrightarrow>
     take pos (filled v w) @ take n data @ drop (pos + n) (filled v w) = filled v (w @ data)"
  by (auto simp: filled_def min_def add.commute)


definition ex_base :: "pworld \<Rightarrow> oid option \<Rightarrow> bworld" where
  "ex_base w f =
     \<lparr>bw_pp = w, bw_objs = [0 \<mapsto> BServer \<lparr>pa_s = [65], pa_newConn = f, pa_connected = [], pa_waiting = False\<rparr>],
      bw_next = 1, bw_servers = [\<lparr>ps_name = c_str [65], ps_on_connect = 0, ps_p = 0\<rparr>], bw_next_io = 0,
      bw_mem = [0 \<mapsto> [9, 9, 9]], bw_next_mem = 1, bw_vars = Map.empty, bw_onchange = [], bw_calls = []\<rparr>"


text \<open>
  A pipe server that is deleted while it is the first of the pipe's list stays registered, with its
  address: the next connection to its name uses the deleted object.  A server deleted before anyone has
  accepted on it ends the process instead, because its empty continuation is called.
\<close>

theorem deleted_server_reached:
  assumes srv: "bw_objs b a = Some (BServer s)"
    and head: "bw_servers b = \<lparr>ps_name = c_str (pa_s s), ps_on_connect = 0, ps_p = a\<rparr> # rest"
  shows "case delete_server a s b of
      Inl e \<Rightarrow> pa_newConn s = None \<longrightarrow> e = Abort
    | Inr b' \<Rightarrow> pa_newConn s \<noteq> None \<and>
        connect_by_name (pa_s s) (b'\<lparr>bw_objs := (bw_objs b')(a := None)\<rparr>) = Inl UseAfterFree"
proof (cases "pa_newConn s")
  case None
  then show ?thesis by (simp add: delete_server_def call_newConn_def)
next
  case (Some t)
  let ?n = "c_str (pa_s s)"
  have keep: "pipe_serve ?n None 0 (bw_servers b) = bw_servers b"
    by (simp add: head pipe_serve_def find_server_Cons)
  have "connect_by_name (pa_s s) (b'\<lparr>bw_objs := (bw_objs b')(a := None)\<rparr>) = Inl UseAfterFree"
    if "delete_server a s b = Inr b'" for b'
  proof -
    have "bw_servers b' = bw_servers b"
      using that Some keep by (auto simp: delete_server_def call_newConn_def pp_do_def)
    then have "pipe_connect ?n (bw_servers b') = Some (pipe_connection_new, 0, a)"
      by (simp add: head pipe_connect_def find_server_Cons)
    then show ?thesis by (simp add: connect_by_name_def wrap_on_connect_def onConnect_def Let_def)
  qed
  with Some show ?thesis by (auto split: sum.split)
qed

lemma wrap_call_ex_world: "\<exists>p t w. wrap_call 0 ex_world = Inr ((p, t), w)"
proof -
  have "\<not> isl (wrap_call 0 ex_world)" by code_simp
  then show ?thesis by (cases "wrap_call 0 ex_world") auto
qed

theorem deleted_server_reached_witness:
  "\<exists>p t w b'. wrap_call 0 ex_world = Inr ((p, t), w) \<and>
     delete_server 0 \<lparr>pa_s = [65], pa_newConn = Some t, pa_connected = [], pa_waiting = False\<rparr> (ex_base w (Some t)) = Inr b' \<and>
     connect_by_name [65] (b'\<lparr>bw_objs := (bw_objs b')(0 := None)\<rparr>) = Inl UseAfterFree"
proof -
  obtain p t w where w: "wrap_call 0 ex_world = Inr ((p, t), w)"
    using wrap_call_ex_world by blast
  let ?s = "\<lparr>pa_s = [65], pa_newConn = Some t, pa_connected = [], pa_waiting = False\<rparr>"
  have "case wrap_call 0 ex_world of Inl _ \<Rightarrow> False
     | Inr ((p, t), w) \<Rightarrow> \<not> isl (delete_server 0 \<lparr>pa_s = [65], pa_newConn = Some t, pa_connected = [], pa_waiting = False\<rparr>
          (ex_base w (Some t)))" by code_simp
  then obtain b' where b': "delete_server 0 ?s (ex_base w (Some t)) = Inr b'"
    using w by (cases "delete_server 0 ?s (ex_base w (Some t))") simp_all
  from deleted_server_reached [of "ex_base w (Some t)" 0 ?s "[]"] b'
  have "connect_by_name [65] (b'\<lparr>bw_objs := (bw_objs b')(0 := None)\<rparr>) = Inl UseAfterFree" by (simp add: ex_base_def)
  with w b' show ?thesis by blast
qed

lemma filemap_mode_has:
  "mf_has (filemap_mode mode) MF_READ \<longleftrightarrow> 0x72 \<in> set mode" "mf_has (filemap_mode mode) MF_WRITE \<longleftrightarrow> 0x77 \<in> set mode"
  by (simp_all add: mf_has_def filemap_mode_def MF_READ_def MF_WRITE_def)

lemma chunk_read_new:
  "new_mem v b = (m, b') \<Longrightarrow> ck_base c = Some m \<Longrightarrow> 0 < n \<Longrightarrow> 0 \<le> off \<Longrightarrow>
     chunk_read c off n b' = read_mem v (nat off) (nat n)"
  by (auto simp: new_mem_def chunk_read_def chunk_mem_def)

text \<open>
  Mapping a file from a client, on Linux.  A mode with neither \<open>r\<close> nor \<open>w\<close> reads an indeterminate
  variable.  A mode with \<open>w\<close> alone is answered with success, and every access of the chunk fails.  With \<open>r\<close>
  the chunk holds the beginning of the file; a file shorter than the size asked for, such as one the
  mapping has just created, is not extended: reading the chunk as a whole fails.
\<close>

theorem mapfile_by_mode:
  assumes n: "0 < n" "n < 2 ^ 31" and fd: "0 \<le> oe_fd env"
    and refused: "0x72 \<notin> set mode \<longrightarrow> oe_mem env = Some MapFailed" and mapped: "0x72 \<in> set mode \<longrightarrow> oe_mem env = Some (MapAt a)"
  shows "case chunk_filemap (linux_mapfile env w content) path mode n b of
      Inl e \<Rightarrow> e = Uninit \<and> 0x72 \<notin> set mode \<and> 0x77 \<notin> set mode
    | Inr (err, c, b') \<Rightarrow> err = None \<and> ck_size c = n \<and> (0x72 \<in> set mode \<or> 0x77 \<in> set mode) \<and>
        (0x72 \<notin> set mode \<longrightarrow> (\<forall>off k. 0 < k \<longrightarrow> chunk_read c off k b' = Inl OutOfBounds)) \<and>
        (0x72 \<in> set mode \<longrightarrow> chunk_read c 0 n b' =
           (if n \<le> int (length content) then Inr (take (nat n) content) else Inl OutOfBounds))"
proof (cases "0x72 \<in> set mode \<or> 0x77 \<in> set mode")
  case False
  then have "memfile_open_flags (filemap_mode mode) = Inl Uninit" by (simp add: memfile_open_flags_def filemap_mode_has)
  with False show ?thesis by (simp add: chunk_filemap_def linux_mapfile_def linux_memfile_create_def)
next
  case True
  then obtain i where i: "memfile_open_flags (filemap_mode mode) = Inr i"
    using filemap_mode_has [of mode] by (cases "0x77 \<in> set mode") (auto simp: memfile_open_flags_def)
  have un: "unat (word_of_int n :: u64) = nat n"
  proof -
    have "uint (word_of_int n :: u64) = n" using n by (simp add: uint_word_of_int)
    then show ?thesis by (simp add: unat_eq_nat_uint)
  qed
  then have small: "unat (word_of_int n :: u64) < 2 ^ 31" using n by simp
  obtain x where x: "oe_mem env = Some x" using refused mapped by blast
  define v where "v = (case x of MapAt a \<Rightarrow> take (nat n) content | MapFailed \<Rightarrow> [])"
  have "linux_mapfile env w content (c_str path) (filemap_mode mode) (word_of_int n) = Inr (Inr v)"
    using i fd x linux_fill_eq [OF small] un
    by (simp add: linux_mapfile_def linux_memfile_create_def Let_def v_def split: map_addr.splits)
  then have out: "chunk_filemap (linux_mapfile env w content) path mode n b =
      Inr (let (m, b) = new_mem v b in (None, \<lparr>ck_createBy = 3, ck_size = n, ck_base = Some m\<rparr>, b))"
    by (simp add: chunk_filemap_def)
  obtain m b' where m: "new_mem v b = (m, b')" by fastforce
  let ?c = "\<lparr>ck_createBy = 3, ck_size = n, ck_base = Some m\<rparr>"
  have mem: "bw_mem b' m = Some v" using m by (auto simp: new_mem_def)
  have "chunk_read ?c off k b' = Inl OutOfBounds" if "0x72 \<notin> set mode" "0 < k" for off k
    using that refused x mem by (simp add: v_def chunk_read_def chunk_mem_def read_mem_def)
  moreover have "chunk_read ?c 0 n b' = (if n \<le> int (length content) then Inr (take (nat n) content) else Inl OutOfBounds)"
    if "0x72 \<in> set mode"
    using that mapped x n chunk_read_new [OF m, of ?c n 0] by (auto simp: v_def read_mem_def)
  ultimately show ?thesis using True m out by simp
qed

theorem mapfile_by_mode_witness:
  "\<exists>c b'. chunk_filemap (linux_mapfile \<lparr>oe_fd = 3, oe_mem = Some (MapAt 4096)\<rparr> \<lparr>mw_blocks = Map.empty, mw_next = 0, mw_calls = []\<rparr> [])
      [0x61] [0x72, 0x77] 16 (ex_base ex_world None) = Inr (None, c, b') \<and> chunk_read c 0 16 b' = Inl OutOfBounds"
  using mapfile_by_mode [where n = 16 and env = "\<lparr>oe_fd = 3, oe_mem = Some (MapAt 4096)\<rparr>" and mode = "[0x72, 0x77]" and a = 4096
      and w = "\<lparr>mw_blocks = Map.empty, mw_next = 0, mw_calls = []\<rparr>" and content = "[]" and path = "[0x61]" and b = "ex_base ex_world None"]
  by (auto split: sum.splits)

end
