(* ===== verification/UvWorld.thy ===== *)
theory UvWorld
  imports PpCall
begin

text \<open>
  The state of \<open>runtime_bridge/c-modules/pxprpc_libuv_rpc/init.hpp\<close>: remote objects over libuv handles and
  files.  An object is named by its address and a handle by a number; \<open>uv_data\<close> is the pointer \<open>data\<close> of a
  handle.  libuv is the environment: the record \<open>libuv\<close> holds what its functions return, the calls that
  start something are recorded in \<open>uv_calls\<close> with what their callback captured, and the callbacks are
  events.
\<close>

section \<open>State\<close>

type_synonym hid = nat

datatype stream_class = StreamBase | StreamPipe | StreamTcp

record stream_wrap =
  sw_class :: stream_class
  sw_stream :: hid
  sw_readBuf :: bytes
  sw_readWaiting :: "oid list"
  sw_acceptWaiting :: "oid list"
  sw_closeOnDestruct :: bool
  sw_errcode :: int

record udp_wrap =
  ud_udp :: hid
  ud_readBuf :: "serializer option"
  ud_readWaiting :: "oid list"
  ud_closeOnDestruct :: bool
  ud_errcode :: int

record proc_wrap =
  pr_proc :: "hid option"
  pr_stdio :: "hid option list"
  pr_alive :: bool
  pr_exitStatus :: u64
  pr_termSignal :: u32
  pr_onProcExit :: "oid list"

datatype uv_obj = OFile int | OStream stream_wrap | OUdp udp_wrap | OProcess proc_wrap

text \<open>A file operation and the closure of its request, which captured the return.\<close>

datatype fs_op =
    FsOpen bytes nat nat | FsRead int nat u64 | FsWrite int bytes u64 | FsUnlink bytes | FsMkdir bytes nat | FsRmdir bytes
  | FsScandir bytes | FsStat bytes | FsRename bytes bytes | FsFtruncate int u64 | FsReadlink bytes | FsChmod bytes u32
  | FsClose int

datatype fs_done =
    DoneOpen oid | DoneRead oid | DoneCount oid | DoneVoid oid | DoneScandir oid | DoneStat oid | DoneReadlink oid

datatype uv_call =
    UvReadStart hid | UvReadStop hid | UvListen hid nat | UvAccept hid hid | UvClose hid
  | UvWrite hid bytes oid
  | UvPipeConnect hid bytes oid addr
  | UvTcpConnect hid bytes u32 oid addr
  | UvUdpSend hid bytes bytes oid
  | UvFs fs_op "fs_done option"
  | UvSpawn hid "bytes \<times> bytes list" bytes "bytes list" "hid option list"

record uv_world =
  uv_pp :: pworld
  uv_objs :: "addr \<Rightarrow> uv_obj option"
  uv_next :: addr
  uv_data :: "hid \<Rightarrow> addr option"
  uv_next_h :: hid
  uv_calls :: "uv_call list"

text \<open>
  What the functions of libuv return.  An address is its textual name, as \<open>uv_ip4_name\<close> gives it, with the
  port number, which the structure keeps in network order.
\<close>

datatype sockaddr = SockV4 bytes u16 | SockV6 bytes u16 | SockOther

record libuv =
  lv_err_name :: "int \<Rightarrow> bytes"
  lv_pipe_bind :: "hid \<Rightarrow> bytes \<Rightarrow> int"
  lv_ip4_addr :: "bytes \<Rightarrow> u32 \<Rightarrow> int"
  lv_ip6_addr :: "bytes \<Rightarrow> u32 \<Rightarrow> int"
  lv_tcp_bind :: "hid \<Rightarrow> bytes \<Rightarrow> u32 \<Rightarrow> int"
  lv_tcp_getpeername :: "hid \<Rightarrow> int + sockaddr"
  lv_tcp_nodelay :: "hid \<Rightarrow> bool \<Rightarrow> int"
  lv_tcp_keepalive :: "hid \<Rightarrow> bool \<Rightarrow> u32 \<Rightarrow> int"
  lv_udp_bind :: "hid \<Rightarrow> bytes \<Rightarrow> int"
  lv_spawn :: "bytes \<times> bytes list \<Rightarrow> bytes \<Rightarrow> bytes list \<Rightarrow> int"

definition uv_do :: "(pworld \<Rightarrow> pworld res) \<Rightarrow> uv_world \<Rightarrow> uv_world res" where
  "uv_do f u = bindR (f (uv_pp u)) (\<lambda>w. Inr (u\<lparr>uv_pp := w\<rparr>))"

definition uv_get :: "(pworld \<Rightarrow> ('a \<times> pworld) res) \<Rightarrow> uv_world \<Rightarrow> ('a \<times> uv_world) res" where
  "uv_get f u = bindR (f (uv_pp u)) (\<lambda>(v, w). Inr (v, u\<lparr>uv_pp := w\<rparr>))"

definition uv_say :: "uv_call \<Rightarrow> uv_world \<Rightarrow> uv_world" where
  "uv_say c u = u\<lparr>uv_calls := uv_calls u @ [c]\<rparr>"

definition new_uv :: "uv_obj \<Rightarrow> uv_world \<Rightarrow> addr \<times> uv_world" where
  "new_uv x u = (uv_next u, u\<lparr>uv_objs := (uv_objs u)(uv_next u \<mapsto> x), uv_next := uv_next u + 1\<rparr>)"

definition put_uv :: "addr \<Rightarrow> uv_obj \<Rightarrow> uv_world \<Rightarrow> uv_world" where
  "put_uv a x u = u\<lparr>uv_objs := (uv_objs u)(a \<mapsto> x)\<rparr>"

definition set_data :: "hid \<Rightarrow> addr option \<Rightarrow> uv_world \<Rightarrow> uv_world" where
  "set_data h d u = u\<lparr>uv_data := (uv_data u)(h := d)\<rparr>"

text \<open>A new handle: its memory is cleared, so \<open>data\<close> is null.\<close>

definition new_handle :: "uv_world \<Rightarrow> hid \<times> uv_world" where
  "new_handle u = (uv_next_h u, u\<lparr>uv_data := (uv_data u)(uv_next_h u := None), uv_next_h := uv_next_h u + 1\<rparr>)"

fun cast_stream :: "uv_obj option \<Rightarrow> stream_wrap res" where
  "cast_stream None = Inl UseAfterFree"
| "cast_stream (Some (OStream s)) = Inr s"
| "cast_stream (Some _) = Inl Uninit"

fun cast_udp :: "uv_obj option \<Rightarrow> udp_wrap res" where
  "cast_udp None = Inl UseAfterFree"
| "cast_udp (Some (OUdp s)) = Inr s"
| "cast_udp (Some _) = Inl Uninit"

fun cast_process :: "uv_obj option \<Rightarrow> proc_wrap res" where
  "cast_process None = Inl UseAfterFree"
| "cast_process (Some (OProcess s)) = Inr s"
| "cast_process (Some _) = Inl Uninit"

definition next_uv_object :: "(uv_obj option \<Rightarrow> 'a res) \<Rightarrow> oid \<Rightarrow> uv_world \<Rightarrow> ((addr \<times> 'a) \<times> uv_world) res" where
  "next_uv_object cast p u =
     bindR (uv_get (nextObject id p) u) (\<lambda>(obj, u).
     case obj of None \<Rightarrow> Inl NullDeref
     | Some a \<Rightarrow> bindR (cast (uv_objs u a)) (\<lambda>x. Inr ((a, x), u)))"

definition next_uv_block :: "oid \<Rightarrow> uv_world \<Rightarrow> (bytes \<times> uv_world) res" where
  "next_uv_block p u =
     uv_get (next_value (\<lambda>s. bindR (getBytes s) (\<lambda>((sz, pos), s). bindR (ser_slice s (pos, sz)) (\<lambda>v. Inr (v, s)))) p) u"

text \<open>\<open>resolve\<close> of a serializer the function has made itself.\<close>

definition resolve_made :: "u32 \<Rightarrow> (serializer \<Rightarrow> serializer res) \<Rightarrow> oid \<Rightarrow> pworld \<Rightarrow> pworld res" where
  "resolve_made sz put t w =
     bindR (prepareSerializing (pw_junk w) sz) (\<lambda>ser.
     bindR (put ser) (\<lambda>ser.
     let (s, w) = new_obj (OSer ser) w; (b, w) = new_obj (OBlock (fst (buildPxpBytes ser))) w
     in resolve_ser t s b w))"

end
