(* ===== verification/UvStream.thy ===== *)
theory UvStream
  imports UvWorld "HOL-Library.Sublist"
begin

text \<open>
  The streams, datagrams and processes of \<open>runtime_bridge/c-modules/pxprpc_libuv_rpc/init.hpp\<close>: the
  classes \<open>UvStreamWrap\<close>, \<open>UvUdpWrap\<close> and \<open>UvProcessWrap\<close>, the callbacks libuv gets, and the functions
  that use them.  \<open>next_step\<close> of the library is recorded by the world of \<open>PpCall\<close>; where it may call back
  into the same object before it returns, the function is cut there.
\<close>

section \<open>UvStreamWrap\<close>

definition stream_wrap_new :: "stream_class \<Rightarrow> hid \<Rightarrow> stream_wrap" where
  "stream_wrap_new cl h =
     \<lparr>sw_class = cl, sw_stream = h, sw_readBuf = [], sw_readWaiting = [], sw_acceptWaiting = [],
      sw_closeOnDestruct = False, sw_errcode = 0\<rparr>"

text \<open>
  \<open>processing\<close> in two parts: the call that gives the buffered data to the oldest reader, and what
  follows when that call is back.  The reader and the data are removed only then.
\<close>

definition processing_call :: "stream_wrap \<Rightarrow> pworld \<Rightarrow> (bool \<times> pworld) res" where
  "processing_call s w =
     (case sw_readWaiting s of
        [] \<Rightarrow> Inr (False, w)
      | t # ts \<Rightarrow>
          if sw_readBuf s = [] then Inr (False, w)
          else bindR (resolve_copy t (sw_readBuf s) w) (\<lambda>w. Inr (True, w)))"

definition pop_reader :: "stream_wrap \<Rightarrow> stream_wrap res" where
  "pop_reader s =
     (case sw_readWaiting s of
        [] \<Rightarrow> Inl OutOfBounds
      | t # ts \<Rightarrow> Inr (s\<lparr>sw_readWaiting := ts, sw_readBuf := []\<rparr>))"

definition reject_waiting :: "(int \<Rightarrow> bytes) \<Rightarrow> stream_wrap \<Rightarrow> pworld \<Rightarrow> (stream_wrap \<times> pworld) res" where
  "reject_waiting err_name s w =
     bindR (foldR (\<lambda>t. reject t (err_name (sw_errcode s))) (sw_readWaiting s @ sw_acceptWaiting s) w) (\<lambda>w.
     Inr (s\<lparr>sw_readWaiting := [], sw_acceptWaiting := []\<rparr>, w))"

definition processing_return :: "(int \<Rightarrow> bytes) \<Rightarrow> bool \<Rightarrow> stream_wrap \<Rightarrow> pworld \<Rightarrow> (stream_wrap \<times> pworld) res" where
  "processing_return err_name called s w =
     bindR (if called then pop_reader s else Inr s) (\<lambda>s.
     if sw_errcode s < 0 then reject_waiting err_name s w else Inr (s, w))"

definition processing :: "(int \<Rightarrow> bytes) \<Rightarrow> stream_wrap \<Rightarrow> pworld \<Rightarrow> (stream_wrap \<times> pworld) res" where
  "processing err_name s w =
     bindR (processing_call s w) (\<lambda>(called, w). processing_return err_name called s w)"

definition pushError :: "(int \<Rightarrow> bytes) \<Rightarrow> int \<Rightarrow> stream_wrap \<Rightarrow> pworld \<Rightarrow> (stream_wrap \<times> pworld) res" where
  "pushError err_name e s w = processing err_name (s\<lparr>sw_errcode := e\<rparr>) w"

text \<open>A negative length, libuv's way to report the end or an error, is a range that ends before it begins.\<close>

definition pushData :: "(int \<Rightarrow> bytes) \<Rightarrow> bytes \<Rightarrow> int \<Rightarrow> stream_wrap \<Rightarrow> pworld \<Rightarrow> (stream_wrap \<times> pworld) res" where
  "pushData err_name buf len s w =
     (if len = 0 then Inr (s, w)
      else if length (sw_readBuf s) > 1024 * 1024 then Inr (s, w)
      else if len < 0 \<or> int (length buf) < len then Inl OutOfBounds
      else processing err_name (s\<lparr>sw_readBuf := sw_readBuf s @ take (nat len) buf\<rparr>) w)"

definition pullData :: "(int \<Rightarrow> bytes) \<Rightarrow> oid \<Rightarrow> stream_wrap \<Rightarrow> pworld \<Rightarrow> (stream_wrap \<times> pworld) res" where
  "pullData err_name t s w = processing err_name (s\<lparr>sw_readWaiting := sw_readWaiting s @ [t]\<rparr>) w"

definition acceptConn :: "(int \<Rightarrow> bytes) \<Rightarrow> oid \<Rightarrow> stream_wrap \<Rightarrow> pworld \<Rightarrow> (stream_wrap \<times> pworld) res" where
  "acceptConn err_name t s w = processing err_name (s\<lparr>sw_acceptWaiting := sw_acceptWaiting s @ [t]\<rparr>) w"

definition pushConn :: "addr \<Rightarrow> stream_wrap \<Rightarrow> pworld \<Rightarrow> (stream_wrap \<times> pworld) res" where
  "pushConn conn s w =
     (case sw_acceptWaiting s of
        [] \<Rightarrow> Inr (s, w)
      | t # ts \<Rightarrow> bindR (resolve_object t (Some conn) w) (\<lambda>w. Inr (s\<lparr>sw_acceptWaiting := ts\<rparr>, w)))"

text \<open>A method call on the stream at an address.\<close>

definition on_stream :: "addr \<Rightarrow> (stream_wrap \<Rightarrow> pworld \<Rightarrow> (stream_wrap \<times> pworld) res) \<Rightarrow> uv_world \<Rightarrow> uv_world res" where
  "on_stream a f u =
     bindR (cast_stream (uv_objs u a)) (\<lambda>s.
     bindR (f s (uv_pp u)) (\<lambda>(s, w). Inr (put_uv a (OStream s) (u\<lparr>uv_pp := w\<rparr>))))"

text \<open>\<open>init\<close> of the subclasses: a handle of their kind, closed with the object.\<close>

definition stream_init :: "stream_wrap \<Rightarrow> uv_world \<Rightarrow> stream_wrap \<times> uv_world" where
  "stream_init s u = (let (h, u) = new_handle u in (s\<lparr>sw_stream := h, sw_closeOnDestruct := True\<rparr>, u))"

definition new_stream :: "stream_class \<Rightarrow> uv_world \<Rightarrow> (addr \<times> hid) \<times> uv_world" where
  "new_stream cl u =
     (let (s, u) = stream_init (stream_wrap_new cl 0) u; (a, u) = new_uv (OStream s) u in ((a, sw_stream s), u))"

definition startReading :: "addr \<Rightarrow> hid \<Rightarrow> uv_world \<Rightarrow> uv_world" where
  "startReading a h u = uv_say (UvReadStart h) (set_data h (Some a) u)"

definition startListening :: "addr \<Rightarrow> hid \<Rightarrow> uv_world \<Rightarrow> uv_world" where
  "startListening a h u = uv_say (UvListen h 16) (set_data h (Some a) u)"

text \<open>After a reported error the data is written all the same.\<close>

definition writeData :: "libuv \<Rightarrow> bytes \<Rightarrow> oid \<Rightarrow> stream_wrap \<Rightarrow> uv_world \<Rightarrow> uv_world res" where
  "writeData lv buf t s u =
     bindR (if sw_errcode s < 0 then uv_do (reject t (lv_err_name lv (sw_errcode s))) u else Inr u) (\<lambda>u.
     Inr (uv_say (UvWrite (sw_stream s) buf t) u))"

definition write_done :: "libuv \<Rightarrow> oid \<Rightarrow> int \<Rightarrow> uv_world \<Rightarrow> uv_world res" where
  "write_done lv t stat =
     uv_do (if stat < 0 then reject t (lv_err_name lv stat) else resolve_int t (word_of_int stat))"

definition close_handle :: "hid \<Rightarrow> uv_world \<Rightarrow> uv_world" where
  "close_handle h u = uv_say (UvClose h) (set_data h None (uv_say (UvReadStop h) u))"

definition delete_stream :: "addr \<Rightarrow> uv_world \<Rightarrow> uv_world res" where
  "delete_stream a u =
     bindR (cast_stream (uv_objs u a)) (\<lambda>s.
     let u = (if sw_closeOnDestruct s then close_handle (sw_stream s) u else u)
     in Inr (u\<lparr>uv_objs := (uv_objs u)(a := None)\<rparr>))"

text \<open>The callbacks of libuv on a stream handle.\<close>

definition stream_read_cb :: "libuv \<Rightarrow> hid \<Rightarrow> int \<Rightarrow> bytes \<Rightarrow> uv_world \<Rightarrow> uv_world res" where
  "stream_read_cb lv h nread buf u =
     (case uv_data u h of None \<Rightarrow> Inr u
      | Some a \<Rightarrow> on_stream a (pushData (lv_err_name lv) buf nread) u)"

definition stream_connection_cb :: "libuv \<Rightarrow> hid \<Rightarrow> int \<Rightarrow> uv_world \<Rightarrow> uv_world res" where
  "stream_connection_cb lv server status u =
     (case uv_data u server of None \<Rightarrow> Inr u
      | Some a \<Rightarrow>
          if status = 0 then
            bindR (cast_stream (uv_objs u a)) (\<lambda>s.
            if sw_class s = StreamBase then Inl NullDeref
            else let ((c, h), u) = new_stream (sw_class s) u
                 in on_stream a (pushConn c) (startReading c h (uv_say (UvAccept server h) u)))
          else on_stream a (pushError (lv_err_name lv) status) u)"

text \<open>The close callback: \<open>data\<close> is called as a function unless it is null; then the handle is freed.\<close>

definition handle_closed :: "hid \<Rightarrow> uv_world \<Rightarrow> uv_world res" where
  "handle_closed h u = (case uv_data u h of None \<Rightarrow> Inr u | Some a \<Rightarrow> Inl Uninit)"

section \<open>Functions on streams\<close>

definition fn_stream_read :: "libuv \<Rightarrow> oid \<Rightarrow> oid \<Rightarrow> uv_world \<Rightarrow> uv_world res" where
  "fn_stream_read lv p t u =
     bindR (next_uv_object cast_stream p u) (\<lambda>((a, s), u). on_stream a (pullData (lv_err_name lv) t) u)"

definition fn_stream_write :: "libuv \<Rightarrow> oid \<Rightarrow> oid \<Rightarrow> uv_world \<Rightarrow> uv_world res" where
  "fn_stream_write lv p t u =
     bindR (next_uv_object cast_stream p u) (\<lambda>((a, s), u).
     bindR (next_uv_block p u) (\<lambda>(v, u). writeData lv v t s u))"

definition fn_stream_accept :: "libuv \<Rightarrow> oid \<Rightarrow> oid \<Rightarrow> uv_world \<Rightarrow> uv_world res" where
  "fn_stream_accept lv p t u =
     bindR (next_uv_object cast_stream p u) (\<lambda>((a, s), u). on_stream a (acceptConn (lv_err_name lv) t) u)"

definition bound_stream :: "libuv \<Rightarrow> int \<Rightarrow> addr \<Rightarrow> hid \<Rightarrow> oid \<Rightarrow> uv_world \<Rightarrow> uv_world res" where
  "bound_stream lv err a h t u =
     (if err < 0 then bindR (uv_do (reject t (lv_err_name lv err)) u) (delete_stream a)
      else uv_do (resolve_object t (Some a)) (startListening a h u))"

definition fn_pipe_bind :: "libuv \<Rightarrow> oid \<Rightarrow> oid \<Rightarrow> uv_world \<Rightarrow> uv_world res" where
  "fn_pipe_bind lv p t u =
     (let ((a, h), u) = new_stream StreamPipe u
      in bindR (uv_get (nextString p) u) (\<lambda>(path, u). bound_stream lv (lv_pipe_bind lv h path) a h t u))"

definition connected_stream :: "libuv \<Rightarrow> int \<Rightarrow> addr \<Rightarrow> hid \<Rightarrow> oid \<Rightarrow> uv_world \<Rightarrow> uv_world res" where
  "connected_stream lv stat a h t u =
     (if stat < 0 then bindR (uv_do (reject t (lv_err_name lv stat)) u) (delete_stream a)
      else uv_do (resolve_object t (Some a)) (startReading a h u))"

definition fn_pipe_connect :: "oid \<Rightarrow> oid \<Rightarrow> uv_world \<Rightarrow> uv_world res" where
  "fn_pipe_connect p t u =
     (let ((a, h), u) = new_stream StreamPipe u
      in bindR (uv_get (nextString p) u) (\<lambda>(name, u). Inr (uv_say (UvPipeConnect h name t a) u)))"

text \<open>An address is parsed as IPv4, then as IPv6.\<close>

definition parse_addr :: "libuv \<Rightarrow> bytes \<Rightarrow> u32 \<Rightarrow> int" where
  "parse_addr lv ip port = 
     (if lv_ip4_addr lv ip port < 0 \<and> lv_ip6_addr lv ip port < 0 then lv_ip6_addr lv ip port else 0)"

definition tcp_bind :: "libuv \<Rightarrow> hid \<Rightarrow> bytes \<Rightarrow> u32 \<Rightarrow> int" where
  "tcp_bind lv h ip port = (if parse_addr lv ip port < 0 then parse_addr lv ip port else lv_tcp_bind lv h ip port)"

definition fn_tcp_bind :: "libuv \<Rightarrow> oid \<Rightarrow> oid \<Rightarrow> uv_world \<Rightarrow> uv_world res" where
  "fn_tcp_bind lv p t u =
     bindR (uv_get (nextString p) u) (\<lambda>(ip, u).
     bindR (uv_get (nextInt p) u) (\<lambda>(port, u).
     let ((a, h), u) = new_stream StreamTcp u in bound_stream lv (tcp_bind lv h ip port) a h t u))"

text \<open>The connect request is made only when the address can be parsed; its result is not looked at.\<close>

definition fn_tcp_connect :: "libuv \<Rightarrow> oid \<Rightarrow> oid \<Rightarrow> uv_world \<Rightarrow> uv_world res" where
  "fn_tcp_connect lv p t u =
     bindR (uv_get (nextString p) u) (\<lambda>(ip, u).
     bindR (uv_get (nextInt p) u) (\<lambda>(port, u).
     let ((a, h), u) = new_stream StreamTcp u
     in Inr (if parse_addr lv ip port < 0 then u else uv_say (UvTcpConnect h ip port t a) u)))"

text \<open>The port is taken as it lies in memory.\<close>

definition network_order :: "u16 \<Rightarrow> u16" where
  "network_order x = push_bit 8 x OR drop_bit 8 x"

fun addrinToString :: "sockaddr \<Rightarrow> bytes \<times> u32" where
  "addrinToString (SockV4 name port) = (name, ucast (network_order port))"
| "addrinToString (SockV6 name port) = (name, ucast (network_order port))"
| "addrinToString SockOther = (map of_char ''ERR:Unknown SS_FAMILY'', -1)"

text \<open>The serializer is used without a \<open>prepare\<close>: its members are all zero.\<close>

definition empty_serializer :: "u8 \<Rightarrow> serializer" where
  "empty_serializer jk = \<lparr>ser_buf = [], ser_cap = 0, ser_pos = 0, ser_junk = jk\<rparr>"

definition fn_tcp_getpeername :: "libuv \<Rightarrow> oid \<Rightarrow> oid \<Rightarrow> uv_world \<Rightarrow> uv_world res" where
  "fn_tcp_getpeername lv p t u =
     bindR (next_uv_object cast_stream p u) (\<lambda>((a, s), u).
     case lv_tcp_getpeername lv (sw_stream s) of
       Inl err \<Rightarrow> uv_do (reject t (lv_err_name lv err)) u
     | Inr sa \<Rightarrow>
         uv_do (\<lambda>w. bindR (putString (fst (addrinToString sa)) (empty_serializer (pw_junk w))) (\<lambda>ser.
                    bindR (putInt (snd (addrinToString sa)) ser) (\<lambda>ser.
                    let (s, w) = new_obj (OSer ser) w; (b, w) = new_obj (OBlock (fst (buildPxpBytes ser))) w
                    in resolve_ser t s b w))) u)"

definition option_error :: bytes where
  "option_error = map of_char ''supported option:nodelay,keepalive''"

definition set_result :: "libuv \<Rightarrow> int \<Rightarrow> oid \<Rightarrow> uv_world \<Rightarrow> uv_world res" where
  "set_result lv err t = uv_do (if err < 0 then reject t (lv_err_name lv err) else resolve_empty t)"

definition fn_tcp_setoption :: "libuv \<Rightarrow> oid \<Rightarrow> oid \<Rightarrow> uv_world \<Rightarrow> uv_world res" where
  "fn_tcp_setoption lv p t u =
     bindR (next_uv_object cast_stream p u) (\<lambda>((a, s), u).
     bindR (uv_get (nextString p) u) (\<lambda>(opt, u).
     if opt = map of_char ''nodelay'' then
       bindR (uv_get (nextBool p) u) (\<lambda>(enable, u). set_result lv (lv_tcp_nodelay lv (sw_stream s) enable) t u)
     else if opt = map of_char ''keepalive'' then
       bindR (uv_get (nextBool p) u) (\<lambda>(enable, u).
       bindR (uv_get (nextInt p) u) (\<lambda>(delay, u). set_result lv (lv_tcp_keepalive lv (sw_stream s) enable delay) t u))
     else uv_do (reject t option_error) u))"

section \<open>UvUdpWrap\<close>

definition udp_wrap_new :: "hid \<Rightarrow> udp_wrap" where
  "udp_wrap_new h = \<lparr>ud_udp = h, ud_readBuf = None, ud_readWaiting = [], ud_closeOnDestruct = False, ud_errcode = 0\<rparr>"

text \<open>With a reader waiting, \<open>readBuf\<close> is dereferenced whether or not it is null.\<close>

definition udp_processing :: "(int \<Rightarrow> bytes) \<Rightarrow> udp_wrap \<Rightarrow> pworld \<Rightarrow> (udp_wrap \<times> pworld) res" where
  "udp_processing err_name s w =
     bindR (case ud_readWaiting s of
              [] \<Rightarrow> Inr (s, w)
            | t # ts \<Rightarrow>
                (case ud_readBuf s of
                   None \<Rightarrow> Inl NullDeref
                 | Some ser \<Rightarrow>
                     if ser_pos ser = 0 then Inr (s, w)
                     else bindR (putBytes [] 0 ser) (\<lambda>ser.
                          let (b, w) = new_obj (OSer ser) w; (k, w) = new_obj (OBlock (fst (buildPxpBytes ser))) w
                          in bindR (resolve_ser t b k w) (\<lambda>w.
                             Inr (s\<lparr>ud_readWaiting := ts, ud_readBuf := None\<rparr>, w))))) (\<lambda>(s, w).
     if ud_errcode s < 0 then
       bindR (foldR (\<lambda>t. reject t (err_name (ud_errcode s))) (ud_readWaiting s) w) (\<lambda>w.
       Inr (s\<lparr>ud_readWaiting := []\<rparr>, w))
     else Inr (s, w))"

text \<open>\<open>addr\<close> is the memory at the address libuv gives: 128 bytes of it are copied.\<close>

definition udp_pushData :: "(int \<Rightarrow> bytes) \<Rightarrow> bytes \<Rightarrow> int \<Rightarrow> bytes \<Rightarrow> udp_wrap \<Rightarrow> pworld \<Rightarrow> (udp_wrap \<times> pworld) res" where
  "udp_pushData err_name buf len sa s w =
     (if len = 0 then Inr (s, w)
      else bindR (case ud_readBuf s of None \<Rightarrow> prepareSerializing (pw_junk w) 32 | Some ser \<Rightarrow> Inr ser) (\<lambda>ser.
           if unat (ser_pos ser) > 1024 * 1024 then Inr (s\<lparr>ud_readBuf := Some ser\<rparr>, w)
           else bindR (putBytes sa 128 ser) (\<lambda>ser.
                bindR (putBytes buf (word_of_int len) ser) (\<lambda>ser.
                udp_processing err_name (s\<lparr>ud_readBuf := Some ser\<rparr>) w))))"

definition udp_pullData :: "(int \<Rightarrow> bytes) \<Rightarrow> oid \<Rightarrow> udp_wrap \<Rightarrow> pworld \<Rightarrow> (udp_wrap \<times> pworld) res" where
  "udp_pullData err_name t s w = udp_processing err_name (s\<lparr>ud_readWaiting := ud_readWaiting s @ [t]\<rparr>) w"

definition udp_pushError :: "(int \<Rightarrow> bytes) \<Rightarrow> int \<Rightarrow> udp_wrap \<Rightarrow> pworld \<Rightarrow> (udp_wrap \<times> pworld) res" where
  "udp_pushError err_name e s w = udp_processing err_name (s\<lparr>ud_errcode := e\<rparr>) w"

definition on_udp :: "addr \<Rightarrow> (udp_wrap \<Rightarrow> pworld \<Rightarrow> (udp_wrap \<times> pworld) res) \<Rightarrow> uv_world \<Rightarrow> uv_world res" where
  "on_udp a f u =
     bindR (cast_udp (uv_objs u a)) (\<lambda>s.
     bindR (f s (uv_pp u)) (\<lambda>(s, w). Inr (put_uv a (OUdp s) (u\<lparr>uv_pp := w\<rparr>))))"

definition udp_startReading :: "addr \<Rightarrow> hid \<Rightarrow> uv_world \<Rightarrow> uv_world" where
  "udp_startReading a h u = uv_say (UvReadStart h) (set_data h (Some a) u)"

definition udp_read_cb :: "libuv \<Rightarrow> hid \<Rightarrow> int \<Rightarrow> bytes \<Rightarrow> bytes \<Rightarrow> uv_world \<Rightarrow> uv_world res" where
  "udp_read_cb lv h nread buf sa u =
     (case uv_data u h of None \<Rightarrow> Inr u
      | Some a \<Rightarrow> on_udp a (udp_pushData (lv_err_name lv) buf nread sa) u)"

definition udp_writeData :: "libuv \<Rightarrow> bytes \<Rightarrow> bytes \<Rightarrow> oid \<Rightarrow> udp_wrap \<Rightarrow> uv_world \<Rightarrow> uv_world res" where
  "udp_writeData lv buf sa t s u =
     bindR (if ud_errcode s < 0 then uv_do (reject t (lv_err_name lv (ud_errcode s))) u else Inr u) (\<lambda>u.
     Inr (uv_say (UvUdpSend (ud_udp s) buf (take 128 sa) t) u))"

definition delete_udp :: "addr \<Rightarrow> uv_world \<Rightarrow> uv_world res" where
  "delete_udp a u =
     bindR (cast_udp (uv_objs u a)) (\<lambda>s.
     let u = (if ud_closeOnDestruct s then close_handle (ud_udp s) u else u)
     in Inr (u\<lparr>uv_objs := (uv_objs u)(a := None)\<rparr>))"

text \<open>\<open>asRaw\<close> is a pointer to the parameter's \<open>pxprpc_bytes\<close>, not to its bytes; libuv reads what is there.\<close>

definition fn_udp_bind :: "libuv \<Rightarrow> (oid \<Rightarrow> bytes) \<Rightarrow> oid \<Rightarrow> oid \<Rightarrow> uv_world \<Rightarrow> uv_world res" where
  "fn_udp_bind lv raw p t u =
     (let (h, u) = new_handle u;
          (a, u) = new_uv (OUdp (udp_wrap_new h)) u;
          r = lv_udp_bind lv h (raw p)
      in if r < 0 then bindR (uv_do (reject t (lv_err_name lv r)) u) (delete_udp a)
         else uv_do (resolve_object t (Some a)) u)"

definition fn_udp_send :: "libuv \<Rightarrow> oid \<Rightarrow> oid \<Rightarrow> uv_world \<Rightarrow> uv_world res" where
  "fn_udp_send lv p t u =
     bindR (next_uv_object cast_udp p u) (\<lambda>((a, s), u).
     bindR (next_uv_block p u) (\<lambda>(sa, u).
     bindR (next_uv_block p u) (\<lambda>(v, u). udp_writeData lv v sa t s u)))"

definition fn_udp_recv :: "libuv \<Rightarrow> oid \<Rightarrow> oid \<Rightarrow> uv_world \<Rightarrow> uv_world res" where
  "fn_udp_recv lv p t u =
     bindR (next_uv_object cast_udp p u) (\<lambda>((a, s), u). on_udp a (udp_pullData (lv_err_name lv) t) u)"

section \<open>UvProcessWrap\<close>

definition proc_wrap_new :: proc_wrap where
  "proc_wrap_new = \<lparr>pr_proc = None, pr_stdio = [None, None, None], pr_alive = False, pr_exitStatus = 0,
     pr_termSignal = 0, pr_onProcExit = []\<rparr>"

definition put_result :: "proc_wrap \<Rightarrow> serializer \<Rightarrow> serializer res" where
  "put_result s ser =
     bindR (putVarint (if pr_alive s then 1 else 0) ser) (\<lambda>ser.
     bindR (putLong (pr_exitStatus s) ser) (putInt (pr_termSignal s)))"

definition processEvent :: "proc_wrap \<Rightarrow> pworld \<Rightarrow> (proc_wrap \<times> pworld) res" where
  "processEvent s w =
     (if pr_alive s then Inr (s, w)
      else bindR (foldR (resolve_made 16 (put_result s)) (pr_onProcExit s) w) (\<lambda>w.
           Inr (s\<lparr>pr_onProcExit := []\<rparr>, w)))"

definition getProcessResult :: "bool \<Rightarrow> oid \<Rightarrow> proc_wrap \<Rightarrow> pworld \<Rightarrow> (proc_wrap \<times> pworld) res" where
  "getProcessResult waitExit t s w =
     (if waitExit \<and> pr_alive s then Inr (s\<lparr>pr_onProcExit := pr_onProcExit s @ [t]\<rparr>, w)
      else bindR (resolve_made 16 (put_result s) t w) (\<lambda>w. Inr (s, w)))"

definition on_process :: "addr \<Rightarrow> (proc_wrap \<Rightarrow> pworld \<Rightarrow> (proc_wrap \<times> pworld) res) \<Rightarrow> uv_world \<Rightarrow> uv_world res" where
  "on_process a f u =
     bindR (cast_process (uv_objs u a)) (\<lambda>s.
     bindR (f s (uv_pp u)) (\<lambda>(s, w). Inr (put_uv a (OProcess s) (u\<lparr>uv_pp := w\<rparr>))))"

definition initStdio :: "uv_world \<Rightarrow> hid option list \<times> uv_world" where
  "initStdio u =
     (let (h0, u) = new_handle u; (h1, u) = new_handle u; (h2, u) = new_handle u in ([Some h0, Some h1, Some h2], u))"

definition close_stdio :: "hid option \<Rightarrow> uv_world \<Rightarrow> uv_world" where
  "close_stdio h u = (case h of None \<Rightarrow> u | Some h \<Rightarrow> uv_say (UvClose h) (uv_say (UvReadStop h) (set_data h None u)))"

definition delete_process :: "addr \<Rightarrow> uv_world \<Rightarrow> uv_world res" where
  "delete_process a u =
     bindR (cast_process (uv_objs u a)) (\<lambda>s.
     let u = (case pr_proc s of None \<Rightarrow> u | Some h \<Rightarrow> set_data h None u);
         u = fold close_stdio (pr_stdio s) u
     in Inr (u\<lparr>uv_objs := (uv_objs u)(a := None)\<rparr>))"

text \<open>The program is the file name, or the first argument when it is empty.\<close>

definition spawn :: "libuv \<Rightarrow> addr \<Rightarrow> bytes \<Rightarrow> bytes list \<Rightarrow> bytes \<Rightarrow> bytes list \<Rightarrow> uv_world \<Rightarrow> (int \<times> uv_world) res" where
  "spawn lv a fileName args cwd envs u =
     bindR (if fileName \<noteq> [] then Inr fileName else case args of [] \<Rightarrow> Inl OutOfBounds | x # _ \<Rightarrow> Inr x) (\<lambda>file.
     let (io, u) = initStdio u; (h, u) = new_handle u; u = set_data h (Some a) u
     in bindR (cast_process (uv_objs u a)) (\<lambda>s.
        Inr (lv_spawn lv (file, args) cwd envs,
             uv_say (UvSpawn h (file, args) cwd envs io) (put_uv a (OProcess (s\<lparr>pr_stdio := io, pr_proc := Some h\<rparr>)) u))))"

definition proc_exited :: "u64 \<Rightarrow> u32 \<Rightarrow> proc_wrap \<Rightarrow> pworld \<Rightarrow> (proc_wrap \<times> pworld) res" where
  "proc_exited exit_status term_signal s w =
     bindR (processEvent (s\<lparr>pr_alive := False, pr_exitStatus := exit_status, pr_termSignal := term_signal\<rparr>) w)
       (\<lambda>(s, w). Inr (s\<lparr>pr_proc := None\<rparr>, w))"

definition process_exit_cb :: "hid \<Rightarrow> u64 \<Rightarrow> u32 \<Rightarrow> uv_world \<Rightarrow> uv_world res" where
  "process_exit_cb h exit_status term_signal u =
     bindR (case uv_data u h of None \<Rightarrow> Inr u
            | Some a \<Rightarrow> on_process a (proc_exited exit_status term_signal) u) (\<lambda>u.
     Inr (uv_say (UvClose h) (set_data h None u)))"

text \<open>The stream of a standard channel does not close its handle, which stays the process's.\<close>

definition getStdio :: "u32 \<Rightarrow> proc_wrap \<Rightarrow> uv_world \<Rightarrow> (addr \<times> uv_world) res" where
  "getStdio index s u =
     (if sint index < 0 \<or> 3 \<le> sint index then Inl OutOfBounds
      else case pr_stdio s ! nat (sint index) of
             None \<Rightarrow> Inl NullDeref
           | Some h \<Rightarrow> (let (a, u) = new_uv (OStream (stream_wrap_new StreamBase h)) u in Inr (a, startReading a h u)))"

fun next_strings :: "nat \<Rightarrow> oid \<Rightarrow> uv_world \<Rightarrow> (bytes list \<times> uv_world) res" where
  "next_strings 0 p u = Inr ([], u)"
| "next_strings (Suc n) p u =
     bindR (uv_get (nextString p) u) (\<lambda>(v, u). bindR (next_strings n p u) (\<lambda>(vs, u). Inr (v # vs, u)))"

definition fn_spawn :: "libuv \<Rightarrow> oid \<Rightarrow> oid \<Rightarrow> uv_world \<Rightarrow> uv_world res" where
  "fn_spawn lv p t u =
     (let (a, u) = new_uv (OProcess proc_wrap_new) u
      in bindR (uv_get (nextString p) u) (\<lambda>(fileName, u).
         bindR (uv_get (nextString p) u) (\<lambda>(cwd, u).
         bindR (uv_get (nextInt p) u) (\<lambda>(argsCount, u).
         bindR (next_strings (nat (sint argsCount)) p u) (\<lambda>(args, u).
         bindR (uv_get (nextInt p) u) (\<lambda>(envsCount, u).
         bindR (next_strings (nat (sint envsCount)) p u) (\<lambda>(envs, u).
         bindR (spawn lv a fileName args cwd envs u) (\<lambda>(r, u).
         if r < 0 then bindR (uv_do (reject t (lv_err_name lv r)) u) (delete_process a)
         else uv_do (resolve_object t (Some a)) u))))))))"

definition fn_process_stdio :: "oid \<Rightarrow> oid \<Rightarrow> uv_world \<Rightarrow> uv_world res" where
  "fn_process_stdio p t u =
     bindR (next_uv_object cast_process p u) (\<lambda>((a, s), u).
     bindR (uv_get (nextInt p) u) (\<lambda>(index, u).
     bindR (getStdio index s u) (\<lambda>(x, u). uv_do (resolve_object t (Some x)) u)))"

definition fn_process_get_result :: "oid \<Rightarrow> oid \<Rightarrow> uv_world \<Rightarrow> uv_world res" where
  "fn_process_get_result p t u =
     bindR (next_uv_object cast_process p u) (\<lambda>((a, s), u).
     bindR (uv_get (next_value getVarint p) u) (\<lambda>(v, u). on_process a (getProcessResult (v \<noteq> 0) t) u))"

section \<open>Calls that wait for an answer\<close>

text \<open>Pairs of a return and the request it belongs to, none of them settled yet.\<close>

definition calls_open :: "(oid \<times> reqid) list \<Rightarrow> pworld \<Rightarrow> bool" where
  "calls_open cs w \<longleftrightarrow>
     (\<forall>j \<ge> pw_fresh w. pw_heap w j = None) \<and> distinct (map fst cs) \<and> distinct (map snd cs) \<and>
     (\<forall>(t, r) \<in> set cs. \<exists>i f q. linked t i r f [] q w \<and> \<not> rq_rejected q \<and> rq_next_part q = [])"

lemma linked_fresh:
  "linked t i r f acts q w \<Longrightarrow> (\<forall>j \<ge> pw_fresh w. pw_heap w j = None) \<Longrightarrow> t \<noteq> pw_fresh w \<and> i \<noteq> pw_fresh w"
  by (auto simp: linked_def)

text \<open>A change of one call's objects keeps the others linked.\<close>

lemma linked_other:
  assumes l: "linked t i r f acts q w" and o: "linked t' i' r' f' acts' q' w" and neq: "t \<noteq> t'" "r \<noteq> r'"
    and heap: "\<And>j. j \<noteq> t \<Longrightarrow> j \<noteq> i \<Longrightarrow> pw_heap w j \<noteq> None \<Longrightarrow> pw_heap w' j = pw_heap w j"
    and reqs: "pw_reqs w' r' = pw_reqs w r'"
  shows "linked t' i' r' f' acts' q' w'"
proof -
  have "i' \<noteq> i" "i' \<noteq> t" "t' \<noteq> i" using l o neq by (auto simp: linked_def)
  with neq o heap [of t'] heap [of i'] reqs show ?thesis by (simp add: linked_def)
qed

lemma resolve_copy_linked:
  assumes l: "linked t i r f acts q w" and fresh: "\<forall>j \<ge> pw_fresh w. pw_heap w j = None" and small: "length buf < 2 ^ 32"
  shows "\<exists>w' q'. resolve_copy t buf w = Inr w' \<and> pw_log w' = pw_log w @ [NextStep r (rq_rejected q) buf] \<and>
     linked t i r f (acts @ [DeleteRaw (pw_fresh w)]) q' w' \<and> rq_rejected q' = rq_rejected q \<and>
     (\<forall>j \<ge> pw_fresh w'. pw_heap w' j = None) \<and>
     (\<forall>j. j \<noteq> t \<longrightarrow> j \<noteq> i \<longrightarrow> pw_heap w j \<noteq> None \<longrightarrow> pw_heap w' j = pw_heap w j) \<and>
     (\<forall>r'. r' \<noteq> r \<longrightarrow> pw_reqs w' r' = pw_reqs w r')"
proof -
  let ?b = "pw_fresh w" and ?w0 = "snd (new_obj (OBlock buf) w)"
  have tb: "t \<noteq> ?b" "i \<noteq> ?b" using linked_fresh [OF l fresh] by auto
  with l have l0: "linked t i r f acts q ?w0" by (simp add: linked_def)
  let ?g = "\<lambda>q. q\<lparr>rq_base := Alloc ?b, rq_length := of_nat (length buf), rq_next_part := []\<rparr>"
  note s1 = with_on_req [OF l0, of ?g]
  note s2 = push_linked [OF conjunct2 [OF s1], of "DeleteRaw ?b"]
  let ?w = "put_obj t (ORet i (acts @ [DeleteRaw ?b])) (set_req r (?g q) ?w0)"
  have b: "result_bytes (?g q) ?w = Inr buf"
    using small tb by (simp add: result_bytes_def read_mem_def unat_of_nat)
  note s3 = next_linked [OF conjunct2 [OF s2] b]
  let ?v = "?w\<lparr>pw_log := pw_log ?w @ [NextStep r (rq_rejected (?g q)) buf]\<rparr>"
  have "resolve_copy t buf w = Inr ?v"
    using s1 s2 s3 by (simp add: resolve_copy_def case_prod_unfold Let_def)
  moreover have "linked t i r f (acts @ [DeleteRaw ?b]) (?g q) ?v" using l tb by (simp add: linked_def)
  moreover have "\<forall>j \<ge> pw_fresh ?v. pw_heap ?v j = None" using fresh l by (auto simp: linked_def)
  moreover have "\<forall>j. j \<noteq> t \<longrightarrow> j \<noteq> i \<longrightarrow> pw_heap w j \<noteq> None \<longrightarrow> pw_heap ?v j = pw_heap w j" using fresh by auto
  moreover have "pw_log ?v = pw_log w @ [NextStep r (rq_rejected q) buf]" "\<forall>r'. r' \<noteq> r \<longrightarrow> pw_reqs ?v r' = pw_reqs w r'" by simp_all
  ultimately show ?thesis by (intro exI [of _ ?v] exI [of _ "?g q"] conjI) simp_all
qed

lemma reject_linked:
  assumes l: "linked t i r f acts q w" and fresh: "\<forall>j \<ge> pw_fresh w. pw_heap w j = None" and small: "length msg < 2 ^ 32"
  shows "\<exists>w'. reject t msg w = Inr w' \<and> pw_log w' = pw_log w @ [NextStep r True msg] \<and>
     (\<forall>j \<ge> pw_fresh w'. pw_heap w' j = None) \<and>
     (\<exists>f' q'. linked t i r f' acts q' w') \<and>
     (\<forall>j. j \<noteq> t \<longrightarrow> j \<noteq> i \<longrightarrow> pw_heap w j \<noteq> None \<longrightarrow> pw_heap w' j = pw_heap w j) \<and>
     (\<forall>r'. r' \<noteq> r \<longrightarrow> pw_reqs w' r' = pw_reqs w r')"
proof -
  let ?b = "pw_fresh w" and ?w0 = "snd (new_obj (OBlock msg) w)"
  have tb: "t \<noteq> ?b" "i \<noteq> ?b" using linked_fresh [OF l fresh] by auto
  with l have l0: "linked t i r f acts q ?w0" by (simp add: linked_def)
  let ?g = "\<lambda>q. q\<lparr>rq_base := Alloc ?b, rq_length := of_nat (length msg), rq_next_part := []\<rparr>"
  note s1 = with_on_req [OF l0, of ?g]
  note s2 = set_on_finish_linked [OF conjunct2 [OF s1], of "FinishRaw ?b"]
  note s3 = with_on_req [OF conjunct2 [OF s2], of "\<lambda>q. q\<lparr>rq_rejected := True\<rparr>"]
  let ?q = "(?g q)\<lparr>rq_rejected := True\<rparr>"
  let ?w = "set_req r ?q (put_obj i (OWrap r (FinishRaw ?b)) (set_req r (?g q) ?w0))"
  have b: "result_bytes ?q ?w = Inr msg"
    using small tb by (simp add: result_bytes_def read_mem_def unat_of_nat)
  note s4 = next_linked [OF conjunct2 [OF s3] b]
  let ?v = "?w\<lparr>pw_log := pw_log ?w @ [NextStep r (rq_rejected ?q) msg]\<rparr>"
  have "reject t msg w = Inr ?v"
    using s1 s2 s3 s4 by (simp add: reject_def case_prod_unfold Let_def setRejected_def)
  moreover have "linked t i r (FinishRaw ?b) acts ?q ?v" using l tb by (simp add: linked_def)
  moreover have "\<forall>j \<ge> pw_fresh ?v. pw_heap ?v j = None" using fresh l by (auto simp: linked_def)
  moreover have "\<forall>j. j \<noteq> t \<longrightarrow> j \<noteq> i \<longrightarrow> pw_heap w j \<noteq> None \<longrightarrow> pw_heap ?v j = pw_heap w j" using fresh by auto
  moreover have "pw_log ?v = pw_log w @ [NextStep r True msg]" "\<forall>r'. r' \<noteq> r \<longrightarrow> pw_reqs ?v r' = pw_reqs w r'" by simp_all
  ultimately show ?thesis by blast
qed

lemma calls_openD:
  assumes "calls_open cs w" and "(t, r) \<in> set cs"
  shows "\<exists>i f q. linked t i r f [] q w \<and> \<not> rq_rejected q \<and> rq_next_part q = []"
proof -
  from assms(1) have "\<forall>(t, r) \<in> set cs. \<exists>i f q. linked t i r f [] q w \<and> \<not> rq_rejected q \<and> rq_next_part q = []" by (simp add: calls_open_def)
  from bspec [OF this assms(2)] show ?thesis by simp
qed

lemma calls_open_rest:
  assumes cs: "calls_open ((t, r) # cs) w" and l: "linked t i r f [] q w"
    and w': "\<forall>j \<ge> pw_fresh w'. pw_heap w' j = None"
      "\<forall>j. j \<noteq> t \<longrightarrow> j \<noteq> i \<longrightarrow> pw_heap w j \<noteq> None \<longrightarrow> pw_heap w' j = pw_heap w j"
      "\<forall>r'. r' \<noteq> r \<longrightarrow> pw_reqs w' r' = pw_reqs w r'"
  shows "calls_open cs w'"
proof -
  have "\<exists>i f q. linked t' i r' f [] q w' \<and> \<not> rq_rejected q \<and> rq_next_part q = []" if "(t', r') \<in> set cs" for t' r'
  proof -
    from calls_openD [OF cs, of t' r'] that obtain i' f' q' where o: "linked t' i' r' f' [] q' w"
      "\<not> rq_rejected q' \<and> rq_next_part q' = []" by auto
    have "t \<notin> set (map fst cs)" "r \<notin> set (map snd cs)" using cs by (simp_all add: calls_open_def)
    then have neq: "t \<noteq> t'" "r \<noteq> r'" using that by (force, force)
    have "linked t' i' r' f' [] q' w'" by (rule linked_other [OF l o(1) neq]) (use w' neq in auto)
    with o(2) show ?thesis by blast
  qed
  with cs w'(1) show ?thesis by (auto simp: calls_open_def)
qed

lemma resolve_copy_open:
  assumes cs: "calls_open ((t, r) # cs) w" and small: "length buf < 2 ^ 32"
  shows "\<exists>w'. resolve_copy t buf w = Inr w' \<and> pw_log w' = pw_log w @ [NextStep r False buf] \<and> calls_open cs w'"
proof -
  from cs obtain i f q where l: "linked t i r f [] q w" "\<not> rq_rejected q" and fresh: "\<forall>j \<ge> pw_fresh w. pw_heap w j = None"
    by (auto simp: calls_open_def)
  from resolve_copy_linked [OF l(1) fresh small] calls_open_rest [OF cs l(1)] l(2) show ?thesis by auto
qed

lemma reject_open:
  assumes cs: "calls_open ((t, r) # cs) w" and small: "length msg < 2 ^ 32"
  shows "\<exists>w'. reject t msg w = Inr w' \<and> pw_log w' = pw_log w @ [NextStep r True msg] \<and> calls_open cs w'"
proof -
  from cs obtain i f q where l: "linked t i r f [] q w" and fresh: "\<forall>j \<ge> pw_fresh w. pw_heap w j = None"
    by (auto simp: calls_open_def)
  from reject_linked [OF l fresh small] calls_open_rest [OF cs l] show ?thesis by auto
qed

lemma reject_all_open:
  assumes "calls_open (cs @ ds) w" and "length msg < 2 ^ 32"
  shows "\<exists>w'. foldR (\<lambda>t. reject t msg) (map fst cs) w = Inr w' \<and>
     pw_log w' = pw_log w @ map (\<lambda>(t, r). NextStep r True msg) cs \<and> calls_open ds w'"
  using assms
proof (induction cs arbitrary: w)
  case (Cons c cs)
  obtain t r where c: "c = (t, r)" by (cases c)
  from Cons.prems c reject_open [of t r "cs @ ds" w msg] obtain w1 where
    w1: "reject t msg w = Inr w1" "pw_log w1 = pw_log w @ [NextStep r True msg]" "calls_open (cs @ ds) w1" by auto
  from Cons.IH [OF w1(3) Cons.prems(2)] w1 c show ?case by auto
qed simp

section \<open>A stream's readers and data\<close>

lemma processing_idle:
  "sw_readWaiting s = [] \<or> sw_readBuf s = [] \<Longrightarrow> 0 \<le> sw_errcode s \<Longrightarrow> processing en s w = Inr (s, w)"
  by (cases "sw_readWaiting s") (auto simp: processing_def processing_call_def processing_return_def)

lemma processing_gives:
  assumes "calls_open ((t, r) # cs) w" and "sw_readWaiting s = t # ts" and "sw_readBuf s \<noteq> []" "length (sw_readBuf s) < 2 ^ 32"
    and "0 \<le> sw_errcode s"
  shows "\<exists>w'. processing en s w = Inr (s\<lparr>sw_readWaiting := ts, sw_readBuf := []\<rparr>, w') \<and>
     pw_log w' = pw_log w @ [NextStep r False (sw_readBuf s)] \<and> calls_open cs w'"
  using resolve_copy_open [OF assms(1,4)] assms(2,3,5)
  by (auto simp: processing_def processing_call_def processing_return_def pop_reader_def)

datatype stream_event = Arrive bytes | Pull oid

fun stream_step :: "(int \<Rightarrow> bytes) \<Rightarrow> stream_event \<Rightarrow> stream_wrap \<times> pworld \<Rightarrow> (stream_wrap \<times> pworld) res" where
  "stream_step en (Arrive d) (s, w) = pushData en d (int (length d)) s w"
| "stream_step en (Pull t) (s, w) = pullData en t s w"

fun arrived :: "stream_event list \<Rightarrow> bytes list" where
  "arrived [] = []"
| "arrived (Arrive d # es) = d # arrived es"
| "arrived (Pull t # es) = arrived es"

fun pulled :: "stream_event list \<Rightarrow> oid list" where
  "pulled [] = []"
| "pulled (Arrive d # es) = pulled es"
| "pulled (Pull t # es) = t # pulled es"

definition answers :: "(oid \<times> reqid) list \<Rightarrow> bytes list \<Rightarrow> pp_event list" where
  "answers cs chunks = map (\<lambda>((t, r), c). NextStep r False c) (zip cs chunks)"

lemma answers_simps [simp]: "answers cs [] = []" "answers ((t, r) # cs) (c # chunks) = NextStep r False c # answers cs chunks"
  by (simp_all add: answers_def)

text \<open>\<open>n\<close> bytes have been buffered by the end of the run, from \<open>s\<close>, whose readers are \<open>ws\<close>, on.\<close>

definition stream_inv :: "(oid \<times> reqid) list \<Rightarrow> (oid \<times> reqid) list \<Rightarrow> stream_wrap \<Rightarrow> pworld \<Rightarrow> bool" where
  "stream_inv ws cs s w \<longleftrightarrow>
     calls_open (ws @ cs) w \<and> sw_readWaiting s = map fst ws \<and> (ws = [] \<or> sw_readBuf s = []) \<and> 0 \<le> sw_errcode s \<and>
     length (sw_readBuf s) \<le> 1024 * 1024 + 2 ^ 31"

lemma answers_append:
  "length cs = length chunks \<Longrightarrow> answers (cs @ ds) (chunks @ chunks') = answers cs chunks @ answers ds chunks'"
  by (simp add: answers_def)

lemma processing_step:
  assumes cs: "calls_open (ws @ cs) w" and s: "sw_readWaiting s = map fst ws" "0 \<le> sw_errcode s"
    "length (sw_readBuf s) \<le> 1024 * 1024 + 2 ^ 31"
  shows "\<exists>s' w' dn ws' chunks. processing en s w = Inr (s', w') \<and> stream_inv ws' cs s' w' \<and> [] \<notin> set chunks \<and>
     ws = dn @ ws' \<and> length dn = length chunks \<and> pw_log w' = pw_log w @ answers dn chunks \<and>
     concat chunks @ sw_readBuf s' = sw_readBuf s"
proof (cases "ws = [] \<or> sw_readBuf s = []")
  case True
  with cs s have "stream_inv ws cs s w" by (simp add: stream_inv_def)
  moreover have "processing en s w = Inr (s, w)" using True s by (intro processing_idle) auto
  ultimately show ?thesis
    by (intro exI [of _ s] exI [of _ w] exI [of _ "[]"] exI [of _ ws] exI [of _ "[]"]) simp
next
  case False
  then obtain t r ws' where ws: "ws = (t, r) # ws'" by (cases ws) auto
  have b: "sw_readBuf s \<noteq> []" "length (sw_readBuf s) < 2 ^ 32" using False s(3) by auto
  from processing_gives [OF _ _ b s(2), of t r "ws' @ cs" w "map fst ws'" en] cs s(1) ws obtain w' where
    w': "processing en s w = Inr (s\<lparr>sw_readWaiting := map fst ws', sw_readBuf := []\<rparr>, w')"
      "pw_log w' = pw_log w @ [NextStep r False (sw_readBuf s)]" "calls_open (ws' @ cs) w'" by auto
  moreover have "stream_inv ws' cs (s\<lparr>sw_readWaiting := map fst ws', sw_readBuf := []\<rparr>) w'"
    using w'(3) s(2) by (simp add: stream_inv_def)
  ultimately show ?thesis using b ws
    by (intro exI [of _ "s\<lparr>sw_readWaiting := map fst ws', sw_readBuf := []\<rparr>"] exI [of _ w'] exI [of _ "[(t, r)]"]
        exI [of _ ws'] exI [of _ "[sw_readBuf s]"]) simp
qed

text \<open>One event: \<open>kept\<close> is what it adds to the buffer.\<close>

lemma arrive_ok:
  assumes inv: "stream_inv ws cs s w" and d: "d \<noteq> []" "length d < 2 ^ 31"
  shows "\<exists>s' w' dn ws' chunks kept. stream_step en (Arrive d) (s, w) = Inr (s', w') \<and> stream_inv ws' cs s' w' \<and>
     [] \<notin> set chunks \<and> ws = dn @ ws' \<and> length dn = length chunks \<and> pw_log w' = pw_log w @ answers dn chunks \<and>
     concat chunks @ sw_readBuf s' = sw_readBuf s @ concat kept \<and>
     (kept = [d] \<or> kept = [] \<and> 1024 * 1024 < length (sw_readBuf s))"
proof (cases "1024 * 1024 < length (sw_readBuf s)")
  case True
  with d inv show ?thesis
    by (intro exI [of _ s] exI [of _ w] exI [of _ "[]"] exI [of _ ws] exI [of _ "[]"] exI [of _ "[]"])
      (simp add: pushData_def)
next
  case False
  let ?s = "s\<lparr>sw_readBuf := sw_readBuf s @ d\<rparr>"
  have step: "stream_step en (Arrive d) (s, w) = processing en ?s w" using d False by (simp add: pushData_def)
  have "\<exists>s' w' dn ws' chunks. processing en ?s w = Inr (s', w') \<and> stream_inv ws' cs s' w' \<and> [] \<notin> set chunks \<and>
     ws = dn @ ws' \<and> length dn = length chunks \<and> pw_log w' = pw_log w @ answers dn chunks \<and>
     concat chunks @ sw_readBuf s' = sw_readBuf ?s"
    by (rule processing_step) (use inv False d in \<open>auto simp: stream_inv_def\<close>)
  then obtain s' w' dn ws' chunks where "processing en ?s w = Inr (s', w')" "stream_inv ws' cs s' w'" "[] \<notin> set chunks"
    "ws = dn @ ws'" "length dn = length chunks" "pw_log w' = pw_log w @ answers dn chunks"
    "concat chunks @ sw_readBuf s' = sw_readBuf ?s" by blast
  with step show ?thesis
    by (intro exI [of _ s'] exI [of _ w'] exI [of _ dn] exI [of _ ws'] exI [of _ chunks] exI [of _ "[d]"]) simp
qed

lemma pull_ok:
  assumes inv: "stream_inv ws ((t, r) # cs) s w"
  shows "\<exists>s' w' dn ws' chunks. stream_step en (Pull t) (s, w) = Inr (s', w') \<and> stream_inv ws' cs s' w' \<and>
     [] \<notin> set chunks \<and> ws @ [(t, r)] = dn @ ws' \<and> length dn = length chunks \<and>
     pw_log w' = pw_log w @ answers dn chunks \<and> concat chunks @ sw_readBuf s' = sw_readBuf s"
proof -
  let ?s = "s\<lparr>sw_readWaiting := sw_readWaiting s @ [t]\<rparr>"
  have "\<exists>s' w' dn ws' chunks. processing en ?s w = Inr (s', w') \<and> stream_inv ws' cs s' w' \<and> [] \<notin> set chunks \<and>
     ws @ [(t, r)] = dn @ ws' \<and> length dn = length chunks \<and> pw_log w' = pw_log w @ answers dn chunks \<and>
     concat chunks @ sw_readBuf s' = sw_readBuf ?s"
    by (rule processing_step) (use inv in \<open>auto simp: stream_inv_def\<close>)
  then show ?thesis by (simp add: pullData_def)
qed

lemma stream_run_ok:
  assumes "stream_inv ws cs s w" and "pulled es = map fst cs" and "\<forall>d \<in> set (arrived es). d \<noteq> [] \<and> length d < 2 ^ 31"
  shows "\<exists>s' w' dn ws' chunks kept. foldR (stream_step en) es (s, w) = Inr (s', w') \<and> stream_inv ws' [] s' w' \<and>
     [] \<notin> set chunks \<and> ws @ cs = dn @ ws' \<and> length dn = length chunks \<and> pw_log w' = pw_log w @ answers dn chunks \<and>
     concat chunks @ sw_readBuf s' = sw_readBuf s @ concat kept \<and> subseq kept (arrived es) \<and>
     (length (sw_readBuf s) + length (concat (arrived es)) \<le> 1024 * 1024 \<longrightarrow> kept = arrived es)"
  using assms
proof (induction es arbitrary: ws cs s w)
  case Nil
  then show ?case
    by (intro exI [of _ s] exI [of _ w] exI [of _ "[]"] exI [of _ ws] exI [of _ "[]"] exI [of _ "[]"]) simp
next
  case (Cons e es)
  show ?case
  proof (cases e)
    case (Arrive d)
    with Cons.prems(3) have d: "d \<noteq> []" "length d < 2 ^ 31" by auto
    from arrive_ok [OF Cons.prems(1) d, of en] obtain s1 w1 dn ws1 chunks kept where
      one: "stream_step en (Arrive d) (s, w) = Inr (s1, w1)" "stream_inv ws1 cs s1 w1" "[] \<notin> set chunks" "ws = dn @ ws1"
        "length dn = length chunks" "pw_log w1 = pw_log w @ answers dn chunks"
        "concat chunks @ sw_readBuf s1 = sw_readBuf s @ concat kept"
        "kept = [d] \<or> kept = [] \<and> 1024 * 1024 < length (sw_readBuf s)" by blast
    from Cons.IH [OF one(2)] Cons.prems(2,3) Arrive obtain s' w' dn2 ws' chunks2 kept2 where
      two: "foldR (stream_step en) es (s1, w1) = Inr (s', w')" "stream_inv ws' [] s' w'" "[] \<notin> set chunks2"
        "ws1 @ cs = dn2 @ ws'" "length dn2 = length chunks2" "pw_log w' = pw_log w1 @ answers dn2 chunks2"
        "concat chunks2 @ sw_readBuf s' = sw_readBuf s1 @ concat kept2" "subseq kept2 (arrived es)"
        "length (sw_readBuf s1) + length (concat (arrived es)) \<le> 1024 * 1024 \<longrightarrow> kept2 = arrived es" by auto
    have len: "length (sw_readBuf s1) \<le> length (sw_readBuf s) + length (concat kept)"
      using arg_cong [OF one(7), of length] by simp
    show ?thesis
      using one two Arrive len answers_append [OF one(5), of dn2 chunks2]
      by (intro exI [of _ s'] exI [of _ w'] exI [of _ "dn @ dn2"] exI [of _ ws'] exI [of _ "chunks @ chunks2"]
          exI [of _ "kept @ kept2"]) auto
  next
    case (Pull t)
    with Cons.prems(2) obtain r cs' where cs: "cs = (t, r) # cs'" "pulled es = map fst cs'" by (cases cs) auto
    from pull_ok [of ws t r cs' s w en] Cons.prems(1) cs obtain s1 w1 dn ws1 chunks where
      one: "stream_step en (Pull t) (s, w) = Inr (s1, w1)" "stream_inv ws1 cs' s1 w1" "[] \<notin> set chunks"
        "ws @ [(t, r)] = dn @ ws1" "length dn = length chunks" "pw_log w1 = pw_log w @ answers dn chunks"
        "concat chunks @ sw_readBuf s1 = sw_readBuf s" by blast
    from Cons.IH [OF one(2) cs(2)] Cons.prems(3) Pull obtain s' w' dn2 ws' chunks2 kept2 where
      two: "foldR (stream_step en) es (s1, w1) = Inr (s', w')" "stream_inv ws' [] s' w'" "[] \<notin> set chunks2"
        "ws1 @ cs' = dn2 @ ws'" "length dn2 = length chunks2" "pw_log w' = pw_log w1 @ answers dn2 chunks2"
        "concat chunks2 @ sw_readBuf s' = sw_readBuf s1 @ concat kept2" "subseq kept2 (arrived es)"
        "length (sw_readBuf s1) + length (concat (arrived es)) \<le> 1024 * 1024 \<longrightarrow> kept2 = arrived es" by auto
    have len: "length (sw_readBuf s1) \<le> length (sw_readBuf s)"
      using arg_cong [OF one(7), of length] by simp
    have "ws @ cs = (dn @ dn2) @ ws'" using one(4) two(4) cs(1) by (metis append.assoc append_Cons append_Nil)
    moreover have "concat (chunks @ chunks2) @ sw_readBuf s' = sw_readBuf s @ concat kept2"
      using one(7) two(7) by (metis append.assoc concat_append)
    ultimately show ?thesis
      using one(1,3,5,6) two(1-3,5,6,8,9) Pull len answers_append [OF one(5), of dn2 chunks2]
      by (intro exI [of _ s'] exI [of _ w'] exI [of _ "dn @ dn2"] exI [of _ ws'] exI [of _ "chunks @ chunks2"]
          exI [of _ kept2]) auto
  qed
qed

text \<open>After an error every reader is turned away, at once.\<close>

lemma pull_after_error:
  assumes "calls_open ((t, r) # cs) w" and "sw_readWaiting s = []" "sw_acceptWaiting s = []" "sw_readBuf s = []"
    and "sw_errcode s < 0" and "length (en (sw_errcode s)) < 2 ^ 32"
  shows "\<exists>w'. pullData en t s w = Inr (s, w') \<and> pw_log w' = pw_log w @ [NextStep r True (en (sw_errcode s))] \<and> calls_open cs w'"
proof -
  from reject_open [OF assms(1,6)] obtain w' where
    w': "reject t (en (sw_errcode s)) w = Inr w'" "pw_log w' = pw_log w @ [NextStep r True (en (sw_errcode s))]"
      "calls_open cs w'" by blast
  with assms(2-5) show ?thesis
    by (simp add: pullData_def processing_def processing_call_def processing_return_def reject_waiting_def)
qed

lemma pulls_after_error:
  assumes "calls_open cs w" and "sw_readWaiting s = []" "sw_acceptWaiting s = []" "sw_readBuf s = []"
    and "sw_errcode s < 0" and "length (en (sw_errcode s)) < 2 ^ 32"
  shows "\<exists>w'. foldR (\<lambda>t (s, w). pullData en t s w) (map fst cs) (s, w) = Inr (s, w') \<and>
     pw_log w' = pw_log w @ map (\<lambda>(t, r). NextStep r True (en (sw_errcode s))) cs"
  using assms
proof (induction cs arbitrary: w)
  case (Cons c cs)
  obtain t r where c: "c = (t, r)" by (cases c)
  from Cons.prems c pull_after_error [of t r cs w s en] obtain w1 where
    w1: "pullData en t s w = Inr (s, w1)" "pw_log w1 = pw_log w @ [NextStep r True (en (sw_errcode s))]" "calls_open cs w1"
    by auto
  from Cons.IH [OF w1(3) Cons.prems(2-6)] w1 c show ?case by auto
qed simp

section \<open>Results of a process\<close>

lemma made_serializer:
  assumes "ser_emits put v" and "length v < 2 ^ 30"
  shows "\<exists>s0 s. prepareSerializing jk 16 = Inr s0 \<and> put s0 = Inr s \<and> ser_ok s \<and> ser_out s = v"
proof -
  obtain s0 where s0: "prepareSerializing jk 16 = Inr s0"
    by (simp add: prepareSerializing_def ser_prepare_ser_def realloc_mem_def)
  then have ok: "ser_ok s0" "ser_out s0 = []" by (auto simp: prepareSerializing_def dest!: ser_prepare_ser_ok)
  then have "ser_fits s0 (length v)" using assms(2) by (simp add: ser_fits_def)
  from ser_emitsD [OF assms(1) ok(1) this] ok(2) s0 show ?thesis by auto
qed

lemma resolve_ser_open:
  assumes cs: "calls_open ((t, r) # cs) w" and ser: "ser_ok ser"
  shows "\<exists>w'. (let (s, w) = new_obj (OSer ser) w; (b, w) = new_obj (OBlock (fst (buildPxpBytes ser))) w in resolve_ser t s b w)
     = Inr w' \<and> pw_log w' = pw_log w @ [NextStep r False (ser_out ser)] \<and> calls_open cs w'"
proof -
  from calls_openD [OF cs, of t r] obtain i f q where l: "linked t i r f [] q w" and q: "\<not> rq_rejected q" "rq_next_part q = []"
    by auto
  from cs have fresh: "\<forall>j \<ge> pw_fresh w. pw_heap w j = None" by (simp add: calls_open_def)
  let ?s = "pw_fresh w" and ?b = "Suc (pw_fresh w)"
  let ?w1 = "snd (new_obj (OSer ser) w)"
  let ?w2 = "snd (new_obj (OBlock (ser_buf ser)) ?w1)"
  have tb: "t \<noteq> ?s" "i \<noteq> ?s" "t \<noteq> ?b" "i \<noteq> ?b" using l fresh by (auto simp: linked_def)
  with l have l2: "linked t i r f [] q ?w2" by (simp add: linked_def)
  let ?g = "\<lambda>q. q\<lparr>rq_base := Alloc ?b, rq_length := ser_pos ser\<rparr>"
  have out: "read_mem (ser_buf ser) 0 (unat (ser_pos ser)) = Inr (ser_out ser)"
    using ser by (auto simp: read_mem_def ser_ok_def ser_out_def)
  note s1 = with_on_req [OF l2, of ?g]
  note s2 = push_linked [OF conjunct2 [OF s1], of "FreeBuiltAndDelete ?s"]
  let ?w = "put_obj t (ORet i ([] @ [FreeBuiltAndDelete ?s])) (set_req r (?g q) ?w2)"
  have b: "result_bytes (?g q) ?w = Inr (ser_out ser)" using out tb q(2) by (simp add: result_bytes_def)
  note s3 = next_linked [OF conjunct2 [OF s2] b]
  let ?v = "?w\<lparr>pw_log := pw_log ?w @ [NextStep r (rq_rejected (?g q)) (ser_out ser)]\<rparr>"
  have "(let (s, w) = new_obj (OSer ser) w; (b, w) = new_obj (OBlock (fst (buildPxpBytes ser))) w in resolve_ser t s b w) = Inr ?v"
    using s1 s2 s3 by (simp add: resolve_ser_def case_prod_unfold Let_def ser_at_def buildPxpBytes_def build_def ser_build_def)
  moreover have "calls_open cs ?v"
    by (rule calls_open_rest [OF cs l]) (use fresh l in \<open>auto simp: linked_def\<close>)
  ultimately show ?thesis using q(1) by (intro exI [of _ ?v]) simp
qed

lemma resolve_made_open:
  assumes cs: "calls_open ((t, r) # cs) w" and emits: "ser_emits put v" "length v < 2 ^ 30"
  shows "\<exists>w'. resolve_made 16 put t w = Inr w' \<and> pw_log w' = pw_log w @ [NextStep r False v] \<and> calls_open cs w'"
proof -
  from made_serializer [OF emits, of "pw_junk w"] obtain s0 ser where
    "prepareSerializing (pw_junk w) 16 = Inr s0" "put s0 = Inr ser" "ser_ok ser" "ser_out ser = v" by blast
  with resolve_ser_open [OF cs, of ser] show ?thesis by (simp add: resolve_made_def)
qed

lemma resolve_put_open:
  assumes cs: "calls_open ((t, r) # cs) w" and emits: "ser_emits put v" "length v < 2 ^ 30"
  shows "\<exists>w'. resolve_put put t w = Inr w' \<and> pw_log w' = pw_log w @ [NextStep r False v] \<and> calls_open cs w'"
proof -
  from prepared_put [OF emits, of "pw_junk w"] obtain s0 ser where
    "prepareSerializing (pw_junk w) 8 = Inr s0" "put s0 = Inr ser" "ser_ok ser" "ser_out ser = v" by blast
  with resolve_ser_open [OF cs, of ser] show ?thesis by (simp add: resolve_put_def)
qed

definition enc_result :: "u64 \<Rightarrow> u32 \<Rightarrow> bytes" where
  "enc_result st sg = 0 # le64 st @ le32 sg"

lemma put_result_emits:
  assumes "\<not> pr_alive s"
  shows "ser_emits (put_result s) (enc_result (pr_exitStatus s) (pr_termSignal s))"
proof -
  have v: "ser_emits (putVarint 0) [0]" using ser_put_varint_emits [of 0] by (simp add: putVarint_def [abs_def] enc_varint_def)
  show ?thesis
    using ser_emits_bind [OF v ser_emits_bind [OF put_long_emits put_int_emits]] assms
    by (simp add: put_result_def [abs_def] enc_result_def)
qed

datatype process_event = ProcExit u64 u32 | GetResult bool oid

fun process_step :: "process_event \<Rightarrow> proc_wrap \<times> pworld \<Rightarrow> (proc_wrap \<times> pworld) res" where
  "process_step (ProcExit st sg) (s, w) = proc_exited st sg s w"
| "process_step (GetResult waitExit t) (s, w) = getProcessResult waitExit t s w"

fun asked :: "process_event list \<Rightarrow> oid list" where
  "asked [] = []"
| "asked (ProcExit st sg # es) = asked es"
| "asked (GetResult waitExit t # es) = t # asked es"

text \<open>Every question is answered with what is known at its moment.\<close>

fun result_replies :: "process_event list \<Rightarrow> u64 \<Rightarrow> u32 \<Rightarrow> (oid \<times> reqid) list \<Rightarrow> pp_event list" where
  "result_replies (ProcExit st' sg' # es) st sg cs = result_replies es st' sg' cs"
| "result_replies (GetResult waitExit t # es) st sg (c # cs) =
     NextStep (snd c) False (enc_result st sg) # result_replies es st sg cs"
| "result_replies _ st sg cs = []"

lemma process_run:
  assumes "\<not> pr_alive s" and "pr_onProcExit s = []" and "calls_open cs w" and "asked es = map fst cs"
  shows "\<exists>s' w'. foldR process_step es (s, w) = Inr (s', w') \<and> \<not> pr_alive s' \<and> pr_onProcExit s' = [] \<and>
     pw_log w' = pw_log w @ result_replies es (pr_exitStatus s) (pr_termSignal s) cs"
  using assms
proof (induction es arbitrary: s w cs)
  case (Cons e es)
  show ?case
  proof (cases e)
    case (ProcExit st sg)
    let ?s = "s\<lparr>pr_alive := False, pr_exitStatus := st, pr_termSignal := sg, pr_onProcExit := [], pr_proc := None\<rparr>"
    have "process_step e (s, w) = Inr (?s, w)"
      using ProcExit Cons.prems(2) by (simp add: proc_exited_def processEvent_def)
    with Cons.IH [of ?s cs w] Cons.prems ProcExit show ?thesis by simp
  next
    case (GetResult waitExit t)
    with Cons.prems(4) obtain r cs' where cs: "cs = (t, r) # cs'" "asked es = map fst cs'" by (cases cs) auto
    have "length (enc_result (pr_exitStatus s) (pr_termSignal s)) < 2 ^ 30" by (simp add: enc_result_def)
    from resolve_made_open [of t r cs' w, OF _ put_result_emits [OF Cons.prems(1)] this] Cons.prems(3) cs(1) obtain w1 where
      w1: "resolve_made 16 (put_result s) t w = Inr w1"
        "pw_log w1 = pw_log w @ [NextStep r False (enc_result (pr_exitStatus s) (pr_termSignal s))]" "calls_open cs' w1"
      by auto
    have "process_step e (s, w) = Inr (s, w1)"
      using GetResult Cons.prems(1) w1(1) by (simp add: getProcessResult_def)
    with Cons.IH [OF Cons.prems(1,2) w1(3) cs(2)] w1(2) GetResult cs(1) show ?thesis by simp
  qed
qed simp

text \<open>A stream written to after an error settles its return twice.\<close>

lemma write_after_error_twice:
  assumes "calls_open [(t, r)] (uv_pp u)" and "sw_errcode s < 0" and "stat < 0"
    and "length (lv_err_name lv (sw_errcode s)) < 2 ^ 32" "length (lv_err_name lv stat) < 2 ^ 32"
  shows "\<exists>u1 u2. writeData lv v t s u = Inr u1 \<and> last (uv_calls u1) = UvWrite (sw_stream s) v t \<and>
     write_done lv t stat u1 = Inr u2 \<and>
     pw_log (uv_pp u2) = pw_log (uv_pp u) @ [NextStep r True (lv_err_name lv (sw_errcode s)), NextStep r True (lv_err_name lv stat)]"
proof -
  from calls_openD [OF assms(1), of t r] obtain i f q where l: "linked t i r f [] q (uv_pp u)" by auto
  have fresh: "\<forall>j \<ge> pw_fresh (uv_pp u). pw_heap (uv_pp u) j = None" using assms(1) by (simp add: calls_open_def)
  from reject_linked [OF l fresh assms(4)] obtain w1 f1 q1 where
    w1: "reject t (lv_err_name lv (sw_errcode s)) (uv_pp u) = Inr w1"
      "pw_log w1 = pw_log (uv_pp u) @ [NextStep r True (lv_err_name lv (sw_errcode s))]"
      "\<forall>j \<ge> pw_fresh w1. pw_heap w1 j = None" "linked t i r f1 [] q1 w1" by blast
  from reject_linked [OF w1(4,3) assms(5)] obtain w2 where
    w2: "reject t (lv_err_name lv stat) w1 = Inr w2" "pw_log w2 = pw_log w1 @ [NextStep r True (lv_err_name lv stat)]" by blast
  from w1(1,2) w2 assms(2,3) show ?thesis by (simp add: writeData_def write_done_def uv_do_def uv_say_def)
qed
text \<open>A world with two open calls, for examples.\<close>

definition ex_calls :: pworld where
  "ex_calls = \<lparr>pw_reqs = [0 \<mapsto> ex_req\<lparr>rq_callable_data := Some 0\<rparr>, 1 \<mapsto> ex_req\<lparr>rq_callable_data := Some 2\<rparr>],
     pw_heap = [0 \<mapsto> OWrap 0 NoFinish, 1 \<mapsto> ORet 0 [], 2 \<mapsto> OWrap 1 NoFinish, 3 \<mapsto> ORet 2 []], pw_fresh = 4,
     pw_pool = pool_new, pw_pending = Map.empty, pw_junk = 0, pw_log = []\<rparr>"

lemma ex_calls_open: "calls_open [(1, 0), (3, 1)] ex_calls"
  by (auto simp: calls_open_def linked_def ex_calls_def ex_req_def)

lemma ex_resolved_object: "\<exists>w w'. resolve_object 2 (Some 1) w = Inr w'"
proof -
  have "\<forall>j \<ge> pw_fresh ex_world. pw_heap ex_world j = None" "pw_reqs ex_world 0 = Some ex_req" "rq_callable_data ex_req = None"
    by (simp_all add: ex_world_def ex_req_def)
  from wrap_call_begins [OF this(2,3,1)] obtain w where w: "in_call 0 ex_world 0 1 2 None w" "pw_pool w = pool_new"
    "pw_reqs w 0 = Some (ex_req\<lparr>rq_callable_data := Some 0, rq_wrapped := True\<rparr>)" by (auto simp: ex_world_def numeral_2_eq_2)
  have "pool_room (pw_pool w)" using w(2) by (simp add: pool_room_def pool_new_def REF_POOL_EXPAND_COUNT_def)
  with resolve_done [OF w(1,3), of "RObject (Some 1)"] w(2) show ?thesis by (auto simp: ex_req_def)
qed

definition ex_stream :: stream_wrap where
  "ex_stream = stream_wrap_new StreamPipe 0"

definition ex_uv :: "pworld \<Rightarrow> uv_world" where
  "ex_uv w = \<lparr>uv_pp = w, uv_objs = [0 \<mapsto> OStream ex_stream], uv_next = 1, uv_data = [0 \<mapsto> 0], uv_next_h = 1, uv_calls = []\<rparr>"

definition ex_libuv :: libuv where
  "ex_libuv = \<lparr>lv_err_name = (\<lambda>_. [69]), lv_pipe_bind = (\<lambda>_ _. 0), lv_ip4_addr = (\<lambda>_ _. 0), lv_ip6_addr = (\<lambda>_ _. 0),
     lv_tcp_bind = (\<lambda>_ _ _. 0), lv_tcp_getpeername = (\<lambda>_. Inr SockOther), lv_tcp_nodelay = (\<lambda>_ _. 0),
     lv_tcp_keepalive = (\<lambda>_ _ _. 0), lv_udp_bind = (\<lambda>_ _. 0), lv_spawn = (\<lambda>_ _ _. 0)\<rparr>"

section \<open>Properties\<close>



text \<open>
  An error of a stream is told to everyone: the calls that wait for data or for a connection are
  rejected with its name, in the order of the queues, and every later read is rejected at once.
\<close>

theorem stream_error_rejects:
  assumes calls: "calls_open (rs @ cas @ cs) w"
    and s: "sw_readWaiting s = map fst rs" "sw_acceptWaiting s = map fst cas" "sw_readBuf s = []"
    and e: "e < 0" "length (err_name e) < 2 ^ 32"
  shows "\<exists>s1 w1 w2. pushError err_name e s w = Inr (s1, w1) \<and> sw_readWaiting s1 = [] \<and> sw_acceptWaiting s1 = [] \<and>
     foldR (\<lambda>t (s, w). pullData err_name t s w) (map fst cs) (s1, w1) = Inr (s1, w2) \<and>
     pw_log w2 = pw_log w @ map (\<lambda>(t, r). NextStep r True (err_name e)) (rs @ cas @ cs)"
proof -
  let ?s = "s\<lparr>sw_errcode := e, sw_readWaiting := [], sw_acceptWaiting := []\<rparr>"
  from reject_all_open [of "rs @ cas" cs w "err_name e"] calls e(2) obtain w1 where
    w1: "foldR (\<lambda>t. reject t (err_name e)) (map fst (rs @ cas)) w = Inr w1"
      "pw_log w1 = pw_log w @ map (\<lambda>(t, r). NextStep r True (err_name e)) (rs @ cas)" "calls_open cs w1" by auto
  have "processing_call (s\<lparr>sw_errcode := e\<rparr>) w = Inr (False, w)"
    using s(3) by (simp add: processing_call_def split: list.split)
  then have "pushError err_name e s w = Inr (?s, w1)"
    using s w1(1) e(1) by (simp add: pushError_def processing_def processing_return_def reject_waiting_def)
  moreover from pulls_after_error [OF w1(3), of ?s err_name] s(3) e obtain w2 where
    "foldR (\<lambda>t (s, w). pullData err_name t s w) (map fst cs) (?s, w1) = Inr (?s, w2)"
    "pw_log w2 = pw_log w1 @ map (\<lambda>(t, r). NextStep r True (err_name e)) cs" by auto
  ultimately show ?thesis using w1(2) by (intro exI [of _ ?s] exI [of _ w1] exI [of _ w2]) simp
qed

theorem stream_error_rejects_witness:
  "\<exists>s1 w1 w2. pushError (\<lambda>_. [69]) (-4095) (ex_stream\<lparr>sw_readWaiting := [1]\<rparr>) ex_calls = Inr (s1, w1) \<and>
     sw_readWaiting s1 = [] \<and> pullData (\<lambda>_. [69]) 3 s1 w1 = Inr (s1, w2) \<and>
     pw_log w2 = [NextStep 0 True [69], NextStep 1 True [69]]"
  using stream_error_rejects [of "[(1, 0)]" "[]" "[(3, 1)]" ex_calls "ex_stream\<lparr>sw_readWaiting := [1]\<rparr>" "-4095" "\<lambda>_. [69]"]
    ex_calls_open
  by (auto simp: ex_stream_def stream_wrap_new_def ex_calls_def)

text \<open>
  The reader is removed from the queue only after it has been answered.  When the answer makes the
  client ask again before the call is back, which the pipe transport does, the first request is answered
  twice with the same data, and the second is removed from the queue without an answer.
\<close>

theorem reentrant_read_lost:
  assumes calls: "calls_open [(t1, r1), (t2, r2)] w"
    and s: "sw_readWaiting s = [t1]" "sw_readBuf s \<noteq> []" "length (sw_readBuf s) < 2 ^ 32" "0 \<le> sw_errcode s"
  shows "\<exists>w1 s2 w2 s3. processing_call s w = Inr (True, w1) \<and> pullData err_name t2 s w1 = Inr (s2, w2) \<and>
     processing_return err_name True s2 w2 = Inr (s3, w2) \<and> sw_readWaiting s3 = [] \<and> sw_readBuf s3 = [] \<and>
     pw_log w2 = pw_log w @ [NextStep r1 False (sw_readBuf s), NextStep r1 False (sw_readBuf s)]"
proof -
  from calls_openD [OF calls, of t1 r1] obtain i f q where l: "linked t1 i r1 f [] q w" "\<not> rq_rejected q" by auto
  have fresh: "\<forall>j \<ge> pw_fresh w. pw_heap w j = None" using calls by (simp add: calls_open_def)
  from resolve_copy_linked [OF l(1) fresh s(3)] l(2) obtain w1 q1 acts where
    w1: "resolve_copy t1 (sw_readBuf s) w = Inr w1" "pw_log w1 = pw_log w @ [NextStep r1 False (sw_readBuf s)]"
      "linked t1 i r1 f acts q1 w1" "\<not> rq_rejected q1" "\<forall>j \<ge> pw_fresh w1. pw_heap w1 j = None" by auto
  from resolve_copy_linked [OF w1(3,5) s(3)] w1(4) obtain w2 where
    w2: "resolve_copy t1 (sw_readBuf s) w1 = Inr w2" "pw_log w2 = pw_log w1 @ [NextStep r1 False (sw_readBuf s)]" by auto
  let ?s2 = "s\<lparr>sw_readWaiting := [t2], sw_readBuf := []\<rparr>"
  have "processing_call s w = Inr (True, w1)" using s w1(1) by (simp add: processing_call_def)
  moreover have "pullData err_name t2 s w1 = Inr (?s2, w2)"
    using s w2(1) by (simp add: pullData_def processing_def processing_call_def processing_return_def pop_reader_def)
  moreover have "processing_return err_name True ?s2 w2 = Inr (?s2\<lparr>sw_readWaiting := []\<rparr>, w2)"
    using s(4) by (simp add: processing_return_def pop_reader_def)
  ultimately show ?thesis using w1(2) w2(2)
    by (intro exI [of _ w1] exI [of _ ?s2] exI [of _ w2] exI [of _ "?s2\<lparr>sw_readWaiting := []\<rparr>"]) simp
qed

theorem reentrant_read_lost_witness:
  "\<exists>w1 s2 w2 s3. processing_call (ex_stream\<lparr>sw_readWaiting := [1], sw_readBuf := [7]\<rparr>) ex_calls = Inr (True, w1) \<and>
     pullData (\<lambda>_. []) 3 (ex_stream\<lparr>sw_readWaiting := [1], sw_readBuf := [7]\<rparr>) w1 = Inr (s2, w2) \<and>
     processing_return (\<lambda>_. []) True s2 w2 = Inr (s3, w2) \<and> sw_readWaiting s3 = [] \<and>
     pw_log w2 = [NextStep 0 False [7], NextStep 0 False [7]]"
  using reentrant_read_lost [of 1 0 3 1 ex_calls "ex_stream\<lparr>sw_readWaiting := [1], sw_readBuf := [7]\<rparr>" "\<lambda>_. []"] ex_calls_open
  by (simp add: ex_stream_def stream_wrap_new_def) (metis append_Nil ex_calls_def pworld.select_convs(7))

text \<open>
  Deleting a stream that owns its handle makes the callbacks of libuv that still come harmless.  The
  stream of a process's standard channel does not own it, so its handle goes on to name the deleted
  object, and the next data of the process uses freed memory.
\<close>

theorem deleted_stream_callbacks:
  assumes obj: "uv_objs u a = Some (OStream s)" "uv_data u (sw_stream s) = Some a"
    and proc: "pr_stdio p ! nat (sint k) = Some h" "0 \<le> sint k" "sint k < 3"
  shows "(case delete_stream a u of Inl _ \<Rightarrow> False | Inr u' \<Rightarrow>
       if sw_closeOnDestruct s
       then stream_read_cb lv (sw_stream s) nread buf u' = Inr u' \<and>
            stream_connection_cb lv (sw_stream s) status u' = Inr u' \<and> handle_closed (sw_stream s) u' = Inr u'
       else stream_read_cb lv (sw_stream s) nread buf u' = Inl UseAfterFree) \<and>
     (case bindR (getStdio k p u) (\<lambda>(x, u). delete_stream x u) of Inl _ \<Rightarrow> False
      | Inr u' \<Rightarrow> stream_read_cb lv h nread buf u' = Inl UseAfterFree)"
  using obj proc
  by (simp add: delete_stream_def close_handle_def uv_say_def set_data_def stream_read_cb_def stream_connection_cb_def
      handle_closed_def on_stream_def getStdio_def new_uv_def stream_wrap_new_def startReading_def)

theorem deleted_stream_callbacks_witness:
  "case bindR (getStdio 1 (proc_wrap_new\<lparr>pr_stdio := [Some 5, Some 6, Some 7]\<rparr>) (ex_uv ex_calls)) (\<lambda>(x, u). delete_stream x u) of
     Inl _ \<Rightarrow> False | Inr u' \<Rightarrow> stream_read_cb ex_libuv 6 1 [65] u' = Inl UseAfterFree"
  using deleted_stream_callbacks [of "ex_uv ex_calls" 0 ex_stream "proc_wrap_new\<lparr>pr_stdio := [Some 5, Some 6, Some 7]\<rparr>" 1 6
      ex_libuv 1 "[65]" 0]
  by (simp add: ex_uv_def ex_stream_def stream_wrap_new_def)

text \<open>
  A datagram socket can send but not receive: \<open>udp_bind\<close> never starts reading, so no datagram reaches
  the object, and every \<open>udp_recv\<close> on it dereferences the buffer that does not exist yet.
\<close>

theorem udp_recv_faults:
  assumes bind: "fn_udp_bind lv raw p t u = Inr u'" and ok: "0 \<le> lv_udp_bind lv (uv_next_h u) (raw p)"
  shows "\<exists>s. uv_objs u' (uv_next u) = Some (OUdp s) \<and>
     (\<forall>nread buf sa. udp_read_cb lv (ud_udp s) nread buf sa u' = Inr u') \<and>
     (\<forall>t'. on_udp (uv_next u) (udp_pullData (lv_err_name lv) t') u' = Inl NullDeref)"
proof -
  let ?s = "udp_wrap_new (uv_next_h u)"
  from bind ok have "uv_objs u' (uv_next u) = Some (OUdp ?s)" "uv_data u' (uv_next_h u) = None"
    by (auto simp: fn_udp_bind_def new_handle_def new_uv_def uv_do_def Let_def)
  then show ?thesis
    by (intro exI [of _ ?s]) (simp add: udp_read_cb_def udp_wrap_new_def on_udp_def udp_pullData_def udp_processing_def)
qed

theorem udp_recv_faults_witness:
  "\<exists>w u' s. fn_udp_bind ex_libuv (\<lambda>_. []) 1 2 (ex_uv w) = Inr u' \<and> uv_objs u' 1 = Some (OUdp s) \<and>
     on_udp 1 (udp_pullData (\<lambda>_. [69]) 3) u' = Inl NullDeref"
proof -
  obtain w w' where "resolve_object 2 (Some 1) w = Inr w'" using ex_resolved_object by blast
  then obtain u' where u': "fn_udp_bind ex_libuv (\<lambda>_. []) 1 2 (ex_uv w) = Inr u'"
    by (simp add: fn_udp_bind_def ex_libuv_def ex_uv_def new_handle_def new_uv_def uv_do_def)
  have sel: "lv_err_name ex_libuv = (\<lambda>_. [69])" "uv_next (ex_uv w) = 1" "0 \<le> lv_udp_bind ex_libuv (uv_next_h (ex_uv w)) []"
    by (simp_all add: ex_libuv_def ex_uv_def)
  from udp_recv_faults [OF u' sel(3)] u' show ?thesis unfolding sel(1,2) by blast
qed

text \<open>
  Nobody waits for the end of a process: \<open>alive\<close> is never set, so every call of
  \<open>process_get_result\<close>, also one that asks to wait, is answered at once with the exit status and the signal
  known so far, which are zero while the process runs, and with the flag of a process that has ended.
\<close>

theorem process_never_waits:
  assumes calls: "calls_open cs w" "asked es = map fst cs"
  shows "\<exists>s' w'. foldR process_step es (proc_wrap_new\<lparr>pr_proc := h, pr_stdio := io\<rparr>, w) = Inr (s', w') \<and>
     pr_onProcExit s' = [] \<and> pw_log w' = pw_log w @ result_replies es 0 0 cs"
  using process_run [OF _ _ calls, of "proc_wrap_new\<lparr>pr_proc := h, pr_stdio := io\<rparr>"]
  by (auto simp: proc_wrap_new_def)

theorem process_never_waits_witness:
  "\<exists>s' w'. foldR process_step [GetResult True 1, ProcExit 9 15, GetResult True 3]
       (proc_wrap_new\<lparr>pr_proc := Some 4, pr_stdio := []\<rparr>, ex_calls) = Inr (s', w') \<and>
     pw_log w' = [NextStep 0 False (enc_result 0 0), NextStep 1 False (enc_result 9 15)]"
proof -
  have "\<exists>s' w'. foldR process_step [GetResult True 1, ProcExit 9 15, GetResult True 3]
       (proc_wrap_new\<lparr>pr_proc := Some 4, pr_stdio := []\<rparr>, ex_calls) = Inr (s', w') \<and> pr_onProcExit s' = [] \<and>
     pw_log w' = pw_log ex_calls @
       result_replies [GetResult True 1, ProcExit 9 15, GetResult True 3] 0 0 [(1, 0), (3, 1)]"
    by (rule process_never_waits [OF ex_calls_open]) simp
  then show ?thesis by (simp add: ex_calls_def del: foldR.simps) blast
qed

end
