(* ===== verification/UvFiles.thy ===== *)
theory UvFiles
  imports UvStream TableSerializer
begin

text \<open>
  The file and system functions of \<open>runtime_bridge/c-modules/pxprpc_libuv_rpc/init.hpp\<close>.  A file function
  reads its parameters and starts a request of libuv; the closure it leaves there (\<open>fs_done\<close>) settles the
  call when the request is done (\<open>fs_complete\<close>).  The system functions answer at once.
\<close>

section \<open>File requests\<close>

fun cast_file :: "uv_obj option \<Rightarrow> int res" where
  "cast_file None = Inl UseAfterFree"
| "cast_file (Some (OFile fd)) = Inr fd"
| "cast_file (Some _) = Inl Uninit"

definition delete_file :: "addr \<Rightarrow> uv_world \<Rightarrow> uv_world res" where
  "delete_file a u =
     bindR (cast_file (uv_objs u a)) (\<lambda>fd.
     let u = (if 0 \<le> fd then uv_say (UvFs (FsClose fd) None) u else u) in Inr (u\<lparr>uv_objs := (uv_objs u)(a := None)\<rparr>))"

definition O_RDONLY :: nat where "O_RDONLY = 0"
definition O_RDWR :: nat where "O_RDWR = 2"
definition O_CREAT :: nat where "O_CREAT = 64"

definition open_flags :: "bytes \<Rightarrow> nat" where
  "open_flags flag =
     (if flag = map of_char ''r'' then O_RDONLY
      else if flag = map of_char ''w'' then O_RDWR OR O_CREAT
      else if flag = map of_char ''r+'' then O_RDWR
      else 0)"

definition fs_start :: "fs_op \<Rightarrow> fs_done \<Rightarrow> uv_world \<Rightarrow> uv_world res" where
  "fs_start op d u = Inr (uv_say (UvFs op (Some d)) u)"

definition fn_fs_open :: "oid \<Rightarrow> oid \<Rightarrow> uv_world \<Rightarrow> uv_world res" where
  "fn_fs_open p t u =
     bindR (uv_get (nextString p) u) (\<lambda>(path, u).
     bindR (uv_get (nextString p) u) (\<lambda>(flag, u). fs_start (FsOpen path (open_flags flag) 438) (DoneOpen t) u))"

text \<open>A negative size is no size of an array: \<open>new\<close> throws.\<close>

definition fn_fs_read :: "oid \<Rightarrow> oid \<Rightarrow> uv_world \<Rightarrow> uv_world res" where
  "fn_fs_read p t u =
     bindR (next_uv_object cast_file p u) (\<lambda>((a, fd), u).
     bindR (uv_get (nextInt p) u) (\<lambda>(sz, u).
     bindR (uv_get (nextLong p) u) (\<lambda>(off, u).
     if sint sz < 0 then Inl AllocFail else fs_start (FsRead fd (unat sz) off) (DoneRead t) u)))"

definition fn_fs_write :: "oid \<Rightarrow> oid \<Rightarrow> uv_world \<Rightarrow> uv_world res" where
  "fn_fs_write p t u =
     bindR (next_uv_object cast_file p u) (\<lambda>((a, fd), u).
     bindR (uv_get (nextLong p) u) (\<lambda>(off, u).
     bindR (next_uv_block p u) (\<lambda>(v, u). fs_start (FsWrite fd v off) (DoneCount t) u)))"

definition fn_fs_unlink :: "oid \<Rightarrow> oid \<Rightarrow> uv_world \<Rightarrow> uv_world res" where
  "fn_fs_unlink p t u = bindR (uv_get (nextString p) u) (\<lambda>(path, u). fs_start (FsUnlink path) (DoneVoid t) u)"

definition fn_fs_mkdir :: "oid \<Rightarrow> oid \<Rightarrow> uv_world \<Rightarrow> uv_world res" where
  "fn_fs_mkdir p t u = bindR (uv_get (nextString p) u) (\<lambda>(path, u). fs_start (FsMkdir path 438) (DoneVoid t) u)"

definition fn_fs_rmdir :: "oid \<Rightarrow> oid \<Rightarrow> uv_world \<Rightarrow> uv_world res" where
  "fn_fs_rmdir p t u = bindR (uv_get (nextString p) u) (\<lambda>(path, u). fs_start (FsRmdir path) (DoneVoid t) u)"

definition fn_fs_scandir :: "oid \<Rightarrow> oid \<Rightarrow> uv_world \<Rightarrow> uv_world res" where
  "fn_fs_scandir p t u = bindR (uv_get (nextString p) u) (\<lambda>(path, u). fs_start (FsScandir path) (DoneScandir t) u)"

definition fn_fs_stat :: "oid \<Rightarrow> oid \<Rightarrow> uv_world \<Rightarrow> uv_world res" where
  "fn_fs_stat p t u = bindR (uv_get (nextString p) u) (\<lambda>(path, u). fs_start (FsStat path) (DoneStat t) u)"

definition fn_fs_rename :: "oid \<Rightarrow> oid \<Rightarrow> uv_world \<Rightarrow> uv_world res" where
  "fn_fs_rename p t u =
     bindR (uv_get (nextString p) u) (\<lambda>(path1, u).
     bindR (uv_get (nextString p) u) (\<lambda>(path2, u). fs_start (FsRename path1 path2) (DoneVoid t) u))"

definition fn_fs_ftruncate :: "oid \<Rightarrow> oid \<Rightarrow> uv_world \<Rightarrow> uv_world res" where
  "fn_fs_ftruncate p t u =
     bindR (next_uv_object cast_file p u) (\<lambda>((a, fd), u).
     bindR (uv_get (nextLong p) u) (\<lambda>(off, u). fs_start (FsFtruncate fd off) (DoneVoid t) u))"

definition fn_fs_readlink :: "oid \<Rightarrow> oid \<Rightarrow> uv_world \<Rightarrow> uv_world res" where
  "fn_fs_readlink p t u = bindR (uv_get (nextString p) u) (\<lambda>(path, u). fs_start (FsReadlink path) (DoneReadlink t) u)"

definition fn_fs_chmod :: "oid \<Rightarrow> oid \<Rightarrow> uv_world \<Rightarrow> uv_world res" where
  "fn_fs_chmod p t u =
     bindR (uv_get (nextString p) u) (\<lambda>(path, u).
     bindR (uv_get (nextInt p) u) (\<lambda>(mode, u). fs_start (FsChmod path mode) (DoneVoid t) u))"

section \<open>What a request answers\<close>

datatype dirent_type = UV_DIRENT_FILE | UV_DIRENT_DIR | UV_DIRENT_LINK | UV_DIRENT_OTHER

record uv_stat =
  st_size :: u64
  st_mode :: u64
  st_mtim_sec :: int
  st_mtim_nsec :: nat

text \<open>What libuv leaves in the request: the buffer of a read, the entries of a directory, and so on.\<close>

datatype fs_output = NoOutput | ReadBuf bytes | Dirents "(bytes \<times> dirent_type) list" | StatBuf uv_stat | LinkPath bytes

text \<open>
  \<open>addValue\<close> of a C string: of the overloads, the one for \<open>bool\<close> is preferred to the one for
  \<open>std::string\<close>, and a pointer that is not null is true.
\<close>

definition add_c_string :: "bytes \<Rightarrow> table \<Rightarrow> table res" where
  "add_c_string s = addValue (bool_cell True)"

definition dirent_name :: "dirent_type \<Rightarrow> bytes" where
  "dirent_name ty = map of_char (case ty of UV_DIRENT_FILE \<Rightarrow> ''file'' | UV_DIRENT_DIR \<Rightarrow> ''dir''
     | UV_DIRENT_LINK \<Rightarrow> ''link'' | UV_DIRENT_OTHER \<Rightarrow> ''unknown'')"

definition scandir_columns :: table where
  "scandir_columns = setColumnsInfo (map of_char ''ss'') [map of_char ''name'', map of_char ''type''] table_new"

definition add_dirent :: "bytes \<times> dirent_type \<Rightarrow> table \<Rightarrow> table res" where
  "add_dirent ent tab = bindR (add_c_string (fst ent) tab) (add_c_string (dirent_name (snd ent)))"

definition S_IFREG :: u64 where "S_IFREG = 0x8000"
definition S_IFDIR :: u64 where "S_IFDIR = 0x4000"
definition S_IFLNK :: u64 where "S_IFLNK = 0xa000"

definition stat_type :: "u64 \<Rightarrow> bytes" where
  "stat_type mode = map of_char (if mode AND S_IFREG \<noteq> 0 then ''file''
     else if mode AND S_IFDIR \<noteq> 0 then ''dir'' else if mode AND S_IFLNK \<noteq> 0 then ''link'' else ''unknown'')"

definition stat_mtime :: "uv_stat \<Rightarrow> int" where
  "stat_mtime st = st_mtim_sec st * 1000 + int (st_mtim_nsec st div 1000000)"

definition stat_columns :: table where
  "stat_columns = setColumnsInfo (map of_char ''lsli'')
     [map of_char ''size'', map of_char ''type'', map of_char ''mtime'', map of_char ''mode''] table_new"

definition stat_table :: "uv_stat \<Rightarrow> table res" where
  "stat_table st =
     bindR (addValue (CI64 (st_size st)) stat_columns) (\<lambda>tab.
         bindR (add_c_string (stat_type (st_mode st)) tab) (\<lambda>tab.
         if stat_mtime st < - (2 ^ 63) \<or> 2 ^ 63 \<le> stat_mtime st then Inl IntOverflow
         else bindR (addValue (CI64 (word_of_int (stat_mtime st))) tab)
                (addValue (CI32 (ucast (st_mode st AND 0x7fffffff))))))"

text \<open>\<open>buildSer\<close> of a table and \<open>resolve\<close> of the serializer it makes.\<close>

definition resolve_table :: "table \<Rightarrow> oid \<Rightarrow> pworld \<Rightarrow> pworld res" where
  "resolve_table tab t w =
     bindR (buildSer (pw_junk w) tab None) (\<lambda>ser.
     let (s, w) = new_obj (OSer ser) w; (b, w) = new_obj (OBlock (fst (buildPxpBytes ser))) w
     in resolve_ser t s b w)"

definition c_string :: "bytes \<Rightarrow> bytes" where
  "c_string s = takeWhile (\<lambda>x. x \<noteq> 0) s"

fun done_ret :: "fs_done \<Rightarrow> oid" where
  "done_ret (DoneOpen t) = t"
| "done_ret (DoneRead t) = t"
| "done_ret (DoneCount t) = t"
| "done_ret (DoneVoid t) = t"
| "done_ret (DoneScandir t) = t"
| "done_ret (DoneStat t) = t"
| "done_ret (DoneReadlink t) = t"

fun fs_succeed :: "fs_done \<Rightarrow> int \<Rightarrow> fs_output \<Rightarrow> uv_world \<Rightarrow> uv_world res" where
  "fs_succeed (DoneOpen t) r out u = (let (a, u) = new_uv (OFile r) u in uv_do (resolve_object t (Some a)) u)"
| "fs_succeed (DoneRead t) r (ReadBuf b) u = bindR (read_mem b 0 (nat r)) (\<lambda>v. uv_do (resolve_copy t v) u)"
| "fs_succeed (DoneCount t) r out u = uv_do (resolve_long t (word_of_int r)) u"
| "fs_succeed (DoneVoid t) r out u = uv_do (resolve_empty t) u"
| "fs_succeed (DoneScandir t) r (Dirents es) u =
     bindR (foldR add_dirent es scandir_columns) (\<lambda>tab. uv_do (resolve_table tab t) u)"
| "fs_succeed (DoneStat t) r (StatBuf st) u = bindR (stat_table st) (\<lambda>tab. uv_do (resolve_table tab t) u)"
| "fs_succeed (DoneReadlink t) r (LinkPath s) u = uv_do (resolve_string t (c_string s)) u"
| "fs_succeed d r out u = Inl Uninit"

definition fs_complete :: "libuv \<Rightarrow> fs_done \<Rightarrow> int \<Rightarrow> fs_output \<Rightarrow> uv_world \<Rightarrow> uv_world res" where
  "fs_complete lv d r out u =
     (if r < 0 then uv_do (reject (done_ret d) (lv_err_name lv r)) u else fs_succeed d r out u)"

section \<open>System functions\<close>

record uv_os =
  os_getenv :: "bytes \<Rightarrow> int + bytes"
  os_setenv :: "bytes \<Rightarrow> bytes \<Rightarrow> int"
  os_unsetenv :: "bytes \<Rightarrow> int"
  os_cwd :: "int + bytes"
  os_exepath :: "int + bytes"
  os_tmpdir :: "int + bytes"
  os_hostname :: "int + bytes"
  os_process_title :: "int + bytes"
  os_uname :: "int + (bytes \<times> bytes) \<times> (bytes \<times> bytes)"
  os_chdir :: "bytes \<Rightarrow> int"
  os_set_process_title :: "bytes \<Rightarrow> int"
  os_free_memory :: u64
  os_total_memory :: u64
  os_available_memory :: u64
  os_gettimeofday :: "int + (nat \<times> nat)"
  os_interfaces :: "int + (bytes \<times> bytes \<times> sockaddr \<times> sockaddr) list"

text \<open>A buffer that holds a C string, or an error.\<close>

definition string_result :: "libuv \<Rightarrow> int + bytes \<Rightarrow> oid \<Rightarrow> uv_world \<Rightarrow> uv_world res" where
  "string_result lv x t =
     uv_do (case x of Inl r \<Rightarrow> reject t (lv_err_name lv r) | Inr s \<Rightarrow> resolve_string t (c_string s))"

definition fn_os_getenv :: "libuv \<Rightarrow> uv_os \<Rightarrow> oid \<Rightarrow> oid \<Rightarrow> uv_world \<Rightarrow> uv_world res" where
  "fn_os_getenv lv ops p t u = bindR (uv_get (nextString p) u) (\<lambda>(name, u). string_result lv (os_getenv ops name) t u)"

definition fn_os_setenv :: "libuv \<Rightarrow> uv_os \<Rightarrow> oid \<Rightarrow> oid \<Rightarrow> uv_world \<Rightarrow> uv_world res" where
  "fn_os_setenv lv ops p t u =
     bindR (uv_get (nextString p) u) (\<lambda>(name, u).
     bindR (uv_get (nextString p) u) (\<lambda>(val, u). set_result lv (os_setenv ops name val) t u))"

definition fn_os_unsetenv :: "libuv \<Rightarrow> uv_os \<Rightarrow> oid \<Rightarrow> oid \<Rightarrow> uv_world \<Rightarrow> uv_world res" where
  "fn_os_unsetenv lv ops p t u = bindR (uv_get (nextString p) u) (\<lambda>(name, u). set_result lv (os_unsetenv ops name) t u)"

definition unsupported_property :: bytes where
  "unsupported_property = map of_char ''Unsupported property''"

definition uname_string :: "(bytes \<times> bytes) \<times> (bytes \<times> bytes) \<Rightarrow> bytes" where
  "uname_string n =
     c_string (fst (fst n)) @ [10] @ c_string (snd (fst n)) @ [32] @ c_string (fst (snd n)) @ [10] @ c_string (snd (snd n))"

definition fn_os_getprop :: "libuv \<Rightarrow> uv_os \<Rightarrow> oid \<Rightarrow> oid \<Rightarrow> uv_world \<Rightarrow> uv_world res" where
  "fn_os_getprop lv ops p t u =
     bindR (uv_get (nextString p) u) (\<lambda>(name, u).
     if name = map of_char ''cwd'' then string_result lv (os_cwd ops) t u
     else if name = map of_char ''exepath'' then string_result lv (os_exepath ops) t u
     else if name = map of_char ''tmpdir'' then string_result lv (os_tmpdir ops) t u
     else if name = map of_char ''hostname'' then string_result lv (os_hostname ops) t u
     else if name = map of_char ''process_title'' then string_result lv (os_process_title ops) t u
     else if name = map of_char ''uname'' then
       uv_do (case os_uname ops of Inl r \<Rightarrow> reject t (lv_err_name lv r) | Inr n \<Rightarrow> resolve_string t (uname_string n)) u
     else uv_do (reject t unsupported_property) u)"

definition fn_os_setprop :: "libuv \<Rightarrow> uv_os \<Rightarrow> oid \<Rightarrow> oid \<Rightarrow> uv_world \<Rightarrow> uv_world res" where
  "fn_os_setprop lv ops p t u =
     bindR (uv_get (nextString p) u) (\<lambda>(name, u).
     bindR (uv_get (nextString p) u) (\<lambda>(val, u).
     if name = map of_char ''cwd'' then set_result lv (os_chdir ops val) t u
     else if name = map of_char ''process_title'' then set_result lv (os_set_process_title ops val) t u
     else uv_do (reject t unsupported_property) u))"

definition memory_table :: "uv_os \<Rightarrow> table res" where
  "memory_table ops =
     (let tab = setColumnsInfo (map of_char ''lll'') [map of_char ''free'', map of_char ''total'', map of_char ''available''] table_new
      in bindR (addValue (CI64 (os_free_memory ops)) tab) (\<lambda>tab.
         bindR (addValue (CI64 (os_total_memory ops)) tab) (addValue (CI64 (os_available_memory ops)))))"

definition fn_get_memory_info :: "uv_os \<Rightarrow> oid \<Rightarrow> oid \<Rightarrow> uv_world \<Rightarrow> uv_world res" where
  "fn_get_memory_info ops p t u = bindR (memory_table ops) (\<lambda>tab. uv_do (resolve_table tab t) u)"

text \<open>The time of day is seconds and microseconds; the seconds are used for both parts.\<close>

definition time_value :: "nat \<times> nat \<Rightarrow> nat" where
  "time_value tim = fst tim * 1000 + fst tim div 1000000"

definition fn_gettimeofday :: "libuv \<Rightarrow> uv_os \<Rightarrow> oid \<Rightarrow> oid \<Rightarrow> uv_world \<Rightarrow> uv_world res" where
  "fn_gettimeofday lv ops p t u =
     (case os_gettimeofday ops of
        Inl r \<Rightarrow> uv_do (reject t (lv_err_name lv r)) u
      | Inr tim \<Rightarrow>
          if 2 ^ 63 \<le> time_value tim then Inl IntOverflow
          else uv_do (resolve_long t (of_nat (time_value tim))) u)"

definition add_interface :: "bytes \<times> bytes \<times> sockaddr \<times> sockaddr \<Rightarrow> table \<Rightarrow> table res" where
  "add_interface x tab =
     (case x of (name, phys, address, netmask) \<Rightarrow>
        bindR (add_c_string name tab) (\<lambda>tab.
        bindR (addValue (CBytes phys 0 6) tab) (\<lambda>tab.
        bindR (addValue (CStr (fst (addrinToString address))) tab)
          (addValue (CStr (fst (addrinToString netmask)))))))"

definition interface_columns :: table where
  "interface_columns = setColumnsInfo (map of_char ''sbss'')
     [map of_char ''name'', map of_char ''phys_addr'', map of_char ''ip'', map of_char ''netmask''] table_new"

definition fn_interface_address :: "libuv \<Rightarrow> uv_os \<Rightarrow> oid \<Rightarrow> oid \<Rightarrow> uv_world \<Rightarrow> uv_world res" where
  "fn_interface_address lv ops p t u =
     (case os_interfaces ops of
        Inl r \<Rightarrow> uv_do (reject t (lv_err_name lv r)) u
      | Inr addrs \<Rightarrow> bindR (foldR add_interface addrs interface_columns) (\<lambda>tab. uv_do (resolve_table tab t) u))"

section \<open>Starting a request\<close>

text \<open>Reading parameters starts nothing and answers nothing.\<close>

definition quiet :: "uv_world \<Rightarrow> uv_world \<Rightarrow> bool" where
  "quiet u u' \<longleftrightarrow> uv_calls u' = uv_calls u \<and> pw_log (uv_pp u') = pw_log (uv_pp u)"

lemma quiet_trans: "quiet u v \<Longrightarrow> quiet v w \<Longrightarrow> quiet u w"
  by (simp add: quiet_def)

lemma asSerializer_log: "asSerializer p w = Inr (i, w') \<Longrightarrow> pw_log w' = pw_log w"
  by (auto simp: asSerializer_def new_obj_def Let_def split: option.splits prod.splits)

lemma next_value_log: "next_value get p w = Inr (v, w') \<Longrightarrow> pw_log w' = pw_log w"
  unfolding next_value_def by (auto split: prod.splits dest!: asSerializer_log)

lemma uv_get_value_quiet: "uv_get (next_value get p) u = Inr (v, u') \<Longrightarrow> quiet u u'"
  by (auto simp: uv_get_def quiet_def split: prod.splits dest!: next_value_log)

lemma uv_get_quiet:
  "uv_get (nextString p) u = Inr (x, u') \<Longrightarrow> quiet u u'"
  "uv_get (nextInt p) u = Inr (y, u') \<Longrightarrow> quiet u u'"
  "uv_get (nextLong p) u = Inr (z, u') \<Longrightarrow> quiet u u'"
  "next_uv_block p u = Inr (b, u') \<Longrightarrow> quiet u u'"
  by (simp_all add: nextString_def nextInt_def nextLong_def next_uv_block_def uv_get_value_quiet)

lemma nextObject_log: "nextObject f p w = Inr (x, w') \<Longrightarrow> pw_log w' = pw_log w"
  by (auto simp: nextObject_def nextInt_def split: prod.splits dest!: next_value_log)

lemma next_uv_object_quiet: "next_uv_object cast p u = Inr (x, u') \<Longrightarrow> quiet u u'"
  by (auto simp: next_uv_object_def uv_get_def quiet_def split: prod.splits option.splits dest!: nextObject_log)

datatype fs_fn = FnOpen | FnRead | FnWrite | FnUnlink | FnMkdir | FnRmdir | FnScandir | FnStat | FnRename | FnFtruncate
  | FnReadlink | FnChmod

fun fs_call :: "fs_fn \<Rightarrow> oid \<Rightarrow> oid \<Rightarrow> uv_world \<Rightarrow> uv_world res" where
  "fs_call FnOpen = fn_fs_open"
| "fs_call FnRead = fn_fs_read"
| "fs_call FnWrite = fn_fs_write"
| "fs_call FnUnlink = fn_fs_unlink"
| "fs_call FnMkdir = fn_fs_mkdir"
| "fs_call FnRmdir = fn_fs_rmdir"
| "fs_call FnScandir = fn_fs_scandir"
| "fs_call FnStat = fn_fs_stat"
| "fs_call FnRename = fn_fs_rename"
| "fs_call FnFtruncate = fn_fs_ftruncate"
| "fs_call FnReadlink = fn_fs_readlink"
| "fs_call FnChmod = fn_fs_chmod"

definition started :: "oid \<Rightarrow> uv_world \<Rightarrow> uv_world \<Rightarrow> bool" where
  "started t u u' \<longleftrightarrow> (\<exists>op d. uv_calls u' = uv_calls u @ [UvFs op (Some d)] \<and> done_ret d = t) \<and>
     pw_log (uv_pp u') = pw_log (uv_pp u)"

lemma started_after: "quiet u v \<Longrightarrow> started t v u' \<Longrightarrow> started t u u'"
  by (simp add: started_def quiet_def)

lemma fs_start_started: "fs_start op d u = Inr u' \<Longrightarrow> done_ret d = t \<Longrightarrow> started t u u'"
  by (auto simp: fs_start_def started_def uv_say_def)

lemma bind_started:
  assumes "bindR m f = Inr u'" and "\<And>x v. m = Inr (x, v) \<Longrightarrow> quiet u v" and "\<And>x v. f (x, v) = Inr u' \<Longrightarrow> started t v u'"
  shows "started t u u'"
proof (cases m)
  case (Inr y)
  with assms show ?thesis by (cases y) (auto intro: started_after)
qed (use assms(1) in simp)

lemma fs_call_started: "fs_call f p t u = Inr u' \<Longrightarrow> started t u u'"
  by (cases f) (auto simp only: fs_call.simps fn_fs_open_def fn_fs_read_def fn_fs_write_def fn_fs_unlink_def fn_fs_mkdir_def
      fn_fs_rmdir_def fn_fs_scandir_def fn_fs_stat_def fn_fs_rename_def fn_fs_ftruncate_def fn_fs_readlink_def
      fn_fs_chmod_def prod.case done_ret.simps refl split: if_splits
      elim!: bind_started dest: uv_get_quiet next_uv_object_quiet intro: fs_start_started)

section \<open>The tables\<close>

text \<open>A string column writes an empty string for a cell that holds a number.\<close>

fun as_written :: "u8 \<Rightarrow> cell \<Rightarrow> cell" where
  "as_written typ c = (if typ = 0x73 then CStr (as_str c) else c)"

definition written_table :: "table \<Rightarrow> table" where
  "written_table tab = tab\<lparr>ts_cols := map (\<lambda>(typ, col). map (as_written typ) col) (zip (ts_columnsType tab) (ts_cols tab))\<rparr>"

lemma put_cell_as_written: "put_cell typ (as_written typ c) = put_cell typ c"
  by (rule ext) (simp add: put_cell_def)

lemma put_cells_as_written: "foldR (put_cell typ) (map (as_written typ) col) s = foldR (put_cell typ) col s"
  by (induction col arbitrary: s) (simp_all del: as_written.simps add: put_cell_as_written cong: bindR_cong)

lemma build_column_written:
  assumes "length (ts_cols tab) = length (ts_columnsType tab)" and "i < length (ts_columnsType tab)"
  shows "build_column (written_table tab) i s = build_column tab i s"
  using assms by (simp add: build_column_def written_table_def Let_def put_cells_as_written del: as_written.simps)

lemma foldR_cong: "(\<And>x s. x \<in> set xs \<Longrightarrow> f x s = g x s) \<Longrightarrow> foldR f xs s = foldR g xs s"
  by (induction xs arbitrary: s) (auto intro: bindR_cong)

lemma buildSer_written:
  assumes "length (ts_cols tab) = length (ts_columnsType tab)"
  shows "buildSer jk (written_table tab) ser = buildSer jk tab ser"
proof -
  have "foldR (build_column (written_table tab)) [0..<length (ts_columnsType tab)]
      = foldR (build_column tab) [0..<length (ts_columnsType tab)]"
    by (rule ext, rule foldR_cong) (simp add: build_column_written [OF assms])
  moreover have "ts_columnsType (written_table tab) = ts_columnsType tab" "ts_columnsName (written_table tab) = ts_columnsName tab"
    "ts_rowCnt (written_table tab) = ts_rowCnt tab" "build_flag (written_table tab) = build_flag tab"
    by (simp_all add: written_table_def build_flag_def)
  ultimately show ?thesis by (simp only: buildSer_def)
qed

lemma resolve_table_open:
  assumes cs: "calls_open ((t, r) # cs) w" and tab: "length (ts_cols tab) = length (ts_columnsType tab)"
    and ok: "table_ok (written_table tab)" "length (enc_table (written_table tab)) < 2 ^ 30"
  shows "\<exists>w'. resolve_table tab t w = Inr w' \<and>
     pw_log w' = pw_log w @ [NextStep r False (enc_table (written_table tab))] \<and> calls_open cs w'"
proof -
  from made_serializer [OF buildSer_emits [OF ok(1), of "pw_junk w"] ok(2), of "pw_junk w"] obtain s0 ser where
    s0: "prepareSerializing (pw_junk w) 16 = Inr s0" "buildSer (pw_junk w) (written_table tab) (Some s0) = Inr ser"
      "ser_ok ser" "ser_out ser = enc_table (written_table tab)" by blast
  have "buildSer (pw_junk w) tab None = buildSer (pw_junk w) tab (Some s0)"
    by (simp only: buildSer_def option.case s0(1) bindR_Inr)
  then have "buildSer (pw_junk w) tab None = Inr ser" using buildSer_written [OF tab] s0(2) by simp
  with resolve_ser_open [OF cs s0(3)] s0(4) show ?thesis by (simp add: resolve_table_def)
qed

text \<open>The table \<open>fs_scandir\<close> builds of \<open>n\<close> entries.\<close>

definition scandir_tab :: "nat \<Rightarrow> table" where
  "scandir_tab n = scandir_columns\<lparr>ts_rowCnt := int n, ts_cols := [replicate n (CI32 1), replicate n (CI32 1)],
     ts_posX := (if n = 0 then -1 else 1)\<rparr>"

lemma scandir_tab_0: "scandir_tab 0 = scandir_columns"
  by (simp add: scandir_tab_def scandir_columns_def setColumnsInfo_def table_new_def)

lemma add_dirent_tab: "int n + 1 < 2 ^ 31 \<Longrightarrow> add_dirent ent (scandir_tab n) = Inr (scandir_tab (Suc n))"
  by (simp add: add_dirent_def add_c_string_def addValue_def moveToNextValuePosX_def scandir_tab_def push_cell_def
      inc_rowCnt_def Let_def bool_cell_def replicate_append_same)

lemma add_dirents_tab:
  "int n + int (length es) < 2 ^ 31 \<Longrightarrow> foldR add_dirent es (scandir_tab n) = Inr (scandir_tab (n + length es))"
  by (induction es arbitrary: n) (simp_all add: add_dirent_tab)

text \<open>What the client is told: \<open>n\<close> rows of empty strings.\<close>

definition blank_listing :: "nat \<Rightarrow> table" where
  "blank_listing n = scandir_columns\<lparr>ts_rowCnt := int n, ts_cols := [replicate n (CStr []), replicate n (CStr [])]\<rparr>"

lemma enc_table_posX [simp]: "enc_table (tab\<lparr>ts_posX := x\<rparr>) = enc_table tab" "table_ok (tab\<lparr>ts_posX := x\<rparr>) = table_ok tab"
  by (simp_all add: enc_table_def table_ok_def build_flag_def)

lemma written_scandir: "written_table (scandir_tab n) = (blank_listing n)\<lparr>ts_posX := (if n = 0 then -1 else 1)\<rparr>"
  by (simp add: written_table_def scandir_tab_def blank_listing_def scandir_columns_def setColumnsInfo_def table_new_def
      map_replicate_const)

lemma content_blank: "content 0x73 (CStr []) = Some (VBytes [])"
  by (simp add: content_def)

lemma blank_listing_ok:
  assumes "8 * n < 2 ^ 31" and "n \<noteq> 255"
  shows "table_ok (blank_listing n)" and "length (enc_table (blank_listing n)) < 2 ^ 30"
proof -
  have cell: "cell_ok 0x73 (CStr [])" by (simp add: cell_ok_def content_blank small_block_def)
  then show "table_ok (blank_listing n)"
    using assms by (simp add: table_ok_def blank_listing_def scandir_columns_def setColumnsInfo_def table_new_def small_block_def
        column_ok_def known_type_def)
  have "length (enc_column (0x73, replicate k (CStr []))) = k" for k
    by (induction k) (simp_all add: enc_column_def enc_cell_def content_blank enc_bytes_def enc_varint_def)
  moreover have "length (enc_varint v) \<le> 5" for v by (simp add: enc_varint_def)
  ultimately show "length (enc_table (blank_listing n)) < 2 ^ 30"
    using assms(1) le_trans [OF _ add_mono]
    by (simp add: enc_table_def blank_listing_def scandir_columns_def setColumnsInfo_def table_new_def enc_bytes_def
        build_flag_def enc_varint_def)
qed

text \<open>The table of \<open>fs_stat\<close>; its type is an empty string for the client.\<close>

definition stat_listing :: "uv_stat \<Rightarrow> table" where
  "stat_listing st = stat_columns\<lparr>ts_rowCnt := 1,
     ts_cols := [[CI64 (st_size st)], [CStr []], [CI64 (word_of_int (stat_mtime st))], [CI32 (ucast (st_mode st AND 0x7fffffff))]]\<rparr>"

definition mtime_ok :: "uv_stat \<Rightarrow> bool" where
  "mtime_ok st \<longleftrightarrow> - (2 ^ 63) \<le> stat_mtime st \<and> stat_mtime st < 2 ^ 63"

lemma stat_table_written:
  assumes "mtime_ok st"
  shows "\<exists>tab. stat_table st = Inr tab \<and> length (ts_cols tab) = length (ts_columnsType tab) \<and>
     written_table tab = (stat_listing st)\<lparr>ts_posX := 3\<rparr>"
proof -
  let ?tab = "stat_columns\<lparr>ts_rowCnt := 1, ts_cols := [[CI64 (st_size st)], [CI32 1], [CI64 (word_of_int (stat_mtime st))],
     [CI32 (ucast (st_mode st AND 0x7fffffff))]], ts_posX := 3\<rparr>"
  have "stat_table st = Inr ?tab"
    using assms by (simp add: stat_table_def stat_columns_def mtime_ok_def add_c_string_def addValue_def
        moveToNextValuePosX_def push_cell_def inc_rowCnt_def Let_def bool_cell_def setColumnsInfo_def table_new_def
        numeral_3_eq_3 numeral_2_eq_2 replicate_Suc)
  then show ?thesis
    by (intro exI [of _ ?tab]) (simp add: written_table_def stat_listing_def stat_columns_def setColumnsInfo_def table_new_def)
qed

lemma stat_listing_ok: "table_ok (stat_listing st)" "length (enc_table (stat_listing st)) < 2 ^ 30"
  by (simp_all add: table_ok_def stat_listing_def stat_columns_def setColumnsInfo_def table_new_def small_block_def
      column_ok_def known_type_def cell_ok_def content_def enc_table_def enc_column_def enc_cell_def enc_bytes_def
      enc_varint_def build_flag_def)

section \<open>Completing a request\<close>

fun fs_reply :: "nat \<Rightarrow> fs_done \<Rightarrow> int \<Rightarrow> fs_output \<Rightarrow> bytes" where
  "fs_reply k (DoneOpen t) r out = le32 (of_nat k)"
| "fs_reply k (DoneRead t) r (ReadBuf b) = take (nat r) b"
| "fs_reply k (DoneCount t) r out = le64 (word_of_int r)"
| "fs_reply k (DoneScandir t) r (Dirents es) = enc_table (blank_listing (length es))"
| "fs_reply k (DoneStat t) r (StatBuf st) = enc_table (stat_listing st)"
| "fs_reply k (DoneReadlink t) r (LinkPath s) = enc_bytes (c_string s)"
| "fs_reply k d r out = []"

text \<open>What libuv promises of a successful request, and the sizes that fit.\<close>

fun fs_output_ok :: "fs_done \<Rightarrow> int \<Rightarrow> fs_output \<Rightarrow> bool" where
  "fs_output_ok (DoneRead t) r (ReadBuf b) \<longleftrightarrow> nat r \<le> length b \<and> r < 2 ^ 32"
| "fs_output_ok (DoneRead t) r out \<longleftrightarrow> False"
| "fs_output_ok (DoneScandir t) r (Dirents es) \<longleftrightarrow> 8 * length es < 2 ^ 31 \<and> length es \<noteq> 255"
| "fs_output_ok (DoneScandir t) r out \<longleftrightarrow> False"
| "fs_output_ok (DoneStat t) r (StatBuf st) \<longleftrightarrow> mtime_ok st"
| "fs_output_ok (DoneStat t) r out \<longleftrightarrow> False"
| "fs_output_ok (DoneReadlink t) r (LinkPath s) \<longleftrightarrow> small_block (c_string s) \<and> length (c_string s) < 2 ^ 29"
| "fs_output_ok (DoneReadlink t) r out \<longleftrightarrow> False"
| "fs_output_ok d r out \<longleftrightarrow> True"

lemma resolve_empty_open:
  assumes cs: "calls_open ((t, r) # cs) w"
  shows "\<exists>w'. resolve_empty t w = Inr w' \<and> pw_log w' = pw_log w @ [NextStep r False []] \<and> calls_open cs w'"
proof -
  from calls_openD [OF cs, of t r] obtain i f q where l: "linked t i r f [] q w" and q: "\<not> rq_rejected q" "rq_next_part q = []"
    by auto
  from cs have fresh: "\<forall>j \<ge> pw_fresh w. pw_heap w j = None" by (simp add: calls_open_def)
  let ?g = "\<lambda>q. q\<lparr>rq_base := NullBase, rq_length := 0\<rparr>"
  note s1 = with_on_req [OF l, of ?g]
  have "result_bytes (?g q) (set_req r (?g q) w) = Inr []" using q(2) by (simp add: result_bytes_def)
  note s2 = next_linked [OF conjunct2 [OF s1] this]
  let ?v = "(set_req r (?g q) w)\<lparr>pw_log := pw_log w @ [NextStep r (rq_rejected q) []]\<rparr>"
  have "resolve_empty t w = Inr ?v" using s1 s2 by (simp add: resolve_empty_def)
  moreover have "calls_open cs ?v" by (rule calls_open_rest [OF cs l]) (use fresh in auto)
  ultimately show ?thesis using q(1) by (intro exI [of _ ?v]) simp
qed

lemma calls_open_pool: "calls_open cs (w\<lparr>pw_pool := pl\<rparr>) = calls_open cs w"
  by (simp add: calls_open_def linked_def)

lemma resolve_object_open:
  assumes cs: "calls_open ((t, r) # cs) w" and pool: "pool_ok (pw_pool w)" "pool_room (pw_pool w)"
  shows "\<exists>k w'. resolve_object t (Some a) w = Inr w' \<and> pw_log w' = pw_log w @ [NextStep r False (le32 (of_nat k))] \<and>
     calls_open cs w'"
proof -
  from alloc_hooked_ok [OF pool, of WrapObjectOnFree a] obtain k pl where
    k: "allocRef a w = Inr (of_nat k, w\<lparr>pw_pool := pl\<rparr>)" by (auto simp: allocRef_def)
  from calls_openD [OF cs, of t r] obtain i f q where "linked t i r f [] q w" by auto
  then have ret: "ret_at t w = Inr (i, [])" using linked_at by blast
  have "calls_open ((t, r) # cs) (w\<lparr>pw_pool := pl\<rparr>)" using cs by (simp add: calls_open_pool)
  from resolve_put_open [OF this put_int_emits, of "of_nat k"] k ret show ?thesis
    by (auto simp: resolve_object_def resolve_int_def)
qed

lemma fs_succeed_answers:
  assumes cs: "calls_open ((done_ret d, r) # cs) (uv_pp u)" and ok: "0 \<le> res" "fs_output_ok d res out"
    and pool: "pool_ok (pw_pool (uv_pp u))" "pool_room (pw_pool (uv_pp u))"
  shows "\<exists>k u'. fs_succeed d res out u = Inr u' \<and> uv_calls u' = uv_calls u \<and>
     pw_log (uv_pp u') = pw_log (uv_pp u) @ [NextStep r False (fs_reply k d res out)]"
proof (cases d)
  case (DoneOpen t)
  with resolve_object_open [of t r cs "uv_pp u" "uv_next u"] cs pool show ?thesis by (auto simp: new_uv_def uv_do_def)
next
  case (DoneRead t)
  with ok obtain b where b: "out = ReadBuf b" "nat res \<le> length b" "res < 2 ^ 32" by (cases out) auto
  then have "length (take (nat res) b) < 2 ^ 32" by (simp add: nat_less_iff)
  with b DoneRead resolve_copy_open [of t r cs "uv_pp u" "take (nat res) b"] cs show ?thesis
    by (auto simp: uv_do_def read_mem_def)
next
  case (DoneCount t)
  with resolve_put_open [of t r cs "uv_pp u", OF _ put_long_emits, of "word_of_int res"] cs show ?thesis
    by (auto simp: uv_do_def resolve_long_def)
next
  case (DoneVoid t)
  with resolve_empty_open [of t r cs "uv_pp u"] cs show ?thesis by (auto simp: uv_do_def)
next
  case (DoneScandir t)
  with ok obtain es where es: "out = Dirents es" "8 * length es < 2 ^ 31" "length es \<noteq> 255" by (cases out) auto
  let ?tab = "scandir_tab (length es)"
  have "foldR add_dirent es scandir_columns = Inr ?tab"
    using add_dirents_tab [of 0 es] es(2) by (simp add: scandir_tab_0)
  moreover have "length (ts_cols ?tab) = length (ts_columnsType ?tab)"
    by (simp add: scandir_tab_def scandir_columns_def setColumnsInfo_def)
  ultimately show ?thesis
    using resolve_table_open [of t r cs "uv_pp u" ?tab] DoneScandir cs es blank_listing_ok [OF es(2,3)]
    by (auto simp: uv_do_def written_scandir)
next
  case (DoneStat t)
  with ok obtain st where st: "out = StatBuf st" "mtime_ok st" by (cases out) auto
  from stat_table_written [OF st(2)] obtain tab where tab: "stat_table st = Inr tab"
    "length (ts_cols tab) = length (ts_columnsType tab)" "written_table tab = (stat_listing st)\<lparr>ts_posX := 3\<rparr>" by blast
  with resolve_table_open [of t r cs "uv_pp u" tab] DoneStat cs st(1) stat_listing_ok [of st] show ?thesis
    by (auto simp: uv_do_def)
next
  case (DoneReadlink t)
  with ok obtain s where s: "out = LinkPath s" "small_block (c_string s)" "length (c_string s) < 2 ^ 29" by (cases out) auto
  have "length (enc_bytes (c_string s)) < 2 ^ 30"
    using s(3) length_enc_varint [of "of_nat (length (c_string s))"] by (simp add: enc_bytes_def)
  with resolve_put_open [of t r cs "uv_pp u", OF _ putString_emits [OF s(2)]] DoneReadlink cs s(1) show ?thesis
    by (auto simp: uv_do_def resolve_string_def)
qed

lemma fs_complete_answers:
  assumes cs: "calls_open ((done_ret d, r) # cs) (uv_pp u)" and ok: "res < 0 \<or> fs_output_ok d res out"
    and name: "length (lv_err_name lv res) < 2 ^ 32"
    and pool: "pool_ok (pw_pool (uv_pp u))" "pool_room (pw_pool (uv_pp u))"
  shows "\<exists>k u'. fs_complete lv d res out u = Inr u' \<and> uv_calls u' = uv_calls u \<and>
     pw_log (uv_pp u') = pw_log (uv_pp u) @
       [NextStep r (res < 0) (if res < 0 then lv_err_name lv res else fs_reply k d res out)]"
proof (cases "res < 0")
  case True
  with reject_open [OF cs name] show ?thesis by (auto simp: fs_complete_def uv_do_def)
next
  case False
  with fs_succeed_answers [OF cs _ _ pool, of res out] ok show ?thesis by (simp add: fs_complete_def)
qed

section \<open>Properties\<close>


definition ex_fs :: pworld where
  "ex_fs = ex_calls\<lparr>pw_reqs := (pw_reqs ex_calls)(0 \<mapsto> ex_req\<lparr>rq_parameter := ([1, 65], 2), rq_callable_data := Some 0\<rparr>),
     pw_heap := (pw_heap ex_calls)(4 \<mapsto> OPara 0 None), pw_fresh := 5\<rparr>"

lemma ex_pool: "pool_ok (pw_pool ex_calls) \<and> pool_room (pw_pool ex_calls)"
proof
  have p: "pw_pool ex_calls = pool_new" by (simp add: ex_calls_def)
  show "pool_ok (pw_pool ex_calls)" by (simp add: p)
  show "pool_room (pw_pool ex_calls)" by (simp add: p pool_room_def pool_new_def REF_POOL_EXPAND_COUNT_def)
qed


text \<open>
  A directory listing tells how many entries there are and nothing else: names and types are added as
  C strings, which the table takes as booleans, and a string column writes a boolean as an empty string.
\<close>

theorem scandir_names_lost:
  assumes cs: "calls_open ((t, r) # cs) (uv_pp u)" and es: "8 * length es < 2 ^ 31" "length es \<noteq> 255" and res: "0 \<le> res"
    and pool: "pool_ok (pw_pool (uv_pp u))" "pool_room (pw_pool (uv_pp u))"
  shows "\<exists>u'. fs_complete lv (DoneScandir t) res (Dirents es) u = Inr u' \<and>
     pw_log (uv_pp u') = pw_log (uv_pp u) @ [NextStep r False (enc_table (blank_listing (length es)))]"
proof -
  have cs': "calls_open ((done_ret (DoneScandir t), r) # cs) (uv_pp u)" using cs by simp
  have "fs_output_ok (DoneScandir t) res (Dirents es)" using es by simp
  from fs_succeed_answers [OF cs' res this pool] res show ?thesis by (auto simp: fs_complete_def)
qed

theorem scandir_names_lost_witness:
  "\<exists>u'. fs_complete ex_libuv (DoneScandir 1) 2 (Dirents [([97], UV_DIRENT_FILE), ([98], UV_DIRENT_DIR)]) (ex_uv ex_calls)
     = Inr u' \<and> pw_log (uv_pp u') = [NextStep 0 False (enc_table (blank_listing 2))]"
proof -
  have sel: "uv_pp (ex_uv ex_calls) = ex_calls" "pw_log ex_calls = []" by (simp_all add: ex_uv_def ex_calls_def)
  let ?es = "[([97], UV_DIRENT_FILE), ([98], UV_DIRENT_DIR)]"
  have es: "8 * length ?es < 2 ^ 31" "length ?es \<noteq> 255" "length ?es = 2" by simp_all
  from scandir_names_lost [of 1 0 "[(3, 1)]" "ex_uv ex_calls" ?es 2 ex_libuv] es ex_calls_open ex_pool show ?thesis
    unfolding sel es(3) by simp
qed

end
