(* ===== verification/RtHost.thy ===== *)
theory RtHost
  imports ServerReplies PipeConn
begin

text \<open>
  The host of the runtime bridge, \<open>runtime_bridge/src/pxprpc_rtbridge_host.cpp\<close>: how it is brought up,
  the server it runs on the connections of the pipe, and the TCP server objects it offers.  The bridge's
  \<open>pxprpc_rtbridge_init_and_run\<close>, the init functions of the modules and libuv are parameters or recorded
  calls.
\<close>

section \<open>Bringing the host up\<close>

text \<open>What \<open>ensureInited\<close> posts to the loop thread is the constructor \<open>ServeManager\<close>.\<close>

datatype host_task = ServeManager

record host =
  ho_inited :: nat
  ho_mods :: "nat list"
  ho_posted :: "host_task list"
  ho_servers :: "pipe_server list"
  ho_pp_init :: nat

definition host_new :: host where
  "host_new = \<lparr>ho_inited = 0, ho_mods = [], ho_posted = [], ho_servers = [], ho_pp_init = 0\<rparr>"

definition rtbmanager_name :: string where
  "rtbmanager_name = ''/pxprpc/runtime_bridge/0''"

text \<open>The table of modules ends with a null pointer; the loop looks at no more than 10000 entries.\<close>

fun run_mods :: "nat \<Rightarrow> nat option list \<Rightarrow> host \<Rightarrow> host res" where
  "run_mods 0 ms h = Inr h"
| "run_mods (Suc n) [] h = Inl OutOfBounds"
| "run_mods (Suc n) (None # ms) h = Inr h"
| "run_mods (Suc n) (Some m # ms) h = run_mods n ms (h\<lparr>ho_mods := ho_mods h @ [m]\<rparr>)"

definition ensureInited :: "string option \<Rightarrow> nat option list \<Rightarrow> host \<Rightarrow> (string option \<times> host) res" where
  "ensureInited init_and_run_err mods h =
     (if ho_inited h = 0 then
        (let h = h\<lparr>ho_inited := 1\<rparr>
         in case init_and_run_err of
              Some err \<Rightarrow> Inr (Some err, h)
            | None \<Rightarrow> bindR (run_mods 10000 mods h) (\<lambda>h. Inr (None, h\<lparr>ho_posted := ho_posted h @ [ServeManager]\<rparr>)))
      else Inr (Some ''inited'', h))"

text \<open>The handler of the manager's connections is the function 0 of the pipe's list.\<close>

definition serve_manager :: "host \<Rightarrow> host" where
  "serve_manager h =
     h\<lparr>ho_servers := pipe_serve rtbmanager_name (Some 0) 0 (ho_servers h), ho_pp_init := ho_pp_init h + 1, ho_inited := 3\<rparr>"

fun host_run :: "host_task \<Rightarrow> host \<Rightarrow> host" where
  "host_run ServeManager h = serve_manager h"

definition run_posted :: "host \<Rightarrow> host" where
  "run_posted h = fold host_run (ho_posted h) (h\<lparr>ho_posted := []\<rparr>)"

section \<open>The manager's connections\<close>

text \<open>The owner is the hook \<open>on_closed\<close>, which deletes the context through a copy of the pointer.\<close>

definition rtbmgrconnhandler :: "(bytes \<Rightarrow> addr option) \<Rightarrow> servctx res" where
  "rtbmgrconnhandler funcmap = server_start (server_new (Some funcmap) True)"

definition rtbmgrconnclosed :: "servctx \<Rightarrow> servctx res" where
  "rtbmgrconnclosed s = server_delete s"

section \<open>TcpPxpRpcServer\<close>

type_synonym tcp_id = nat
type_synonym server_id = nat

record tcp_server =
  ts_server :: "server_id option"               \<comment> \<open>none: not set by the constructor\<close>
  ts_tcp :: "tcp_id option"
  ts_host :: bytes
  ts_port :: int

datatype tcp_call =
    TcpInit tcp_id | TcpClose tcp_id | UvServerNew server_id tcp_id | UvServerStart server_id | UvServerDelete server_id

record tcp_world =
  tw_next_tcp :: tcp_id
  tw_next_server :: server_id
  tw_alive :: "server_id \<Rightarrow> bool"
  tw_calls :: "tcp_call list"

text \<open>What libuv answers when this start parses the address and binds.\<close>

record tcp_env =
  te_ip4 :: int
  te_ip6 :: int
  te_bind :: int

definition tcp_server_new :: "bytes \<Rightarrow> int \<Rightarrow> tcp_server" where
  "tcp_server_new hst prt = \<lparr>ts_server = None, ts_tcp = None, ts_host = hst, ts_port = prt\<rparr>"

definition tcp_say :: "tcp_call \<Rightarrow> tcp_world \<Rightarrow> tcp_world" where
  "tcp_say c w = w\<lparr>tw_calls := tw_calls w @ [c]\<rparr>"

definition tcp_start :: "tcp_env \<Rightarrow> tcp_server \<Rightarrow> tcp_world \<Rightarrow> string option \<times> tcp_server \<times> tcp_world" where
  "tcp_start env s w =
     (if ts_tcp s \<noteq> None then (Some ''started'', s, w)
      else if te_ip4 env \<noteq> 0 \<and> te_ip6 env \<noteq> 0 then (Some ''parse host failed.'', s, w)
      else
        (let h = tw_next_tcp w;
             s = s\<lparr>ts_tcp := Some h\<rparr>;
             w = tcp_say (TcpInit h) (w\<lparr>tw_next_tcp := h + 1\<rparr>)
         in if te_bind env \<noteq> 0 then (Some ''uv_tcp_bind failed.'', s, w)
            else
              (let k = tw_next_server w;
                   w = w\<lparr>tw_next_server := k + 1, tw_alive := (tw_alive w)(k := True)\<rparr>
               in (None, s\<lparr>ts_server := Some k\<rparr>, tcp_say (UvServerStart k) (tcp_say (UvServerNew k h) w)))))"

definition tcp_stop :: "tcp_server \<Rightarrow> tcp_world \<Rightarrow> (tcp_server \<times> tcp_world) res" where
  "tcp_stop s w =
     (case ts_server s of
        None \<Rightarrow> Inl Uninit
      | Some k \<Rightarrow>
          if \<not> tw_alive w k then Inl UseAfterFree
          else
            (let w = tcp_say (UvServerDelete k) (w\<lparr>tw_alive := (tw_alive w)(k := False)\<rparr>)
             in case ts_tcp s of
                  None \<Rightarrow> Inl NullDeref
                | Some h \<Rightarrow> Inr (s\<lparr>ts_tcp := None\<rparr>, tcp_say (TcpClose h) w)))"

definition tcp_delete :: "tcp_server \<Rightarrow> tcp_world \<Rightarrow> tcp_world res" where
  "tcp_delete s w = (if ts_tcp s \<noteq> None then bindR (tcp_stop s w) (\<lambda>(s, w). Inr w) else Inr w)"

section \<open>A server that is started and stopped\<close>

datatype tcp_op = TcpStart tcp_env | TcpStop

text \<open>A client stops only a server that runs.\<close>

fun tcp_step :: "tcp_op \<Rightarrow> tcp_server \<times> tcp_world \<Rightarrow> (tcp_server \<times> tcp_world) res" where
  "tcp_step (TcpStart env) (s, w) = Inr (snd (tcp_start env s w))"
| "tcp_step TcpStop (s, w) = (if ts_tcp s = None then Inr (s, w) else tcp_stop s w)"

fun opened :: "tcp_call list \<Rightarrow> tcp_id list" where
  "opened [] = []"
| "opened (TcpInit h # cs) = h # opened cs"
| "opened (_ # cs) = opened cs"

fun closed_tcps :: "tcp_call list \<Rightarrow> tcp_id list" where
  "closed_tcps [] = []"
| "closed_tcps (TcpClose h # cs) = h # closed_tcps cs"
| "closed_tcps (_ # cs) = closed_tcps cs"

fun made_servers :: "tcp_call list \<Rightarrow> server_id list" where
  "made_servers [] = []"
| "made_servers (UvServerNew k h # cs) = k # made_servers cs"
| "made_servers (_ # cs) = made_servers cs"

fun deleted_servers :: "tcp_call list \<Rightarrow> server_id list" where
  "deleted_servers [] = []"
| "deleted_servers (UvServerDelete k # cs) = k # deleted_servers cs"
| "deleted_servers (_ # cs) = deleted_servers cs"

lemma calls_append [simp]:
  "opened (cs @ ds) = opened cs @ opened ds \<and> closed_tcps (cs @ ds) = closed_tcps cs @ closed_tcps ds \<and>
   made_servers (cs @ ds) = made_servers cs @ made_servers ds \<and> deleted_servers (cs @ ds) = deleted_servers cs @ deleted_servers ds"
  by (induction cs rule: opened.induct) auto

text \<open>The running server, if any, is what has been opened and not yet closed; nothing else is.\<close>

definition tcp_inv :: "tcp_server \<times> tcp_world \<Rightarrow> bool" where
  "tcp_inv sw \<longleftrightarrow>
     (case sw of (s, w) \<Rightarrow>
        distinct (opened (tw_calls w)) \<and> (\<forall>h \<in> set (opened (tw_calls w)). h < tw_next_tcp w) \<and>
        distinct (made_servers (tw_calls w)) \<and> (\<forall>k \<in> set (made_servers (tw_calls w)). k < tw_next_server w) \<and>
        (case ts_tcp s of
           None \<Rightarrow> opened (tw_calls w) = closed_tcps (tw_calls w) \<and> made_servers (tw_calls w) = deleted_servers (tw_calls w)
         | Some h \<Rightarrow> \<exists>k. ts_server s = Some k \<and> tw_alive w k \<and> opened (tw_calls w) = closed_tcps (tw_calls w) @ [h] \<and>
             made_servers (tw_calls w) = deleted_servers (tw_calls w) @ [k]))"

definition binds :: "tcp_op \<Rightarrow> bool" where
  "binds opn \<longleftrightarrow> (case opn of TcpStart env \<Rightarrow> te_bind env = 0 | TcpStop \<Rightarrow> True)"

lemma tcp_step_inv:
  assumes "tcp_inv sw" and "binds opn"
  shows "\<exists>sw'. tcp_step opn sw = Inr sw' \<and> tcp_inv sw'"
proof -
  obtain s w where sw: "sw = (s, w)" by (cases sw)
  show ?thesis
  proof (cases opn)
    case (TcpStart env)
    with assms sw show ?thesis
      by (cases "ts_tcp s") (auto simp: tcp_inv_def binds_def tcp_start_def tcp_say_def Let_def less_Suc_eq)
  next
    case TcpStop
    with assms sw show ?thesis
      by (cases "ts_tcp s") (auto simp: tcp_inv_def tcp_stop_def tcp_say_def)
  qed
qed

lemma tcp_run_inv: "tcp_inv sw \<Longrightarrow> \<forall>opn \<in> set ops. binds opn \<Longrightarrow> \<exists>sw'. foldR tcp_step ops sw = Inr sw' \<and> tcp_inv sw'"
proof (induction ops arbitrary: sw)
  case (Cons opn ops)
  then obtain sw1 where "tcp_step opn sw = Inr sw1" "tcp_inv sw1" using tcp_step_inv [of sw opn] by auto
  with Cons show ?case by auto
qed simp

text \<open>A failed start cannot be repeated: the next call says that the host is up.\<close>

lemma init_error_sticks:
  "ho_inited h = 0 \<Longrightarrow> \<exists>h1. ensureInited (Some err) mods h = Inr (Some err, h1) \<and> ho_posted h1 = ho_posted h \<and>
     (\<forall>err' mods'. ensureInited err' mods' h1 = Inr (Some ''inited'', h1))"
  by (simp add: ensureInited_def)

section \<open>Properties\<close>


definition ex_tcp :: tcp_world where
  "ex_tcp = \<lparr>tw_next_tcp = 0, tw_next_server = 0, tw_alive = (\<lambda>_. False), tw_calls = []\<rparr>"


text \<open>
  When the transport of a manager's connection fails, the hook that owns the context deletes it: the
  context is closed, and it is freed at once exactly when no request was being served; otherwise each
  request left holds it.
\<close>

theorem manager_connection_freed:
  assumes s: "serv_reach s" "sv_next_req s < 2 ^ 32 - 1" "sv_owned s" "\<not> sv_closed s" "sv_wait_recv s"
    and fails: "serv_event (EReceiveFailed e) s = Inr s1"
  shows "\<exists>s2. rtbmgrconnclosed s1 = Inr s2 \<and> sv_closed s2 \<and> (sv_freed s2 \<longleftrightarrow> sv_reqs s = (\<lambda>_. None)) \<and>
     unat (sv_refCount s2) = card (dom (sv_reqs s))"
proof -
  have "serv_step s (EReceiveFailed e) s1" using s(5) fails by (intro serv_step.intros) simp_all
  with s(1) have r1: "serv_reach s1" by (rule serv_reach.step)
  have live: "\<not> sv_freed s" using reach_refCount(2) [OF s(1,2)] s(3) by simp
  from fails s(4) live have "server_close (s\<lparr>sv_wait_recv := False, sv_receive_error := Some e, sv_last_error := Some e\<rparr>) = Inr s1"
    by (simp add: server_step2_def ctx_alive_def)
  from server_close_fields [OF this] s have f1: "sv_closed s1" "\<not> sv_freed s1" "sv_reqs s1 = sv_reqs s" "sv_owned s1"
    "sv_next_req s1 = sv_next_req s" by (auto simp: wf_fields_def)
  then obtain s2 where s2: "server_delete s1 = Inr s2"
    by (simp add: server_delete_def server_close_def ctx_alive_def refCount_add_def Let_def)
  have "serv_step s1 EDelete s2" using s2 f1(4) by (intro serv_step.intros) simp_all
  with r1 have r2: "serv_reach s2" by (rule serv_reach.step)
  have f2: "sv_closed s2" "sv_reqs s2 = sv_reqs s" "\<not> sv_owned s2" "sv_next_req s2 = sv_next_req s"
    using s2 f1 by (auto simp: server_delete_def server_close_def ctx_alive_def refCount_add_def Let_def emit_def split: if_splits)
  from reach_refCount [OF r2] f2 s(2) s2 show ?thesis by (simp add: rtbmgrconnclosed_def)
qed

theorem manager_connection_freed_witness:
  "\<exists>s s1 s2. serv_reach s \<and> serv_event (EReceiveFailed ''end'') s = Inr s1 \<and> rtbmgrconnclosed s1 = Inr s2 \<and> sv_freed s2"
proof -
  from server_start_reach obtain s where s: "server_start (server_new None True) = Inr s" "serv_reach s" "sv_wait_recv s"
    "\<not> sv_freed s" "\<not> sv_closed s" "sv_owned s" "sv_next_req s = 0" "sv_reqs s = (\<lambda>_. None)" by blast
  then have "ref_pool_size (sv_pool s) = 0"
    by (auto simp: server_start_def server_new_def server_step1_def emit_def)
  then have "drop_all_objects (sv_pool s) = Inr (sv_pool s)" by (simp add: drop_all_objects_def)
  with s obtain s1 where s1: "serv_event (EReceiveFailed ''end'') s = Inr s1"
    by (simp add: server_step2_def server_close_def ctx_alive_def Let_def)
  from manager_connection_freed [OF s(2) _ s(6,5,3) s1] s s1 show ?thesis by auto
qed

end
