(* ===== verification/ServedPipe.thy ===== *)
theory ServedPipe
  imports ServerReplies PipeConn
begin

text \<open>
  A server context on the server side of a pipe connection, as \<open>pxprpc_server_start\<close> sets it up in
  the connection handlers of \<open>runtime_bridge/src/pxprpc_rtbridge_host.cpp\<close> and
  \<open>c/pxprpc_pipe\<close>: the io calls of \<open>Server\<close> are calls of \<open>PipeConn\<close>, and the callbacks of the
  connection are the events of the server.
\<close>

section \<open>The io calls of a run of the server\<close>

definition sending :: "servctx \<Rightarrow> reqid \<Rightarrow> bool" where
  "sending s r \<longleftrightarrow> (\<exists>st. sv_wait s r = Some (WaitSend st))"

fun is_send :: "reqid \<Rightarrow> action \<Rightarrow> bool" where
  "is_send r (ASend r' m) = (r' = r)"
| "is_send r _ = False"

fun is_io :: "action \<Rightarrow> bool" where
  "is_io AReceive = True"
| "is_io (ASend r m) = True"
| "is_io _ = False"

definition send_count :: "reqid \<Rightarrow> action list \<Rightarrow> nat" where
  "send_count r l = length (filter (is_send r) l)"

text \<open>
  What a run adds to the log: a send for a request exactly when the request starts to wait for it, a
  receive when the context starts to, one close of the io when it closes; and a receive or a send is
  the last thing it does.
\<close>

definition accounts :: "action list \<Rightarrow> servctx \<Rightarrow> servctx \<Rightarrow> bool" where
  "accounts l s t \<longleftrightarrow> sv_log t = sv_log s @ l
     \<and> (\<forall>r. send_count r l + of_bool (sending s r) = (of_bool (sending t r) :: nat))
     \<and> count_list l AReceive + of_bool (sv_wait_recv s) = (of_bool (sv_wait_recv t) :: nat)
     \<and> count_list l AIoClose + of_bool (sv_closed s) = (of_bool (sv_closed t) :: nat)"

definition silent :: "servctx \<Rightarrow> servctx \<Rightarrow> bool" where
  "silent s t \<longleftrightarrow> (\<exists>l. accounts l s t \<and> (\<forall>a \<in> set l. \<not> is_io a))"

definition emits :: "servctx \<Rightarrow> servctx \<Rightarrow> bool" where
  "emits s t \<longleftrightarrow> (\<exists>l. accounts l s t \<and> (\<forall>a \<in> set (butlast l). \<not> is_io a) \<and>
     (sv_closed t \<longrightarrow> (\<forall>a \<in> set l. \<not> is_io a)))"

lemma send_count_simps [simp]:
  "send_count r [] = 0" "send_count r (a # l) = of_bool (is_send r a) + send_count r l"
  "send_count r (l @ l') = send_count r l + send_count r l'"
  by (simp_all add: send_count_def)

lemma accounts_trans: "accounts l s t \<Longrightarrow> accounts l' t u \<Longrightarrow> accounts (l @ l') s u"
proof -
  assume st: "accounts l s t" and tu: "accounts l' t u"
  have "send_count r (l @ l') + of_bool (sending s r) = (of_bool (sending u r) :: nat)" for r
  proof -
    have "send_count r l + of_bool (sending s r) = (of_bool (sending t r) :: nat)"
      "send_count r l' + of_bool (sending t r) = (of_bool (sending u r) :: nat)"
      using st tu unfolding accounts_def by blast+
    then show ?thesis by simp
  qed
  with st tu show ?thesis unfolding accounts_def by simp
qed

lemma silent_trans: "silent s t \<Longrightarrow> silent t u \<Longrightarrow> silent s u"
  unfolding silent_def by (metis accounts_trans Un_iff set_append)

lemma silent_emits: "silent s t \<Longrightarrow> emits t u \<Longrightarrow> emits s u"
proof -
  assume "silent s t" and "emits t u"
  then obtain l l' where l: "accounts l s t" "\<forall>a \<in> set l. \<not> is_io a" "accounts l' t u" "\<forall>a \<in> set (butlast l'). \<not> is_io a"
      "sv_closed u \<longrightarrow> (\<forall>a \<in> set l'. \<not> is_io a)"
    by (auto simp: silent_def emits_def)
  have "\<forall>a \<in> set (butlast (l @ l')). \<not> is_io a" using l(2,4) in_set_butlastD [of _ l] by (auto simp: butlast_append)
  with accounts_trans [OF l(1,3)] l(2,5) show ?thesis unfolding emits_def by (intro exI [of _ "l @ l'"]) auto
qed

lemma silent_imp_emits: "silent s t \<Longrightarrow> emits s t"
  unfolding silent_def emits_def by (meson in_set_butlastD)

definition io_fields where
  "io_fields s = (sv_log s, sv_wait s, sv_wait_recv s, sv_closed s)"

lemma silent_fields: "io_fields t = io_fields s \<Longrightarrow> silent s t"
  unfolding silent_def by (rule exI [of _ "[]"]) (simp add: accounts_def io_fields_def sending_def)

lemma silent_emit: "\<not> is_io a \<Longrightarrow> a \<noteq> AIoClose \<Longrightarrow> silent s (emit a s)"
  unfolding silent_def by (rule exI [of _ "[a]"]) (cases a; auto simp: accounts_def emit_def sending_def)

lemma silent_put_req [simp, intro]: "silent s (put_req rid r s)"
  by (rule silent_fields) (simp add: io_fields_def put_req_def)

lemma server_close_log:
  "server_close s = Inr t \<Longrightarrow> \<not> sv_closed s \<Longrightarrow> \<exists>p. t = s\<lparr>sv_closed := True, sv_pool := p,
      sv_log := sv_log s @ AIoClose # (if sv_on_closed s then [AOnClosed] else [])\<rparr>"
  by (cases "sv_on_closed s") (auto simp: server_close_def Let_def emit_def)

lemma server_close_silent: "server_close s = Inr t \<Longrightarrow> silent s t"
proof (cases "sv_closed s")
  case True
  moreover assume "server_close s = Inr t"
  ultimately show ?thesis by (auto simp: server_close_def intro: silent_fields)
next
  case False
  moreover assume "server_close s = Inr t"
  ultimately obtain p where t: "t = s\<lparr>sv_closed := True, sv_pool := p,
      sv_log := sv_log s @ AIoClose # (if sv_on_closed s then [AOnClosed] else [])\<rparr>"
    using server_close_log [of s t] by blast
  with False show ?thesis unfolding silent_def
    by (intro exI [of _ "AIoClose # (if sv_on_closed s then [AOnClosed] else [])"]) (auto simp: accounts_def sending_def)
qed

lemma close_on_send_error_silent: "close_on_send_error s = Inr t \<Longrightarrow> silent s t"
proof (cases "sv_send_error s = None")
  case False
  assume "close_on_send_error s = Inr t"
  with False have "server_close (s\<lparr>sv_last_error := sv_send_error s\<rparr>) = Inr t"
    by (simp add: close_on_send_error_def ctx_alive_def split: if_splits)
  from silent_trans [OF silent_fields server_close_silent [OF this]] show ?thesis by (simp add: io_fields_def)
qed (auto simp: close_on_send_error_def intro: silent_fields)

lemma free_param_silent: "free_param p s = Inr t \<Longrightarrow> silent s t"
  by (auto simp: free_param_def io_fields_def intro: silent_fields split: if_splits prod.splits option.splits
      intro!: silent_trans [OF silent_fields [of "s\<lparr>sv_bufs := b\<rparr>" for b] silent_emit])

lemma call_on_finish_silent: "silent s (call_on_finish rid r s)"
  by (auto simp: call_on_finish_def io_fields_def intro: silent_fields silent_emit split: option.splits)

lemma refCount_add_silent: "refCount_add k s = Inr t \<Longrightarrow> silent s t"
  by (auto simp: refCount_add_def Let_def io_fields_def intro: silent_fields split: if_splits
      intro!: silent_trans [OF silent_fields [of "s\<lparr>sv_refCount := 0, sv_freed := True\<rparr>"] silent_emit])

lemma finishRequest_silent: "finishRequest rid s = Inr t \<Longrightarrow> silent s t"
proof -
  assume "finishRequest rid s = Inr t"
  then obtain r u v w where u: "close_on_send_error s = Inr u"
    and v: "free_param (rq_param_base r) (call_on_finish rid r u) = Inr v" and w: "refCount_add (-1) v = Inr w"
    and t: "t = w\<lparr>sv_reqs := (sv_reqs w)(rid := None)\<rparr>"
    by (auto simp: finishRequest_def)
  have "silent w t" unfolding t by (rule silent_fields) (simp add: io_fields_def)
  with close_on_send_error_silent [OF u] call_on_finish_silent free_param_silent [OF v] refCount_add_silent [OF w]
  show ?thesis by (blast intro: silent_trans)
qed

lemma emits_send:
  "sv_wait s rid = None \<Longrightarrow> \<not> sv_closed s \<Longrightarrow>
    emits s (emit (ASend rid m) (s\<lparr>sv_wait := (sv_wait s)(rid \<mapsto> WaitSend st)\<rparr>))"
  unfolding emits_def by (rule exI [of _ "[ASend rid m]"]) (auto simp: accounts_def emit_def sending_def)

lemma silent_call: "sv_wait s rid = None \<Longrightarrow> silent s (emit (ACall c rid) (put_req rid r (s\<lparr>sv_wait := (sv_wait s)(rid \<mapsto> WaitCall)\<rparr>)))"
  unfolding silent_def by (rule exI [of _ "[ACall c rid]"]) (auto simp: accounts_def emit_def sending_def put_req_def)

lemma writeResult_emits:
  assumes w: "writeResult rid s = Inr t" and idle: "sv_wait s rid = None"
  shows "emits s t"
proof -
  from w obtain r where r: "sv_reqs s rid = Some r" by (auto simp: writeResult_def)
  define r' where "r' = (if rq_rejected r then r\<lparr>rq_session := rq_session r XOR 0x80000000\<rparr> else r)"
  define u where "u = put_req rid r' s"
  have su: "silent s u" "sv_wait u rid = None" using idle by (simp_all add: u_def)
  show ?thesis
  proof (cases "sv_closed s")
    case True
    with w r have "t = u" by (auto simp: writeResult_def Let_def u_def r'_def)
    with su show ?thesis by (simp add: silent_imp_emits)
  next
    case False
    with w r obtain st where "t = emit (ASend rid (le32 (rq_session r') @ result_parts r'))
              (u\<lparr>sv_wait := (sv_wait u)(rid \<mapsto> WaitSend st)\<rparr>)"
      unfolding writeResult_def Let_def u_def r'_def by (auto split: option.splits)
    moreover have "\<not> sv_closed u" using False by (simp add: u_def)
    ultimately show ?thesis using silent_emits [OF su(1) emits_send [OF su(2)]] by simp
  qed
qed

lemma stepCall2_emits: "stepCall2 rid s = Inr t \<Longrightarrow> sv_wait s rid = None \<Longrightarrow> emits s t"
  by (auto simp: stepCall2_def split: if_splits
      intro: silent_imp_emits [OF finishRequest_silent] silent_emits [OF silent_put_req writeResult_emits])

lemma call_slot_silent: "call_slot i st rid s = Inr t \<Longrightarrow> sv_wait s rid = None \<Longrightarrow> silent s t"
  by (auto simp: call_slot_def intro: silent_call split: if_splits option.splits)

lemma pool_silent: "silent s (s\<lparr>sv_pool := q\<rparr>)"
  by (rule silent_fields) (simp add: io_fields_def)

lemma lookup_func_io: "lookup_func r s = Inr (res, t) \<Longrightarrow> silent s t \<and> sv_wait t = sv_wait s"
  by (auto simp: lookup_func_def intro: pool_silent silent_fields split: option.splits)

lemma free_index_io: "free_index_at p i s = Inr t \<Longrightarrow> silent s t \<and> sv_wait t = sv_wait s"
  by (auto simp: free_index_at_def intro: pool_silent)

lemma run_step_emits:
  assumes run: "run_step st rid s = Inr t" and idle: "sv_wait s rid = None"
  shows "emits s t"
proof (cases st)
  case StepCall1
  with run idle show ?thesis by (auto simp: stepCall1_def intro: silent_imp_emits [OF call_slot_silent])
next
  case StepCall2
  with run idle show ?thesis by (auto intro: stepCall2_emits)
next
  case StepGetFunc1
  with run obtain r res u r' where u: "lookup_func r s = Inr (res, u)" and t: "stepCall2 rid (put_req rid r' u) = Inr t"
    by (auto simp: stepGetFunc1_def)
  have "emits (put_req rid r' u) t" using t idle lookup_func_io [OF u] by (auto intro: stepCall2_emits)
  with lookup_func_io [OF u] show ?thesis by (blast intro: silent_emits silent_put_req)
next
  case StepFreeRef1
  with run obtain r u where "sv_reqs s rid = Some r" and u: "foldR (free_index_at (rq_param_base r)) (free_offsets (rq_param_len r)) s = Inr u"
    and t: "stepCall2 rid u = Inr t" by (auto simp: stepFreeRef1_def)
  have "silent s u \<and> sv_wait u = sv_wait s"
    by (rule foldR_inv [OF u, where P = "\<lambda>v. silent s v \<and> sv_wait v = sv_wait s"])
      (auto intro: silent_fields silent_trans dest!: free_index_io)
  with stepCall2_emits [OF t] idle show ?thesis by (auto intro: silent_emits)
next
  case StepClose1
  with run show ?thesis by (auto simp: stepClose1_def intro: silent_imp_emits [OF server_close_silent])
next
  case StepGetInfo1
  with run idle show ?thesis by (auto simp: stepGetInfo1_def intro: silent_emits [OF silent_put_req stepCall2_emits])
next
  case StepPoll1
  with run idle show ?thesis
    by (auto simp: stepPoll1_def Let_def intro: silent_imp_emits [OF silent_trans [OF silent_put_req call_slot_silent]])
next
  case StepPoll2
  with run idle show ?thesis by (auto simp: stepPoll2_def intro: silent_emits [OF silent_put_req writeResult_emits])
next
  case StepPoll3
  with run obtain r u where u: "close_on_send_error s = Inr u"
    and d: "(if rq_rejected r \<or> sv_closed u then finishRequest rid (put_req rid (r\<lparr>rq_callable_index := -5,
            rq_param_base := ptr_add (rq_param_base r) (-4), rq_param_len := rq_param_len r + 4\<rparr>) u)
          else call_slot (sint (rq_callable_index r)) StepPoll2 rid
            (put_req rid (prepareRequest r) (call_on_finish rid r u))) = Inr t"
    by (auto simp: stepPoll3_def)
  have idle': "sv_wait u rid = None" using close_on_send_error_fields [OF u] idle by simp
  have "silent u t"
  proof (cases "rq_rejected r \<or> sv_closed u")
    case True
    with d show ?thesis by (auto intro: silent_trans [OF silent_put_req finishRequest_silent])
  next
    case False
    with d idle' show ?thesis
      by (auto intro: silent_trans [OF call_on_finish_silent silent_trans [OF silent_put_req call_slot_silent]])
  qed
  with close_on_send_error_silent [OF u] show ?thesis by (blast intro: silent_imp_emits silent_trans)
next
  case FinishRequest
  with run show ?thesis by (auto intro: silent_imp_emits [OF finishRequest_silent])
qed

text \<open>The state in which an event finds the server: what it waited for is no longer outstanding.\<close>

fun taken :: "event \<Rightarrow> servctx \<Rightarrow> servctx" where
  "taken (EReceived b m) s = s\<lparr>sv_wait_recv := False\<rparr>"
| "taken (EReceiveFailed e) s = s\<lparr>sv_wait_recv := False\<rparr>"
| "taken (ESent rid e) s = s\<lparr>sv_wait := (sv_wait s)(rid := None)\<rparr>"
| "taken e s = s"

lemma server_step2_emits:
  assumes run: "server_step2 b s = Inr t" and wf: "serv_wf {} s"
  shows "emits s t"
proof (cases "sv_closed s \<or> sv_receive_error s \<noteq> None")
  case True
  with run have "t = s \<or> server_close (s\<lparr>sv_last_error := sv_receive_error s\<rparr>) = Inr t"
    by (auto simp: server_step2_def split: if_splits)
  moreover have "silent s (s\<lparr>sv_last_error := sv_receive_error s\<rparr>)" by (rule silent_fields) (simp add: io_fields_def)
  ultimately have "silent s t" by (auto intro: silent_fields silent_trans server_close_silent)
  then show ?thesis by (rule silent_imp_emits)
next
  case False
  let ?s = "s\<lparr>sv_last_error := None\<rparr>"
  from run False obtain session rid u r' st' where
    n: "newRequest session ?s = Inr (rid, u)" and go: "run_step st' rid (put_req rid r' (u\<lparr>sv_in_step2 := True\<rparr>)) = Inr t"
    by (auto simp: server_step2_def Let_def split: option.splits)
  define v where "v = put_req (sv_next_req s) (zero_request\<lparr>rq_session := session\<rparr>) (?s\<lparr>sv_next_req := sv_next_req s + 1\<rparr>)"
  have "refCount_add 1 v = Inr u" using n by (auto simp: newRequest_def Let_def v_def)
  moreover have "silent s v" by (rule silent_fields) (simp add: v_def io_fields_def put_req_def)
  ultimately have "silent s u" by (blast intro: silent_trans refCount_add_silent)
  moreover have "silent u (u\<lparr>sv_in_step2 := True\<rparr>)" by (rule silent_fields) (simp add: io_fields_def)
  ultimately have su: "silent s (put_req rid r' (u\<lparr>sv_in_step2 := True\<rparr>))"
    by (rule silent_trans [OF silent_trans silent_put_req])
  have "serv_wf {rid} u" using newRequest_wf [OF n] wf by simp
  then have "sv_wait u rid = None" by (auto simp: serv_wf_def)
  then have "emits (put_req rid r' (u\<lparr>sv_in_step2 := True\<rparr>)) t" by (intro run_step_emits [OF go]) simp
  with su show ?thesis by (rule silent_emits)
qed

lemma server_step1_emits: "server_step1 s = Inr t \<Longrightarrow> \<not> sv_wait_recv s \<Longrightarrow> emits s t"
proof (cases "sv_closed s")
  case False
  moreover assume "server_step1 s = Inr t" and "\<not> sv_wait_recv s"
  ultimately show ?thesis unfolding emits_def
    by (intro exI [of _ "[AReceive]"]) (auto simp: server_step1_def accounts_def emit_def sending_def ctx_alive_def split: if_splits)
qed (auto simp: server_step1_def intro: silent_imp_emits silent_fields)

lemma serv_event_emits:
  assumes re: "serv_reach s" and en: "enabled e s" and run: "serv_event e s = Inr t"
  shows "emits (taken e s) t"
proof (cases e)
  case (EReceived b m)
  let ?u = "s\<lparr>sv_wait_recv := False, sv_receive_error := None, sv_bufs := (sv_bufs s)(b \<mapsto> m)\<rparr>"
  have "silent (taken e s) ?u" using EReceived by (intro silent_fields) (simp add: io_fields_def)
  moreover have "emits ?u t" using server_step2_emits [of b ?u t] run EReceived serv_reach_wf [OF re] by simp
  ultimately show ?thesis by (rule silent_emits)
next
  case (EReceiveFailed x)
  let ?u = "s\<lparr>sv_wait_recv := False, sv_receive_error := Some x\<rparr>"
  have "silent (taken e s) ?u" using EReceiveFailed by (intro silent_fields) (simp add: io_fields_def)
  moreover have "emits ?u t" using server_step2_emits [of 0 ?u t] run EReceiveFailed serv_reach_wf [OF re] by simp
  ultimately show ?thesis by (rule silent_emits)
next
  case EReturn
  let ?u = "s\<lparr>sv_in_step2 := False\<rparr>"
  have "silent s ?u" by (rule silent_fields) (simp add: io_fields_def)
  moreover have "emits ?u t"
    using server_step1_emits [of ?u t] run EReturn en serv_reach_listening [OF re]
    by (simp add: server_step2_return_def listening_def)
  ultimately show ?thesis using EReturn by (auto intro: silent_emits)
next
  case (ESent rid x)
  with en obtain st where w: "sv_wait s rid = Some (WaitSend st)" by (auto split: option.splits awaited.splits)
  let ?u = "s\<lparr>sv_wait := (sv_wait s)(rid := None), sv_send_error := x\<rparr>"
  have "silent (taken e s) ?u" using ESent by (intro silent_fields) (simp add: io_fields_def)
  moreover have "emits ?u t" using run_step_emits [of st rid ?u t] run ESent w by simp
  ultimately show ?thesis by (rule silent_emits)
next
  case (ENextStep rid c)
  with en have w: "sv_wait s rid = Some WaitCall" by simp
  from run ENextStep obtain r st where
    go: "run_step st rid (put_req rid (complete_request c r) (take_param c r (s\<lparr>sv_wait := (sv_wait s)(rid := None)\<rparr>))) = Inr t"
    by (auto split: option.splits)
  let ?u = "take_param c r (s\<lparr>sv_wait := (sv_wait s)(rid := None)\<rparr>)"
  have u: "sv_wait ?u = (sv_wait s)(rid := None)" "sv_log ?u = sv_log s" "sv_wait_recv ?u = sv_wait_recv s" "sv_closed ?u = sv_closed s"
    by (auto simp: take_param_def split: option.splits)
  have "accounts [] s ?u" using u w by (auto simp: accounts_def sending_def)
  then have "silent s ?u" by (auto simp: silent_def)
  moreover have "emits (put_req rid (complete_request c r) ?u) t" using run_step_emits [OF go] u by simp
  ultimately show ?thesis using ENextStep by (auto intro: silent_emits silent_put_req silent_trans)
next
  case EClose
  with run show ?thesis by (auto intro: silent_imp_emits server_close_silent)
next
  case EDelete
  with run en obtain u where u: "server_close s = Inr u" "refCount_add (-1) (u\<lparr>sv_owned := False\<rparr>) = Inr t"
    by (auto simp: server_delete_def)
  have "silent u (u\<lparr>sv_owned := False\<rparr>)" by (rule silent_fields) (simp add: io_fields_def)
  from silent_trans [OF silent_trans [OF server_close_silent [OF u(1)] this] refCount_add_silent [OF u(2)]] EDelete
  show ?thesis by (simp add: silent_imp_emits)
qed

section \<open>The callbacks of the connection\<close>

fun callback_of :: "pipe_entry \<Rightarrow> callback option" where
  "callback_of (CallRecv d cb m e) = Some cb"
| "callback_of (CallSend d cb e) = Some cb"
| "callback_of (RefuseSend d cb e) = Some cb"
| "callback_of (RefuseRecv d cb e) = Some cb"
| "callback_of _ = None"

text \<open>A callback is not called more often than it was accepted.\<close>

lemma stack_done_once:
  "stack_ok st \<Longrightarrow> stack_done m st = {#} \<or> (\<exists>d i. CloseSendNext d i \<in> set st \<and> stack_done m st = {#io_cb m i#})"
proof (induction st)
  case (Cons f st)
  show ?case
  proof (cases "f = UserTurn")
    case True
    with Cons show ?thesis by auto
  next
    case False
    with Cons.prems have "\<forall>g \<in> set st. \<not> closing_frame g" by simp
    then have "stack_done m st = {#}"
    proof (induction st)
      case (Cons g st)
      then show ?case by (cases g) simp_all
    qed simp
    then show ?thesis by (cases f) auto
  qed
qed simp

lemma called_le_posted:
  assumes "pipe_inv q (c, st)"
  shows "count (called_cbs (pn_log c)) cb + count (opt_cb (pn_recv c d)) cb \<le> count (posted_cbs (pn_log c)) cb"
proof -
  let ?m = "pn_reqs c"
  have store: "store_ok q (c, st)" and shape: "shape_ok (c, st)" and calls: "calls_ok q (c, st)"
    using assms by (simp_all add: pipe_inv_def)
  have "stack_done ?m st \<subseteq># queue_cbs ?m (q ClientSide) + queue_cbs ?m (q ServerSide)"
  proof -
    consider "stack_done ?m st = {#}" | d i where "CloseSendNext d i \<in> set st" "stack_done ?m st = {#io_cb ?m i#}"
      using stack_done_once [of st ?m] shape by (auto simp: shape_ok_def)
    then show ?thesis
    proof cases
      case 2
      then have "progress (CloseSendNext d i) c" using shape by (auto simp: shape_ok_def)
      then have i: "pn_send c d = Some i" by (cases d) simp_all
      have "io_chain ?m (pn_send c d) (q d)" using store by (simp add: store_ok_def)
      then have "io_chain ?m (Some i) (q d)" by (simp add: i)
      then obtain js where "q d = i # js" by (auto simp: io_chain_Some)
      with 2(2) show ?thesis by (cases d) simp_all
    qed simp
  qed
  then have "count (stack_done ?m st) cb \<le> count (queue_cbs ?m (q ClientSide)) cb + count (queue_cbs ?m (q ServerSide)) cb"
    using mset_subset_eq_count by fastforce
  moreover have "count (posted_cbs (pn_log c)) cb + count (stack_done ?m st) cb
      = count (called_cbs (pn_log c)) cb + count (opt_cb (pn_recv c ClientSide)) cb + count (opt_cb (pn_recv c ServerSide)) cb
      + count (queue_cbs ?m (q ClientSide)) cb + count (queue_cbs ?m (q ServerSide)) cb + count (stack_cbs ?m st) cb"
    using arg_cong [of _ _ "\<lambda>M. count M cb", OF calls [unfolded calls_ok_def, simplified]] by simp
  ultimately show ?thesis by (cases d) simp_all
qed

text \<open>What one step of the code does.\<close>

definition code_effect :: "pframe \<Rightarrow> pipe_conn \<Rightarrow> pipe_conn \<Rightarrow> pframe list \<Rightarrow> bool" where
  "code_effect f c c' fs \<longleftrightarrow>
     pn_closed c' = pn_closed c \<and> pn_receive_error c' = pn_receive_error c \<and>
     (\<forall>d. pn_recv c' d = pn_recv c d \<or> pn_recv c' d = None) \<and>
     (\<forall>i q. pn_reqs c' i = Some q \<longrightarrow> pn_reqs c i = Some q) \<and>
     (pn_freed c' \<longrightarrow> pn_freed c \<or> pn_closed c ClientSide \<and> pn_closed c ServerSide) \<and>
     (pn_log c' = pn_log c \<and> UserTurn \<notin> set fs \<or>
      (\<exists>e fs'. pn_log c' = pn_log c @ [e] \<and> fs = UserTurn # fs' \<and> UserTurn \<notin> set fs' \<and>
         ((\<exists>d cb m. e = CallRecv d cb m (pn_receive_error c d) \<and> pn_recv c d = Some cb \<and> (m = None \<longleftrightarrow> closing_frame f))
          \<or> (\<exists>d i q x. e = CallSend d (ir_cb q) x \<and> pn_reqs c i = Some q))))"

lemma code_step_effect:
  assumes run: "code_step f c = Inr (c', fs)" and "f \<noteq> UserTurn"
  shows "code_effect f c c' fs"
proof (cases f)
  case (PumpHalf d)
  with run show ?thesis
    by (cases d) (auto simp: pump_half_def conn_alive_def code_effect_def io_get_def split: if_splits option.splits)
next
  case (PumpSent d i)
  with run show ?thesis by (auto simp: pump_sent_def io_get_def code_effect_def split: option.splits)
next
  case (PumpFree d i)
  with run show ?thesis
    by (cases d) (auto simp: pump_free_def io_free_def code_effect_def split: option.splits if_splits)
next
  case (CloseRecv d)
  with run show ?thesis
    by (cases d) (auto simp: close_recv_def conn_alive_def code_effect_def split: if_splits option.splits)
next
  case (CloseSend d)
  with run show ?thesis
    by (cases d) (auto simp: close_send_def conn_alive_def io_get_def code_effect_def split: if_splits option.splits)
next
  case (CloseSendNext d i)
  with run show ?thesis
    by (auto simp: close_send_next_def io_free_def conn_alive_def code_effect_def split: if_splits option.splits)
next
  case CloseEnd
  with run show ?thesis by (auto simp: close_end_def conn_alive_def code_effect_def split: if_splits)
qed (use assms in simp)

section \<open>The composed system\<close>

text \<open>
  The callbacks of the server are odd numbers, those of the client even ones.  A turn is a callback that
  has not returned, or what runs outside of all callbacks: the calls the server has still to make in it,
  and whether it is a run of \<open>_pxprpc__step2\<close> that goes on with \<open>_pxprpc__step1\<close>.  The events the server
  was given are kept.
\<close>

record served =
  sd_serv :: servctx
  sd_pipe :: pstate
  sd_turns :: "(bool \<times> action list) list"
  sd_events :: "event list"

definition recv_cb :: callback where
  "recv_cb = 1"

definition send_cb :: "reqid \<Rightarrow> callback" where
  "send_cb rid = 2 * rid + 3"

text \<open>
  The event of a callback of the server, \<open>b\<close> being the address of the buffer the message was copied to.
  A receive that completes without an error and without a message would leave the last buffer.
\<close>

fun cb_event :: "nat \<Rightarrow> pipe_entry \<Rightarrow> event res" where
  "cb_event b (CallRecv d cb m (Some e)) = Inr (EReceiveFailed e)"
| "cb_event b (CallRecv d cb (Some p) None) = Inr (EReceived b p)"
| "cb_event b (RefuseRecv d cb e) = Inr (EReceiveFailed e)"
| "cb_event b (CallSend d cb e) = Inr (ESent ((cb - 3) div 2) e)"
| "cb_event b (RefuseSend d cb e) = Inr (ESent ((cb - 3) div 2) (Some e))"
| "cb_event b _ = Inl Uninit"

definition serve_event :: "event \<Rightarrow> served \<Rightarrow> (action list \<times> served) res" where
  "serve_event e sd =
     bindR (serv_event e (sd_serv sd)) (\<lambda>s.
     Inr (drop (length (sv_log (sd_serv sd))) (sv_log s), sd\<lparr>sd_serv := s, sd_events := sd_events sd @ [e]\<rparr>))"

fun is_received :: "event \<Rightarrow> bool" where
  "is_received (EReceived b m) = True"
| "is_received _ = False"

definition callback_turn :: "nat \<Rightarrow> pipe_entry \<Rightarrow> served \<Rightarrow> served res" where
  "callback_turn b entry sd =
     (case callback_of entry of
        None \<Rightarrow> Inr sd
      | Some cb \<Rightarrow>
          if even cb then Inr (sd\<lparr>sd_turns := (False, []) # sd_turns sd\<rparr>)
          else bindR (cb_event b entry) (\<lambda>e.
               bindR (serve_event e sd) (\<lambda>(acts, sd).
               Inr (sd\<lparr>sd_turns := (is_received e \<and> sv_in_step2 (sd_serv sd), acts) # sd_turns sd\<rparr>))))"

definition pipe_part :: "nat \<Rightarrow> pipe_input \<Rightarrow> served \<Rightarrow> served res" where
  "pipe_part b i sd =
     bindR (pipe_event i (sd_pipe sd)) (\<lambda>p.
     if pn_log (fst p) = pn_log (fst (sd_pipe sd)) then Inr (sd\<lparr>sd_pipe := p\<rparr>)
     else callback_turn b (last (pn_log (fst p))) (sd\<lparr>sd_pipe := p\<rparr>))"

definition set_turn :: "bool \<times> action list \<Rightarrow> served \<Rightarrow> served" where
  "set_turn t sd = sd\<lparr>sd_turns := t # tl (sd_turns sd)\<rparr>"

fun io_op :: "action \<Rightarrow> pipe_op option" where
  "io_op AReceive = Some (OpRecv ServerSide recv_cb)"
| "io_op (ASend rid m) = Some (OpSend ServerSide [m] (send_cb rid))"
| "io_op AIoClose = Some (OpClose ServerSide)"
| "io_op _ = None"

definition serve_action :: "nat \<Rightarrow> served \<Rightarrow> served res" where
  "serve_action b sd =
     (case snd (hd (sd_turns sd)) of
        [] \<Rightarrow> Inr sd
      | a # acts \<Rightarrow>
          let sd = set_turn (fst (hd (sd_turns sd)), acts) sd
          in case io_op a of None \<Rightarrow> Inr sd | Some op \<Rightarrow> pipe_part b (Call op) sd)"

datatype sd_input =
    SdCode nat                    \<comment> \<open>the code of the connection goes on\<close>
  | SdDo nat                      \<comment> \<open>the server makes the next call of its turn\<close>
  | SdEnd                         \<comment> \<open>the handler that \<open>_pxprpc__step2\<close> called returns\<close>
  | SdReturn                      \<comment> \<open>the callback returns\<close>
  | SdClient nat pipe_op          \<comment> \<open>the client calls the connection\<close>
  | SdServer event                \<comment> \<open>a callable completes, or the owner closes or deletes the context\<close>

fun sd_event :: "sd_input \<Rightarrow> served \<Rightarrow> served res" where
  "sd_event (SdCode b) sd = pipe_part b Code sd"
| "sd_event (SdDo b) sd = serve_action b sd"
| "sd_event SdEnd sd = bindR (serve_event EReturn sd) (\<lambda>(acts, sd). Inr (set_turn (False, acts) sd))"
| "sd_event SdReturn sd =
     bindR (pipe_event Return (sd_pipe sd)) (\<lambda>p. Inr (sd\<lparr>sd_pipe := p, sd_turns := tl (sd_turns sd)\<rparr>))"
| "sd_event (SdClient b op) sd = pipe_part b (Call op) sd"
| "sd_event (SdServer e) sd =
     bindR (serve_event e sd) (\<lambda>(acts, sd).
     Inr (set_turn (fst (hd (sd_turns sd)), acts @ snd (hd (sd_turns sd))) sd))"

definition no_io :: "action list \<Rightarrow> bool" where
  "no_io l \<longleftrightarrow> (\<forall>a \<in> set l. \<not> is_io a)"

fun client_op :: "pipe_op \<Rightarrow> bool" where
  "client_op (OpSend ClientSide parts cb) = even cb"
| "client_op (OpRecv ClientSide cb) = even cb"
| "client_op (OpClose ClientSide) = True"
| "client_op _ = False"

fun serv_input :: "event \<Rightarrow> bool" where
  "serv_input (ENextStep rid c) = True"
| "serv_input EClose = True"
| "serv_input EDelete = True"
| "serv_input _ = False"

text \<open>The users get a turn only when no receive or send of the server is still to be made in it.\<close>

definition users_turn :: "served \<Rightarrow> bool" where
  "users_turn sd \<longleftrightarrow> user_turn (snd (sd_pipe sd)) \<and> no_io (snd (hd (sd_turns sd)))"

definition unused_buf :: "nat \<Rightarrow> served \<Rightarrow> bool" where
  "unused_buf b sd \<longleftrightarrow> sv_bufs (sd_serv sd) b = None"

fun sd_enabled :: "sd_input \<Rightarrow> served \<Rightarrow> bool" where
  "sd_enabled (SdCode b) sd \<longleftrightarrow> \<not> user_turn (snd (sd_pipe sd)) \<and> unused_buf b sd"
| "sd_enabled (SdDo b) sd \<longleftrightarrow> user_turn (snd (sd_pipe sd)) \<and> snd (hd (sd_turns sd)) \<noteq> [] \<and> unused_buf b sd"
| "sd_enabled SdEnd sd \<longleftrightarrow> user_turn (snd (sd_pipe sd)) \<and> hd (sd_turns sd) = (True, [])"
| "sd_enabled SdReturn sd \<longleftrightarrow>
     snd (sd_pipe sd) \<noteq> [] \<and> user_turn (snd (sd_pipe sd)) \<and> hd (sd_turns sd) = (False, [])"
| "sd_enabled (SdClient b op) sd \<longleftrightarrow> users_turn sd \<and> client_op op \<and> unused_buf b sd"
| "sd_enabled (SdServer e) sd \<longleftrightarrow> users_turn sd \<and> serv_input e \<and> enabled e (sd_serv sd)"

text \<open>
  The discipline of the client: the one of the connection, and it does not close before the server has.
\<close>

fun is_close :: "pipe_op \<Rightarrow> bool" where
  "is_close (OpClose d) = True"
| "is_close _ = False"

fun sd_orderly :: "sd_input \<Rightarrow> served \<Rightarrow> bool" where
  "sd_orderly (SdClient b op) sd \<longleftrightarrow>
     orderly (Call op) (sd_pipe sd) \<and> (is_close op \<longrightarrow> pn_closed (fst (sd_pipe sd)) ServerSide)"
| "sd_orderly _ sd \<longleftrightarrow> True"

definition served_start :: "servctx \<Rightarrow> served" where
  "served_start s = \<lparr>sd_serv = s, sd_pipe = (pipe_connection_new, []), sd_turns = [(False, sv_log s)], sd_events = []\<rparr>"

inductive sd_reach :: "servctx \<Rightarrow> served \<Rightarrow> bool" for s0 where
  start: "sd_reach s0 (served_start s0)"
| step: "sd_reach s0 sd \<Longrightarrow> sd_enabled i sd \<Longrightarrow> sd_orderly i sd \<Longrightarrow> sd_event i sd = Inr sd' \<Longrightarrow> sd_reach s0 sd'"

lemma append_io_effect:
  assumes "append_io d parts cb c = Inr c'"
  shows "pn_recv c' = pn_recv c \<and> pn_closed c' = pn_closed c \<and> pn_receive_error c' = pn_receive_error c \<and>
    pn_freed c' = pn_freed c \<and> pn_log c' = pn_log c \<and>
    (\<forall>i q. pn_reqs c' i = Some q \<longrightarrow> ir_cb q = cb \<or> (\<exists>q'. pn_reqs c i = Some q' \<and> ir_cb q' = ir_cb q))"
  using assms
  by (auto simp: append_io_def Let_def io_get_def simp del: last_io.simps split: option.splits if_splits)

section \<open>The invariant\<close>

fun sends1 :: "action \<Rightarrow> bytes list" where
  "sends1 (ASend rid m) = [m]"
| "sends1 _ = []"

definition sends :: "action list \<Rightarrow> bytes list" where
  "sends l = concat (map sends1 l)"

fun received1 :: "event \<Rightarrow> bytes list" where
  "received1 (EReceived b m) = [m]"
| "received1 _ = []"

definition received :: "event list \<Rightarrow> bytes list" where
  "received es = concat (map received1 es)"

lemma sends_simps [simp]:
  "sends [] = []" "sends (a # l) = sends1 a @ sends l" "sends (l @ l') = sends l @ sends l'"
  "received [] = []" "received (es @ [e]) = received es @ received1 e"
  by (simp_all add: sends_def received_def)

lemma no_io_simps [simp]:
  "no_io []" "no_io (a # l) \<longleftrightarrow> \<not> is_io a \<and> no_io l" "no_io (l @ l') \<longleftrightarrow> no_io l \<and> no_io l'"
  by (auto simp: no_io_def)

lemma no_io_counts: "no_io l \<Longrightarrow> sends l = [] \<and> send_count r l = 0 \<and> count_list l AReceive = 0"
proof (induction l)
  case (Cons a l)
  then show ?case by (cases a) auto
qed simp

lemma no_io_concat: "no_io (concat ls) \<longleftrightarrow> (\<forall>l \<in> set ls. no_io l)"
  by (auto simp: no_io_def)

text \<open>
  The accounts of server and connection: a completion the server waits for is to come from a call it has
  still to make, or from the connection, exactly once; what it sent is what the connection accepted and
  what it has still to send.
\<close>

definition ledger :: "servctx \<Rightarrow> pipe_conn \<Rightarrow> action list \<Rightarrow> bool" where
  "ledger s c P \<longleftrightarrow>
     count (posted_cbs (pn_log c)) recv_cb + count_list P AReceive
       = count (called_cbs (pn_log c)) recv_cb + of_bool (sv_wait_recv s)
   \<and> (\<forall>r. count (posted_cbs (pn_log c)) (send_cb r) + send_count r P
       = count (called_cbs (pn_log c)) (send_cb r) + of_bool (sending s r))
   \<and> count_list P AIoClose + of_bool (pn_closed c ServerSide) = (of_bool (sv_closed s) :: nat)
   \<and> sends (sv_log s) = posted ServerSide (pn_log c) @ sends P
   \<and> (sv_closed s \<longrightarrow> no_io P)"

definition conn_side :: "pipe_conn \<Rightarrow> bool" where
  "conn_side c \<longleftrightarrow>
     (\<forall>cb. pn_recv c ServerSide = Some cb \<longrightarrow> cb = recv_cb) \<and> (\<forall>cb. pn_recv c ClientSide = Some cb \<longrightarrow> even cb)
   \<and> (\<forall>i q. pn_reqs c i = Some q \<longrightarrow> ir_cb q \<noteq> recv_cb)
   \<and> (any_closed c \<longrightarrow> (\<forall>d. pn_receive_error c d \<noteq> None)) \<and> (\<not> any_closed c \<longrightarrow> pn_receive_error c ServerSide = None)
   \<and> (pn_closed c ClientSide \<longrightarrow> pn_closed c ServerSide) \<and> (pn_freed c \<longrightarrow> pn_closed c ServerSide)"

definition one_io :: "action list \<Rightarrow> bool" where
  "one_io l \<longleftrightarrow> length (filter is_io l) \<le> 1"

definition turns_ok :: "pframe list \<Rightarrow> (bool \<times> action list) list \<Rightarrow> bool \<Rightarrow> bool" where
  "turns_ok st ts in2 \<longleftrightarrow>
     length ts = Suc (count_list st UserTurn) \<and> (\<forall>t \<in> set (tl ts). no_io (snd t)) \<and> one_io (snd (hd ts))
   \<and> (\<not> user_turn st \<longrightarrow> no_io (snd (hd ts))) \<and> length (filter fst ts) = of_bool in2"

definition pending :: "(bool \<times> action list) list \<Rightarrow> action list" where
  "pending ts = concat (map snd ts)"

definition sd_inv :: "servctx \<Rightarrow> served \<Rightarrow> bool" where
  "sd_inv s0 sd \<longleftrightarrow> (case sd_pipe sd of (c, st) \<Rightarrow>
     serv_reach (sd_serv sd) \<and> pipe_reach (c, st) \<and> ledger (sd_serv sd) c (pending (sd_turns sd)) \<and> conn_side c
   \<and> turns_ok st (sd_turns sd) (sv_in_step2 (sd_serv sd)) \<and> received (sd_events sd) = delivered ServerSide (pn_log c)
   \<and> foldR serv_event (sd_events sd) s0 = Inr (sd_serv sd))"

lemma pending_simps [simp]: "pending [] = []" "pending (t # ts) = snd t @ pending ts"
  by (simp_all add: pending_def)

lemma no_io_pending: "\<forall>t \<in> set ts. no_io (snd t) \<Longrightarrow> no_io (pending ts)"
  by (auto simp: pending_def no_io_concat)

lemma one_io_simps [simp]:
  "one_io []" "one_io (a # l) \<longleftrightarrow> (if is_io a then no_io l else one_io l)" "no_io l \<Longrightarrow> one_io l"
  by (auto simp: one_io_def no_io_def filter_empty_conv)

lemma one_io_append [simp]: "no_io l' \<Longrightarrow> one_io (l @ l') \<longleftrightarrow> one_io l"
  by (simp add: one_io_def no_io_def filter_empty_conv)

lemma one_io_tl: "one_io (a # l) \<Longrightarrow> one_io l"
  by (auto split: if_splits)

lemma one_io_last: "no_io (butlast l) \<Longrightarrow> one_io l"
  by (induction l) (auto split: if_splits)

lemma ledger_accounts:
  assumes led: "ledger u c P" and P: "no_io P" and acc: "accounts l u t" and cl: "sv_closed t \<longrightarrow> no_io l"
  shows "ledger t c (l @ P)"
proof -
  note z = no_io_counts [OF P]
  have "count (posted_cbs (pn_log c)) (send_cb r) + send_count r (l @ P)
       = count (called_cbs (pn_log c)) (send_cb r) + of_bool (sending t r)" for r
  proof -
    have "count (posted_cbs (pn_log c)) (send_cb r) + send_count r P
       = count (called_cbs (pn_log c)) (send_cb r) + of_bool (sending u r)"
      using led unfolding ledger_def by blast
    moreover have "send_count r l + of_bool (sending u r) = (of_bool (sending t r) :: nat)"
      using acc unfolding accounts_def by blast
    ultimately show ?thesis using z by simp
  qed
  with led acc z cl P show ?thesis by (simp add: ledger_def accounts_def)
qed

section \<open>Events keep the invariant\<close>

lemma serv_event_in_step2:
  assumes re: "serv_reach s" and en: "enabled e s" and run: "serv_event e s = Inr t"
  shows "if is_received e then \<not> sv_in_step2 s
    else if e = EReturn then sv_in_step2 s \<and> \<not> sv_in_step2 t else sv_in_step2 t = sv_in_step2 s"
proof (cases e)
  case (EReceived b m)
  with en serv_reach_listening [OF re] show ?thesis by (simp add: listening_def)
next
  case (EReceiveFailed x)
  let ?u = "s\<lparr>sv_wait_recv := False, sv_receive_error := Some x\<rparr>"
  from run EReceiveFailed have "t = ?u \<or> server_close (?u\<lparr>sv_last_error := Some x\<rparr>) = Inr t"
    by (auto simp: server_step2_def split: if_splits)
  then show ?thesis using EReceiveFailed server_close_frame [OF _ allowed_True]
    by (fastforce simp: frame_def loop_fields_def)
next
  case EReturn
  with run en show ?thesis
    by (auto simp: server_step2_return_def server_step1_def ctx_alive_def emit_def split: if_splits)
next
  case EClose
  with run show ?thesis using server_close_frame [OF _ allowed_True, of s t] by (auto simp: frame_def loop_fields_def)
next
  case EDelete
  with run show ?thesis using server_delete_frame [OF _ allowed_True, of s t] by auto
qed (use completion_frame [OF re en run _ allowed_True] in \<open>auto simp: frame_def loop_fields_def\<close>)

text \<open>The fault of a server event, when that is what went wrong.\<close>

definition serv_fault :: "servctx \<Rightarrow> served res \<Rightarrow> bool" where
  "serv_fault s out \<longleftrightarrow> (\<exists>e x. enabled e s \<and> serv_event e s = Inl x \<and> out = Inl x)"

definition step_ok :: "servctx \<Rightarrow> servctx \<Rightarrow> served res \<Rightarrow> bool" where
  "step_ok s0 s out \<longleftrightarrow> (\<exists>sd'. out = Inr sd' \<and> sd_inv s0 sd') \<or> serv_fault s out"

text \<open>An event of the server leads on, with what it adds to the log.\<close>

lemma serve_outcome:
  assumes s: "sd_serv sd = s" and re: "serv_reach s" and en: "enabled e s" and trace: "foldR serv_event (sd_events sd) s0 = Inr s"
  obtains l t where "serve_event e sd = Inr (l, sd\<lparr>sd_serv := t, sd_events := sd_events sd @ [e]\<rparr>)"
      "serv_reach t" "accounts l (taken e s) t" "no_io (butlast l)" "sv_closed t \<longrightarrow> no_io l"
      "foldR serv_event (sd_events sd @ [e]) s0 = Inr t" "serv_event e s = Inr t"
  | x where "serve_event e sd = Inl x" "serv_event e s = Inl x"
proof (cases "serv_event e s")
  case (Inl x)
  then show ?thesis by (intro that(2)) (simp_all add: serve_event_def s)
next
  case (Inr t)
  from serv_event_emits [OF re en Inr] obtain l where l: "accounts l (taken e s) t"
    "no_io (butlast l)" "sv_closed t \<longrightarrow> no_io l" by (auto simp: emits_def no_io_def)
  have "sv_log (taken e s) = sv_log s" by (cases e) simp_all
  then have "drop (length (sv_log s)) (sv_log t) = l" using l(1) by (simp add: accounts_def)
  moreover have "serv_reach t" using re en Inr by (blast intro: serv_reach.step serv_step.intros)
  ultimately show ?thesis using l Inr trace by (intro that(1)) (simp_all add: serve_event_def foldR_append s)
qed

text \<open>The state of the system after an event of the server whose calls join the turn \<open>ts\<close>.\<close>

lemma served_event_inv:
  assumes inv: "serv_reach t" "pipe_reach (c, st)" "conn_side c" "foldR serv_event es s0 = Inr t"
    and led: "ledger u c P" "no_io P" "accounts l u t" "sv_closed t \<longrightarrow> no_io l" "pending ts = l @ P"
    and ts: "turns_ok st ts (sv_in_step2 t)" and rec: "received es = delivered ServerSide (pn_log c)"
  shows "sd_inv s0 \<lparr>sd_serv = t, sd_pipe = (c, st), sd_turns = ts, sd_events = es\<rparr>"
  using inv ts rec ledger_accounts [OF led(1-4)] led(5) by (simp add: sd_inv_def)

lemma odd_cb: "odd cb \<Longrightarrow> cb \<noteq> recv_cb \<Longrightarrow> send_cb ((cb - 3) div 2) = cb"
  unfolding recv_cb_def send_cb_def by presburger

lemma cb_neq [simp]: "send_cb r \<noteq> recv_cb" "recv_cb \<noteq> send_cb r" "send_cb r = send_cb r' \<longleftrightarrow> r = r'"
    "odd recv_cb" "odd (send_cb r)"
  by (simp_all add: send_cb_def recv_cb_def)

text \<open>A callback of the client, and one of the server.\<close>

definition client_entry :: "pipe_entry \<Rightarrow> bool" where
  "client_entry e \<longleftrightarrow> (\<exists>cb. callback_of e = Some cb \<and> even cb) \<and> delivered1 ServerSide e = []"

definition server_entry :: "pipe_entry \<Rightarrow> bool" where
  "server_entry e \<longleftrightarrow> (\<exists>m x. e = CallRecv ServerSide recv_cb m x \<and> (m = None \<longleftrightarrow> x \<noteq> None))
     \<or> (\<exists>d r x. e = CallSend d (send_cb r) x)"

lemma even_cb: "even cb \<Longrightarrow> cb \<noteq> recv_cb" "even cb \<Longrightarrow> cb \<noteq> send_cb r"
  using cb_neq(4) cb_neq(5) by blast+

text \<open>
  What the connection does when it calls back: the ledger is that of a server from which the completion
  has been taken, and the event is one the server waits for.
\<close>

lemma callback_ledger:
  assumes led: "ledger s c P" and unused: "sv_bufs s b = None"
    and log: "pn_log c' = pn_log c @ [entry]" and closed: "pn_closed c' = pn_closed c"
    and le: "\<And>cb. count (called_cbs (pn_log c')) cb \<le> count (posted_cbs (pn_log c')) cb" and P: "no_io P"
    and entry: "server_entry entry"
  shows "\<exists>e. cb_event b entry = Inr e \<and> enabled e s \<and> ledger (taken e s) c' P
    \<and> received1 e = delivered1 ServerSide entry \<and> \<not> (e = EReturn)"
  using entry unfolding server_entry_def
proof (elim disjE exE conjE)
  fix m x assume e: "entry = CallRecv ServerSide recv_cb m x" and mx: "m = None \<longleftrightarrow> x \<noteq> None"
  have w: "sv_wait_recv s"
    using led le [of recv_cb] log e no_io_counts [OF P] by (auto simp: ledger_def of_bool_def split: if_splits)
  let ?t = "s\<lparr>sv_wait_recv := False\<rparr>"
  have "ledger ?t c' P"
    using led log e closed w by (simp add: ledger_def sending_def)
  with e mx w unused show ?thesis by (cases m; cases x) auto
next
  fix d r x assume e: "entry = CallSend d (send_cb r) x"
  have tok: "count (posted_cbs (pn_log c)) (send_cb r') + send_count r' P
       = count (called_cbs (pn_log c)) (send_cb r') + of_bool (sending s r')" for r'
    using led unfolding ledger_def by blast
  have w: "sending s r"
    using tok [of r] le [of "send_cb r"] log e no_io_counts [OF P] by (auto simp: of_bool_def split: if_splits)
  let ?t = "s\<lparr>sv_wait := (sv_wait s)(r := None)\<rparr>"
  have "count (posted_cbs (pn_log c')) (send_cb r') + send_count r' P
       = count (called_cbs (pn_log c')) (send_cb r') + of_bool (sending ?t r')" for r'
    using tok [of r'] w log e by (auto simp: sending_def)
  then have "ledger ?t c' P" using led log e closed by (simp add: ledger_def)
  moreover have "(send_cb r - 3) div 2 = r" by (simp add: send_cb_def)
  ultimately show ?thesis using e w by (auto simp: sending_def)
qed

lemma ledger_client_entry:
  assumes "ledger s c P" and "client_entry e" and "pn_log c' = pn_log c @ [e]" and "pn_closed c' = pn_closed c"
  shows "ledger s c' P"
proof -
  have "posted_cbs [e] = {#} \<and> posted1 ServerSide e = [] \<and> (\<forall>cb. odd cb \<longrightarrow> count (called_cbs [e]) cb = 0)"
    using assms(2) by (cases e) (auto simp: client_entry_def)
  with assms show ?thesis by (simp add: ledger_def)
qed

lemma turns_push:
  assumes "turns_ok st ts in2" and "no_io (snd (hd ts))" and "count_list st2 UserTurn = count_list st UserTurn"
    and "one_io l" and "of_bool w + of_bool in2 = (of_bool in2' :: nat)"
  shows "turns_ok (UserTurn # st2) ((w, l) # ts) in2'"
proof -
  have "\<forall>t \<in> set ts. no_io (snd t)" using assms(1,2) by (cases ts) (auto simp: turns_ok_def)
  with assms show ?thesis by (cases w; cases in2; cases in2') (simp_all add: turns_ok_def)
qed

lemma callback_turn_ok:
  assumes re: "serv_reach s" and pr: "pipe_reach (c', UserTurn # st2)" and side: "conn_side c'"
    and led: "ledger s c (pending ts)" and turns: "turns_ok st ts (sv_in_step2 s)" and cur: "no_io (snd (hd ts))"
    and cnt: "count_list st2 UserTurn = count_list st UserTurn"
    and log: "pn_log c' = pn_log c @ [entry]" and closed: "pn_closed c' = pn_closed c"
    and entry: "client_entry entry \<or> server_entry entry"
    and trace: "foldR serv_event es s0 = Inr s" and rec: "received es = delivered ServerSide (pn_log c)"
    and unused: "sv_bufs s b = None"
  shows "step_ok s0 s (callback_turn b entry \<lparr>sd_serv = s, sd_pipe = (c', UserTurn # st2), sd_turns = ts, sd_events = es\<rparr>)"
    (is "step_ok s0 s (callback_turn b entry ?sd)")
proof -
  have P: "no_io (pending ts)" using turns cur by (intro no_io_pending) (cases ts; auto simp: turns_ok_def)
  obtain q where q: "pipe_inv q (c', UserTurn # st2)" using pipe_reach_inv [OF pr] by blast
  have le: "count (called_cbs (pn_log c')) cb \<le> count (posted_cbs (pn_log c')) cb" for cb
    using called_le_posted [OF q, of cb ClientSide] by simp
  show ?thesis
  proof (cases "client_entry entry")
    case True
    then have "callback_turn b entry ?sd = Inr (?sd\<lparr>sd_turns := (False, []) # ts\<rparr>)"
      by (auto simp: callback_turn_def client_entry_def)
    moreover have "ledger s c' (pending ts)" by (rule ledger_client_entry [OF led True log closed])
    moreover have "turns_ok (UserTurn # st2) ((False, []) # ts) (sv_in_step2 s)"
      by (rule turns_push [OF turns cur cnt]) simp_all
    ultimately show ?thesis
      using True re pr side trace rec log by (auto simp: step_ok_def sd_inv_def client_entry_def)
  next
    case False
    with entry have se: "server_entry entry" by blast
    then obtain cb where cb: "callback_of entry = Some cb" "odd cb" by (auto simp: server_entry_def)
    from callback_ledger [OF led unused log closed le P se] obtain e where e: "cb_event b entry = Inr e"
      "enabled e s" "ledger (taken e s) c' (pending ts)" "received1 e = delivered1 ServerSide entry" "e \<noteq> EReturn"
      by blast
    show ?thesis
    proof (rule serve_outcome [of ?sd s e s0, OF _ re e(2)])
      fix l t
      assume ok: "serve_event e ?sd = Inr (l, ?sd\<lparr>sd_serv := t, sd_events := sd_events ?sd @ [e]\<rparr>)"
        "serv_reach t" "accounts l (taken e s) t" "no_io (butlast l)" "sv_closed t \<longrightarrow> no_io l"
        "foldR serv_event (sd_events ?sd @ [e]) s0 = Inr t" "serv_event e s = Inr t"
      let ?w = "is_received e \<and> sv_in_step2 t"
      have ts: "turns_ok (UserTurn # st2) ((?w, l) # ts) (sv_in_step2 t)"
        using serv_event_in_step2 [OF re e(2) ok(7)] e(5)
        by (intro turns_push [OF turns cur cnt one_io_last [OF ok(4)]]) (auto split: if_splits)
      have "sd_inv s0 \<lparr>sd_serv = t, sd_pipe = (c', UserTurn # st2), sd_turns = (?w, l) # ts, sd_events = es @ [e]\<rparr>"
        using ok(6) by (intro served_event_inv [OF ok(2) pr side _ e(3) P ok(3,5) _ ts]) (simp_all add: rec log e(4))
      then show ?thesis using ok(1) cb e(1) by (simp add: callback_turn_def step_ok_def)
    next
      fix x assume "serve_event e ?sd = Inl x" "serv_event e s = Inl x"
      with cb e(1,2) show ?thesis by (auto simp: callback_turn_def step_ok_def serv_fault_def)
    qed (simp_all add: trace)
  qed
qed

lemma conn_side_code:
  assumes eff: "code_effect f c c' fs" and side: "conn_side c"
  shows "conn_side c'"
proof -
  have recv: "pn_recv c d = Some cb" if "pn_recv c' d = Some cb" for d cb
    using eff that unfolding code_effect_def by (metis option.distinct(1))
  have "any_closed c' = any_closed c" "pn_closed c' = pn_closed c" "pn_receive_error c' = pn_receive_error c"
    "\<And>i q. pn_reqs c' i = Some q \<Longrightarrow> pn_reqs c i = Some q"
    "pn_freed c' \<Longrightarrow> pn_freed c \<or> pn_closed c ClientSide \<and> pn_closed c ServerSide"
    using eff unfolding code_effect_def any_closed_def by simp_all
  with side recv show ?thesis unfolding conn_side_def by (intro conjI) (blast | simp)+
qed

lemma pending_no_io: "turns_ok st ts in2 \<Longrightarrow> no_io (snd (hd ts)) \<Longrightarrow> no_io (pending ts)"
  by (cases ts) (auto simp: turns_ok_def intro: no_io_pending)

text \<open>The code of the connection goes on.\<close>

lemma sd_code_ok:
  assumes inv: "sd_inv s0 sd" and run: "\<not> user_turn (snd (sd_pipe sd))" and unused: "unused_buf b sd"
  shows "step_ok s0 (sd_serv sd) (pipe_part b Code sd)"
proof -
  obtain s c f st ts es where sd: "sd = \<lparr>sd_serv = s, sd_pipe = (c, f # st), sd_turns = ts, sd_events = es\<rparr>" "f \<noteq> UserTurn"
    using run by (cases sd; cases "sd_pipe sd"; cases "snd (sd_pipe sd)") auto
  have re: "serv_reach s" and pr: "pipe_reach (c, f # st)" and led: "ledger s c (pending ts)" and side: "conn_side c"
    and turns: "turns_ok (f # st) ts (sv_in_step2 s)" and rec: "received es = delivered ServerSide (pn_log c)"
    and trace: "foldR serv_event es s0 = Inr s"
    using inv sd(1) by (simp_all add: sd_inv_def)
  obtain q where q: "pipe_inv q (c, f # st)" using pipe_reach_inv [OF pr] by blast
  have ord: "orderly Code (c, f # st)" by simp
  have en: "pipe_enabled Code (c, f # st)" using sd(2) by simp
  obtain c' fs where go: "code_step f c = Inr (c', fs)"
    using pipe_event_step [OF q ord en] by (auto split: prod.splits)
  have eff: "code_effect f c c' fs" by (rule code_step_effect [OF go sd(2)])
  have pr': "pipe_reach (c', fs @ st)"
    by (rule pipe_reach.step [OF pr ord]) (use en go in \<open>auto intro: pipe_step.intros\<close>)
  have side': "conn_side c'" by (rule conn_side_code [OF eff side])
  have cur: "no_io (snd (hd ts))" using turns sd(2) by (simp add: turns_ok_def)
  have cnt: "count_list (f # st) UserTurn = count_list st UserTurn" using sd(2) by simp
  have closed: "pn_closed c' = pn_closed c" using eff by (simp add: code_effect_def)
  consider (quiet) "pn_log c' = pn_log c" "UserTurn \<notin> set fs"
    | (call) e fs' where "pn_log c' = pn_log c @ [e]" "fs = UserTurn # fs'" "UserTurn \<notin> set fs'"
        "(\<exists>d cb m. e = CallRecv d cb m (pn_receive_error c d) \<and> pn_recv c d = Some cb \<and> (m = None \<longleftrightarrow> closing_frame f))
          \<or> (\<exists>d i q x. e = CallSend d (ir_cb q) x \<and> pn_reqs c i = Some q)"
    using eff unfolding code_effect_def by blast
  then show ?thesis
  proof cases
    case quiet
    then have "pipe_part b Code sd = Inr (sd\<lparr>sd_pipe := (c', fs @ st)\<rparr>)"
      using go sd by (simp add: pipe_part_def)
    moreover have "turns_ok (fs @ st) ts (sv_in_step2 s)"
      using turns cur quiet(2) cnt sd(2) by (auto simp: turns_ok_def count_list_0_iff)
    moreover have "ledger s c' (pending ts)" using led quiet(1) closed by (simp add: ledger_def)
    ultimately show ?thesis
      using sd re pr' side' rec trace quiet(1) by (simp add: step_ok_def sd_inv_def)
  next
    case call
    have "client_entry e \<or> server_entry e"
      using call(4)
    proof (elim disjE exE conjE)
      fix d cb m assume e: "e = CallRecv d cb m (pn_receive_error c d)" "pn_recv c d = Some cb" "m = None \<longleftrightarrow> closing_frame f"
      have shape: "shape_ok (c, f # st)" using q by (simp add: pipe_inv_def)
      show ?thesis
      proof (cases d)
        case ClientSide
        with e side show ?thesis by (cases m) (simp_all add: client_entry_def conn_side_def)
      next
        case ServerSide
        have "pn_receive_error c d \<noteq> None \<longleftrightarrow> closing_frame f"
        proof (cases "closing_frame f")
          case True
          then have "any_closed c" using shape by (simp add: shape_ok_def)
          with side True show ?thesis by (simp add: conn_side_def)
        next
          case False
          then have "\<not> any_closed c" using no_closing_none [OF shape] sd(2) e(2) by auto
          with side False ServerSide show ?thesis by (simp add: conn_side_def)
        qed
        with e side ServerSide show ?thesis by (auto simp: server_entry_def conn_side_def)
      qed
    next
      fix d i r x assume e: "e = CallSend d (ir_cb r) x" "pn_reqs c i = Some r"
      show ?thesis
      proof (cases "even (ir_cb r)")
        case False
        with e side have "send_cb ((ir_cb r - 3) div 2) = ir_cb r" by (intro odd_cb) (auto simp: conn_side_def)
        with e show ?thesis unfolding server_entry_def by metis
      qed (use e in \<open>simp add: client_entry_def\<close>)
    qed
    moreover have "pipe_reach (c', UserTurn # fs' @ st)" using pr' call(2) by simp
    moreover have "count_list (fs' @ st) UserTurn = count_list (f # st) UserTurn"
      using call(3) cnt by (simp add: count_list_0_iff)
    ultimately have "step_ok s0 s (callback_turn b e
        \<lparr>sd_serv = s, sd_pipe = (c', UserTurn # fs' @ st), sd_turns = ts, sd_events = es\<rparr>)"
      using unused sd(1)
      by (intro callback_turn_ok [OF re _ side' led turns cur _ call(1) closed _ trace rec]) (simp_all add: unused_buf_def)
    then show ?thesis using go sd call(1,2) by (simp add: pipe_part_def)
  qed
qed

text \<open>A call that the connection accepts without calling back.\<close>

lemma accepted_call_ok:
  assumes inv: "sd_inv s0 sd" and sd: "sd_pipe sd = (c, st)" and user: "user_turn st"
    and ord: "orderly (Call op) (c, st)" and run: "pipe_call op c = Inr (c', [f])" and f: "f \<noteq> UserTurn"
    and ts: "sd_turns sd = (w, acts) # ts" "no_io acts'"
    and led: "ledger (sd_serv sd) c' (acts' @ pending ts)" and side: "conn_side c'"
    and deliv: "delivered ServerSide (pn_log c') = delivered ServerSide (pn_log c)"
  shows "sd_inv s0 (sd\<lparr>sd_turns := (w, acts') # ts, sd_pipe := (c', f # st)\<rparr>)"
proof -
  have "pipe_reach (c, st)" using inv sd by (simp add: sd_inv_def)
  moreover have "pipe_step (c, st) (Call op) (c', f # st)"
    using user run by (intro pipe_step.intros) simp_all
  ultimately have "pipe_reach (c', f # st)" by (rule pipe_reach.step [OF _ ord])
  moreover have "turns_ok (f # st) ((w, acts') # ts) (sv_in_step2 (sd_serv sd))"
    using inv sd ts f by (auto simp: sd_inv_def turns_ok_def)
  ultimately show ?thesis using inv sd led side deliv by (simp add: sd_inv_def)
qed

lemma receive_accepted:
  "\<not> any_closed c \<Longrightarrow> \<not> pn_freed c \<Longrightarrow> pn_recv c d = None \<Longrightarrow>
     pipe_call (OpRecv d cb) c = Inr (say (PostRecv d cb) (c\<lparr>pn_receive_error := (pn_receive_error c)(d := None),
        pn_recv := (pn_recv c)(d \<mapsto> cb)\<rparr>), [PumpHalf ClientSide])"
  by (simp add: pipe_call_side pipe_receive_def conn_alive_def any_closed_def Let_def)

lemma send_accepted:
  assumes "pipe_inv q (c, st)" and "\<not> any_closed c" and "\<not> pn_freed c" and "user_turn st"
  obtains c' where "pipe_call (OpSend d parts cb) c = Inr (say (PostSend d (transfer_buffer parts) cb) c', [PumpHalf ClientSide])"
    "pn_recv c' = pn_recv c" "pn_closed c' = pn_closed c" "pn_receive_error c' = pn_receive_error c" "pn_freed c' = pn_freed c"
    "pn_log c' = pn_log c" "\<And>i q. pn_reqs c' i = Some q \<Longrightarrow> ir_cb q = cb \<or> (\<exists>j q'. pn_reqs c j = Some q' \<and> ir_cb q' = ir_cb q)"
proof -
  let ?c = "c\<lparr>pn_send_error := (pn_send_error c)(d := None)\<rparr>"
  have call: "pipe_call (OpSend d parts cb) c = bindR (append_io d parts cb ?c) (\<lambda>c.
      Inr (say (PostSend d (transfer_buffer parts) cb) c, [PumpHalf ClientSide]))"
    using assms(2,3) by (simp add: pipe_call_side pipe_send_def conn_alive_def any_closed_def Let_def)
  have "orderly (Call (OpSend d parts cb)) (c, st)" "pipe_enabled (Call (OpSend d parts cb)) (c, st)"
    using assms(3,4) by simp_all
  from pipe_event_step [OF assms(1) this] obtain c' where c': "append_io d parts cb ?c = Inr c'"
    using call by (cases "append_io d parts cb ?c") auto
  from append_io_effect [OF c'] call c' show ?thesis by (intro that [of c']) auto
qed

lemma conn_side_posted:
  assumes side: "conn_side c" and cb: "cb \<noteq> recv_cb"
    and c': "pn_recv c' = pn_recv c" "pn_closed c' = pn_closed c" "pn_receive_error c' = pn_receive_error c" "pn_freed c' = pn_freed c"
      "\<And>i q. pn_reqs c' i = Some q \<Longrightarrow> ir_cb q = cb \<or> (\<exists>j q'. pn_reqs c j = Some q' \<and> ir_cb q' = ir_cb q)"
  shows "conn_side (say (PostSend d p cb) c')"
proof -
  have "ir_cb r \<noteq> recv_cb" if "pn_reqs c' i = Some r" for i r
    using c'(5) [OF that] side cb unfolding conn_side_def by metis
  with side c'(1-4) show ?thesis by (simp add: conn_side_def any_closed_def)
qed

text \<open>The server makes the next call of its turn.\<close>

lemma server_open:
  assumes "sd_inv s0 sd" and "sd_pipe sd = (c, st)" and "sd_turns sd = (w, a # acts) # ts" and "io_op a \<noteq> None"
  shows "\<not> any_closed c \<and> \<not> pn_freed c \<and> (is_io a \<longrightarrow> \<not> sv_closed (sd_serv sd) \<and> no_io acts)"
proof -
  have led: "ledger (sd_serv sd) c (a # acts @ pending ts)" and side: "conn_side c" and turns: "one_io (a # acts)"
    using assms by (simp_all add: sd_inv_def turns_ok_def)
  have "\<not> pn_closed c ServerSide"
    using led assms(4) by (cases a) (auto simp: ledger_def of_bool_def split: if_splits)
  moreover have "is_io a \<longrightarrow> \<not> sv_closed (sd_serv sd) \<and> no_io acts"
    using led turns by (auto simp: ledger_def)
  ultimately show ?thesis using side by (auto simp: conn_side_def any_closed_def)
qed

lemma ledger_drop: "ledger s c (a # P) \<Longrightarrow> io_op a = None \<Longrightarrow> ledger s c P"
  by (cases a) (simp_all add: ledger_def)

lemma turns_drop: "turns_ok st ((w, a # acts) # ts) in2 \<Longrightarrow> user_turn st \<Longrightarrow> turns_ok st ((w, acts) # ts) in2"
  using one_io_tl [of a acts] by (cases w) (simp_all add: turns_ok_def del: one_io_simps(2))

lemma sd_do_ok:
  assumes inv: "sd_inv s0 sd" and user: "user_turn (snd (sd_pipe sd))" and more: "snd (hd (sd_turns sd)) \<noteq> []"
  shows "\<exists>sd'. serve_action b sd = Inr sd' \<and> sd_inv s0 sd'"
proof -
  obtain c st where cst: "sd_pipe sd = (c, st)" by (cases "sd_pipe sd")
  have pr: "pipe_reach (c, st)" and side: "conn_side c" and turns: "turns_ok st (sd_turns sd) (sv_in_step2 (sd_serv sd))"
    using inv cst by (simp_all add: sd_inv_def)
  from turns more obtain w a acts ts where ts: "sd_turns sd = (w, a # acts) # ts"
    by (cases "sd_turns sd"; cases "snd (hd (sd_turns sd))") (auto simp: turns_ok_def)
  have led: "ledger (sd_serv sd) c (a # acts @ pending ts)" using inv cst ts by (simp add: sd_inv_def)
  have below: "no_io (pending ts)" using turns ts by (intro no_io_pending) (auto simp: turns_ok_def)
  obtain q where q: "pipe_inv q (c, st)" using pipe_reach_inv [OF pr] by blast
  have quiet: ?thesis if none: "io_op a = None"
  proof -
    have "turns_ok st ((w, acts) # ts) (sv_in_step2 (sd_serv sd))"
      using turns ts user cst by (intro turns_drop [of st w a acts]) simp_all
    with ledger_drop [OF led none] inv cst ts none show ?thesis
      by (simp add: serve_action_def set_turn_def sd_inv_def)
  qed
  show ?thesis
  proof (cases a)
    case AReceive
    from server_open [OF inv cst ts] AReceive have opn: "\<not> any_closed c" "\<not> pn_freed c" "no_io acts" "\<not> sv_closed (sd_serv sd)" by auto
    have tok: "count (posted_cbs (pn_log c)) recv_cb + 1 = count (called_cbs (pn_log c)) recv_cb + of_bool (sv_wait_recv (sd_serv sd))"
      using led AReceive opn(3) no_io_counts [OF below] no_io_counts [OF opn(3)] by (simp add: ledger_def)
    have none: "pn_recv c ServerSide = None"
    proof (rule ccontr)
      assume "pn_recv c ServerSide \<noteq> None"
      with side have "pn_recv c ServerSide = Some recv_cb" by (auto simp: conn_side_def)
      with called_le_posted [OF q, of recv_cb ServerSide] tok show False
        by (simp add: opt_cb_def of_bool_def split: if_splits)
    qed
    let ?c = "say (PostRecv ServerSide recv_cb) (c\<lparr>pn_receive_error := (pn_receive_error c)(ServerSide := None),
        pn_recv := (pn_recv c)(ServerSide \<mapsto> recv_cb)\<rparr>)"
    have run: "pipe_call (OpRecv ServerSide recv_cb) c = Inr (?c, [PumpHalf ClientSide])"
      by (rule receive_accepted [OF opn(1,2) none])
    have "ledger (sd_serv sd) ?c (acts @ pending ts)"
      using led AReceive opn(3,4) below by (simp add: ledger_def)
    moreover have "conn_side ?c" using side opn by (auto simp: conn_side_def any_closed_def)
    ultimately have "sd_inv s0 (sd\<lparr>sd_turns := (w, acts) # ts, sd_pipe := (?c, PumpHalf ClientSide # st)\<rparr>)"
      using user cst opn(2,3) by (intro accepted_call_ok [OF inv cst _ _ run _ ts]) simp_all
    then show ?thesis
      using ts AReceive opn(3) cst run
      by (simp add: serve_action_def pipe_part_def set_turn_def callback_turn_def del: pipe_call.simps)
  next
    case (ASend rid m)
    from server_open [OF inv cst ts] ASend have opn: "\<not> any_closed c" "\<not> pn_freed c" "no_io acts" "\<not> sv_closed (sd_serv sd)" by auto
    from user cst have ut: "user_turn st" by simp
    from send_accepted [OF q opn(1,2) ut, of ServerSide "[m]" "send_cb rid"] obtain c' where
      c': "pipe_call (OpSend ServerSide [m] (send_cb rid)) c = Inr (say (PostSend ServerSide m (send_cb rid)) c', [PumpHalf ClientSide])"
      "pn_recv c' = pn_recv c" "pn_closed c' = pn_closed c" "pn_receive_error c' = pn_receive_error c" "pn_freed c' = pn_freed c"
      "pn_log c' = pn_log c" "\<And>i q. pn_reqs c' i = Some q \<Longrightarrow> ir_cb q = send_cb rid \<or> (\<exists>j q'. pn_reqs c j = Some q' \<and> ir_cb q' = ir_cb q)"
      by (auto simp: transfer_buffer_def)
    let ?c = "say (PostSend ServerSide m (send_cb rid)) c'"
    have tok: "count (posted_cbs (pn_log c)) (send_cb r) + send_count r (ASend rid m # acts @ pending ts)
       = count (called_cbs (pn_log c)) (send_cb r) + of_bool (sending (sd_serv sd) r)" for r
      using led ASend unfolding ledger_def by simp
    have "count (posted_cbs (pn_log ?c)) (send_cb r) + send_count r (acts @ pending ts)
       = count (called_cbs (pn_log ?c)) (send_cb r) + of_bool (sending (sd_serv sd) r)" for r
      using tok [of r] c'(6) by (cases "rid = r") simp_all
    then have "ledger (sd_serv sd) ?c (acts @ pending ts)"
      using led ASend opn(3,4) below c'(3,6) no_io_counts [OF below] no_io_counts [OF opn(3)] by (simp add: ledger_def)
    moreover have "conn_side ?c" by (rule conn_side_posted [OF side cb_neq(1) c'(2-5,7)])
    ultimately have "sd_inv s0 (sd\<lparr>sd_turns := (w, acts) # ts, sd_pipe := (?c, PumpHalf ClientSide # st)\<rparr>)"
      using user cst opn(2,3) c'(6) by (intro accepted_call_ok [OF inv cst _ _ c'(1) _ ts]) simp_all
    then show ?thesis
      using ts ASend opn(3) cst c'(1,6)
      by (simp add: serve_action_def pipe_part_def set_turn_def callback_turn_def del: pipe_call.simps)
  next
    case AIoClose
    from server_open [OF inv cst ts] AIoClose have opn: "\<not> any_closed c" "\<not> pn_freed c" by auto
    have cl: "sv_closed (sd_serv sd)" using led AIoClose by (auto simp: ledger_def of_bool_def split: if_splits)
    then have acts: "no_io acts" using led by (simp add: ledger_def)
    let ?c = "c\<lparr>pn_closed := (pn_closed c)(ServerSide := True), pn_receive_error := (\<lambda>_. Some error_connection_closed),
            pn_send_error := (\<lambda>_. Some error_connection_closed)\<rparr>"
    have run: "pipe_call (OpClose ServerSide) c = Inr (?c, [CloseRecv ServerSide])"
      using opn by (simp add: pipe_call_side pipe_close_def conn_alive_def)
    have "\<not> (\<exists>f \<in> set st. closing_frame f)" using q opn(1) by (auto simp: pipe_inv_def shape_ok_def)
    with opn have ord: "orderly (Call (OpClose ServerSide)) (c, st)" by (simp add: any_closed_def)
    have "ledger (sd_serv sd) ?c (acts @ pending ts)"
      using led AIoClose opn cl by (auto simp: ledger_def any_closed_def)
    moreover have "conn_side ?c" using side opn by (auto simp: conn_side_def any_closed_def)
    ultimately have "sd_inv s0 (sd\<lparr>sd_turns := (w, acts) # ts, sd_pipe := (?c, CloseRecv ServerSide # st)\<rparr>)"
      using user cst acts by (intro accepted_call_ok [OF inv cst _ ord run _ ts]) simp_all
    then show ?thesis
      using ts AIoClose cst run by (simp add: serve_action_def pipe_part_def set_turn_def del: pipe_call.simps)
  qed (use quiet in simp_all)
qed

text \<open>The client calls the connection.\<close>

lemma sd_client_ok:
  assumes inv: "sd_inv s0 sd" and user: "users_turn sd" and cop: "client_op op" and unused: "unused_buf b sd"
    and ord: "orderly (Call op) (sd_pipe sd)" and late: "is_close op \<longrightarrow> pn_closed (fst (sd_pipe sd)) ServerSide"
  shows "step_ok s0 (sd_serv sd) (pipe_part b (Call op) sd)"
proof -
  obtain s c st ts es where sd: "sd = \<lparr>sd_serv = s, sd_pipe = (c, st), sd_turns = ts, sd_events = es\<rparr>"
    by (cases sd; cases "sd_pipe sd") auto
  have re: "serv_reach s" and pr: "pipe_reach (c, st)" and led: "ledger s c (pending ts)" and side: "conn_side c"
    and turns: "turns_ok st ts (sv_in_step2 s)" and rec: "received es = delivered ServerSide (pn_log c)"
    and trace: "foldR serv_event es s0 = Inr s"
    using inv sd by (simp_all add: sd_inv_def)
  have ut: "user_turn st" and cur: "no_io (snd (hd ts))" using user sd by (simp_all add: users_turn_def)
  have ord': "orderly (Call op) (c, st)" using ord sd by simp
  obtain q where q: "pipe_inv q (c, st)" using pipe_reach_inv [OF pr] by blast
  obtain w acts ts' where ts: "ts = (w, acts) # ts'" using turns by (cases ts) (auto simp: turns_ok_def)
  have freed: "\<not> pn_freed c" using ord' by (cases op) simp_all
  have quiet: "step_ok s0 s (pipe_part b (Call op) sd)"
    if run: "pipe_call op c = Inr (c', [f])" "f \<noteq> UserTurn" "pn_log c' = pn_log c \<or> (\<exists>e. pn_log c' = pn_log c @ [e] \<and> callback_of e = None)"
      "ledger s c' (pending ts)" "conn_side c'" "delivered ServerSide (pn_log c') = delivered ServerSide (pn_log c)" for c' f
  proof -
    have inv': "sd_inv s0 (sd\<lparr>sd_turns := (w, acts) # ts', sd_pipe := (c', f # st)\<rparr>)"
      using run cur ts sd by (intro accepted_call_ok [OF inv _ ut ord' run(1,2)]) simp_all
    have "sd\<lparr>sd_turns := (w, acts) # ts', sd_pipe := (c', f # st)\<rparr> = sd\<lparr>sd_pipe := (c', f # st)\<rparr>" using ts sd by simp
    with inv' run sd show ?thesis by (auto simp: pipe_part_def callback_turn_def step_ok_def)
  qed
  have refused: "step_ok s0 s (pipe_part b (Call op) sd)"
    if run: "pipe_call op c = Inr (c', [UserTurn])" "pn_log c' = pn_log c @ [e]" "client_entry e" "pn_closed c' = pn_closed c" "conn_side c'" for c' e
  proof -
    have "pipe_step (c, st) (Call op) (c', UserTurn # st)" using ut run(1) by (intro pipe_step.intros) simp_all
    then have "pipe_reach (c', UserTurn # st)" by (rule pipe_reach.step [OF pr ord'])
    then have "step_ok s0 s (callback_turn b e \<lparr>sd_serv = s, sd_pipe = (c', UserTurn # st), sd_turns = ts, sd_events = es\<rparr>)"
      using unused sd run(3) by (intro callback_turn_ok [OF re _ run(5) led turns cur refl run(2,4) _ trace rec]) (simp_all add: unused_buf_def)
    then show ?thesis using run(1,2) sd by (simp add: pipe_part_def)
  qed
  have "step_ok s0 s (pipe_part b (Call op) sd)"
  proof (cases op)
    case (OpSend d parts cb)
    with cop have d: "d = ClientSide" "even cb" by (cases d; simp)+
    show ?thesis
    proof (cases "any_closed c")
      case True
      let ?e = "RefuseSend ClientSide cb error_connection_closed"
      let ?c = "say ?e (c\<lparr>pn_send_error := ((pn_send_error c)(ClientSide := None))(ClientSide \<mapsto> error_connection_closed)\<rparr>)"
      have "pipe_call op c = Inr (?c, [UserTurn])"
        using OpSend d True freed by (simp add: pipe_call_side pipe_send_def conn_alive_def any_closed_def Let_def)
      moreover have "conn_side ?c" using side by (simp add: conn_side_def any_closed_def)
      ultimately show ?thesis using d by (intro refused [of ?c ?e]) (simp_all add: client_entry_def)
    next
      case False
      from send_accepted [OF q False freed ut, of ClientSide parts cb] obtain c' where
        c': "pipe_call op c = Inr (say (PostSend ClientSide (transfer_buffer parts) cb) c', [PumpHalf ClientSide])"
        "pn_recv c' = pn_recv c" "pn_closed c' = pn_closed c" "pn_receive_error c' = pn_receive_error c" "pn_freed c' = pn_freed c"
        "pn_log c' = pn_log c" "\<And>i q. pn_reqs c' i = Some q \<Longrightarrow> ir_cb q = cb \<or> (\<exists>j q'. pn_reqs c j = Some q' \<and> ir_cb q' = ir_cb q)"
        using OpSend d by metis
      have "ledger s (say (PostSend ClientSide (transfer_buffer parts) cb) c') (pending ts)"
        using led c'(3,6) even_cb [OF d(2)] by (simp add: ledger_def)
      moreover have "conn_side (say (PostSend ClientSide (transfer_buffer parts) cb) c')"
        by (rule conn_side_posted [OF side even_cb(1) [OF d(2)] c'(2-5,7)])
      ultimately show ?thesis using c'(6) by (intro quiet [OF c'(1)]) simp_all
    qed
  next
    case (OpRecv d cb)
    with cop have d: "d = ClientSide" "even cb" by (cases d; simp)+
    show ?thesis
    proof (cases "pn_recv c ClientSide = None \<and> \<not> any_closed c")
      case True
      let ?c = "say (PostRecv ClientSide cb) (c\<lparr>pn_receive_error := (pn_receive_error c)(ClientSide := None),
        pn_recv := (pn_recv c)(ClientSide \<mapsto> cb)\<rparr>)"
      have "pipe_call op c = Inr (?c, [PumpHalf ClientSide])"
        using OpRecv d True freed receive_accepted [of c ClientSide cb] by simp
      moreover have "ledger s ?c (pending ts)" using led even_cb [OF d(2)] by (simp add: ledger_def)
      moreover have "conn_side ?c" using side d True by (auto simp: conn_side_def any_closed_def)
      ultimately show ?thesis by (intro quiet [of ?c "PumpHalf ClientSide"]) simp_all
    next
      case False
      obtain x where run: "pipe_call op c = Inr (say (RefuseRecv ClientSide cb x)
          (c\<lparr>pn_receive_error := (pn_receive_error c)(ClientSide := None, ClientSide \<mapsto> x)\<rparr>), [UserTurn])"
        using OpRecv d False freed
        by (cases "pn_recv c ClientSide") (auto simp: pipe_call_side pipe_receive_def conn_alive_def any_closed_def Let_def)
      have "conn_side (say (RefuseRecv ClientSide cb x) (c\<lparr>pn_receive_error := (pn_receive_error c)(ClientSide := None, ClientSide \<mapsto> x)\<rparr>))"
        using side by (auto simp: conn_side_def any_closed_def)
      then show ?thesis using d by (intro refused [OF run]) (auto simp: client_entry_def)
    qed
  next
    case (OpClose d)
    with cop have d: "d = ClientSide" by (cases d) simp_all
    have cs: "pn_closed c ServerSide" using late OpClose sd by simp
    let ?c = "c\<lparr>pn_closed := (pn_closed c)(ClientSide := True), pn_receive_error := (\<lambda>_. Some error_connection_closed),
            pn_send_error := (\<lambda>_. Some error_connection_closed)\<rparr>"
    have "pipe_call op c = Inr (?c, [CloseRecv ServerSide])"
      using OpClose d freed by (simp add: pipe_call_side pipe_close_def conn_alive_def)
    moreover have "ledger s ?c (pending ts)" using led by (simp add: ledger_def)
    moreover have "conn_side ?c" using side cs by (simp add: conn_side_def any_closed_def)
    ultimately show ?thesis by (intro quiet [of ?c "CloseRecv ServerSide"]) simp_all
  qed
  then show ?thesis using sd by simp
qed

lemma turns_tl:
  "turns_ok (UserTurn # st) ((False, []) # ts) in2 \<Longrightarrow> turns_ok st ts in2"
  by (cases ts) (auto simp: turns_ok_def)

text \<open>The returns, and what callables and the owner do; then every step keeps the invariant or ends in a fault of the server.\<close>

lemma sd_return_ok:
  assumes inv: "sd_inv s0 sd" and en: "sd_enabled SdReturn sd"
  shows "step_ok s0 (sd_serv sd) (sd_event SdReturn sd)"
proof -
  obtain c st0 where p: "sd_pipe sd = (c, st0)" by (cases "sd_pipe sd")
  with en obtain st where st: "st0 = UserTurn # st" by (cases st0) simp_all
  have "sd_turns sd \<noteq> []" using inv p by (auto simp: sd_inv_def turns_ok_def)
  moreover have "hd (sd_turns sd) = (False, [])" using en by simp
  ultimately obtain ts where "sd_turns sd = (False, []) # ts" by (cases "sd_turns sd") simp_all
  with p st obtain s es where sd: "sd = \<lparr>sd_serv = s, sd_pipe = (c, UserTurn # st), sd_turns = (False, []) # ts, sd_events = es\<rparr>"
    by (cases sd) simp
  have "pipe_step (c, UserTurn # st) Return (c, st)" by (intro pipe_step.intros) simp_all
  moreover have "pipe_reach (c, UserTurn # st)" using inv sd by (simp add: sd_inv_def)
  ultimately have "pipe_reach (c, st)" by (rule pipe_reach.step [rotated 2]) simp
  with inv sd have "sd_inv s0 \<lparr>sd_serv = s, sd_pipe = (c, st), sd_turns = ts, sd_events = es\<rparr>"
    using turns_tl [of st ts "sv_in_step2 s"] by (simp add: sd_inv_def)
  with sd show ?thesis by (simp add: step_ok_def)
qed

lemma sd_end_ok:
  assumes inv: "sd_inv s0 sd" and en: "sd_enabled SdEnd sd"
  shows "step_ok s0 (sd_serv sd) (sd_event SdEnd sd)"
proof -
  obtain s c st ts es where sd: "sd = \<lparr>sd_serv = s, sd_pipe = (c, st), sd_turns = (True, []) # ts, sd_events = es\<rparr>"
    using en inv by (cases sd; cases "sd_pipe sd"; cases "sd_turns sd") (auto simp: sd_inv_def turns_ok_def)
  have re: "serv_reach s" and pr: "pipe_reach (c, st)" and side: "conn_side c" and led: "ledger s c (pending ts)"
    and turns: "turns_ok st ((True, []) # ts) (sv_in_step2 s)" and rec: "received es = delivered ServerSide (pn_log c)"
    and trace: "foldR serv_event es s0 = Inr s"
    using inv sd by (simp_all add: sd_inv_def)
  have e: "enabled EReturn s" using turns by (auto simp: turns_ok_def of_bool_def split: if_splits)
  have P: "no_io (pending ts)" using turns by (intro no_io_pending) (simp add: turns_ok_def)
  have "step_ok s0 s (sd_event SdEnd sd)"
  proof (rule serve_outcome [of sd s EReturn s0, OF _ re e])
    fix l t
    assume ok: "serve_event EReturn sd = Inr (l, sd\<lparr>sd_serv := t, sd_events := sd_events sd @ [EReturn]\<rparr>)"
      "serv_reach t" "accounts l (taken EReturn s) t" "no_io (butlast l)" "sv_closed t \<longrightarrow> no_io l"
      "foldR serv_event (sd_events sd @ [EReturn]) s0 = Inr t" "serv_event EReturn s = Inr t"
    have ut: "user_turn st" using en sd by simp
    have "turns_ok st ((False, l) # ts) (sv_in_step2 t)"
      using serv_event_in_step2 [OF re e ok(7)] turns one_io_last [OF ok(4)] ut by (simp add: turns_ok_def)
    with ok(6) sd have "sd_inv s0 \<lparr>sd_serv = t, sd_pipe = (c, st), sd_turns = (False, l) # ts, sd_events = es @ [EReturn]\<rparr>"
      using led by (intro served_event_inv [OF ok(2) pr side _ _ P ok(3,5)]) (simp_all add: rec)
    with ok(1) sd show ?thesis by (simp add: step_ok_def set_turn_def)
  next
    fix x assume "serve_event EReturn sd = Inl x" "serv_event EReturn s = Inl x"
    with e show ?thesis unfolding step_ok_def serv_fault_def by (intro disjI2 exI conjI) (assumption | simp)+
  qed (simp_all add: sd trace)
  with sd show ?thesis by simp
qed

lemma sd_server_ok:
  assumes inv: "sd_inv s0 sd" and en: "sd_enabled (SdServer e) sd"
  shows "step_ok s0 (sd_serv sd) (sd_event (SdServer e) sd)"
proof -
  obtain s c st w acts ts es where sd: "sd = \<lparr>sd_serv = s, sd_pipe = (c, st), sd_turns = (w, acts) # ts, sd_events = es\<rparr>"
    using inv by (cases sd; cases "sd_pipe sd"; cases "sd_turns sd") (auto simp: sd_inv_def turns_ok_def)
  have re: "serv_reach s" and pr: "pipe_reach (c, st)" and side: "conn_side c" and led: "ledger s c (acts @ pending ts)"
    and turns: "turns_ok st ((w, acts) # ts) (sv_in_step2 s)" and rec: "received es = delivered ServerSide (pn_log c)"
    and trace: "foldR serv_event es s0 = Inr s"
    using inv sd by (simp_all add: sd_inv_def)
  have e: "enabled e s" "serv_input e" and cur: "no_io acts" and ut: "user_turn st"
    using en sd by (simp_all add: users_turn_def)
  have P: "no_io (acts @ pending ts)" using turns cur no_io_pending [of ts] by (simp add: turns_ok_def)
  have tk: "taken e s = s" "received1 e = []" "\<not> is_received e" "e \<noteq> EReturn" using e(2) by (cases e; simp)+
  have "step_ok s0 s (sd_event (SdServer e) sd)"
  proof (rule serve_outcome [of sd s e s0, OF _ re e(1)])
    fix l t
    assume ok: "serve_event e sd = Inr (l, sd\<lparr>sd_serv := t, sd_events := sd_events sd @ [e]\<rparr>)"
      "serv_reach t" "accounts l (taken e s) t" "no_io (butlast l)" "sv_closed t \<longrightarrow> no_io l"
      "foldR serv_event (sd_events sd @ [e]) s0 = Inr t" "serv_event e s = Inr t"
    have "sv_in_step2 t = sv_in_step2 s" using serv_event_in_step2 [OF re e(1) ok(7)] tk(3,4) by simp
    then have "turns_ok st ((w, l @ acts) # ts) (sv_in_step2 t)"
      using turns one_io_last [OF ok(4)] cur ut by (cases w) (simp_all add: turns_ok_def)
    with ok(3,6) sd have "sd_inv s0 \<lparr>sd_serv = t, sd_pipe = (c, st), sd_turns = (w, l @ acts) # ts, sd_events = es @ [e]\<rparr>"
      using led by (intro served_event_inv [OF ok(2) pr side _ _ P _ ok(5)]) (simp_all add: rec tk)
    with ok(1) sd show ?thesis by (simp add: step_ok_def set_turn_def)
  next
    fix x assume "serve_event e sd = Inl x" "serv_event e s = Inl x"
    with e show ?thesis unfolding step_ok_def serv_fault_def by (intro disjI2 exI conjI) (assumption | simp)+
  qed (simp_all add: sd trace)
  with sd show ?thesis by simp
qed

lemma sd_event_ok:
  assumes inv: "sd_inv s0 sd" and en: "sd_enabled i sd" and ord: "sd_orderly i sd"
  shows "step_ok s0 (sd_serv sd) (sd_event i sd)"
proof (cases i)
  case (SdCode b)
  with sd_code_ok [OF inv, of b] en show ?thesis by simp
next
  case (SdDo b)
  with sd_do_ok [OF inv, of b] en show ?thesis by (auto simp: step_ok_def)
next
  case (SdClient b op)
  with sd_client_ok [OF inv, of op b] en ord show ?thesis by simp
next
  case SdReturn
  with sd_return_ok [OF inv] en show ?thesis by simp
next
  case SdEnd
  with sd_end_ok [OF inv] en show ?thesis by simp
next
  case (SdServer e)
  with sd_server_ok [OF inv, of e] en show ?thesis by simp
qed

lemma served_start_inv:
  assumes "server_start (server_new fm oc) = Inr s0"
  shows "sd_inv s0 (served_start s0)"
proof -
  have s0: "sv_log s0 = [AReceive]" "sv_wait_recv s0" "\<not> sv_closed s0" "\<not> sv_in_step2 s0" "sv_wait s0 = (\<lambda>_. None)"
    using assms by (auto simp: server_start_def server_new_def server_step1_def emit_def ctx_alive_def)
  have "serv_reach s0" by (rule serv_reach.start [OF assms])
  then show ?thesis
    using pipe_reach.new s0
    by (simp add: sd_inv_def served_start_def ledger_def conn_side_def turns_ok_def sending_def any_closed_def
        pipe_connection_new_def posted_def delivered_def)
qed

lemma sd_reach_inv:
  assumes "sd_reach s0 sd" and "server_start (server_new fm oc) = Inr s0"
  shows "sd_inv s0 sd"
  using assms(1)
proof (induction rule: sd_reach.induct)
  case start
  show ?case by (rule served_start_inv [OF assms(2)])
next
  case (step sd i sd')
  from sd_event_ok [OF step.IH step.hyps(2,3)] step.hyps(4) show ?case by (auto simp: step_ok_def serv_fault_def)
qed

section \<open>Channels\<close>

text \<open>
  What the parts of the system promise each other about messages: those that have arrived are the first of
  those sent.
\<close>

locale channel =
  fixes reach :: "'s \<Rightarrow> bool" and sent :: "'s \<Rightarrow> 'm list" and arrived :: "'s \<Rightarrow> 'm list"
  assumes fifo: "reach s \<Longrightarrow> \<exists>todo. sent s = arrived s @ todo"
begin

lemma nth_arrived: "reach s \<Longrightarrow> i < length (arrived s) \<Longrightarrow> arrived s ! i = sent s ! i"
  by (drule fifo) (auto simp: nth_append)

lemma arrived_bound: "reach s \<Longrightarrow> length (arrived s) \<le> length (sent s)"
  by (drule fifo) auto

lemma no_invention: "reach s \<Longrightarrow> set (arrived s) \<subseteq> set (sent s)"
  by (drule fifo) auto

lemma no_duplicates: "reach s \<Longrightarrow> count_list (arrived s) m \<le> count_list (sent s) m"
  by (drule fifo) auto

lemma all_arrived: "reach s \<Longrightarrow> length (sent s) \<le> length (arrived s) \<Longrightarrow> arrived s = sent s"
  by (drule fifo) auto

end

text \<open>Channels in a row.\<close>

locale relay = first: channel reach sent passed + second: channel reach passed' arrived
  for reach :: "'s \<Rightarrow> bool" and sent :: "'s \<Rightarrow> 'm list" and passed :: "'s \<Rightarrow> 'm list"
    and passed' :: "'s \<Rightarrow> 'm list" and arrived :: "'s \<Rightarrow> 'm list" +
  assumes same: "reach s \<Longrightarrow> passed' s = passed s"
begin

sublocale through: channel reach sent arrived
proof
  fix s assume "reach s"
  with first.fifo [of s] second.fifo [of s] same [of s] show "\<exists>todo. sent s = arrived s @ todo" by auto
qed

end

lemma pipe_reach_fifo: "pipe_reach s \<Longrightarrow> \<exists>todo. posted d (pn_log (fst s)) = delivered (other d) (pn_log (fst s)) @ todo"
proof -
  assume "pipe_reach s"
  then obtain q where "pipe_inv q s" using pipe_reach_inv by blast
  then show ?thesis by (cases s) (auto simp: pipe_inv_def fifo_ok_def)
qed

interpretation conn: channel pipe_reach "\<lambda>s. posted d (pn_log (fst s))" "\<lambda>s. delivered (other d) (pn_log (fst s))" for d
  by unfold_locales (rule pipe_reach_fifo)

definition served_reach :: "served \<Rightarrow> bool" where
  "served_reach sd \<longleftrightarrow> (\<exists>fm oc s0. server_start (server_new fm oc) = Inr s0 \<and> sd_reach s0 sd)"

definition client_sent :: "served \<Rightarrow> bytes list" where
  "client_sent sd = posted ClientSide (pn_log (fst (sd_pipe sd)))"

definition client_got :: "served \<Rightarrow> bytes list" where
  "client_got sd = delivered ClientSide (pn_log (fst (sd_pipe sd)))"

definition server_got :: "served \<Rightarrow> bytes list" where
  "server_got sd = received (sd_events sd)"

definition server_sent :: "served \<Rightarrow> bytes list" where
  "server_sent sd = sends (sv_log (sd_serv sd))"

lemma served_reachE:
  assumes "served_reach sd"
  obtains s0 where "sd_inv s0 sd" "serv_reach s0"
  using assms sd_reach_inv unfolding served_reach_def by (blast intro: serv_reach.start)

text \<open>The requests of the client and the replies of the server are channels through the connection.\<close>

interpretation requests: relay served_reach client_sent
  "\<lambda>sd. delivered ServerSide (pn_log (fst (sd_pipe sd)))" "\<lambda>sd. delivered ServerSide (pn_log (fst (sd_pipe sd)))" server_got
proof unfold_locales
  fix sd assume "served_reach sd"
  then obtain s0 where inv: "sd_inv s0 sd" by (rule served_reachE)
  then have pr: "pipe_reach (sd_pipe sd)" by (auto simp: sd_inv_def)
  from conn.fifo [OF pr, of ClientSide] show "\<exists>todo. client_sent sd = delivered ServerSide (pn_log (fst (sd_pipe sd))) @ todo"
    by (simp add: client_sent_def)
  show "\<exists>todo. delivered ServerSide (pn_log (fst (sd_pipe sd))) = server_got sd @ todo"
    using inv by (auto simp: sd_inv_def server_got_def split: prod.splits)
qed simp

interpretation replies: relay served_reach server_sent
  "\<lambda>sd. posted ServerSide (pn_log (fst (sd_pipe sd)))" "\<lambda>sd. posted ServerSide (pn_log (fst (sd_pipe sd)))" client_got
proof unfold_locales
  fix sd assume "served_reach sd"
  then obtain s0 where inv: "sd_inv s0 sd" by (rule served_reachE)
  then have pr: "pipe_reach (sd_pipe sd)" by (auto simp: sd_inv_def)
  from conn.fifo [OF pr, of ServerSide] show "\<exists>todo. posted ServerSide (pn_log (fst (sd_pipe sd))) = client_got sd @ todo"
    by (simp add: client_got_def)
  show "\<exists>todo. server_sent sd = posted ServerSide (pn_log (fst (sd_pipe sd))) @ todo"
    using inv by (auto simp: sd_inv_def server_sent_def ledger_def split: prod.splits)
qed simp

text \<open>At rest a server that waits for a packet has its receive at the connection.\<close>

definition at_rest :: "served \<Rightarrow> bool" where
  "at_rest sd \<longleftrightarrow> snd (sd_pipe sd) = [] \<and> \<not> any_closed (fst (sd_pipe sd)) \<and> pending (sd_turns sd) = []"

lemma waiting_receive:
  assumes inv: "sd_inv s0 sd" and rest: "at_rest sd" and w: "sv_wait_recv (sd_serv sd)"
  shows "pn_recv (fst (sd_pipe sd)) ServerSide = Some recv_cb"
proof -
  obtain c where p: "sd_pipe sd = (c, [])" using rest by (cases "sd_pipe sd") (simp add: at_rest_def)
  have side: "conn_side c" and pr: "pipe_reach (c, [])" using inv p by (simp_all add: sd_inv_def)
  have tok: "count (posted_cbs (pn_log c)) recv_cb = count (called_cbs (pn_log c)) recv_cb + 1"
    using inv p rest w by (simp add: sd_inv_def ledger_def at_rest_def)
  obtain q where q: "pipe_inv q (c, [])" using pipe_reach_inv [OF pr] by blast
  have noq: "count (queue_cbs (pn_reqs c) ids) recv_cb = 0" for ids
  proof (induction ids)
    case (Cons i ids)
    then show ?case using side by (auto simp: io_cb_def conn_side_def recv_cb_def split: option.splits)
  qed simp
  have "posted_cbs (pn_log c) = called_cbs (pn_log c) + opt_cb (pn_recv c ClientSide) + opt_cb (pn_recv c ServerSide)
     + queue_cbs (pn_reqs c) (q ClientSide) + queue_cbs (pn_reqs c) (q ServerSide)"
    using q by (simp add: pipe_inv_def calls_ok_def)
  from arg_cong [OF this, of "\<lambda>M. count M recv_cb"] tok noq
  have "count (opt_cb (pn_recv c ClientSide)) recv_cb + count (opt_cb (pn_recv c ServerSide)) recv_cb = 1" by simp
  moreover have "count (opt_cb (pn_recv c ClientSide)) recv_cb = 0"
    using side cb_neq(4) by (auto simp: opt_cb_def conn_side_def split: option.splits)
  ultimately show ?thesis using side p by (auto simp: opt_cb_def conn_side_def split: option.splits)
qed

lemma rest_all_arrived:
  assumes inv: "sd_inv s0 sd" and rest: "at_rest sd" and r: "pn_recv (fst (sd_pipe sd)) (other d) \<noteq> None"
  shows "posted d (pn_log (fst (sd_pipe sd))) = delivered (other d) (pn_log (fst (sd_pipe sd)))"
proof -
  obtain c where p: "sd_pipe sd = (c, [])" using rest by (cases "sd_pipe sd") (simp add: at_rest_def)
  obtain q where q: "pipe_inv q (c, [])" using inv p pipe_reach_inv by (auto simp: sd_inv_def)
  have "stable ClientSide c \<and> stable ServerSide c"
    by (rule user_turn_no_pump [of "[]"]) (use q in \<open>simp_all add: pipe_inv_def\<close>)
  then have "pn_send c d = None" using r p by (cases d) (auto simp: stable_def)
  moreover have "io_chain (pn_reqs c) (pn_send c d) (q d)" using q by (simp add: pipe_inv_def store_ok_def)
  ultimately have "q d = []" by simp
  moreover have "\<exists>rest. posted d (pn_log c) = delivered (other d) (pn_log c) @ rest \<and>
      (\<not> any_closed c \<longrightarrow> rest = map (io_payload (pn_reqs c)) (q d))"
    using q by (simp add: pipe_inv_def fifo_ok_def)
  ultimately show ?thesis using p rest by (auto simp: at_rest_def)
qed

section \<open>Properties\<close>

text \<open>Runs of inputs that are allowed; others end in \<open>Uninit\<close>, which no step of the system yields.\<close>

definition sd_run :: "sd_input list \<Rightarrow> served \<Rightarrow> served res" where
  "sd_run is sd = foldR (\<lambda>i sd. if sd_enabled i sd \<and> sd_orderly i sd then sd_event i sd else Inl Uninit) is sd"

lemma sd_run_reach: "sd_run is sd = Inr sd' \<Longrightarrow> sd_reach s0 sd \<Longrightarrow> sd_reach s0 sd'"
  unfolding sd_run_def by (erule foldR_inv [where P = "sd_reach s0"]) (auto split: if_splits intro: sd_reach.step)


text \<open>A client that asks for the server's description; the receive of the server is posted first.\<close>

definition ex_serv_start :: servctx where
  "ex_serv_start = (case server_start (server_new None False) of Inr s \<Rightarrow> s | Inl _ \<Rightarrow> server_new None False)"

definition ex_served_idle :: "sd_input list" where
  "ex_served_idle = [SdDo 0, SdCode 0, SdCode 0]"

definition ex_served_info :: "sd_input list" where
  "ex_served_info = ex_served_idle @
     [SdClient 0 (OpRecv ClientSide 2), SdCode 0, SdCode 0,
      SdClient 0 (OpSend ClientSide [[5, 0, 0, 0], [252, 255, 255, 255]] 4), SdCode 0, SdCode 0,
      SdDo 1, SdCode 1, SdReturn, SdCode 1, SdDo 1, SdReturn, SdCode 1, SdCode 1,
      SdEnd, SdDo 1, SdCode 1, SdCode 1, SdReturn, SdCode 1, SdReturn, SdCode 1,
      SdClient 1 (OpRecv ClientSide 6), SdCode 1, SdCode 1]"

lemma ex_serv_start: "server_start (server_new None False) = Inr ex_serv_start"
  by (simp add: ex_serv_start_def server_start_def server_new_def server_step1_def ctx_alive_def)

lemma ex_served_info_run:
  "\<exists>sd. sd_run ex_served_info (served_start ex_serv_start) = Inr sd \<and> at_rest sd \<and> sv_wait_recv (sd_serv sd) \<and>
     pn_recv (fst (sd_pipe sd)) ClientSide = Some 6 \<and> server_sent sd = [[5, 0, 0, 0] @ string_bytes ServerInfo] \<and>
     client_sent sd = [[5, 0, 0, 0, 252, 255, 255, 255]]"
proof -
  have "case sd_run ex_served_info (served_start ex_serv_start) of Inl _ \<Rightarrow> False | Inr sd \<Rightarrow>
     snd (sd_pipe sd) = [] \<and> \<not> any_closed (fst (sd_pipe sd)) \<and> pending (sd_turns sd) = [] \<and> sv_wait_recv (sd_serv sd) \<and>
     pn_recv (fst (sd_pipe sd)) ClientSide = Some 6 \<and> server_sent sd = [[5, 0, 0, 0] @ string_bytes ServerInfo] \<and>
     client_sent sd = [[5, 0, 0, 0, 252, 255, 255, 255]]" by code_simp
  then show ?thesis by (auto simp: at_rest_def split: sum.splits)
qed




text \<open>
  C38. A client that closes first.  At rest, with the server waiting for a packet, the close of the client
  calls the server's receive back with an error; the server closes its own side in that callback, which
  frees the connection, and the close of the client goes on with freed memory.
\<close>

theorem client_close_uses_freed:
  assumes start: "server_start (server_new fm oc) = Inr s0" and re: "sd_reach s0 sd" and rest: "at_rest sd"
    and turn: "sd_turns sd = [(False, [])]"
    and s: "sv_wait_recv (sd_serv sd)" "\<not> sv_closed (sd_serv sd)" "\<not> sv_freed (sd_serv sd)" "sv_bufs (sd_serv sd) b = None"
    and drop: "drop_all_objects (sv_pool (sd_serv sd)) = Inr p"
    and none: "pn_recv (fst (sd_pipe sd)) ClientSide = None" "\<forall>d. pn_send (fst (sd_pipe sd)) d = None"
  shows "\<exists>sd1 sd2 sd3. sd_event (SdClient b (OpClose ClientSide)) sd = Inr sd1 \<and> sd_event (SdCode b) sd1 = Inr sd2 \<and>
     sd_events sd2 = sd_events sd @ [EReceiveFailed error_connection_closed] \<and> hd (snd (hd (sd_turns sd2))) = AIoClose \<and>
     foldR sd_event ([SdDo b, SdCode b, SdCode b, SdCode b, SdCode b, SdCode b] @ (if sv_on_closed (sd_serv sd) then [SdDo b] else [])
        @ [SdReturn]) sd2 = Inr sd3 \<and>
     pn_freed (fst (sd_pipe sd3)) \<and> sd_enabled (SdCode b) sd3 \<and> sd_event (SdCode b) sd3 = Inl UseAfterFree"
proof -
  obtain s c es where sd: "sd = \<lparr>sd_serv = s, sd_pipe = (c, []), sd_turns = [(False, [])], sd_events = es\<rparr>"
    using rest turn by (cases sd; cases "sd_pipe sd") (simp add: at_rest_def)
  have inv: "sd_inv s0 sd" by (rule sd_reach_inv [OF re start])
  have recv: "pn_recv c ServerSide = Some 1" using waiting_receive [OF inv rest s(1)] sd by (simp add: recv_cb_def)
  have opn: "\<not> pn_closed c ClientSide" "\<not> pn_closed c ServerSide" "\<not> pn_freed c"
    using rest inv sd by (auto simp: at_rest_def any_closed_def sd_inv_def conn_side_def)
  let ?on = "if sv_on_closed s then [AOnClosed] else []"
  let ?s = "s\<lparr>sv_wait_recv := False, sv_receive_error := Some error_connection_closed, sv_last_error := Some error_connection_closed\<rparr>"
  let ?t = "?s\<lparr>sv_closed := True, sv_pool := p, sv_log := sv_log s @ AIoClose # ?on\<rparr>"
  have ev: "serv_event (EReceiveFailed error_connection_closed) s = Inr ?t"
    using s drop sd by (simp add: server_step2_def ctx_alive_def server_close_def Let_def emit_def)
  define c1 where "c1 = c\<lparr>pn_closed := (pn_closed c)(ClientSide := True), pn_receive_error := (\<lambda>_. Some error_connection_closed),
            pn_send_error := (\<lambda>_. Some error_connection_closed)\<rparr>"
  let ?sd1 = "sd\<lparr>sd_pipe := (c1, [CloseRecv ServerSide])\<rparr>"
  have 1: "sd_event (SdClient b (OpClose ClientSide)) sd = Inr ?sd1"
    using sd opn by (simp add: pipe_part_def pipe_close_def conn_alive_def c1_def)
  define c2 where "c2 = say (CallRecv ServerSide 1 None (Some error_connection_closed)) (c1\<lparr>pn_recv := (pn_recv c1)(ServerSide := None)\<rparr>)"
  let ?st = "[UserTurn, CloseRecv ClientSide]"
  let ?sd2 = "\<lparr>sd_serv = ?t, sd_pipe = (c2, ?st), sd_turns = [(False, AIoClose # ?on), (False, [])],
      sd_events = es @ [EReceiveFailed error_connection_closed]\<rparr>"
  have 2: "sd_event (SdCode b) ?sd1 = Inr ?sd2"
    using sd opn recv ev
    by (simp add: pipe_part_def close_recv_def conn_alive_def c1_def c2_def callback_turn_def serve_event_def del: serv_event.simps)
  define c3 where "c3 = c2\<lparr>pn_closed := (pn_closed c2)(ServerSide := True), pn_receive_error := (\<lambda>_. Some error_connection_closed),
            pn_send_error := (\<lambda>_. Some error_connection_closed), pn_freed := True\<rparr>"
  let ?sd3 = "?sd2\<lparr>sd_pipe := (c3, [CloseRecv ClientSide]), sd_turns := [(False, [])]\<rparr>"
  have 3: "foldR sd_event ([SdDo b, SdCode b, SdCode b, SdCode b, SdCode b, SdCode b] @ (if sv_on_closed s then [SdDo b] else [])
        @ [SdReturn]) ?sd2 = Inr ?sd3"
    using sd opn none
    by (simp add: serve_action_def set_turn_def pipe_part_def pipe_close_def conn_alive_def close_recv_def close_send_def
        close_end_def c1_def c2_def c3_def)
  have 4: "sd_event (SdCode b) ?sd3 = Inl UseAfterFree"
    by (simp add: pipe_part_def close_recv_def conn_alive_def c3_def)
  have "sd_enabled (SdCode b) ?sd3" "pn_freed (fst (sd_pipe ?sd3))"
    using s(4) sd by (simp_all add: unused_buf_def c3_def)
  with 1 2 3 4 sd show ?thesis by (intro exI [of _ ?sd1] exI [of _ ?sd2] exI [of _ ?sd3]) simp
qed

theorem client_close_uses_freed_witness:
  "\<exists>sd sd3. sd_reach ex_serv_start sd \<and>
     foldR sd_event [SdClient 0 (OpClose ClientSide), SdCode 0, SdDo 0, SdCode 0, SdCode 0, SdCode 0, SdCode 0, SdCode 0, SdReturn] sd = Inr sd3 \<and>
     sd_event (SdCode 0) sd3 = Inl UseAfterFree"
proof -
  have "case sd_run ex_served_idle (served_start ex_serv_start) of Inl _ \<Rightarrow> False | Inr sd \<Rightarrow>
     snd (sd_pipe sd) = [] \<and> \<not> any_closed (fst (sd_pipe sd)) \<and> sd_turns sd = [(False, [])] \<and> sv_wait_recv (sd_serv sd) \<and>
     \<not> sv_closed (sd_serv sd) \<and> \<not> sv_freed (sd_serv sd) \<and> sv_bufs (sd_serv sd) 0 = None \<and> sv_on_closed (sd_serv sd) = False \<and>
     unat (ref_pool_size (sv_pool (sd_serv sd))) = 0 \<and>
     pn_recv (fst (sd_pipe sd)) ClientSide = None \<and> pn_send (fst (sd_pipe sd)) ClientSide = None \<and>
     pn_send (fst (sd_pipe sd)) ServerSide = None" by code_simp
  then obtain sd where sd: "sd_run ex_served_idle (served_start ex_serv_start) = Inr sd" "snd (sd_pipe sd) = []"
    "\<not> any_closed (fst (sd_pipe sd))" "sd_turns sd = [(False, [])]" "sv_wait_recv (sd_serv sd)"
    "\<not> sv_closed (sd_serv sd)" "\<not> sv_freed (sd_serv sd)" "sv_bufs (sd_serv sd) 0 = None" "sv_on_closed (sd_serv sd) = False"
    "unat (ref_pool_size (sv_pool (sd_serv sd))) = 0" "pn_recv (fst (sd_pipe sd)) ClientSide = None"
    "pn_send (fst (sd_pipe sd)) ClientSide = None" "pn_send (fst (sd_pipe sd)) ServerSide = None" by (auto split: sum.splits)
  have re: "sd_reach ex_serv_start sd" by (rule sd_run_reach [OF sd(1) sd_reach.start])
  have rest: "at_rest sd" using sd(2-4) by (simp add: at_rest_def)
  have drop: "drop_all_objects (sv_pool (sd_serv sd)) = Inr (sv_pool (sd_serv sd))" using sd(10) by (simp add: drop_all_objects_def)
  have send: "\<forall>d. pn_send (fst (sd_pipe sd)) d = None" using sd(12,13) by (simp add: all_side)
  from client_close_uses_freed [OF ex_serv_start re rest sd(4-8) drop sd(11) send] sd(9) re show ?thesis by fastforce
qed

end
