(* ===== verification/HostThreads.thy ===== *)
theory HostThreads
  imports RtBridge
begin

text \<open>
  The thread helpers of \<open>runtime_bridge/include/pxprpc_rtbridge_host.hpp\<close> on the executor of \<open>RtBridge\<close>:
  functions posted to the loop thread, settling a return from another thread, work for the thread pool of
  libuv and threads that are joined and freed.  A \<open>std::function\<close> on the heap is a closure, named by a
  number that is also the number of the function the executor runs; a semaphore lives on the stack of the
  thread that waits for it.  Threads interleave freely; the thread pool and the loop are libuv's.
\<close>

section \<open>State\<close>

type_synonym closid = nat
type_synonym semid = nat
type_synonym threadid = nat
type_synonym workid = nat

datatype verdict = Resolved | Rejected string

datatype closure =
    UserFn nat
  | SettleThen nat verdict semid        \<comment> \<open>of \<open>resolveTS\<close> and \<open>rejectTS\<close>: the return, then the semaphore\<close>
  | ThreadBody nat threadid             \<comment> \<open>of \<open>runInNewThread\<close>\<close>
  | JoinThread threadid

datatype ht_event =
    RanUser nat | AskedTS semid nat verdict | Settled semid nat verdict | ReturnedTS semid | Joined threadid

record host_threads =
  ht_bridge :: rtbridge
  ht_closures :: "closid \<Rightarrow> closure option"
  ht_next :: closid
  ht_sems :: "semid \<Rightarrow> nat option"
  ht_next_sem :: semid
  ht_works :: "workid \<Rightarrow> closid option"
  ht_next_work :: workid
  ht_pool :: "workid list"              \<comment> \<open>submitted, not yet run\<close>
  ht_after :: "workid list"             \<comment> \<open>run, the callback on the loop still to come\<close>
  ht_threads :: "threadid \<Rightarrow> closid option" \<comment> \<open>thread objects with their closure\<close>
  ht_next_thread :: threadid
  ht_running :: "threadid list"         \<comment> \<open>created, the closure not yet run\<close>
  ht_ending :: "threadid list"          \<comment> \<open>the closure has run, the thread has not ended\<close>
  ht_blocked :: "semid option"          \<comment> \<open>what the loop thread itself waits for\<close>
  ht_log :: "ht_event list"

definition ht_zero :: "rtbridge \<Rightarrow> host_threads" where
  "ht_zero b = \<lparr>ht_bridge = b, ht_closures = (\<lambda>_. None), ht_next = 0, ht_sems = (\<lambda>_. None), ht_next_sem = 0,
     ht_works = (\<lambda>_. None), ht_next_work = 0, ht_pool = [], ht_after = [], ht_threads = (\<lambda>_. None),
     ht_next_thread = 0, ht_running = [], ht_ending = [], ht_blocked = None, ht_log = []\<rparr>"

definition ht_say :: "ht_event \<Rightarrow> host_threads \<Rightarrow> host_threads" where
  "ht_say e h = h\<lparr>ht_log := ht_log h @ [e]\<rparr>"

definition new_closure :: "closure \<Rightarrow> host_threads \<Rightarrow> closid \<times> host_threads" where
  "new_closure c h = (ht_next h, h\<lparr>ht_closures := (ht_closures h)(ht_next h \<mapsto> c), ht_next := ht_next h + 1\<rparr>)"

section \<open>The helpers\<close>

definition postRunnable :: "closure \<Rightarrow> host_threads \<Rightarrow> host_threads res" where
  "postRunnable c h =
     (let (n, h) = new_closure c h
      in bindR (pipe_executor (RunFn n) (ht_bridge h)) (\<lambda>b. Inr (h\<lparr>ht_bridge := b\<rparr>)))"

text \<open>\<open>resolveTS\<close> and \<open>rejectTS\<close> up to the wait, and from the wait to the return.\<close>

definition settleTS :: "nat \<Rightarrow> verdict \<Rightarrow> host_threads \<Rightarrow> (semid \<times> host_threads) res" where
  "settleTS ret v h =
     (let s = ht_next_sem h
      in bindR (postRunnable (SettleThen ret v s)
           (ht_say (AskedTS s ret v) (h\<lparr>ht_sems := (ht_sems h)(s \<mapsto> 0), ht_next_sem := s + 1\<rparr>))) (\<lambda>h.
         Inr (s, h)))"

definition resolveTS :: "nat \<Rightarrow> host_threads \<Rightarrow> (semid \<times> host_threads) res" where
  "resolveTS ret = settleTS ret Resolved"

definition rejectTS :: "nat \<Rightarrow> string \<Rightarrow> host_threads \<Rightarrow> (semid \<times> host_threads) res" where
  "rejectTS ret reason = settleTS ret (Rejected reason)"

definition settleTS_return :: "semid \<Rightarrow> host_threads \<Rightarrow> host_threads res" where
  "settleTS_return s h =
     (case ht_sems h s of
        None \<Rightarrow> Inl UseAfterFree
      | Some v \<Rightarrow> Inr (ht_say (ReturnedTS s) (h\<lparr>ht_sems := (ht_sems h)(s := None)\<rparr>)))"

definition threadPoolRun :: "closure \<Rightarrow> host_threads \<Rightarrow> host_threads" where
  "threadPoolRun c h =
     (let (n, h) = new_closure c h; w = ht_next_work h
      in h\<lparr>ht_works := (ht_works h)(w \<mapsto> n), ht_next_work := w + 1, ht_pool := ht_pool h @ [w]\<rparr>)"

definition runInNewThread :: "nat \<Rightarrow> host_threads \<Rightarrow> host_threads" where
  "runInNewThread k h =
     (let t = ht_next_thread h; (n, h) = new_closure (ThreadBody k t) h
      in h\<lparr>ht_threads := (ht_threads h)(t \<mapsto> n), ht_next_thread := t + 1, ht_running := ht_running h @ [t]\<rparr>)"

section \<open>Closures run\<close>

definition post_sem :: "semid \<Rightarrow> host_threads \<Rightarrow> host_threads res" where
  "post_sem s h = (case ht_sems h s of None \<Rightarrow> Inl UseAfterFree | Some v \<Rightarrow> Inr (h\<lparr>ht_sems := (ht_sems h)(s \<mapsto> v + 1)\<rparr>))"

fun call_closure :: "closure \<Rightarrow> host_threads \<Rightarrow> host_threads res" where
  "call_closure (UserFn k) h = Inr (ht_say (RanUser k) h)"
| "call_closure (SettleThen ret v s) h = post_sem s (ht_say (Settled s ret v) h)"
| "call_closure (ThreadBody k t) h = Inr (threadPoolRun (JoinThread t) (ht_say (RanUser k) h))"
| "call_closure (JoinThread t) h =
     (case ht_threads h t of
        None \<Rightarrow> Inl UseAfterFree
      | Some n \<Rightarrow> Inr (ht_say (Joined t) (h\<lparr>ht_threads := (ht_threads h)(t := None)\<rparr>)))"

text \<open>\<open>__runCppFunction\<close>; the work function of \<open>threadPoolRun\<close> does the same.\<close>

definition runCppFunction :: "closid \<Rightarrow> host_threads \<Rightarrow> host_threads res" where
  "runCppFunction n h =
     (case ht_closures h n of
        None \<Rightarrow> Inl UseAfterFree
      | Some c \<Rightarrow> bindR (call_closure c h) (\<lambda>h. Inr (h\<lparr>ht_closures := (ht_closures h)(n := None)\<rparr>)))"

definition work_run :: "workid \<Rightarrow> host_threads \<Rightarrow> host_threads res" where
  "work_run w h =
     (case ht_works h w of
        None \<Rightarrow> Inl UseAfterFree
      | Some n \<Rightarrow> runCppFunction n (h\<lparr>ht_pool := remove1 w (ht_pool h), ht_after := ht_after h @ [w]\<rparr>))"

definition work_done :: "workid \<Rightarrow> host_threads \<Rightarrow> host_threads res" where
  "work_done w h =
     (case ht_works h w of
        None \<Rightarrow> Inl BadFree
      | Some n \<Rightarrow> Inr (h\<lparr>ht_works := (ht_works h)(w := None), ht_after := remove1 w (ht_after h)\<rparr>))"

definition thread_run :: "threadid \<Rightarrow> host_threads \<Rightarrow> host_threads res" where
  "thread_run t h =
     (case ht_threads h t of
        None \<Rightarrow> Inl UseAfterFree
      | Some n \<Rightarrow> runCppFunction n (h\<lparr>ht_running := remove1 t (ht_running h), ht_ending := ht_ending h @ [t]\<rparr>))"

definition thread_end :: "threadid \<Rightarrow> host_threads \<Rightarrow> host_threads" where
  "thread_end t h = h\<lparr>ht_ending := remove1 t (ht_ending h)\<rparr>"

section \<open>Steps\<close>

datatype ht_input =
    HBridge rb_input
  | HPost nat | HSettle nat verdict | HSettleOnLoop nat verdict | HReturn semid
  | HPool nat | HPoolRun workid | HPoolDone workid
  | HThread nat | HThreadRun threadid | HThreadEnd threadid

text \<open>The functions of the executor are closures: running one of them calls the closure.\<close>

definition bridge_step :: "(string \<Rightarrow> ioid option) \<Rightarrow> rb_input \<Rightarrow> host_threads \<Rightarrow> host_threads res" where
  "bridge_step connect i h =
     bindR (rb_step connect i (ht_bridge h)) (\<lambda>b.
     let h' = h\<lparr>ht_bridge := b\<rparr>
     in case i of
          RunNext \<Rightarrow> (case rb_batch (ht_bridge h) of RunFn n # fs \<Rightarrow> runCppFunction n h' | _ \<Rightarrow> Inr h')
        | RunForeign \<Rightarrow> (case rb_foreign (ht_bridge h) of RunFn n # fs \<Rightarrow> runCppFunction n h' | _ \<Rightarrow> Inr h')
        | _ \<Rightarrow> Inr h')"

fun ht_step :: "(string \<Rightarrow> ioid option) \<Rightarrow> ht_input \<Rightarrow> host_threads \<Rightarrow> host_threads res" where
  "ht_step connect (HBridge i) h = bridge_step connect i h"
| "ht_step connect (HPost k) h = postRunnable (UserFn k) h"
| "ht_step connect (HSettle ret v) h = bindR (settleTS ret v h) (\<lambda>(s, h). Inr h)"
| "ht_step connect (HSettleOnLoop ret v) h = bindR (settleTS ret v h) (\<lambda>(s, h). Inr (h\<lparr>ht_blocked := Some s\<rparr>))"
| "ht_step connect (HReturn s) h =
     bindR (settleTS_return s h) (\<lambda>h. Inr (if ht_blocked h = Some s then h\<lparr>ht_blocked := None\<rparr> else h))"
| "ht_step connect (HPool k) h = Inr (threadPoolRun (UserFn k) h)"
| "ht_step connect (HPoolRun w) h = work_run w h"
| "ht_step connect (HPoolDone w) h = work_done w h"
| "ht_step connect (HThread k) h = Inr (runInNewThread k h)"
| "ht_step connect (HThreadRun t) h = thread_run t h"
| "ht_step connect (HThreadEnd t) h = Inr (thread_end t h)"

text \<open>What the loop thread does needs the loop thread; joining waits for the thread's end.\<close>

fun on_loop :: "rb_input \<Rightarrow> bool" where
  "on_loop Wake = True"
| "on_loop RunNext = True"
| "on_loop (Complete r e) = True"
| "on_loop LoopEnd = True"
| "on_loop _ = False"

definition join_ready :: "workid \<Rightarrow> host_threads \<Rightarrow> bool" where
  "join_ready w h =
     (case ht_works h w of
        None \<Rightarrow> True
      | Some n \<Rightarrow> (case ht_closures h n of Some (JoinThread t) \<Rightarrow> t \<notin> set (ht_running h @ ht_ending h) | _ \<Rightarrow> True))"

fun ht_enabled :: "ht_input \<Rightarrow> host_threads \<Rightarrow> bool" where
  "ht_enabled (HBridge i) h \<longleftrightarrow> (case i of Post n \<Rightarrow> False | _ \<Rightarrow> rb_enabled i (ht_bridge h) \<and> (on_loop i \<longrightarrow> ht_blocked h = None))"
| "ht_enabled (HSettleOnLoop ret v) h \<longleftrightarrow> ht_blocked h = None"
| "ht_enabled (HReturn s) h \<longleftrightarrow> (case ht_sems h s of None \<Rightarrow> False | Some v \<Rightarrow> 0 < v)"
| "ht_enabled (HPoolRun w) h \<longleftrightarrow> w \<in> set (ht_pool h) \<and> join_ready w h"
| "ht_enabled (HPoolDone w) h \<longleftrightarrow> w \<in> set (ht_after h) \<and> ht_blocked h = None"
| "ht_enabled (HThreadRun t) h \<longleftrightarrow> t \<in> set (ht_running h)"
| "ht_enabled (HThreadEnd t) h \<longleftrightarrow> t \<in> set (ht_ending h)"
| "ht_enabled _ h \<longleftrightarrow> True"

inductive ht_reach :: "(string \<Rightarrow> ioid option) \<Rightarrow> host_threads \<Rightarrow> bool" for connect where
  start: "rb_reach connect b \<Longrightarrow> (\<forall>n. RunFn n \<notin> set (rb_queue b @ rb_batch b @ rb_foreign b)) \<Longrightarrow> ht_reach connect (ht_zero b)"
| step: "ht_reach connect h \<Longrightarrow> ht_enabled i h \<Longrightarrow> ht_step connect i h = Inr h' \<Longrightarrow> ht_reach connect h'"

section \<open>The functions of the bridge\<close>

fun fns :: "task list \<Rightarrow> nat list" where
  "fns [] = []"
| "fns (RunFn n # fs) = n # fns fs"
| "fns (IoHandle r # fs) = fns fs"

lemma fns_append [simp]: "fns (fs @ gs) = fns fs @ fns gs"
  by (induction fs rule: fns.induct) simp_all

lemma fns_none: "\<forall>n. RunFn n \<notin> set fs \<Longrightarrow> fns fs = []"
  by (induction fs rule: fns.induct) auto

lemma set_fns [simp]: "n \<in> set (fns fs) \<longleftrightarrow> RunFn n \<in> set fs"
  by (induction fs rule: fns.induct) auto

definition bridge_fns :: "rtbridge \<Rightarrow> nat multiset" where
  "bridge_fns b = mset (fns (rb_queue b)) + mset (fns (rb_batch b)) + mset (fns (rb_foreign b))"

lemmas bridge_simps = bridge_fns_def rtbridge_async_exec_def rb_say_def set_ioreq_def pipe_executor_def

lemma pipe_executor_fns: "pipe_executor f b = Inr b' \<Longrightarrow> bridge_fns b' = mset (fns [f]) + bridge_fns b"
  by (auto simp: bridge_simps split: option.splits executor.splits) (cases f; simp)+

lemma pipe_executor_fault: "pipe_executor f b = Inl e \<longleftrightarrow> e = NullDeref \<and> rb_executor b = None"
  by (auto simp: pipe_executor_def split: option.splits executor.splits)

lemma rtbiocb_fns: "rtbiocb r err b = Inr b' \<Longrightarrow> bridge_fns b' = bridge_fns b"
  by (auto simp: rtbiocb_def sem_post_def ioreq_at_def bridge_simps split: if_splits option.splits)

lemma rtbiohandle_fns: "rtbiohandle connect r b = Inr b' \<Longrightarrow> bridge_fns b' = bridge_fns b"
  by (auto simp: rtbiohandle_def Let_def sem_post_def ioreq_at_def bridge_simps
      dest!: rtbiocb_fns split: if_splits option.splits)

lemma dispatch_fns: "rtbioreqdispatch rs io name b = Inr b' \<Longrightarrow> bridge_fns b' = bridge_fns b"
  unfolding rtbioreqdispatch_def Let_def by (drule pipe_executor_fns) (simp add: bridge_fns_def set_ioreq_def)

text \<open>The function a step of the bridge runs, if it runs one.\<close>

fun first_fn :: "task list \<Rightarrow> nat option" where
  "first_fn (RunFn n # fs) = Some n"
| "first_fn fs = None"

fun runs_fn :: "rb_input \<Rightarrow> rtbridge \<Rightarrow> nat option" where
  "runs_fn RunNext b = first_fn (rb_batch b)"
| "runs_fn RunForeign b = first_fn (rb_foreign b)"
| "runs_fn _ b = None"

lemma rb_step_fns:
  assumes run: "rb_step connect i b = Inr b'" and en: "rb_enabled i b" and post: "\<And>n. i \<noteq> Post n"
  shows "bridge_fns b = mset (case runs_fn i b of None \<Rightarrow> [] | Some n \<Rightarrow> [n]) + bridge_fns b'"
proof (cases i)
  case RunNext
  with en obtain f fs where b: "rb_batch b = f # fs" by (cases "rb_batch b") auto
  show ?thesis
  proof (cases f)
    case (IoHandle r)
    then show ?thesis
      using run RunNext b rtbiohandle_fns [of connect r "rb_say (Ran f) (b\<lparr>rb_batch := fs\<rparr>)" b']
      by (simp add: run_task_def bridge_simps)
  next
    case (RunFn n) then show ?thesis using run RunNext b by (auto simp: run_task_def bridge_simps)
  qed
next
  case RunForeign
  with en obtain f fs where b: "rb_foreign b = f # fs" by (cases "rb_foreign b") auto
  show ?thesis
  proof (cases f)
    case (IoHandle r)
    then show ?thesis using run RunForeign b rtbiohandle_fns [of connect r "b\<lparr>rb_foreign := fs\<rparr>" b']
      by (simp add: bridge_simps)
  next
    case (RunFn n) then show ?thesis using run RunForeign b by (auto simp: bridge_simps)
  qed
next
  case (Complete r err)
  then show ?thesis using run rtbiocb_fns [of r err _ b'] by (simp add: bridge_fns_def)
next
  case (Return r)
  then show ?thesis using run by (auto simp: rtbioreqdispatch_return_def ioreq_at_def bridge_simps split: option.splits)
next
  case (InitUv l)
  then show ?thesis using run by (auto simp: rtbridge_init_uv_def bridge_simps split: if_splits)
next
  case (ThreadStart l)
  then show ?thesis using run by (auto simp: newloopthread_start_def rtbridge_init_uv_def bridge_simps split: if_splits)
next
  case InitAndRun
  then show ?thesis using run by (auto simp: rtbridge_init_and_run_def bridge_simps split: if_splits)
next
  case Wake then show ?thesis using run en by (auto simp: rtbasyncb_take_def bridge_simps)
next
  case LoopEnd then show ?thesis using run by (auto simp: newloopthread_end_def bridge_simps)
qed (use run dispatch_fns post in \<open>auto simp: rtbridge_brecv_def rtbridge_bsend_def rtbridge_pipe_connect_def
  rtbridge_io_close_def rtbridge_deinit_def\<close>)

text \<open>The steps of the bridge fail only where a function is handed to an executor that is not there.\<close>

lemma dispatch_fault: "rtbioreqdispatch rs io name b = Inl e \<longleftrightarrow> e = NullDeref \<and> rb_executor b = None"
  by (simp add: rtbioreqdispatch_def Let_def pipe_executor_fault set_ioreq_def)

lemma rb_step_fault:
  assumes inv: "rb_inv b" and en: "rb_enabled i b" and run: "rb_step connect i b = Inl e"
  shows "e = NullDeref \<and> rb_executor b = None"
proof -
  have tok: "tokens_ok {#} b" using inv by (simp add: rb_inv_def)
  show ?thesis
  proof (cases i)
    case RunNext
    with en obtain f fs where b: "rb_batch b = f # fs" by (cases "rb_batch b") auto
    with run_next_inv [OF inv b, of connect] run RunNext show ?thesis by auto
  next
    case RunForeign
    with en obtain f fs where b: "rb_foreign b = f # fs" by (cases "rb_foreign b") auto
    show ?thesis
    proof (cases f)
      case (IoHandle r)
      with tokens_rtbiohandle [OF tokens_take_foreign [OF tok, of r fs], of connect] b run RunForeign show ?thesis by auto
    next
      case (RunFn n) then show ?thesis using run RunForeign b by simp
    qed
  next
    case (Complete r err)
    with en tokens_rtbiocb [OF tokens_take_doing [OF tok, of r], of err] run show ?thesis by auto
  next
    case (Return r)
    then show ?thesis using run en by (auto simp: rtbioreqdispatch_return_def ioreq_at_def split: option.splits)
  qed (use run in \<open>auto simp: rtbridge_brecv_def rtbridge_bsend_def rtbridge_pipe_connect_def rtbridge_io_close_def
    rtbridge_deinit_def dispatch_fault pipe_executor_fault split: prod.splits\<close>)
qed

lemma bridge_step_runs:
  "bridge_step connect i h =
     bindR (rb_step connect i (ht_bridge h)) (\<lambda>b.
       case runs_fn i (ht_bridge h) of None \<Rightarrow> Inr (h\<lparr>ht_bridge := b\<rparr>) | Some n \<Rightarrow> runCppFunction n (h\<lparr>ht_bridge := b\<rparr>))"
proof (cases i)
  case RunNext
  then show ?thesis by (cases "rb_batch (ht_bridge h)"; cases "hd (rb_batch (ht_bridge h))") (simp_all add: bridge_step_def Let_def)
next
  case RunForeign
  then show ?thesis by (cases "rb_foreign (ht_bridge h)"; cases "hd (rb_foreign (ht_bridge h))") (simp_all add: bridge_step_def Let_def)
qed (simp_all add: bridge_step_def Let_def)

section \<open>Closures, works, threads and semaphores in their places\<close>

text \<open>A live closure is held once: by the executor, by a work, by a thread or (\<open>M\<close>) by running code.\<close>

definition held :: "host_threads \<Rightarrow> closid multiset" where
  "held h = bridge_fns (ht_bridge h) + mset (map (\<lambda>w. the (ht_works h w)) (ht_pool h))
     + mset (map (\<lambda>t. the (ht_threads h t)) (ht_running h))"

definition closures_held :: "closid multiset \<Rightarrow> host_threads \<Rightarrow> bool" where
  "closures_held M h \<longleftrightarrow>
     (\<forall>n. count (M + held h) n = (if ht_closures h n = None then 0 else 1)) \<and> (\<forall>n \<ge> ht_next h. ht_closures h n = None)"

definition works_once :: "host_threads \<Rightarrow> bool" where
  "works_once h \<longleftrightarrow>
     (\<forall>w. count (mset (ht_pool h @ ht_after h)) w = (if ht_works h w = None then 0 else 1)) \<and>
     (\<forall>w \<ge> ht_next_work h. ht_works h w = None)"

text \<open>The closures that own a thread object, and those that post a semaphore.\<close>

definition thread_cl :: "(closid \<Rightarrow> closure option) \<Rightarrow> closid \<Rightarrow> closure option" where
  "thread_cl f n = (case f n of Some (ThreadBody k t) \<Rightarrow> f n | Some (JoinThread t) \<Rightarrow> f n | _ \<Rightarrow> None)"

definition sem_cl :: "(closid \<Rightarrow> closure option) \<Rightarrow> closid \<Rightarrow> closure option" where
  "sem_cl f n = (case f n of Some (SettleThen r v s) \<Rightarrow> f n | _ \<Rightarrow> None)"

lemma thread_cl_Some:
  "thread_cl f n = Some (ThreadBody k t) \<longleftrightarrow> f n = Some (ThreadBody k t)"
  "thread_cl f n = Some (JoinThread t) \<longleftrightarrow> f n = Some (JoinThread t)"
  by (auto simp: thread_cl_def split: option.splits closure.splits)

lemma sem_cl_Some: "sem_cl f n = Some (SettleThen r v s) \<longleftrightarrow> f n = Some (SettleThen r v s)"
  by (auto simp: sem_cl_def split: option.splits closure.splits)

lemma cl_upd:
  "thread_cl f n = None \<Longrightarrow> thread_cl (f(n := c)) = (case c of Some (ThreadBody k t) \<Rightarrow> (thread_cl f)(n := c)
     | Some (JoinThread t) \<Rightarrow> (thread_cl f)(n := c) | _ \<Rightarrow> thread_cl f)"
  "sem_cl f n = None \<Longrightarrow> sem_cl (f(n := c)) = (case c of Some (SettleThen r v s) \<Rightarrow> (sem_cl f)(n := c) | _ \<Rightarrow> sem_cl f)"
  by (rule ext; auto simp: thread_cl_def sem_cl_def split: option.splits closure.splits)+

lemma cl_drop: "thread_cl (f(n := None)) = (thread_cl f)(n := None)" "sem_cl (f(n := None)) = (sem_cl f)(n := None)"
  by (rule ext; auto simp: thread_cl_def sem_cl_def split: option.splits closure.splits)+

lemma cl_at:
  "f n = None \<Longrightarrow> thread_cl f n = None" "f n = None \<Longrightarrow> sem_cl f n = None"
  "f n = Some (UserFn k) \<Longrightarrow> thread_cl f n = None" "f n = Some (UserFn k) \<Longrightarrow> sem_cl f n = None"
  "f n = Some (SettleThen r v s) \<Longrightarrow> thread_cl f n = None"
  "f n = Some (ThreadBody k t) \<Longrightarrow> sem_cl f n = None" "f n = Some (JoinThread t) \<Longrightarrow> sem_cl f n = None"
  by (simp_all add: thread_cl_def sem_cl_def)

definition threads_once :: "host_threads \<Rightarrow> bool" where
  "threads_once h \<longleftrightarrow>
     (\<forall>n k t. thread_cl (ht_closures h) n = Some (ThreadBody k t) \<longrightarrow> ht_threads h t = Some n \<and> t \<in> set (ht_running h)) \<and>
     (\<forall>t \<in> set (ht_running h). \<exists>n k. ht_threads h t = Some n \<and> thread_cl (ht_closures h) n = Some (ThreadBody k t)) \<and>
     distinct (ht_running h) \<and>
     (\<forall>n t. thread_cl (ht_closures h) n = Some (JoinThread t) \<longrightarrow> ht_threads h t \<noteq> None \<and> t \<notin> set (ht_running h)) \<and>
     (\<forall>n n' t. thread_cl (ht_closures h) n = Some (JoinThread t) \<longrightarrow> thread_cl (ht_closures h) n' = Some (JoinThread t) \<longrightarrow> n = n') \<and>
     (\<forall>t. ht_threads h t \<noteq> None \<longrightarrow> t \<in> set (ht_running h) \<or> (\<exists>n. thread_cl (ht_closures h) n = Some (JoinThread t))) \<and>
     (\<forall>t \<ge> ht_next_thread h. ht_threads h t = None)"

fun asked :: "semid \<Rightarrow> ht_event list \<Rightarrow> (nat \<times> verdict) list" where
  "asked s [] = []"
| "asked s (AskedTS s' r v # es) = (if s = s' then (r, v) # asked s es else asked s es)"
| "asked s (_ # es) = asked s es"

fun settled :: "semid \<Rightarrow> ht_event list \<Rightarrow> (nat \<times> verdict) list" where
  "settled s [] = []"
| "settled s (Settled s' r v # es) = (if s = s' then (r, v) # settled s es else settled s es)"
| "settled s (_ # es) = settled s es"

lemma asked_append [simp]: "asked s (es @ es') = asked s es @ asked s es'"
  by (induction s es rule: asked.induct) simp_all

lemma settled_append [simp]: "settled s (es @ es') = settled s es @ settled s es'"
  by (induction s es rule: settled.induct) simp_all

definition sems_once :: "host_threads \<Rightarrow> bool" where
  "sems_once h \<longleftrightarrow>
     (\<forall>n r v s. sem_cl (ht_closures h) n = Some (SettleThen r v s) \<longrightarrow>
        ht_sems h s = Some 0 \<and> asked s (ht_log h) = [(r, v)] \<and> settled s (ht_log h) = []) \<and>
     (\<forall>n n' r r' v v' s. sem_cl (ht_closures h) n = Some (SettleThen r v s) \<longrightarrow> sem_cl (ht_closures h) n' = Some (SettleThen r' v' s) \<longrightarrow> n = n') \<and>
     (\<forall>s. ht_sems h s = Some 0 \<longrightarrow> (\<exists>n r v. sem_cl (ht_closures h) n = Some (SettleThen r v s))) \<and>
     (\<forall>s v. ht_sems h s = Some v \<longrightarrow> v \<le> 1) \<and>
     (\<forall>s < ht_next_sem h. ht_sems h s \<noteq> Some 0 \<longrightarrow> settled s (ht_log h) = asked s (ht_log h) \<and> length (asked s (ht_log h)) = 1) \<and>
     (\<forall>s \<ge> ht_next_sem h. ht_sems h s = None \<and> asked s (ht_log h) = [] \<and> settled s (ht_log h) = [])"

text \<open>Only the thread pool joins.\<close>

definition loop_never_joins :: "host_threads \<Rightarrow> bool" where
  "loop_never_joins h \<longleftrightarrow> (\<forall>n t. n \<in># bridge_fns (ht_bridge h) \<longrightarrow> ht_closures h n \<noteq> Some (JoinThread t))"

definition ht_inv :: "closid multiset \<Rightarrow> host_threads \<Rightarrow> bool" where
  "ht_inv M h \<longleftrightarrow> closures_held M h \<and> works_once h \<and> threads_once h \<and> sems_once h \<and> loop_never_joins h"

lemmas ht_inv_simps = ht_inv_def closures_held_def works_once_def threads_once_def sems_once_def loop_never_joins_def held_def

lemma held_live: "ht_inv M h \<Longrightarrow> n \<in># M + held h \<Longrightarrow> \<exists>c. ht_closures h n = Some c"
  unfolding ht_inv_def closures_held_def by (metis count_eq_zero_iff option.exhaust)

lemma held_next: "ht_inv M h \<Longrightarrow> ht_next h \<notin># M + held h"
  unfolding ht_inv_def closures_held_def by (metis count_eq_zero_iff le_refl)

lemma held_once: "ht_inv (add_mset n M) h \<Longrightarrow> n \<notin># M + held h"
proof
  assume inv: "ht_inv (add_mset n M) h" and "n \<in># M + held h"
  then have "2 \<le> count (add_mset n M + held h) n" by (metis Suc_1 Suc_le_mono add_mset_add_single count_add_mset count_greater_eq_one_iff union_mset_add_mset_left)
  then show False using inv unfolding ht_inv_def closures_held_def by (metis Suc_1 not_less_eq_eq le_refl le_0_eq nat.distinct(1) One_nat_def)
qed

section \<open>Every operation keeps them\<close>

lemma held_alloc:
  assumes ok: "closures_held M h" and "ht_closures h' = (ht_closures h)(ht_next h \<mapsto> c)" "ht_next h' = ht_next h + 1"
    and "held h' = add_mset (ht_next h) (held h)"
  shows "closures_held M h'"
proof -
  have "ht_closures h (ht_next h) = None" "count (M + held h) (ht_next h) = 0" using ok by (auto simp: closures_held_def)
  then show ?thesis using assms unfolding closures_held_def by auto
qed

lemma held_drop:
  assumes ok: "closures_held (add_mset n M) h" and new: "ht_closures h' = (ht_closures h)(n := None)" "ht_next h' = ht_next h"
    and "held h' = held h"
  shows "closures_held M h'"
  unfolding closures_held_def
proof (intro conjI allI impI)
  fix j
  have "count (add_mset n M + held h) j = (if ht_closures h j = None then 0 else 1)"
    using ok unfolding closures_held_def by blast
  then show "count (M + held h') j = (if ht_closures h' j = None then 0 else 1)"
    using assms(2,4) by (cases "j = n") (auto split: if_splits)
next
  fix j assume "ht_next h' \<le> j"
  then show "ht_closures h' j = None" using ok new by (simp add: closures_held_def)
qed

lemma post_closure:
  assumes run: "postRunnable c h = Inr h'"
  obtains b where "bridge_fns b = add_mset (ht_next h) (bridge_fns (ht_bridge h))"
    "h' = h\<lparr>ht_bridge := b, ht_closures := (ht_closures h)(ht_next h \<mapsto> c), ht_next := ht_next h + 1\<rparr>"
proof -
  from run obtain b where b: "pipe_executor (RunFn (ht_next h)) (ht_bridge h) = Inr b"
    "h' = h\<lparr>ht_bridge := b, ht_closures := (ht_closures h)(ht_next h \<mapsto> c), ht_next := ht_next h + 1\<rparr>"
    by (auto simp: postRunnable_def new_closure_def)
  with pipe_executor_fns [OF b(1)] that [of b] show thesis by simp
qed

lemma fresh_closure: "ht_inv M h \<Longrightarrow> ht_closures h (ht_next h) = None"
  by (simp add: ht_inv_def closures_held_def)

text \<open>The parts of the invariant look at no more than their own fields.\<close>

lemma works_frame:
  "works_once h \<Longrightarrow> ht_pool h' = ht_pool h \<Longrightarrow> ht_after h' = ht_after h \<Longrightarrow> ht_works h' = ht_works h \<Longrightarrow>
   ht_next_work h' = ht_next_work h \<Longrightarrow> works_once h'"
  by (simp add: works_once_def)

lemma threads_frame:
  "threads_once h \<Longrightarrow> thread_cl (ht_closures h') = thread_cl (ht_closures h) \<Longrightarrow> ht_threads h' = ht_threads h \<Longrightarrow>
   ht_running h' = ht_running h \<Longrightarrow> ht_next_thread h' = ht_next_thread h \<Longrightarrow> threads_once h'"
  unfolding threads_once_def by simp

lemma sems_frame:
  "sems_once h \<Longrightarrow> sem_cl (ht_closures h') = sem_cl (ht_closures h) \<Longrightarrow> ht_sems h' = ht_sems h \<Longrightarrow>
   ht_next_sem h' = ht_next_sem h \<Longrightarrow> (\<And>s. asked s (ht_log h') = asked s (ht_log h)) \<Longrightarrow>
   (\<And>s. settled s (ht_log h') = settled s (ht_log h)) \<Longrightarrow> sems_once h'"
  unfolding sems_once_def by simp

lemma joins_frame:
  "loop_never_joins h \<Longrightarrow> bridge_fns (ht_bridge h') \<subseteq># bridge_fns (ht_bridge h) \<Longrightarrow>
   (\<And>n t. ht_closures h' n = Some (JoinThread t) \<Longrightarrow> ht_closures h n = Some (JoinThread t) \<or> n \<notin># bridge_fns (ht_bridge h)) \<Longrightarrow>
   loop_never_joins h'"
  unfolding loop_never_joins_def by (meson mset_subset_eqD)

lemma fresh_bridge: "ht_inv M h \<Longrightarrow> ht_next h \<notin># bridge_fns (ht_bridge h)"
  using held_next [of M h] by (auto simp: held_def)

lemma postRunnable_inv:
  assumes inv: "ht_inv {#} h" and run: "postRunnable (UserFn k) h = Inr h'"
  shows "ht_inv {#} h'"
proof -
  from run obtain b where b: "bridge_fns b = add_mset (ht_next h) (bridge_fns (ht_bridge h))"
    and h': "h' = h\<lparr>ht_bridge := b, ht_closures := (ht_closures h)(ht_next h \<mapsto> UserFn k), ht_next := ht_next h + 1\<rparr>"
    by (rule post_closure)
  have cl: "thread_cl (ht_closures h) (ht_next h) = None" "sem_cl (ht_closures h) (ht_next h) = None"
    using fresh_closure [OF inv] by (simp_all add: cl_at)
  have "closures_held {#} h'" by (rule held_alloc [of _ h]) (use inv h' b in \<open>auto simp: ht_inv_def held_def\<close>)
  moreover have "works_once h'" by (rule works_frame [of h]) (use inv h' in \<open>simp_all add: ht_inv_def\<close>)
  moreover have "threads_once h'" by (rule threads_frame [of h]) (use inv h' in \<open>simp_all add: ht_inv_def cl_upd cl\<close>)
  moreover have "sems_once h'" by (rule sems_frame [of h]) (use inv h' in \<open>simp_all add: ht_inv_def cl_upd cl\<close>)
  moreover have "loop_never_joins h'" using inv h' b by (auto simp: ht_inv_def loop_never_joins_def)
  ultimately show ?thesis by (simp add: ht_inv_def)
qed

text \<open>A call with a new semaphore.\<close>

lemma sems_new:
  assumes so: "sems_once h" and cl: "sem_cl (ht_closures h) n = None"
    and "sem_cl (ht_closures h') = (sem_cl (ht_closures h))(n \<mapsto> SettleThen ret v (ht_next_sem h))"
    and "ht_sems h' = (ht_sems h)(ht_next_sem h \<mapsto> 0)" "ht_next_sem h' = ht_next_sem h + 1"
    and "ht_log h' = ht_log h @ [AskedTS (ht_next_sem h) ret v]"
  shows "sems_once h'"
proof -
  have no: "sem_cl (ht_closures h) j \<noteq> Some (SettleThen r w (ht_next_sem h))" for j r w
    using so unfolding sems_once_def by (metis le_refl option.distinct(1))
  have new: "ht_sems h (ht_next_sem h) = None \<and> asked (ht_next_sem h) (ht_log h) = [] \<and> settled (ht_next_sem h) (ht_log h) = []"
    using so unfolding sems_once_def by blast
  show ?thesis
    unfolding sems_once_def assms(3-6)
  proof (intro conjI, goal_cases)
    case 1 then show ?case using so no new unfolding sems_once_def by (auto split: if_splits)
  next
    case 2 then show ?case using so no unfolding sems_once_def by (auto split: if_splits)
  next
    case 3
    have "\<exists>j r w. ((sem_cl (ht_closures h))(n \<mapsto> SettleThen ret v (ht_next_sem h))) j = Some (SettleThen r w s)"
      if "((ht_sems h)(ht_next_sem h \<mapsto> 0)) s = Some 0" for s
    proof (cases "s = ht_next_sem h")
      case False
      with that so obtain j r w where "sem_cl (ht_closures h) j = Some (SettleThen r w s)" unfolding sems_once_def by auto
      with cl have "((sem_cl (ht_closures h))(n \<mapsto> SettleThen ret v (ht_next_sem h))) j = Some (SettleThen r w s)" by auto
      then show ?thesis by blast
    qed auto
    then show ?case by blast
  next
    case 4 then show ?case using so unfolding sems_once_def by auto
  next
    case 5 then show ?case using so new unfolding sems_once_def by (auto simp: less_Suc_eq)
  next
    case 6 then show ?case using so new unfolding sems_once_def by auto
  qed
qed

lemma settleTS_inv:
  assumes inv: "ht_inv {#} h" and run: "settleTS ret v h = Inr (s, h')"
  shows "ht_inv {#} h'"
proof -
  let ?g = "ht_say (AskedTS (ht_next_sem h) ret v)
    (h\<lparr>ht_sems := (ht_sems h)(ht_next_sem h \<mapsto> 0), ht_next_sem := ht_next_sem h + 1\<rparr>)"
  have "postRunnable (SettleThen ret v (ht_next_sem h)) ?g = Inr h'"
    using run by (auto simp: settleTS_def Let_def)
  then obtain b where b: "bridge_fns b = add_mset (ht_next ?g) (bridge_fns (ht_bridge ?g))"
    and g': "h' = ?g\<lparr>ht_bridge := b, ht_closures := (ht_closures ?g)(ht_next ?g \<mapsto> SettleThen ret v (ht_next_sem h)), ht_next := ht_next ?g + 1\<rparr>"
    by (rule post_closure)
  note h' = g' [unfolded ht_say_def, simplified]
  have cl: "thread_cl (ht_closures h) (ht_next h) = None" "sem_cl (ht_closures h) (ht_next h) = None"
    using fresh_closure [OF inv] by (simp_all add: cl_at)
  have "closures_held {#} h'" by (rule held_alloc [of _ h]) (use inv h' b in \<open>auto simp: ht_inv_def held_def ht_say_def\<close>)
  moreover have "works_once h'" by (rule works_frame [of h]) (use inv h' in \<open>simp_all add: ht_inv_def\<close>)
  moreover have "threads_once h'" by (rule threads_frame [of h]) (use inv h' in \<open>simp_all add: ht_inv_def cl_upd cl\<close>)
  moreover have "sems_once h'"
    by (rule sems_new [of h "ht_next h"]) (use inv h' in \<open>simp_all add: ht_inv_def cl_upd cl\<close>)
  moreover have "loop_never_joins h'" using inv h' b by (auto simp: ht_inv_def loop_never_joins_def ht_say_def)
  ultimately show "ht_inv {#} h'" by (simp add: ht_inv_def)
qed

lemma pool_map:
  "w \<notin> set ws \<Longrightarrow> {#the (if v = w then x else f v). v \<in># mset ws#} = {#the (f v). v \<in># mset ws#}"
  by (induction ws) auto

lemma fresh_work: "ht_inv M h \<Longrightarrow> ht_works h (ht_next_work h) = None \<and> ht_next_work h \<notin> set (ht_pool h @ ht_after h)"
  unfolding ht_inv_def works_once_def by (metis count_mset_0_iff le_refl)

lemma works_new:
  assumes ok: "works_once h" and "ht_works h' = (ht_works h)(ht_next_work h \<mapsto> n)" "ht_next_work h' = ht_next_work h + 1"
    and "ht_pool h' = ht_pool h @ [ht_next_work h]" "ht_after h' = ht_after h"
  shows "works_once h'"
proof -
  have "ht_works h (ht_next_work h) = None \<and> count (mset (ht_pool h @ ht_after h)) (ht_next_work h) = 0"
    using ok unfolding works_once_def by (metis le_refl)
  with assms show ?thesis unfolding works_once_def by auto
qed

lemma threadPoolRun_result:
  "threadPoolRun c h = h\<lparr>ht_closures := (ht_closures h)(ht_next h \<mapsto> c), ht_next := ht_next h + 1,
     ht_works := (ht_works h)(ht_next_work h \<mapsto> ht_next h), ht_next_work := ht_next_work h + 1,
     ht_pool := ht_pool h @ [ht_next_work h]\<rparr>"
  by (simp add: threadPoolRun_def new_closure_def Let_def)

lemma threadPoolRun_held:
  assumes inv: "ht_inv M h"
  shows "held (threadPoolRun c h) = add_mset (ht_next h) (held h)"
proof -
  have "ht_next_work h \<notin> set (ht_pool h)" using fresh_work [OF inv] by simp
  from pool_map [OF this] show ?thesis by (simp add: held_def threadPoolRun_result)
qed

lemma threadPoolRun_inv:
  assumes inv: "ht_inv {#} h"
  shows "ht_inv {#} (threadPoolRun (UserFn k) h)"
proof -
  let ?h = "threadPoolRun (UserFn k) h"
  have cl: "thread_cl (ht_closures h) (ht_next h) = None" "sem_cl (ht_closures h) (ht_next h) = None"
    using fresh_closure [OF inv] by (simp_all add: cl_at)
  have "closures_held {#} ?h"
    by (rule held_alloc [of _ h _ "UserFn k"]) (use inv in \<open>simp_all add: ht_inv_def threadPoolRun_held [OF inv, unfolded threadPoolRun_result, simplified] threadPoolRun_result\<close>)
  moreover have "works_once ?h"
    by (rule works_new [of h _ "ht_next h"]) (use inv in \<open>simp_all add: ht_inv_def threadPoolRun_result\<close>)
  moreover have "threads_once ?h"
    by (rule threads_frame [of h]) (use inv in \<open>simp_all add: ht_inv_def cl_upd cl threadPoolRun_result\<close>)
  moreover have "sems_once ?h"
    by (rule sems_frame [of h]) (use inv in \<open>simp_all add: ht_inv_def cl_upd cl threadPoolRun_result\<close>)
  moreover have "loop_never_joins ?h"
    by (rule joins_frame [of h]) (use inv in \<open>auto simp: ht_inv_def threadPoolRun_result split: if_splits\<close>)
  ultimately show ?thesis by (simp add: ht_inv_def)
qed

lemma fresh_thread: "threads_once h \<Longrightarrow> ht_threads h (ht_next_thread h) = None \<and> ht_next_thread h \<notin> set (ht_running h)"
  unfolding threads_once_def by (metis le_refl option.distinct(1))

lemma threads_new:
  assumes ok: "threads_once h" and cl: "thread_cl (ht_closures h) n = None"
    and "thread_cl (ht_closures h') = (thread_cl (ht_closures h))(n \<mapsto> ThreadBody k (ht_next_thread h))"
    and "ht_threads h' = (ht_threads h)(ht_next_thread h \<mapsto> n)" "ht_running h' = ht_running h @ [ht_next_thread h]"
    and "ht_next_thread h' = ht_next_thread h + 1"
  shows "threads_once h'"
proof -
  let ?t = "ht_next_thread h" and ?f = "thread_cl (ht_closures h)"
  note new = fresh_thread [OF ok]
  have join: "?f m = Some (JoinThread t) \<Longrightarrow> ht_threads h t \<noteq> None \<and> t \<notin> set (ht_running h)" for m t
    using ok unfolding threads_once_def by blast
  have body: "t \<in> set (ht_running h) \<Longrightarrow> \<exists>m k. ht_threads h t = Some m \<and> ?f m = Some (ThreadBody k t)" for t
    using ok unfolding threads_once_def by blast
  have live: "ht_threads h t \<noteq> None \<Longrightarrow> t \<in> set (ht_running h) \<or> (\<exists>m. ?f m = Some (JoinThread t))" for t
    using ok unfolding threads_once_def by blast
  have upd: "?f m = Some c \<Longrightarrow> (?f(n \<mapsto> ThreadBody k ?t)) m = Some c" for m c using cl by auto
  show ?thesis
    unfolding threads_once_def assms(3-6)
  proof (intro conjI, goal_cases)
    case 1 then show ?case using ok new unfolding threads_once_def by auto
  next
    case 2
    have "\<exists>m k'. ((ht_threads h)(?t \<mapsto> n)) t = Some m \<and> (?f(n \<mapsto> ThreadBody k ?t)) m = Some (ThreadBody k' t)"
      if "t \<in> set (ht_running h @ [?t])" for t
    proof (cases "t = ?t")
      case False
      with that body [of t] obtain m k' where m: "ht_threads h t = Some m" "?f m = Some (ThreadBody k' t)" by auto
      with upd [OF m(2)] False show ?thesis by (intro exI [of _ m] exI [of _ k']) simp
    qed auto
    then show ?case by blast
  next
    case 3 then show ?case using ok new unfolding threads_once_def by simp
  next
    case 4 then show ?case using new by (auto split: if_splits dest: join)
  next
    case 5 then show ?case using ok unfolding threads_once_def by auto
  next
    case 6
    have "t \<in> set (ht_running h @ [?t]) \<or> (\<exists>m. (?f(n \<mapsto> ThreadBody k ?t)) m = Some (JoinThread t))"
      if "((ht_threads h)(?t \<mapsto> n)) t \<noteq> None" for t
    proof (cases "t = ?t")
      case False
      with that live [of t] consider "t \<in> set (ht_running h)" | m where "?f m = Some (JoinThread t)" by auto
      then show ?thesis by cases (use upd in \<open>simp, blast\<close>)
    qed simp
    then show ?case by blast
  next
    case 7 then show ?case using ok unfolding threads_once_def by auto
  qed
qed

lemma runInNewThread_inv:
  assumes inv: "ht_inv {#} h"
  shows "ht_inv {#} (runInNewThread k h)"
proof -
  let ?h = "runInNewThread k h"
  have ok: "threads_once h" using inv by (simp add: ht_inv_def)
  note new = fresh_thread [OF ok]
  have h': "?h = h\<lparr>ht_closures := (ht_closures h)(ht_next h \<mapsto> ThreadBody k (ht_next_thread h)), ht_next := ht_next h + 1,
      ht_threads := (ht_threads h)(ht_next_thread h \<mapsto> ht_next h), ht_next_thread := ht_next_thread h + 1,
      ht_running := ht_running h @ [ht_next_thread h]\<rparr>"
    by (simp add: runInNewThread_def new_closure_def Let_def)
  have cl: "thread_cl (ht_closures h) (ht_next h) = None" "sem_cl (ht_closures h) (ht_next h) = None"
    using fresh_closure [OF inv] by (simp_all add: cl_at)
  have "closures_held {#} ?h"
    by (rule held_alloc [of _ h _ "ThreadBody k (ht_next_thread h)"]) (use inv pool_map [OF conjunct2 [OF new]] in \<open>simp_all add: ht_inv_def held_def h'\<close>)
  moreover have "works_once ?h" by (rule works_frame [of h]) (use inv in \<open>simp_all add: ht_inv_def h'\<close>)
  moreover have "threads_once ?h" by (rule threads_new [of h "ht_next h" _ k]) (use ok in \<open>simp_all add: cl_upd cl h'\<close>)
  moreover have "sems_once ?h" by (rule sems_frame [of h]) (use inv in \<open>simp_all add: ht_inv_def cl_upd cl h'\<close>)
  moreover have "loop_never_joins ?h"
    by (rule joins_frame [of h]) (use inv in \<open>auto simp: ht_inv_def h' split: if_splits\<close>)
  ultimately show ?thesis by (simp add: ht_inv_def)
qed

text \<open>A closure runs and is freed.\<close>

lemma sems_drop:
  assumes so: "sems_once h" and c: "ht_closures h n = Some (SettleThen ret v s)"
    and "sem_cl (ht_closures h') = (sem_cl (ht_closures h))(n := None)"
    and "ht_sems h' = (ht_sems h)(s \<mapsto> 1)" "ht_next_sem h' = ht_next_sem h"
    and "ht_log h' = ht_log h @ [Settled s ret v]"
  shows "sems_once h'"
proof -
  let ?f = "sem_cl (ht_closures h)"
  have n: "?f n = Some (SettleThen ret v s)" using c by (simp add: sem_cl_Some)
  have all: "?f m = Some (SettleThen r w j) \<Longrightarrow> ht_sems h j = Some 0 \<and> asked j (ht_log h) = [(r, w)] \<and> settled j (ht_log h) = []"
    for m r w j using so unfolding sems_once_def by blast
  have once: "?f m = Some (SettleThen r w s) \<Longrightarrow> m = n" for m r w using so n unfolding sems_once_def by blast
  show ?thesis
    unfolding sems_once_def assms(3-6)
  proof (intro conjI, goal_cases)
    case 1 then show ?case using once by (auto split: if_splits dest: all)
  next
    case 2 then show ?case using so unfolding sems_once_def by (auto split: if_splits)
  next
    case 3
    have "\<exists>m r w. (?f(n := None)) m = Some (SettleThen r w j)" if "((ht_sems h)(s \<mapsto> 1)) j = Some 0" for j
    proof -
      from that have j: "j \<noteq> s" "ht_sems h j = Some 0" by (auto split: if_splits)
      with so obtain m r w where m: "?f m = Some (SettleThen r w j)" unfolding sems_once_def by blast
      with n j(1) have "m \<noteq> n" by auto
      with m show ?thesis by (intro exI [of _ m] exI [of _ r] exI [of _ w]) simp
    qed
    then show ?case by blast
  next
    case 4 then show ?case using so unfolding sems_once_def by auto
  next
    case 5 then show ?case using so all [OF n] unfolding sems_once_def by auto
  next
    case 6 then show ?case using so all [OF n] unfolding sems_once_def by auto
  qed
qed

lemma threads_joined:
  assumes ok: "threads_once h" and c: "ht_closures h n = Some (JoinThread t)"
    and "thread_cl (ht_closures h') = (thread_cl (ht_closures h))(n := None)"
    and "ht_threads h' = (ht_threads h)(t := None)" "ht_running h' = ht_running h" "ht_next_thread h' = ht_next_thread h"
  shows "threads_once h'"
proof -
  let ?f = "thread_cl (ht_closures h)"
  have n: "?f n = Some (JoinThread t)" using c by (simp add: thread_cl_Some)
  have join: "?f m = Some (JoinThread j) \<Longrightarrow> ht_threads h j \<noteq> None \<and> j \<notin> set (ht_running h)" for m j
    using ok unfolding threads_once_def by blast
  have once: "?f m = Some (JoinThread t) \<Longrightarrow> m = n" for m using ok n unfolding threads_once_def by blast
  have body: "?f m = Some (ThreadBody k j) \<Longrightarrow> ht_threads h j = Some m \<and> j \<in> set (ht_running h)" for m k j
    using ok unfolding threads_once_def by blast
  have out: "t \<notin> set (ht_running h)" using join [OF n] by simp
  show ?thesis
    unfolding threads_once_def assms(3-6)
  proof (intro conjI, goal_cases)
    case 1 then show ?case using out by (auto split: if_splits dest: body)
  next
    case 2
    have "\<exists>m k. ((ht_threads h)(t := None)) j = Some m \<and> (?f(n := None)) m = Some (ThreadBody k j)"
      if "j \<in> set (ht_running h)" for j
    proof -
      from that ok obtain m k where m: "ht_threads h j = Some m" "?f m = Some (ThreadBody k j)"
        unfolding threads_once_def by blast
      with n have "m \<noteq> n" by auto
      with m out that show ?thesis by (intro exI [of _ m] exI [of _ k]) auto
    qed
    then show ?case by blast
  next
    case 3 then show ?case using ok unfolding threads_once_def by simp
  next
    case 4 then show ?case using once by (auto split: if_splits dest: join)
  next
    case 5 then show ?case using ok unfolding threads_once_def by (auto split: if_splits)
  next
    case 6
    have "j \<in> set (ht_running h) \<or> (\<exists>m. (?f(n := None)) m = Some (JoinThread j))"
      if "((ht_threads h)(t := None)) j \<noteq> None" for j
    proof -
      from that have j: "j \<noteq> t" "ht_threads h j \<noteq> None" by (auto split: if_splits)
      with ok have "j \<in> set (ht_running h) \<or> (\<exists>m. ?f m = Some (JoinThread j))" unfolding threads_once_def by blast
      then show ?thesis
      proof
        assume "\<exists>m. ?f m = Some (JoinThread j)"
        then obtain m where m: "?f m = Some (JoinThread j)" by blast
        with n j(1) have "m \<noteq> n" by auto
        with m show ?thesis by (intro disjI2 exI [of _ m]) simp
      qed simp
    qed
    then show ?case by blast
  next
    case 7 then show ?case using ok unfolding threads_once_def by auto
  qed
qed

lemma running_held:
  assumes "threads_once h" and "ht_closures h n = Some (ThreadBody k t)"
  shows "n \<in># held h"
proof -
  have "ht_threads h t = Some n \<and> t \<in> set (ht_running h)"
    using assms unfolding threads_once_def thread_cl_Some by blast
  then show ?thesis by (force simp: held_def)
qed

lemma runCppFunction_inv:
  assumes inv: "ht_inv {#n#} h"
  shows "\<exists>h'. runCppFunction n h = Inr h' \<and> ht_inv {#} h' \<and> ht_bridge h' = ht_bridge h"
proof -
  from held_live [OF inv, of n] obtain c where c: "ht_closures h n = Some c" by auto
  have parts: "closures_held {#n#} h" "works_once h" "threads_once h" "sems_once h" "loop_never_joins h"
    using inv by (simp_all add: ht_inv_def)
  have tail: "ht_inv {#} h'" if "held h' = held h" "ht_closures h' = (ht_closures h)(n := None)" "ht_next h' = ht_next h"
    "ht_bridge h' = ht_bridge h" "works_once h'" "threads_once h'" "sems_once h'" for h'
    using held_drop [OF parts(1) that(2,3,1)] that parts(5) by (auto simp: ht_inv_def loop_never_joins_def)
  show ?thesis
  proof (cases c)
    case (UserFn k)
    let ?h = "(ht_say (RanUser k) h)\<lparr>ht_closures := (ht_closures h)(n := None)\<rparr>"
    have cl: "thread_cl (ht_closures ?h) = thread_cl (ht_closures h)" "sem_cl (ht_closures ?h) = sem_cl (ht_closures h)"
      using c UserFn by (simp_all add: cl_upd cl_at)
    have "ht_inv {#} ?h"
      using parts cl by (intro tail works_frame [OF parts(2)] threads_frame [OF parts(3)] sems_frame [OF parts(4)])
        (simp_all add: ht_say_def held_def)
    then show ?thesis using c UserFn by (simp add: runCppFunction_def ht_say_def)
  next
    case (SettleThen r v s)
    have s: "ht_sems h s = Some 0" using parts(4) c SettleThen unfolding sems_once_def sem_cl_Some by blast
    let ?h = "(ht_say (Settled s r v) h)\<lparr>ht_sems := (ht_sems h)(s \<mapsto> 1), ht_closures := (ht_closures h)(n := None)\<rparr>"
    have cl: "thread_cl (ht_closures ?h) = thread_cl (ht_closures h)" using c SettleThen by (simp add: cl_upd cl_at)
    have "ht_inv {#} ?h"
      using parts cl c SettleThen
      by (intro tail works_frame [OF parts(2)] threads_frame [OF parts(3)] sems_drop [OF parts(4)])
        (simp_all add: ht_say_def held_def cl_drop)
    then show ?thesis using c s SettleThen by (simp add: runCppFunction_def post_sem_def ht_say_def)
  next
    case (ThreadBody k t)
    with running_held [OF parts(3)] c have "n \<in># held h" by blast
    with held_once [of n "{#}" h] inv show ?thesis by simp
  next
    case (JoinThread t)
    have t: "ht_threads h t \<noteq> None" "t \<notin> set (ht_running h)"
      using parts(3) c JoinThread unfolding threads_once_def thread_cl_Some by blast+
    let ?h = "(ht_say (Joined t) (h\<lparr>ht_threads := (ht_threads h)(t := None)\<rparr>))\<lparr>ht_closures := (ht_closures h)(n := None)\<rparr>"
    have cl: "sem_cl (ht_closures ?h) = sem_cl (ht_closures h)" using c JoinThread by (simp add: cl_upd cl_at)
    have "ht_inv {#} ?h"
      using parts cl c JoinThread t
      by (intro tail works_frame [OF parts(2)] threads_joined [OF parts(3)] sems_frame [OF parts(4)])
        (simp_all add: ht_say_def held_def cl_drop pool_map)
    then show ?thesis using c t JoinThread by (auto simp: runCppFunction_def ht_say_def)
  qed
qed

lemma work_run_inv:
  assumes inv: "ht_inv {#} h" and w: "w \<in> set (ht_pool h)"
  shows "\<exists>h'. work_run w h = Inr h' \<and> ht_inv {#} h' \<and> ht_bridge h' = ht_bridge h"
proof -
  have parts: "closures_held {#} h" "works_once h" "threads_once h" "sems_once h" "loop_never_joins h"
    using inv by (simp_all add: ht_inv_def)
  have one: "count (mset (ht_pool h @ ht_after h)) w = (if ht_works h w = None then 0 else 1)"
    using parts(2) unfolding works_once_def by blast
  with w obtain n where n: "ht_works h w = Some n" by (cases "ht_works h w") (auto simp: count_eq_zero_iff)
  obtain ps where ps: "mset (ht_pool h) = add_mset w (mset ps)" "ps = remove1 w (ht_pool h)" using w by simp
  let ?g = "h\<lparr>ht_pool := remove1 w (ht_pool h), ht_after := ht_after h @ [w]\<rparr>"
  have held: "held h = add_mset n (held ?g)" using n ps by (simp add: held_def del: mset_remove1)
  have "closures_held {#n#} ?g" using parts(1) held by (simp add: closures_held_def)
  moreover have "works_once ?g" using parts(2) ps unfolding works_once_def by (simp del: mset_remove1)
  moreover have "threads_once ?g" by (rule threads_frame [OF parts(3)]) simp_all
  moreover have "sems_once ?g" by (rule sems_frame [OF parts(4)]) simp_all
  moreover have "loop_never_joins ?g" using parts(5) by (simp add: loop_never_joins_def)
  ultimately have "ht_inv {#n#} ?g" by (simp add: ht_inv_def)
  from runCppFunction_inv [OF this] obtain g' where
    g': "runCppFunction n ?g = Inr g'" "ht_inv {#} g'" "ht_bridge g' = ht_bridge h" by auto
  show ?thesis using g' n by (simp add: work_run_def)
qed

lemma work_done_inv:
  assumes inv: "ht_inv {#} h" and w: "w \<in> set (ht_after h)"
  shows "\<exists>h'. work_done w h = Inr h' \<and> ht_inv {#} h' \<and> ht_bridge h' = ht_bridge h"
proof -
  have parts: "closures_held {#} h" "works_once h" "threads_once h" "sems_once h" "loop_never_joins h"
    using inv by (simp_all add: ht_inv_def)
  have one: "count (mset (ht_pool h @ ht_after h)) j = (if ht_works h j = None then 0 else 1)" for j
    using parts(2) unfolding works_once_def by blast
  from w have pos: "0 < count (mset (ht_after h)) w" by simp
  then obtain n where n: "ht_works h w = Some n" using one [of w] by (cases "ht_works h w") auto
  then have "count (mset (ht_pool h)) w + count (mset (ht_after h)) w = 1" using one [of w] by simp
  with pos have "count (mset (ht_pool h)) w = 0" by linarith
  then have out: "w \<notin> set (ht_pool h)" by (simp add: count_eq_zero_iff)
  let ?g = "h\<lparr>ht_works := (ht_works h)(w := None), ht_after := remove1 w (ht_after h)\<rparr>"
  have "held ?g = held h" using out by (simp add: held_def pool_map)
  then have "closures_held {#} ?g" using parts(1) by (simp add: closures_held_def)
  moreover have "works_once ?g"
    unfolding works_once_def
  proof (intro conjI allI impI)
    fix j show "count (mset (ht_pool ?g @ ht_after ?g)) j = (if ht_works ?g j = None then 0 else 1)"
      using one [of j] pos n out by (cases "j = w") auto
  next
    fix j assume "ht_next_work ?g \<le> j"
    then show "ht_works ?g j = None" using parts(2) by (simp add: works_once_def)
  qed
  moreover have "threads_once ?g" by (rule threads_frame [OF parts(3)]) simp_all
  moreover have "sems_once ?g" by (rule sems_frame [OF parts(4)]) simp_all
  moreover have "loop_never_joins ?g" using parts(5) by (simp add: loop_never_joins_def)
  ultimately show ?thesis using n by (auto simp: work_done_def ht_inv_def)
qed

text \<open>The body of a thread: its closure is freed, and the closure that joins it takes its place.\<close>

lemma threads_ended:
  assumes ok: "threads_once h" and c: "ht_closures h n = Some (ThreadBody k t)" and new: "thread_cl (ht_closures h) m = None"
    and "thread_cl (ht_closures h') = (thread_cl (ht_closures h))(n := None, m \<mapsto> JoinThread t)"
    and "ht_threads h' = ht_threads h" "ht_running h' = remove1 t (ht_running h)" "ht_next_thread h' = ht_next_thread h"
  shows "threads_once h'"
proof -
  let ?f = "thread_cl (ht_closures h)"
  have n: "?f n = Some (ThreadBody k t)" using c by (simp add: thread_cl_Some)
  with new have m: "m \<noteq> n" by auto
  have body: "?f j = Some (ThreadBody l u) \<Longrightarrow> ht_threads h u = Some j \<and> u \<in> set (ht_running h)" for j l u
    using ok unfolding threads_once_def by blast
  have join: "?f j = Some (JoinThread u) \<Longrightarrow> ht_threads h u \<noteq> None \<and> u \<notin> set (ht_running h)" for j u
    using ok unfolding threads_once_def by blast
  have d: "distinct (ht_running h)" using ok unfolding threads_once_def by blast
  have set: "set (remove1 t (ht_running h)) = set (ht_running h) - {t}" using d by simp
  show ?thesis
    unfolding threads_once_def assms(4-7) set
  proof (intro conjI, goal_cases)
    case 1
    have "ht_threads h u = Some j \<and> u \<in> set (ht_running h) - {t}"
      if "(?f(n := None, m \<mapsto> JoinThread t)) j = Some (ThreadBody l u)" for j l u
    proof -
      from that have j: "j \<noteq> n" "?f j = Some (ThreadBody l u)" by (auto split: if_splits)
      with body [OF j(2)] body [OF n] show ?thesis by auto
    qed
    then show ?case by blast
  next
    case 2
    have "\<exists>j l. ht_threads h u = Some j \<and> (?f(n := None, m \<mapsto> JoinThread t)) j = Some (ThreadBody l u)"
      if "u \<in> set (ht_running h) - {t}" for u
    proof -
      from that ok obtain j l where j: "ht_threads h u = Some j" "?f j = Some (ThreadBody l u)"
        unfolding threads_once_def by blast
      with n new that have "j \<noteq> n" "j \<noteq> m" by auto
      with j show ?thesis by (intro exI [of _ j] exI [of _ l]) simp
    qed
    then show ?case by blast
  next
    case 3 then show ?case using d by simp
  next
    case 4 then show ?case using body [OF n] by (auto split: if_splits dest: join)
  next
    case 5
    have "\<not> (\<exists>j. ?f j = Some (JoinThread t))" using join body [OF n] by blast
    moreover have "?f j = Some (JoinThread u) \<Longrightarrow> ?f i = Some (JoinThread u) \<Longrightarrow> j = i" for i j u
      using ok unfolding threads_once_def by blast
    ultimately show ?case by (auto split: if_splits)
  next
    case 6
    have "u \<in> set (ht_running h) - {t} \<or> (\<exists>j. (?f(n := None, m \<mapsto> JoinThread t)) j = Some (JoinThread u))"
      if "ht_threads h u \<noteq> None" for u
    proof (cases "u = t")
      case True then show ?thesis by (intro disjI2 exI [of _ m]) simp
    next
      case False
      from that ok consider "u \<in> set (ht_running h)" | j where "?f j = Some (JoinThread u)"
        unfolding threads_once_def by blast
      then show ?thesis
      proof cases
        case 2
        with n new have "j \<noteq> n" "j \<noteq> m" by auto
        with 2 show ?thesis by (intro disjI2 exI [of _ j]) simp
      qed (use False in simp)
    qed
    then show ?case by blast
  next
    case 7 then show ?case using ok unfolding threads_once_def by auto
  qed
qed

lemma thread_run_inv:
  assumes inv: "ht_inv {#} h" and t: "t \<in> set (ht_running h)"
  shows "\<exists>h'. thread_run t h = Inr h' \<and> ht_inv {#} h' \<and> ht_bridge h' = ht_bridge h"
proof -
  have parts: "closures_held {#} h" "works_once h" "threads_once h" "sems_once h" "loop_never_joins h"
    using inv by (simp_all add: ht_inv_def)
  from parts(3) t obtain n k where n: "ht_threads h t = Some n" "ht_closures h n = Some (ThreadBody k t)"
    unfolding threads_once_def thread_cl_Some by blast
  let ?a = "h\<lparr>ht_running := remove1 t (ht_running h), ht_ending := ht_ending h @ [t], ht_log := ht_log h @ [RanUser k]\<rparr>"
  let ?b = "threadPoolRun (JoinThread t) ?a"
  let ?c = "?b\<lparr>ht_closures := (ht_closures ?b)(n := None)\<rparr>"
  have run: "thread_run t h = Inr ?c" using n by (simp add: thread_run_def runCppFunction_def ht_say_def)
  have new: "ht_closures h (ht_next h) = None" "ht_next h \<noteq> n" using fresh_closure [OF inv] n by auto
  have w: "ht_next_work h \<notin> set (ht_pool h)" using fresh_work [OF inv] by simp
  have held: "held h = add_mset n (held ?a)"
    using n t by (simp add: held_def) (metis (no_types, lifting) image_mset_add_mset insert_DiffM option.sel set_mset_mset)
  have ca: "closures_held {#n#} ?a" using parts(1) held by (simp add: closures_held_def)
  have hb: "held ?b = add_mset (ht_next h) (held ?a)"
    using pool_map [OF w] by (simp add: held_def threadPoolRun_result)
  have cb: "closures_held {#n#} ?b"
    by (rule held_alloc [OF ca, of _ "JoinThread t"]) (use hb in \<open>simp_all add: threadPoolRun_result\<close>)
  have "closures_held {#} ?c" by (rule held_drop [OF cb]) (simp_all add: held_def)
  moreover have "works_once ?c"
    by (rule works_new [OF parts(2), of _ "ht_next h"]) (simp_all add: threadPoolRun_result)
  moreover have "threads_once ?c"
    by (rule threads_ended [OF parts(3) n(2), of "ht_next h"])
      (use new in \<open>simp_all add: threadPoolRun_result cl_at cl_upd cl_drop fun_upd_twist\<close>)
  moreover have "sems_once ?c"
    by (rule sems_frame [OF parts(4)]) (use new n in \<open>simp_all add: threadPoolRun_result cl_upd cl_at\<close>)
  moreover have "loop_never_joins ?c"
    using parts(5) fresh_bridge [OF inv] by (auto simp: loop_never_joins_def threadPoolRun_result split: if_splits)
  ultimately show ?thesis using run by (simp add: ht_inv_def threadPoolRun_result)
qed

lemma settleTS_return_inv:
  assumes inv: "ht_inv {#} h" and s: "ht_sems h s = Some v" "0 < v"
  shows "\<exists>h'. settleTS_return s h = Inr h' \<and> ht_inv {#} h' \<and> ht_bridge h' = ht_bridge h"
proof -
  have parts: "closures_held {#} h" "works_once h" "threads_once h" "sems_once h" "loop_never_joins h"
    using inv by (simp_all add: ht_inv_def)
  let ?h = "ht_say (ReturnedTS s) (h\<lparr>ht_sems := (ht_sems h)(s := None)\<rparr>)"
  have lt: "s < ht_next_sem h" using parts(4) s unfolding sems_once_def by (metis not_le option.distinct(1))
  have no: "sem_cl (ht_closures h) n \<noteq> Some (SettleThen r w s)" for n r w
    using parts(4) s unfolding sems_once_def by (metis option.inject less_irrefl)
  have so: "sems_once ?h"
    unfolding sems_once_def ht_say_def
  proof (intro conjI, goal_cases)
    case 1 then show ?case using parts(4) no unfolding sems_once_def by auto
  next
    case 2 then show ?case using parts(4) unfolding sems_once_def by (simp; blast)
  next
    case 3 then show ?case using parts(4) unfolding sems_once_def by (auto split: if_splits)
  next
    case 4 then show ?case using parts(4) unfolding sems_once_def by (auto split: if_splits)
  next
    case 5 then show ?case using parts(4) s unfolding sems_once_def by auto
  next
    case 6 then show ?case using parts(4) lt unfolding sems_once_def by auto
  qed
  have "closures_held {#} ?h" using parts(1) by (simp add: closures_held_def held_def ht_say_def)
  moreover have "works_once ?h" by (rule works_frame [OF parts(2)]) (simp_all add: ht_say_def)
  moreover have "threads_once ?h" by (rule threads_frame [OF parts(3)]) (simp_all add: ht_say_def)
  moreover have "loop_never_joins ?h" using parts(5) by (simp add: loop_never_joins_def ht_say_def)
  ultimately show ?thesis using so s by (auto simp: settleTS_return_def ht_inv_def ht_say_def)
qed

lemma bridge_step_inv:
  assumes inv: "ht_inv {#} h" and rb: "rb_inv (ht_bridge h)" and en: "rb_enabled i (ht_bridge h)" and post: "\<And>n. i \<noteq> Post n"
  shows "(\<exists>h'. bridge_step connect i h = Inr h' \<and> ht_inv {#} h' \<and> rb_step connect i (ht_bridge h) = Inr (ht_bridge h')) \<or>
    (bridge_step connect i h = Inl NullDeref \<and> rb_executor (ht_bridge h) = None)"
proof (cases "rb_step connect i (ht_bridge h)")
  case (Inl e)
  with rb_step_fault [OF rb en Inl] show ?thesis by (simp add: bridge_step_runs)
next
  case (Inr b)
  note fns = rb_step_fns [OF Inr en post]
  let ?M = "mset (case runs_fn i (ht_bridge h) of None \<Rightarrow> [] | Some n \<Rightarrow> [n])"
  have parts: "closures_held {#} h" "works_once h" "threads_once h" "sems_once h" "loop_never_joins h"
    using inv by (simp_all add: ht_inv_def)
  let ?h = "h\<lparr>ht_bridge := b\<rparr>"
  have held: "?M + held ?h = held h" using fns by (simp add: held_def)
  have "closures_held ?M ?h" using parts(1) unfolding closures_held_def held by simp
  moreover have "works_once ?h" by (rule works_frame [OF parts(2)]) simp_all
  moreover have "threads_once ?h" by (rule threads_frame [OF parts(3)]) simp_all
  moreover have "sems_once ?h" by (rule sems_frame [OF parts(4)]) simp_all
  moreover have "loop_never_joins ?h" by (rule joins_frame [OF parts(5)]) (simp_all add: fns)
  ultimately have at: "ht_inv ?M ?h" by (simp add: ht_inv_def)
  show ?thesis
  proof (cases "runs_fn i (ht_bridge h)")
    case None with at Inr show ?thesis by (simp add: bridge_step_runs)
  next
    case (Some n)
    with at have "ht_inv {#n#} ?h" by simp
    from runCppFunction_inv [OF this] Some Inr show ?thesis by (auto simp: bridge_step_runs)
  qed
qed

section \<open>Reachable states\<close>

fun posts :: "ht_input \<Rightarrow> bool" where
  "posts (HBridge i) = True"
| "posts (HPost k) = True"
| "posts (HSettle r v) = True"
| "posts (HSettleOnLoop r v) = True"
| "posts _ = False"

lemma blocked_inv: "ht_inv M (h\<lparr>ht_blocked := x\<rparr>) = ht_inv M h" "ht_inv M (h\<lparr>ht_ending := y\<rparr>) = ht_inv M h"
  by (simp_all add: ht_inv_simps)

lemma postRunnable_bridge:
  "postRunnable c h = Inr h' \<Longrightarrow> \<exists>n. rb_step connect (Post n) (ht_bridge h) = Inr (ht_bridge h')"
  by (auto simp: postRunnable_def new_closure_def)

lemma settleTS_bridge:
  "settleTS r v h = Inr (s, h') \<Longrightarrow> \<exists>n. rb_step connect (Post n) (ht_bridge h) = Inr (ht_bridge h')"
  by (auto simp: settleTS_def Let_def ht_say_def dest!: postRunnable_bridge [of _ _ _ connect])

lemma bindR_Inr_Inl: "bindR x (\<lambda>a. Inr (f a)) = Inl e \<longleftrightarrow> x = Inl e"
  by (cases x) simp_all

lemma postRunnable_fault: "postRunnable c h = Inl e \<longleftrightarrow> e = NullDeref \<and> rb_executor (ht_bridge h) = None"
  by (simp add: postRunnable_def new_closure_def bindR_Inr_Inl pipe_executor_fault)

lemma settleTS_fault: "settleTS r v h = Inl e \<longleftrightarrow> e = NullDeref \<and> rb_executor (ht_bridge h) = None"
  by (simp add: settleTS_def Let_def bindR_Inr_Inl postRunnable_fault ht_say_def)

lemma ht_step_ok:
  assumes inv: "ht_inv {#} h" and rb: "rb_inv (ht_bridge h)" and en: "ht_enabled i h"
  shows "case ht_step connect i h of
      Inl e \<Rightarrow> e = NullDeref \<and> rb_executor (ht_bridge h) = None \<and> posts i
    | Inr h' \<Rightarrow> ht_inv {#} h' \<and> (ht_bridge h' = ht_bridge h \<or>
        (\<exists>j. rb_enabled j (ht_bridge h) \<and> rb_step connect j (ht_bridge h) = Inr (ht_bridge h')))"
proof (cases i)
  case (HBridge j)
  with en have "rb_enabled j (ht_bridge h)" "\<And>n. j \<noteq> Post n" by (auto split: rb_input.splits)
  from bridge_step_inv [OF inv rb this, of connect] this(1) HBridge show ?thesis by auto
next
  case (HPost k)
  show ?thesis
  proof (cases "postRunnable (UserFn k) h")
    case (Inl e)
    then have "e = NullDeref \<and> rb_executor (ht_bridge h) = None" by (simp add: postRunnable_fault)
    with HPost Inl show ?thesis by simp
  next
    case (Inr h')
    with HPost postRunnable_inv [OF inv Inr] postRunnable_bridge [OF Inr, of connect] show ?thesis
      by (auto intro: exI [of _ "Post _"])
  qed
next
  case (HSettle r v)
  show ?thesis
  proof (cases "settleTS r v h")
    case (Inl e)
    then have "e = NullDeref \<and> rb_executor (ht_bridge h) = None" by (simp add: settleTS_fault)
    with HSettle Inl show ?thesis by simp
  next
    case (Inr x)
    obtain s h' where x: "settleTS r v h = Inr (s, h')" using Inr by (cases x) auto
    with HSettle settleTS_inv [OF inv x] settleTS_bridge [OF x, of connect] show ?thesis
      by (auto intro: exI [of _ "Post _"])
  qed
next
  case (HSettleOnLoop r v)
  show ?thesis
  proof (cases "settleTS r v h")
    case (Inl e)
    then have "e = NullDeref \<and> rb_executor (ht_bridge h) = None" by (simp add: settleTS_fault)
    with HSettleOnLoop Inl show ?thesis by simp
  next
    case (Inr x)
    obtain s h' where x: "settleTS r v h = Inr (s, h')" using Inr by (cases x) auto
    with HSettleOnLoop settleTS_inv [OF inv x] settleTS_bridge [OF x, of connect] show ?thesis
      by (auto simp: blocked_inv intro: exI [of _ "Post _"])
  qed
next
  case (HReturn s)
  with en obtain v where "ht_sems h s = Some v" "0 < v" by (auto split: option.splits)
  from settleTS_return_inv [OF inv this] HReturn show ?thesis by (auto simp: blocked_inv)
next
  case (HPool k) with threadPoolRun_inv [OF inv, of k] show ?thesis by (simp add: threadPoolRun_result)
next
  case (HPoolRun w) with en work_run_inv [OF inv, of w] show ?thesis by auto
next
  case (HPoolDone w) with en work_done_inv [OF inv, of w] show ?thesis by auto
next
  case (HThread k) with runInNewThread_inv [OF inv, of k] show ?thesis
    by (simp add: runInNewThread_def new_closure_def Let_def)
next
  case (HThreadRun t) with en thread_run_inv [OF inv, of t] show ?thesis by auto
next
  case (HThreadEnd t) with inv show ?thesis by (simp add: thread_end_def blocked_inv)
qed

lemma ht_inv_start: "\<forall>n. RunFn n \<notin> set (rb_queue b @ rb_batch b @ rb_foreign b) \<Longrightarrow> ht_inv {#} (ht_zero b)"
  by (simp add: ht_inv_simps bridge_fns_def ht_zero_def fns_none thread_cl_def sem_cl_def)

lemma ht_reach_inv: "ht_reach connect h \<Longrightarrow> ht_inv {#} h \<and> rb_reach connect (ht_bridge h)"
proof (induction rule: ht_reach.induct)
  case (start b) then show ?case using ht_inv_start [of b] by (simp add: ht_zero_def)
next
  case (step h i h')
  then have "rb_inv (ht_bridge h)" using rb_reach_inv by blast
  with ht_step_ok [of h i connect] step show ?case by (auto intro: rb_reach.step)
qed


definition run_ht :: "ht_input list \<Rightarrow> host_threads res" where
  "run_ht is = foldR (\<lambda>i h. if ht_enabled i h then ht_step (\<lambda>_. Some 3) i h else Inl Uninit) is (ht_zero rtbridge_zero)"

lemma run_ht_start: "ht_reach (\<lambda>_. Some 3) (ht_zero rtbridge_zero)"
  by (rule ht_reach.start [OF rb_reach.start]) (simp add: rtbridge_zero_def)

lemma run_ht_reach: "run_ht is = Inr h \<Longrightarrow> ht_reach (\<lambda>_. Some 3) h"
  unfolding run_ht_def
  by (erule foldR_inv [where P = "ht_reach (\<lambda>_. Some 3)"])
    (auto split: if_splits intro: ht_reach.intros run_ht_start)

text \<open>A thread ran its function, the pool joined it, and the work is about to be freed.\<close>

definition a_thread :: "ht_input list" where
  "a_thread = [HBridge (InitUv 1), HThread 7, HThreadRun 0, HThreadEnd 0, HPoolRun 0]"

lemma a_thread_runs:
  "case run_ht a_thread of Inl _ \<Rightarrow> False
   | Inr h \<Rightarrow> ht_enabled (HPoolDone 0) h \<and> ht_log h = [RanUser 7, Joined 0] \<and> ht_closures h 0 = None \<and> ht_closures h 1 = None
       \<and> ht_threads h 0 = None"
  by code_simp



text \<open>Two threads settle two returns; the loop runs the later one first.\<close>

definition two_settles :: "ht_input list" where
  "two_settles = [HBridge (InitUv 1), HSettle 4 Resolved, HSettle 5 (Rejected ''busy''), HBridge Wake, HBridge RunNext]"

lemma two_settles_run:
  "case run_ht two_settles of Inl _ \<Rightarrow> False
   | Inr h \<Rightarrow> ht_next_sem h = 2 \<and> ht_sems h 1 = Some 1 \<and> ht_sems h 0 = Some 0 \<and>
       ht_log h = [AskedTS 0 4 Resolved, AskedTS 1 5 (Rejected ''busy''), Settled 1 5 (Rejected ''busy'')]"
  by code_simp


section \<open>Settling on the loop thread\<close>

inductive ht_later :: "(string \<Rightarrow> ioid option) \<Rightarrow> host_threads \<Rightarrow> host_threads \<Rightarrow> bool" for connect h where
  now: "ht_later connect h h"
| step: "ht_later connect h g \<Longrightarrow> ht_enabled i g \<Longrightarrow> ht_step connect i g = Inr g' \<Longrightarrow> ht_later connect h g'"

text \<open>The loop thread waits for a closure that only the loop thread would run.\<close>

definition self_wait :: "semid \<Rightarrow> host_threads \<Rightarrow> bool" where
  "self_wait s h \<longleftrightarrow> ht_blocked h = Some s \<and> ht_sems h s = Some 0 \<and>
     (\<exists>n r v. ht_closures h n = Some (SettleThen r v s) \<and> RunFn n \<in> set (rb_queue (ht_bridge h) @ rb_batch (ht_bridge h)))"

lemma rtbiohandle_queue: "rtbiohandle connect r b = Inr b' \<Longrightarrow> rb_queue b' = rb_queue b \<and> rb_batch b' = rb_batch b"
  using rtbiohandle_same [of connect r b b'] by (simp add: same_tasks_def)

lemma off_loop_queue:
  assumes run: "rb_step connect i b = Inr b'" and off: "\<not> on_loop i"
  shows "set (rb_queue b @ rb_batch b) \<subseteq> set (rb_queue b' @ rb_batch b')"
proof -
  have disp: "rtbioreqdispatch rs io name b = Inr b' \<Longrightarrow> set (rb_queue b @ rb_batch b) \<subseteq> set (rb_queue b' @ rb_batch b')" for rs io name
    by (auto simp: rtbioreqdispatch_def Let_def bridge_simps split: option.splits executor.splits)
  show ?thesis
  proof (cases i)
    case RunForeign
    show ?thesis
    proof (cases "rb_foreign b")
      case Nil with run RunForeign show ?thesis by simp
    next
      case (Cons f fs)
      with run RunForeign show ?thesis
        by (cases f) (auto dest!: rtbiohandle_queue)
    qed
  next
    case (Post n) with run show ?thesis by (auto simp: bridge_simps split: option.splits executor.splits)
  next
    case (Return r) with run show ?thesis by (auto simp: rtbioreqdispatch_return_def ioreq_at_def bridge_simps split: option.splits)
  next
    case (InitUv l) with run show ?thesis by (auto simp: rtbridge_init_uv_def bridge_simps split: if_splits)
  next
    case InitAndRun with run show ?thesis by (auto simp: rtbridge_init_and_run_def bridge_simps split: if_splits)
  next
    case (ThreadStart l) with run show ?thesis
      by (auto simp: newloopthread_start_def rtbridge_init_uv_def bridge_simps split: if_splits)
  qed (use run off disp in \<open>auto simp: rtbridge_brecv_def rtbridge_bsend_def rtbridge_pipe_connect_def rtbridge_io_close_def
    rtbridge_deinit_def\<close>)
qed

text \<open>What running another closure leaves: its semaphore and the closure that posts it.\<close>

lemma runCppFunction_others:
  assumes run: "runCppFunction m h = Inr h'" and so: "sems_once h" and n: "ht_closures h n = Some (SettleThen r v s)"
    and "m \<noteq> n" and fresh: "ht_next h \<noteq> n"
  shows "ht_closures h' n = Some (SettleThen r v s) \<and> ht_sems h' s = ht_sems h s \<and> ht_blocked h' = ht_blocked h \<and> ht_bridge h' = ht_bridge h"
proof -
  obtain c where c: "ht_closures h m = Some c" using run by (auto simp: runCppFunction_def split: option.splits)
  have once: "ht_closures h m = Some (SettleThen r' v' s) \<Longrightarrow> m = n" for r' v'
    using so n unfolding sems_once_def sem_cl_Some by blast
  with c run n assms(4) fresh show ?thesis
    by (cases c) (auto simp: runCppFunction_def ht_say_def post_sem_def threadPoolRun_result split: option.splits)
qed

lemma self_wait_intro:
  "ht_blocked h' = Some s \<Longrightarrow> ht_sems h' s = Some 0 \<Longrightarrow> ht_closures h' n = Some (SettleThen r v s) \<Longrightarrow>
   RunFn n \<in> set (rb_queue (ht_bridge h') @ rb_batch (ht_bridge h')) \<Longrightarrow> self_wait s h'"
  unfolding self_wait_def by blast

lemma bridge_fns_queue: "RunFn n \<in> set (rb_queue b @ rb_batch b) \<Longrightarrow> n \<in># bridge_fns b"
  by (auto simp: bridge_fns_def)

text \<open>A closure the executor holds is not the one a work or a foreign executor runs.\<close>

lemma work_other:
  assumes inv: "ht_inv {#} h" and "n \<in># bridge_fns (ht_bridge h)" and "w \<in> set (ht_pool h)" "ht_works h w = Some m"
  shows "m \<noteq> n"
proof
  assume "m = n"
  with assms(3,4) have "n \<in># mset (map (\<lambda>w. the (ht_works h w)) (ht_pool h))" by force
  with assms(2) have "2 \<le> count (held h) n" unfolding held_def
    by (simp only: count_union count_greater_zero_iff [symmetric])
  with inv show False unfolding ht_inv_def closures_held_def
    by (metis add_0 Suc_1 not_less_eq_eq One_nat_def zero_le le_0_eq order_refl nat.distinct(1))
qed

lemma foreign_other:
  assumes inv: "ht_inv {#} h" and n: "RunFn n \<in> set (rb_queue (ht_bridge h) @ rb_batch (ht_bridge h))"
    and "RunFn m \<in> set (rb_foreign (ht_bridge h))"
  shows "m \<noteq> n"
proof
  assume "m = n"
  then have "0 < count (mset (fns (rb_foreign (ht_bridge h)))) n" using assms(3) by simp
  moreover have "0 < count (mset (fns (rb_queue (ht_bridge h))) + mset (fns (rb_batch (ht_bridge h)))) n" using n by auto
  ultimately have "2 \<le> count (held h) n" unfolding held_def bridge_fns_def by (simp only: count_union)
  with inv show False unfolding ht_inv_def closures_held_def
    by (metis add_0 Suc_1 not_less_eq_eq One_nat_def zero_le le_0_eq order_refl nat.distinct(1))
qed

lemma self_wait_step:
  assumes inv: "ht_inv {#} h" and wait: "self_wait s h" and en: "ht_enabled i h" and run: "ht_step connect i h = Inr h'"
  shows "self_wait s h'"
proof -
  from wait obtain n r v where w: "ht_blocked h = Some s" "ht_sems h s = Some 0" "ht_closures h n = Some (SettleThen r v s)"
    "RunFn n \<in> set (rb_queue (ht_bridge h) @ rb_batch (ht_bridge h))" unfolding self_wait_def by blast
  have fresh: "ht_next h \<noteq> n" using fresh_closure [OF inv] w(3) by auto
  have snew: "ht_next_sem h \<noteq> s" using inv w(2) unfolding ht_inv_def sems_once_def by (metis le_refl option.distinct(1))
  show ?thesis
  proof (cases i)
    case (HBridge j)
    with en have off: "\<not> on_loop j" using w(1) by (auto split: rb_input.splits)
    from run HBridge obtain b where b: "rb_step connect j (ht_bridge h) = Inr b" by (auto simp: bridge_step_runs)
    have q: "RunFn n \<in> set (rb_queue b @ rb_batch b)" using off_loop_queue [OF b off] w(4) by blast
    show ?thesis
    proof (cases "runs_fn j (ht_bridge h)")
      case None
      with run HBridge b have "h' = h\<lparr>ht_bridge := b\<rparr>" by (simp add: bridge_step_runs)
      with w q show ?thesis by (intro self_wait_intro [of _ _ n r v]) simp_all
    next
      case (Some m)
      have "RunFn m \<in> set (rb_foreign (ht_bridge h))"
        using Some off by (cases j) (auto elim!: first_fn.elims)
      from foreign_other [OF inv w(4) this] have m: "m \<noteq> n" .
      have "sems_once (h\<lparr>ht_bridge := b\<rparr>)" using inv by (simp add: ht_inv_def sems_once_def)
      moreover have "runCppFunction m (h\<lparr>ht_bridge := b\<rparr>) = Inr h'" using run HBridge b Some by (simp add: bridge_step_runs)
      ultimately show ?thesis
        using runCppFunction_others [of m "h\<lparr>ht_bridge := b\<rparr>" h' n r v s] w m q fresh
        by (intro self_wait_intro [of _ _ n r v]) simp_all
    qed
  next
    case (HPost k)
    with run obtain b where b: "pipe_executor (RunFn (ht_next h)) (ht_bridge h) = Inr b"
      "h' = h\<lparr>ht_bridge := b, ht_closures := (ht_closures h)(ht_next h \<mapsto> UserFn k), ht_next := ht_next h + 1\<rparr>"
      by (auto simp: postRunnable_def new_closure_def)
    have "RunFn n \<in> set (rb_queue b @ rb_batch b)"
      using off_loop_queue [of "\<lambda>_. None" "Post (ht_next h)" "ht_bridge h" b] b(1) w(4) by auto
    with w b(2) fresh show ?thesis by (intro self_wait_intro [of _ _ n r v]) simp_all
  next
    case (HSettle ret u)
    with run obtain b where b: "pipe_executor (RunFn (ht_next h)) (ht_bridge h) = Inr b"
      "h' = (ht_say (AskedTS (ht_next_sem h) ret u) (h\<lparr>ht_sems := (ht_sems h)(ht_next_sem h \<mapsto> 0), ht_next_sem := ht_next_sem h + 1\<rparr>))
         \<lparr>ht_bridge := b, ht_closures := (ht_closures h)(ht_next h \<mapsto> SettleThen ret u (ht_next_sem h)), ht_next := ht_next h + 1\<rparr>"
      by (auto simp: settleTS_def Let_def postRunnable_def new_closure_def ht_say_def)
    have "RunFn n \<in> set (rb_queue b @ rb_batch b)"
      using off_loop_queue [of "\<lambda>_. None" "Post (ht_next h)" "ht_bridge h" b] b(1) w(4) by auto
    with w b(2) fresh snew show ?thesis by (intro self_wait_intro [of _ _ n r v]) (simp_all add: ht_say_def)
  next
    case (HReturn u)
    with en w(2) have u: "u \<noteq> s" by (auto split: option.splits)
    with HReturn run w show ?thesis
      by (intro self_wait_intro [of _ _ n r v]) (auto simp: settleTS_return_def ht_say_def split: option.splits)
  next
    case (HPoolRun x)
    with en have x: "x \<in> set (ht_pool h)" by simp
    let ?g = "h\<lparr>ht_pool := remove1 x (ht_pool h), ht_after := ht_after h @ [x]\<rparr>"
    from HPoolRun run obtain m where m: "ht_works h x = Some m" "runCppFunction m ?g = Inr h'"
      by (auto simp: work_run_def split: option.splits)
    have "sems_once ?g" using inv by (simp add: ht_inv_def sems_once_def)
    with runCppFunction_others [OF m(2), of n r v s] work_other [OF inv bridge_fns_queue [OF w(4)] x m(1)] w fresh
    show ?thesis by (intro self_wait_intro [of _ _ n r v]) simp_all
  next
    case (HThreadRun t)
    with en have t: "t \<in> set (ht_running h)" by simp
    let ?g = "h\<lparr>ht_running := remove1 t (ht_running h), ht_ending := ht_ending h @ [t]\<rparr>"
    from inv t obtain m k where m: "ht_threads h t = Some m" "ht_closures h m = Some (ThreadBody k t)"
      unfolding ht_inv_def threads_once_def thread_cl_Some by blast
    with HThreadRun run have go: "runCppFunction m ?g = Inr h'" by (simp add: thread_run_def)
    have "sems_once ?g" "m \<noteq> n" using inv m w(3) by (auto simp: ht_inv_def sems_once_def)
    with runCppFunction_others [OF go, of n r v s] w fresh
    show ?thesis by (intro self_wait_intro [of _ _ n r v]) simp_all
  qed (use run en w fresh in \<open>auto simp: work_done_def thread_end_def threadPoolRun_result runInNewThread_def new_closure_def Let_def
    split: option.splits intro!: self_wait_intro [of _ _ n r v]\<close>)
qed

lemma ht_later_wait:
  assumes "ht_later connect h g" and "ht_reach connect h" and "self_wait s h"
  shows "self_wait s g \<and> ht_reach connect g"
  using assms
proof (induction rule: ht_later.induct)
  case (step g i g')
  then have g: "self_wait s g" "ht_reach connect g" by blast+
  from ht_reach_inv [OF g(2)] have "ht_inv {#} g" by blast
  from self_wait_step [OF this g(1) step.hyps(2,3)] ht_reach.step [OF g(2) step.hyps(2,3)] show ?case by blast
qed simp

text \<open>
  C40. \<open>resolveTS\<close> or \<open>rejectTS\<close> called on the loop thread itself never returns when the executor is the
  loop's own queue: the function that would settle the return and post the semaphore is queued for the
  thread that waits.  Whatever the other threads do afterwards, the return is not settled and the loop
  thread stays blocked.
\<close>

theorem settle_on_loop_never_returns:
  assumes "ht_reach connect h" and "rb_executor (ht_bridge h) = Some AsyncExec"
    and "ht_enabled (HSettleOnLoop ret v) h" and "ht_step connect (HSettleOnLoop ret v) h = Inr h1"
    and "ht_later connect h1 h2"
  shows "ht_blocked h2 = Some (ht_next_sem h) \<and> \<not> ht_enabled (HReturn (ht_next_sem h)) h2 \<and>
    settled (ht_next_sem h) (ht_log h2) = []"
proof -
  let ?s = "ht_next_sem h"
  have h1: "ht_reach connect h1" by (rule ht_reach.step [OF assms(1,3,4)])
  have "self_wait ?s h1"
    using assms(2,4)
    by (intro self_wait_intro [of _ _ "ht_next h" ret v])
      (auto simp: settleTS_def Let_def postRunnable_def new_closure_def ht_say_def pipe_executor_def bridge_simps)
  from ht_later_wait [OF assms(5) h1 this] have h2: "self_wait ?s h2" "ht_reach connect h2" by blast+
  then have "sems_once h2" using ht_reach_inv by (simp add: ht_inv_def)
  with h2(1) have "settled ?s (ht_log h2) = []" unfolding self_wait_def sems_once_def sem_cl_Some by blast
  with h2(1) show ?thesis by (auto simp: self_wait_def)
qed

definition settles_on_loop :: "ht_input list" where
  "settles_on_loop = [HBridge (InitUv 1)]"

lemma settles_on_loop_runs:
  "case run_ht settles_on_loop of Inl _ \<Rightarrow> False
   | Inr h \<Rightarrow> rb_executor (ht_bridge h) = Some AsyncExec \<and> ht_next_sem h = 0 \<and> ht_blocked h = None \<and>
       (case foldR (ht_step (\<lambda>_. Some 3)) [HSettleOnLoop 4 Resolved, HPost 9] h of Inl _ \<Rightarrow> False
        | Inr g \<Rightarrow> rb_queue (ht_bridge g) = [RunFn 1, RunFn 0])"
  by code_simp

theorem settle_on_loop_never_returns_witness:
  "\<exists>h g. run_ht settles_on_loop = Inr h \<and>
     foldR (ht_step (\<lambda>_. Some 3)) [HSettleOnLoop 4 Resolved, HPost 9] h = Inr g \<and> ht_blocked g = Some 0"
proof -
  obtain h g where h: "run_ht settles_on_loop = Inr h" "rb_executor (ht_bridge h) = Some AsyncExec" "ht_next_sem h = 0"
    "ht_blocked h = None" "foldR (ht_step (\<lambda>_. Some 3)) [HSettleOnLoop 4 Resolved, HPost 9] h = Inr g"
    using settles_on_loop_runs by (auto split: sum.splits)
  from h(5) obtain h1 where h1: "ht_step (\<lambda>_. Some 3) (HSettleOnLoop 4 Resolved) h = Inr h1"
    "ht_step (\<lambda>_. Some 3) (HPost 9) h1 = Inr g" by auto
  have "ht_later (\<lambda>_. Some 3) h1 g" by (rule ht_later.step [OF ht_later.now _ h1(2)]) simp
  from settle_on_loop_never_returns [OF run_ht_reach [OF h(1)] h(2) _ h1(1) this] h show ?thesis by auto
qed

end
