(* ===== verification/Modules.thy ===== *)
theory Modules
  imports RtbBase UvFiles RtHost
begin

text \<open>
  How the modules of the runtime bridge are found by name: the functions \<open>init\<close> of
  \<open>c-modules/pxprpc_rtbridge_base/init.hpp\<close> and \<open>c-modules/pxprpc_libuv_rpc/init.hpp\<close> make one
  \<open>NamedFunctionPPImpl1\<close> per function and add it to the default function map, which the manager's servers
  use.  A function object is an address; what it runs is the model's definition of its closure.  libuv, the
  operating system, the memory file and foreign functions are parameters.
\<close>

section \<open>The functions and their names\<close>

datatype base_fn =
    FServe | FAccept | FConnect | FIoToRawAddr | FIoFromRawAddr | FIoSend | FIoReceive | FIoSetAutoClose
  | FNewTcpRpcServer | FMemoryAlloc | FMemoryAccess | FMemoryRead | FMemoryWrite | FMemoryInfo | FMemoryMapfile
  | FSimpleffiCall | FSizeofPointer | FVariableGet | FVariableSet | FVariableOnChange

datatype uv_fn =
    FFsOpen | FFsRead | FFsWrite | FFsUnlink | FFsMkdir | FFsRmdir | FFsScandir | FFsStat | FFsRename | FFsFtruncate
  | FFsReadlink | FFsChmod | FStreamRead | FStreamWrite | FStreamAccept | FSpawn | FProcessStdio | FProcessGetResult
  | FPipeBind | FPipeConnect | FTcpBind | FTcpConnect | FTcpGetpeername | FTcpSetoption | FInterfaceAddress
  | FOsGetenv | FOsSetenv | FOsUnsetenv | FOsGetprop | FOsSetprop | FGetMemoryInfo | FGettimeofday
  | FUdpBind | FUdpSend | FUdpRecv

datatype module_fn = BaseFn base_fn | UvFn uv_fn

definition base_table :: "(string \<times> base_fn) list" where
  "base_table =
     [(''pxprpc_pipe_pp.serve'', FServe), (''pxprpc_pipe_pp.accept'', FAccept), (''pxprpc_pipe_pp.connect'', FConnect),
      (''pxprpc_pp.io_to_raw_addr'', FIoToRawAddr), (''pxprpc_pp.io_from_raw_addr'', FIoFromRawAddr),
      (''pxprpc_pp.io_send'', FIoSend), (''pxprpc_pp.io_receive'', FIoReceive),
      (''pxprpc_pp.io_set_auto_close'', FIoSetAutoClose),
      (''pxprpc_rtbridge_host.new_tcp_rpc_server'', FNewTcpRpcServer),
      (''pxprpc_rtbridge.memory_alloc'', FMemoryAlloc), (''pxprpc_rtbridge.memory_access'', FMemoryAccess),
      (''pxprpc_rtbridge.memory_read'', FMemoryRead), (''pxprpc_rtbridge.memory_write'', FMemoryWrite),
      (''pxprpc_rtbridge.memory_info'', FMemoryInfo), (''pxprpc_rtbridge.memory_mapfile'', FMemoryMapfile),
      (''pxprpc_rtbridge.simpleffi_call'', FSimpleffiCall), (''pxprpc_rtbridge.sizeof_pointer'', FSizeofPointer),
      (''pxprpc_rtbridge.variable_get'', FVariableGet), (''pxprpc_rtbridge.variable_set'', FVariableSet),
      (''pxprpc_rtbridge.variable_on_change'', FVariableOnChange)]"

definition uv_table :: "(string \<times> uv_fn) list" where
  "uv_table =
     [(''pxprpc_libuv.fs_open'', FFsOpen), (''pxprpc_libuv.fs_read'', FFsRead),
      (''pxprpc_libuv.fs_write'', FFsWrite), (''pxprpc_libuv.fs_unlink'', FFsUnlink),
      (''pxprpc_libuv.fs_mkdir'', FFsMkdir), (''pxprpc_libuv.fs_rmdir'', FFsRmdir),
      (''pxprpc_libuv.fs_scandir'', FFsScandir), (''pxprpc_libuv.fs_stat'', FFsStat),
      (''pxprpc_libuv.fs_rename'', FFsRename), (''pxprpc_libuv.fs_ftruncate'', FFsFtruncate),
      (''pxprpc_libuv.fs_readlink'', FFsReadlink), (''pxprpc_libuv.fs_chmod'', FFsChmod),
      (''pxprpc_libuv.stream_read'', FStreamRead), (''pxprpc_libuv.stream_write'', FStreamWrite),
      (''pxprpc_libuv.stream_accept'', FStreamAccept), (''pxprpc_libuv.spawn'', FSpawn),
      (''pxprpc_libuv.process_stdio'', FProcessStdio), (''pxprpc_libuv.process_get_result'', FProcessGetResult),
      (''pxprpc_libuv.pipe_bind'', FPipeBind), (''pxprpc_libuv.pipe_connect'', FPipeConnect),
      (''pxprpc_libuv.tcp_bind'', FTcpBind), (''pxprpc_libuv.tcp_connect'', FTcpConnect),
      (''pxprpc_libuv.tcp_getpeername'', FTcpGetpeername), (''pxprpc_libuv.tcp_setoption'', FTcpSetoption),
      (''pxprpc_libuv.interface_address'', FInterfaceAddress), (''pxprpc_libuv.os_getenv'', FOsGetenv),
      (''pxprpc_libuv.os_setenv'', FOsSetenv), (''pxprpc_libuv.os_unsetenv'', FOsUnsetenv),
      (''pxprpc_libuv.os_getprop'', FOsGetprop), (''pxprpc_libuv.os_setprop'', FOsSetprop),
      (''pxprpc_libuv.get_memory_info'', FGetMemoryInfo), (''pxprpc_libuv.gettimeofday'', FGettimeofday),
      (''pxprpc_libuv.udp_bind'', FUdpBind), (''pxprpc_libuv.udp_send'', FUdpSend),
      (''pxprpc_libuv.udp_recv'', FUdpRecv)]"

text \<open>What the closures use that is not under \<open>src/\<close>, and the addresses of the objects of the model.\<close>

record module_env =
  en_libuv :: libuv
  en_os :: uv_os
  en_raw :: "oid \<Rightarrow> bytes"
  en_io_addr :: "ionum \<Rightarrow> u64"
  en_addr_io :: "u64 \<Rightarrow> ionum"
  en_fill :: u8
  en_mem_at :: "u64 \<Rightarrow> memid option"
  en_mem_addr :: "memid option \<Rightarrow> u64"
  en_memfile :: "string \<Rightarrow> u8 \<Rightarrow> u64 \<Rightarrow> (bytes + bytes) res"
  en_ffi :: "u64 \<Rightarrow> u64 list \<Rightarrow> bworld \<Rightarrow> u64 \<times> bworld"

fun base_fn_run :: "module_env \<Rightarrow> base_fn \<Rightarrow> oid \<Rightarrow> oid \<Rightarrow> bworld \<Rightarrow> bworld res" where
  "base_fn_run e FServe = fn_serve"
| "base_fn_run e FAccept = fn_accept"
| "base_fn_run e FConnect = fn_connect"
| "base_fn_run e FIoToRawAddr = fn_io_to_raw_addr (en_io_addr e)"
| "base_fn_run e FIoFromRawAddr = fn_io_from_raw_addr (en_addr_io e)"
| "base_fn_run e FIoSend = fn_io_send"
| "base_fn_run e FIoReceive = fn_io_receive"
| "base_fn_run e FIoSetAutoClose = fn_io_set_auto_close"
| "base_fn_run e FNewTcpRpcServer = fn_new_tcp_rpc_server"
| "base_fn_run e FMemoryAlloc = fn_memory_alloc (en_fill e)"
| "base_fn_run e FMemoryAccess = fn_memory_access (en_mem_at e)"
| "base_fn_run e FMemoryRead = fn_memory_read"
| "base_fn_run e FMemoryWrite = fn_memory_write"
| "base_fn_run e FMemoryInfo = fn_memory_info (en_mem_addr e)"
| "base_fn_run e FMemoryMapfile = fn_memory_mapfile (en_memfile e)"
| "base_fn_run e FSimpleffiCall = fn_simpleffi_call (en_ffi e)"
| "base_fn_run e FSizeofPointer = fn_sizeof_pointer"
| "base_fn_run e FVariableGet = fn_variable_get"
| "base_fn_run e FVariableSet = fn_variable_set"
| "base_fn_run e FVariableOnChange = fn_variable_on_change"

fun uv_fn_run :: "module_env \<Rightarrow> uv_fn \<Rightarrow> oid \<Rightarrow> oid \<Rightarrow> uv_world \<Rightarrow> uv_world res" where
  "uv_fn_run e FFsOpen = fn_fs_open"
| "uv_fn_run e FFsRead = fn_fs_read"
| "uv_fn_run e FFsWrite = fn_fs_write"
| "uv_fn_run e FFsUnlink = fn_fs_unlink"
| "uv_fn_run e FFsMkdir = fn_fs_mkdir"
| "uv_fn_run e FFsRmdir = fn_fs_rmdir"
| "uv_fn_run e FFsScandir = fn_fs_scandir"
| "uv_fn_run e FFsStat = fn_fs_stat"
| "uv_fn_run e FFsRename = fn_fs_rename"
| "uv_fn_run e FFsFtruncate = fn_fs_ftruncate"
| "uv_fn_run e FFsReadlink = fn_fs_readlink"
| "uv_fn_run e FFsChmod = fn_fs_chmod"
| "uv_fn_run e FStreamRead = fn_stream_read (en_libuv e)"
| "uv_fn_run e FStreamWrite = fn_stream_write (en_libuv e)"
| "uv_fn_run e FStreamAccept = fn_stream_accept (en_libuv e)"
| "uv_fn_run e FSpawn = fn_spawn (en_libuv e)"
| "uv_fn_run e FProcessStdio = fn_process_stdio"
| "uv_fn_run e FProcessGetResult = fn_process_get_result"
| "uv_fn_run e FPipeBind = fn_pipe_bind (en_libuv e)"
| "uv_fn_run e FPipeConnect = fn_pipe_connect"
| "uv_fn_run e FTcpBind = fn_tcp_bind (en_libuv e)"
| "uv_fn_run e FTcpConnect = fn_tcp_connect (en_libuv e)"
| "uv_fn_run e FTcpGetpeername = fn_tcp_getpeername (en_libuv e)"
| "uv_fn_run e FTcpSetoption = fn_tcp_setoption (en_libuv e)"
| "uv_fn_run e FInterfaceAddress = fn_interface_address (en_libuv e) (en_os e)"
| "uv_fn_run e FOsGetenv = fn_os_getenv (en_libuv e) (en_os e)"
| "uv_fn_run e FOsSetenv = fn_os_setenv (en_libuv e) (en_os e)"
| "uv_fn_run e FOsUnsetenv = fn_os_unsetenv (en_libuv e) (en_os e)"
| "uv_fn_run e FOsGetprop = fn_os_getprop (en_libuv e) (en_os e)"
| "uv_fn_run e FOsSetprop = fn_os_setprop (en_libuv e) (en_os e)"
| "uv_fn_run e FGetMemoryInfo = fn_get_memory_info (en_os e)"
| "uv_fn_run e FGettimeofday = fn_gettimeofday (en_libuv e) (en_os e)"
| "uv_fn_run e FUdpBind = fn_udp_bind (en_libuv e) (en_raw e)"
| "uv_fn_run e FUdpSend = fn_udp_send (en_libuv e)"
| "uv_fn_run e FUdpRecv = fn_udp_recv (en_libuv e)"

text \<open>The two modules share the requests and the objects of the calls.\<close>

record module_world =
  mw_pp :: pworld
  mw_base :: bworld
  mw_uv :: uv_world

definition module_fn_run :: "module_env \<Rightarrow> module_fn \<Rightarrow> oid \<Rightarrow> oid \<Rightarrow> module_world \<Rightarrow> module_world res" where
  "module_fn_run e f p t w =
     (case f of
        BaseFn g \<Rightarrow> bindR (base_fn_run e g p t ((mw_base w)\<lparr>bw_pp := mw_pp w\<rparr>)) (\<lambda>b. Inr (w\<lparr>mw_base := b, mw_pp := bw_pp b\<rparr>))
      | UvFn g \<Rightarrow> bindR (uv_fn_run e g p t ((mw_uv w)\<lparr>uv_pp := mw_pp w\<rparr>)) (\<lambda>u. Inr (w\<lparr>mw_uv := u, mw_pp := uv_pp u\<rparr>)))"

section \<open>Registration\<close>

record registry =
  rg_map :: function_map
  rg_fns :: "addr \<Rightarrow> module_fn option"
  rg_next :: addr
  rg_inited :: bool                      \<comment> \<open>\<open>inited\<close> of the base module\<close>

definition registry_new :: registry where
  "registry_new = \<lparr>rg_map = Map.empty, rg_fns = (\<lambda>_. None), rg_next = 0, rg_inited = False\<rparr>"

definition register :: "string \<times> module_fn \<Rightarrow> registry \<Rightarrow> registry" where
  "register nf r =
     r\<lparr>rg_map := fm_add (map of_char (fst nf)) (rg_next r) (rg_map r), rg_fns := (rg_fns r)(rg_next r \<mapsto> snd nf),
       rg_next := rg_next r + 1\<rparr>"

definition base_init :: "registry \<Rightarrow> registry" where
  "base_init r = (if rg_inited r then r else (fold register (map (map_prod id BaseFn) base_table) r)\<lparr>rg_inited := True\<rparr>)"

definition uv_init :: "registry \<Rightarrow> registry" where
  "uv_init r = fold register (map (map_prod id UvFn) uv_table) r"

section \<open>What a server finds\<close>

definition module_table :: "(string \<times> module_fn) list" where
  "module_table = map (map_prod id BaseFn) base_table @ map (map_prod id UvFn) uv_table"

text \<open>The map as the server sees it, and the call of the function at an address.\<close>

definition registry_get :: "registry \<Rightarrow> bytes \<Rightarrow> addr option" where
  "registry_get r name = fm_get name (rg_map r)"

definition module_call :: "module_env \<Rightarrow> registry \<Rightarrow> addr \<Rightarrow> reqid \<Rightarrow> module_world \<Rightarrow> module_world res" where
  "module_call e r a req w =
     (case rg_fns r a of
        None \<Rightarrow> Inl UseAfterFree
      | Some f \<Rightarrow> bindR (wrap_call req (mw_pp w)) (\<lambda>((p, t), pp). module_fn_run e f p t (w\<lparr>mw_pp := pp\<rparr>)))"

section \<open>Registration puts every function under its name\<close>

abbreviation c_name :: "string \<Rightarrow> bytes" where
  "c_name \<equiv> map of_char"

lemma register_at:
  "registry_get (register x r) (c_name (fst x)) = Some (rg_next r)" "rg_fns (register x r) (rg_next r) = Some (snd x)"
  "rg_next (register x r) = rg_next r + 1"
  by (simp_all add: register_def registry_get_def fm_add_def fm_get_def)

lemma fold_register_other:
  "name \<notin> set (map (c_name \<circ> fst) xs) \<Longrightarrow> registry_get (fold register xs r) name = registry_get r name"
  by (induction xs arbitrary: r) (auto simp: register_def registry_get_def fm_add_def fm_get_def)

lemma fold_register_fields:
  "rg_next (fold register xs r) = rg_next r + length xs"
  "a < rg_next r \<Longrightarrow> rg_fns (fold register xs r) a = rg_fns r a"
  "rg_inited (fold register xs r) = rg_inited r"
  by (induction xs arbitrary: r) (simp_all add: register_def)

lemma fold_register_at:
  assumes "distinct (map (c_name \<circ> fst) xs)" and "i < length xs"
  shows "registry_get (fold register xs r) (c_name (fst (xs ! i))) = Some (rg_next r + i) \<and>
    rg_fns (fold register xs r) (rg_next r + i) = Some (snd (xs ! i))"
  using assms
proof (induction xs arbitrary: r i)
  case (Cons x xs)
  show ?case
  proof (cases i)
    case 0
    have "c_name (fst x) \<notin> set (map (c_name \<circ> fst) xs)" using Cons.prems(1) by auto
    from fold_register_other [OF this, of "register x r"] fold_register_fields(2) [of "rg_next r" "register x r" xs] 0
    show ?thesis by (simp add: register_at)
  next
    case (Suc j)
    with Cons.IH [of j "register x r"] Cons.prems show ?thesis by (simp add: register_at)
  qed
qed simp

lemma module_names: "distinct (map (c_name \<circ> fst) module_table)"
  by code_simp

lemma module_name_lengths: "\<forall>x \<in> set module_table. length (fst x) < 64"
  by code_simp

definition all_modules :: registry where
  "all_modules = uv_init (base_init registry_new)"

lemma all_modules_fold: "all_modules = (fold register module_table registry_new)\<lparr>rg_inited := True\<rparr>"
proof -
  have one: "register x (r\<lparr>rg_inited := b\<rparr>) = (register x r)\<lparr>rg_inited := b\<rparr>" for x r b by (simp add: register_def)
  have set: "fold register xs (r\<lparr>rg_inited := b\<rparr>) = (fold register xs r)\<lparr>rg_inited := b\<rparr>" for xs r b
    by (induction xs arbitrary: r) (simp_all add: one)
  show ?thesis by (simp add: all_modules_def uv_init_def base_init_def module_table_def registry_new_def set)
qed

lemma all_modules_at:
  assumes "i < length module_table"
  shows "registry_get all_modules (c_name (fst (module_table ! i))) = Some i" "rg_fns all_modules i = Some (snd (module_table ! i))"
  using fold_register_at [OF module_names assms, of registry_new]
  by (simp_all add: all_modules_fold registry_get_def registry_new_def)

lemma all_modules_other: "name \<notin> set (map (c_name \<circ> fst) module_table) \<Longrightarrow> registry_get all_modules name = None"
  using fold_register_other [of name module_table registry_new]
  by (simp add: all_modules_fold registry_get_def registry_new_def fm_get_def)

text \<open>The base module registers once; a second \<open>init\<close> of the libuv module makes new objects for its names.\<close>

lemma base_init_once: "base_init (base_init r) = base_init r"
  by (simp add: base_init_def)

lemma uv_init_again:
  "registry_get (uv_init all_modules) (c_name ''pxprpc_libuv.fs_open'') = Some 55"
  "rg_fns (uv_init all_modules) 55 = Some (UvFn FFsOpen)"
  by code_simp+

text \<open>
  C13. A manager's server finds the functions of the modules by their names.  For each of the 55 names a
  look-up is answered with the index of a slot that was free and now holds the function object registered
  under that name, a different one for each name, and a call of that object runs the closure the module
  gave the name; a look-up of any other name is answered with -1.
\<close>

theorem functions_by_name:
  assumes s: "open_reach s" "session \<noteq> 0xffffffff" "sv_funcmap s = Some (registry_get all_modules)"
    "pool_ok (sv_pool s)" "pool_room (sv_pool s)" and "length name < 2 ^ 32"
  shows "\<exists>s'. serv_event (EReceived b (packet_of session (-1) name)) s = Inr s' \<and>
    (if name \<in> set (map (c_name \<circ> fst) module_table)
     then \<exists>i j. i < length module_table \<and> name = c_name (fst (module_table ! i)) \<and>
        replied session (le32 (of_nat j)) s s' \<and> j \<notin> live_slots (sv_pool s) \<and> ref_object (slots (sv_pool s') ! j) = Some i \<and>
        (\<forall>e req w. module_call e all_modules i req w =
           bindR (wrap_call req (mw_pp w)) (\<lambda>((p, t), pp). module_fn_run e (snd (module_table ! i)) p t (w\<lparr>mw_pp := pp\<rparr>)))
     else replied session (le32 (-1)) s s')"
proof -
  note reply = getfunc_reply [OF s(1,2) assms(6) s(3,4,5), of b]
  show ?thesis
  proof (cases "name \<in> set (map (c_name \<circ> fst) module_table)")
    case True
    then obtain i where i: "i < length module_table" "name = c_name (fst (module_table ! i))"
      by (auto simp: in_set_conv_nth)
    have get: "registry_get all_modules name = Some i" using all_modules_at(1) [OF i(1)] i(2) by simp
    have call: "module_call e all_modules i req w =
        bindR (wrap_call req (mw_pp w)) (\<lambda>((p, t), pp). module_fn_run e (snd (module_table ! i)) p t (w\<lparr>mw_pp := pp\<rparr>))" for e req w
      by (simp add: module_call_def all_modules_at(2) [OF i(1)])
    from reply get obtain s' j where "serv_event (EReceived b (packet_of session (-1) name)) s = Inr s'"
      "replied session (le32 (of_nat j)) s s'" "j \<notin> live_slots (sv_pool s)" "ref_object (slots (sv_pool s') ! j) = Some i"
      by auto
    with True i call show ?thesis by auto
  next
    case False
    with reply all_modules_other [OF this] show ?thesis by auto
  qed
qed

lemma manager_starts:
  "\<exists>s. rtbmgrconnhandler get = Inr s \<and> open_reach s \<and> sv_funcmap s = Some get \<and> sv_pool s = pool_new"
proof -
  obtain s where s: "server_start (server_new (Some get) True) = Inr s"
    by (simp add: server_start_def server_new_def server_step1_def ctx_alive_def)
  have "open_reach s"
    using s serv_reach.start [OF s] by (auto simp: open_reach_def server_start_def server_new_def server_step1_def emit_def)
  with s show ?thesis by (auto simp: rtbmgrconnhandler_def server_start_def server_new_def server_step1_def emit_def pool_new_def)
qed

theorem functions_by_name_witness:
  "\<exists>s s' i j. rtbmgrconnhandler (registry_get all_modules) = Inr s \<and>
     serv_event (EReceived 0 (packet_of 5 (-1) (c_name ''pxprpc_rtbridge.sizeof_pointer''))) s = Inr s' \<and>
     replied 5 (le32 (of_nat j)) s s' \<and> ref_object (slots (sv_pool s') ! j) = Some i \<and>
     snd (module_table ! i) = BaseFn FSizeofPointer"
proof -
  let ?n = "c_name ''pxprpc_rtbridge.sizeof_pointer''"
  from manager_starts obtain s where s: "rtbmgrconnhandler (registry_get all_modules) = Inr s" "open_reach s"
    "sv_funcmap s = Some (registry_get all_modules)" "sv_pool s = pool_new" by blast
  then have p: "pool_ok (sv_pool s)" "pool_room (sv_pool s)" by (simp_all add: pool_new_room)
  have at: "module_table ! 16 = (''pxprpc_rtbridge.sizeof_pointer'', BaseFn FSizeofPointer)" "16 < length module_table"
    by code_simp+
  have known: "?n \<in> set (map (c_name \<circ> fst) module_table)" by code_simp
  have "length ?n < 2 ^ 32" "(5::u32) \<noteq> 0xffffffff" by simp_all
  from functions_by_name [OF s(2) this(2) s(3) p this(1), of 0, unfolded if_P [OF known]] obtain s' i j where
    r: "serv_event (EReceived 0 (packet_of 5 (-1) ?n)) s = Inr s'" "i < length module_table" "?n = c_name (fst (module_table ! i))"
      "replied 5 (le32 (of_nat j)) s s'" "ref_object (slots (sv_pool s') ! j) = Some i" by blast
  have "registry_get all_modules ?n = Some i" "registry_get all_modules ?n = Some 16"
    using all_modules_at(1) [OF r(2)] all_modules_at(1) [OF at(2)] r(3) at(1) by simp_all
  then have "snd (module_table ! i) = BaseFn FSizeofPointer" using at(1) by simp
  with s(1) r(1,4,5) show ?thesis by blast
qed

end
