(* ===== verification/Jni.thy ===== *)
theory Jni
  imports RtHost RtBridge
begin

text \<open>
  \<open>runtime_bridge/java/jnibridge.cpp\<close>: the native methods of the Java side on the host and its bridge.  A
  Java thread that calls a blocking method is a request of the bridge and what the method still has to do.
  The Java virtual machine's direct buffers (\<open>NewDirectByteBuffer\<close>, \<open>GetDirectBufferAddress\<close>,
  \<open>GetDirectBufferCapacity\<close>) and the numbers of addresses are parameters; native memory is a map from blocks
  to bytes.  Functions posted by the host are closures: the closure 0 is the one of \<open>ensureInited\<close>.
\<close>

section \<open>State\<close>

type_synonym jref = nat
type_synonym blockid = nat

record jni_env =
  je_address :: "jref \<Rightarrow> blockid option"
  je_capacity :: "jref \<Rightarrow> int"
  je_new :: "blockid option \<Rightarrow> int \<Rightarrow> jref option"
  je_mem_at :: "u64 \<Rightarrow> blockid option"
  je_mem_addr :: "blockid option \<Rightarrow> u64"
  je_io_at :: "u64 \<Rightarrow> ioid option"
  je_io_addr :: "ioid option \<Rightarrow> u64"

datatype jcall = InConnect | InSend jref | InReceive jref

datatype jresult = JLong u64 | JVoid | JObject "jref option"

record jni =
  jn_host :: host
  jn_bridge :: rtbridge
  jn_mem :: "blockid \<Rightarrow> bytes option"
  jn_calls :: "reqid \<Rightarrow> jcall option"
  jn_sent :: "reqid \<Rightarrow> (blockid option \<times> u32) option"      \<comment> \<open>\<open>part0\<close> of \<open>ioSend\<close>\<close>
  jn_received :: "reqid \<Rightarrow> (blockid option \<times> u32) option"  \<comment> \<open>\<open>part0\<close> of \<open>ioReceive\<close>, once it is set\<close>
  jn_next_io :: ioid
  jn_returned :: "(reqid \<times> jresult) list"
  jn_direct :: "(ioid \<times> blockid option) list"               \<comment> \<open>buffers given back with \<open>buf_free\<close>\<close>
  jn_closed :: "ioid list"                                   \<comment> \<open>\<open>close\<close> called by a Java thread\<close>

definition jni_zero :: jni where
  "jni_zero = \<lparr>jn_host = host_new, jn_bridge = rtbridge_zero, jn_mem = (\<lambda>_. None), jn_calls = (\<lambda>_. None),
     jn_sent = (\<lambda>_. None), jn_received = (\<lambda>_. None), jn_next_io = 1, jn_returned = [], jn_direct = [], jn_closed = []\<rparr>"

section \<open>C strings in direct buffers\<close>

definition c_string :: "bytes \<Rightarrow> string res" where
  "c_string m = (if 0 \<in> set m then Inr (map (\<lambda>x. char_of (unat x)) (takeWhile (\<lambda>x. x \<noteq> 0) m)) else Inl OutOfBounds)"

text \<open>The bytes of the C string before its terminator; the copy is padded with zeros.\<close>

definition strncpy :: "bytes \<Rightarrow> bytes \<Rightarrow> nat \<Rightarrow> bytes res" where
  "strncpy dst src n = write_mem dst 0 (take n src @ replicate (n - length src) 0)"

definition error_bytes :: "string \<Rightarrow> bytes" where
  "error_bytes e = takeWhile (\<lambda>x. x \<noteq> 0) (map of_char e)"

definition copy_error :: "jni_env \<Rightarrow> jref \<Rightarrow> string \<Rightarrow> jni \<Rightarrow> jni res" where
  "copy_error env errorString err j =
     (case je_address env errorString of
        None \<Rightarrow> Inl NullDeref
      | Some a \<Rightarrow>
          (case jn_mem j a of
             None \<Rightarrow> Inl UseAfterFree
           | Some m \<Rightarrow> bindR (strncpy m (error_bytes err) (nat (je_capacity env errorString))) (\<lambda>m.
               Inr (j\<lparr>jn_mem := (jn_mem j)(a \<mapsto> m)\<rparr>))))"

section \<open>Methods that do not block\<close>

definition accessMemory :: "jni_env \<Rightarrow> u64 \<Rightarrow> u32 \<Rightarrow> jref option" where
  "accessMemory env base len = je_new env (je_mem_at env base) (sint len)"

definition directBufferProperty :: "jni_env \<Rightarrow> jref \<Rightarrow> u32 \<Rightarrow> u64" where
  "directBufferProperty env buf fieldId =
     (if fieldId = 0 then je_mem_addr env (je_address env buf)
      else if fieldId = 1 then word_of_int (je_capacity env buf)
      else 0)"

definition pointerSize :: u32 where
  "pointerSize = 8"

definition ioBufFree :: "jni_env \<Rightarrow> u64 \<Rightarrow> jref \<Rightarrow> jni \<Rightarrow> jni res" where
  "ioBufFree env io buf j =
     (case je_io_at env io of
        None \<Rightarrow> Inl NullDeref
      | Some i \<Rightarrow> Inr (j\<lparr>jn_direct := jn_direct j @ [(i, je_address env buf)]\<rparr>))"

text \<open>The io is closed by the calling thread, at once.\<close>

definition ioClose :: "jni_env \<Rightarrow> u64 \<Rightarrow> jni \<Rightarrow> jni res" where
  "ioClose env io j =
     (case je_io_at env io of
        None \<Rightarrow> Inl NullDeref
      | Some i \<Rightarrow> Inr (j\<lparr>jn_closed := jn_closed j @ [i], jn_bridge := rb_say (IoClose i) (jn_bridge j)\<rparr>))"

text \<open>
  \<open>pxprpc_rtbridge_init_and_run\<close> waits until the new thread has set the loop \<open>l\<close> up; the result of
  \<open>ensureInited\<close> is dropped and nothing is written to the buffer.
\<close>

definition init_and_run :: "nat \<Rightarrow> rtbridge \<Rightarrow> string option \<times> rtbridge" where
  "init_and_run l b =
     (if rb_loop b \<noteq> None then (Some ''inited'', rtbridge_init_and_run b)
      else (None, newloopthread_start l ((rtbridge_init_and_run b)\<lparr>rb_threads := rb_threads b\<rparr>)))"

definition ensureRtbInited :: "nat \<Rightarrow> nat option list \<Rightarrow> jni \<Rightarrow> jni res" where
  "ensureRtbInited l mods j =
     (if ho_inited (jn_host j) = 0 then
        (let (err, b) = init_and_run l (jn_bridge j)
         in bindR (ensureInited err mods (jn_host j)) (\<lambda>(r, h).
            if r = None then bindR (pipe_executor (RunFn 0) b) (\<lambda>b. Inr (j\<lparr>jn_host := h, jn_bridge := b\<rparr>))
            else Inr (j\<lparr>jn_host := h, jn_bridge := b\<rparr>)))
      else bindR (ensureInited None mods (jn_host j)) (\<lambda>(r, h). Inr (j\<lparr>jn_host := h\<rparr>)))"

section \<open>Blocking methods up to the wait\<close>

text \<open>Each leaves a request of the bridge, whose number is the next one, and what to do on its return.\<close>

definition call_bridge :: "jcall \<Rightarrow> (rtbridge \<Rightarrow> rtbridge res) \<Rightarrow> jni \<Rightarrow> jni res" where
  "call_bridge c f j =
     bindR (f (jn_bridge j)) (\<lambda>b.
     Inr (j\<lparr>jn_bridge := b, jn_calls := (jn_calls j)(rb_fresh (jn_bridge j) \<mapsto> c)\<rparr>))"

definition pipeConnect :: "jni_env \<Rightarrow> jref \<Rightarrow> jni \<Rightarrow> jni res" where
  "pipeConnect env servName j =
     (case je_address env servName of
        None \<Rightarrow> Inl NullDeref
      | Some a \<Rightarrow>
          (case jn_mem j a of
             None \<Rightarrow> Inl UseAfterFree
           | Some m \<Rightarrow> bindR (c_string m) (\<lambda>name. call_bridge InConnect (rtbridge_pipe_connect name) j)))"

definition ioSend :: "jni_env \<Rightarrow> u64 \<Rightarrow> jref \<Rightarrow> jref \<Rightarrow> jni \<Rightarrow> jni res" where
  "ioSend env io nativeBuffer errorString j =
     (case je_io_at env io of
        None \<Rightarrow> Inl NullDeref
      | Some i \<Rightarrow>
          call_bridge (InSend errorString) (rtbridge_bsend i)
            (j\<lparr>jn_sent := (jn_sent j)(rb_fresh (jn_bridge j) \<mapsto>
                (je_address env nativeBuffer, word_of_int (je_capacity env nativeBuffer)))\<rparr>))"

definition ioReceive :: "jni_env \<Rightarrow> u64 \<Rightarrow> jref \<Rightarrow> jni \<Rightarrow> jni res" where
  "ioReceive env io errorString j =
     (case je_io_at env io of
        None \<Rightarrow> Inl NullDeref
      | Some i \<Rightarrow> call_bridge (InReceive errorString) (rtbridge_brecv i) j)"

section \<open>From the wait to the return\<close>

definition j_return :: "reqid \<Rightarrow> jresult \<Rightarrow> jni \<Rightarrow> jni" where
  "j_return r v j = j\<lparr>jn_returned := jn_returned j @ [(r, v)], jn_calls := (jn_calls j)(r := None)\<rparr>"

definition method_return :: "jni_env \<Rightarrow> reqid \<Rightarrow> jni \<Rightarrow> jni res" where
  "method_return env r j =
     bindR (ioreq_at r (jn_bridge j)) (\<lambda>q.
     bindR (rtbioreqdispatch_return r (jn_bridge j)) (\<lambda>b.
     let j = j\<lparr>jn_bridge := b\<rparr>
     in case jn_calls j r of
          None \<Rightarrow> Inr j
        | Some InConnect \<Rightarrow> Inr (j_return r (JLong (je_io_addr env (io_io q))) j)
        | Some (InSend errorString) \<Rightarrow>
            bindR (case io_err q of None \<Rightarrow> Inr j | Some err \<Rightarrow> copy_error env errorString err j) (\<lambda>j.
            Inr (j_return r JVoid j))
        | Some (InReceive errorString) \<Rightarrow>
            (case io_err q of
               Some err \<Rightarrow> bindR (copy_error env errorString err j) (\<lambda>j. Inr (j_return r (JObject None) j))
             | None \<Rightarrow>
                 (case jn_received j r of
                    None \<Rightarrow> Inl Uninit
                  | Some (base, len) \<Rightarrow> Inr (j_return r (JObject (je_new env base (uint len))) j)))))"

section \<open>Steps\<close>

text \<open>
  The io completes a receive with the buffer it sets; connecting looks among the servers the host has
  published by then.
\<close>

datatype jni_input =
    JBridge rb_input | JComplete reqid "string option" "(blockid option \<times> u32) option"
  | JEnsure nat "nat option list" | JConnect jref | JSend u64 jref jref | JReceive u64 jref | JReturn reqid
  | JClose u64 | JBufFree u64 jref | JWrite jref bytes

definition jni_connect :: "jni \<Rightarrow> string \<Rightarrow> ioid option" where
  "jni_connect j name = (case pipe_connect name (ho_servers (jn_host j)) of None \<Rightarrow> None | Some c \<Rightarrow> Some (jn_next_io j))"

definition jni_bridge_step :: "rb_input \<Rightarrow> jni \<Rightarrow> jni res" where
  "jni_bridge_step i j =
     bindR (rb_step (jni_connect j) i (jn_bridge j)) (\<lambda>b.
     Inr (j\<lparr>jn_bridge := b,
            jn_host := (if i = RunNext \<and> hd (rb_batch (jn_bridge j)) = RunFn 0 then run_posted (jn_host j) else jn_host j),
            jn_next_io := jn_next_io j + 1\<rparr>))"

fun jni_step :: "jni_env \<Rightarrow> jni_input \<Rightarrow> jni \<Rightarrow> jni res" where
  "jni_step env (JBridge i) j = jni_bridge_step i j"
| "jni_step env (JComplete r err part) j = jni_bridge_step (Complete r err) (j\<lparr>jn_received := (jn_received j)(r := part)\<rparr>)"
| "jni_step env (JEnsure l mods) j = ensureRtbInited l mods j"
| "jni_step env (JConnect n) j = pipeConnect env n j"
| "jni_step env (JSend io b e) j = ioSend env io b e j"
| "jni_step env (JReceive io e) j = ioReceive env io e j"
| "jni_step env (JReturn r) j = method_return env r j"
| "jni_step env (JClose io) j = ioClose env io j"
| "jni_step env (JBufFree io b) j = ioBufFree env io b j"
| "jni_step env (JWrite b v) j =
     (case je_address env b of None \<Rightarrow> Inl NullDeref | Some a \<Rightarrow> Inr (j\<lparr>jn_mem := (jn_mem j)(a \<mapsto> v)\<rparr>))"

fun jni_enabled :: "jni_input \<Rightarrow> jni \<Rightarrow> bool" where
  "jni_enabled (JBridge i) j \<longleftrightarrow>
     (case i of Complete r e \<Rightarrow> False | Return r \<Rightarrow> rb_enabled i (jn_bridge j) \<and> jn_calls j r = None | Post n \<Rightarrow> n \<noteq> 0
      | _ \<Rightarrow> rb_enabled i (jn_bridge j))"
| "jni_enabled (JComplete r err part) j \<longleftrightarrow> rb_enabled (Complete r err) (jn_bridge j) \<and> (err = None \<longrightarrow> part \<noteq> None)"
| "jni_enabled (JReturn r) j \<longleftrightarrow> rb_enabled (Return r) (jn_bridge j)"
| "jni_enabled _ j \<longleftrightarrow> True"

inductive jni_reach :: "jni_env \<Rightarrow> jni \<Rightarrow> bool" for env where
  start: "jni_reach env jni_zero"
| step: "jni_reach env j \<Longrightarrow> jni_enabled i j \<Longrightarrow> jni_step env i j = Inr j' \<Longrightarrow> jni_reach env j'"

section \<open>The requests of the Java threads\<close>

fun rs_of :: "jcall \<Rightarrow> nat" where
  "rs_of (InReceive b) = 1"
| "rs_of (InSend b) = 2"
| "rs_of InConnect = 3"

definition jni_inv :: "jni \<Rightarrow> bool" where
  "jni_inv j \<longleftrightarrow> rb_inv (jn_bridge j) \<and>
     (\<forall>r c. jn_calls j r = Some c \<longrightarrow> (\<exists>q. rb_reqs (jn_bridge j) r = Some q \<and> io_rs q = rs_of c))"

text \<open>A step of the bridge keeps what each waiting request is.\<close>

definition keeps :: "rtbridge \<Rightarrow> rtbridge \<Rightarrow> reqid \<Rightarrow> bool" where
  "keeps b b' r \<longleftrightarrow> (\<forall>q. rb_reqs b r = Some q \<longrightarrow> (\<exists>q'. rb_reqs b' r = Some q' \<and> io_rs q' = io_rs q))"

lemma keeps_trans: "keeps a b r \<Longrightarrow> keeps b c r \<Longrightarrow> keeps a c r"
  unfolding keeps_def by metis

lemma keeps_same: "rb_reqs b' = rb_reqs b \<Longrightarrow> keeps b b' r"
  by (simp add: keeps_def)

lemma ioreq_at_Inr: "ioreq_at p b = Inr q \<longleftrightarrow> rb_reqs b p = Some q"
  by (simp add: ioreq_at_def split: option.splits)

lemma sem_post_keeps: "sem_post p b = Inr b' \<Longrightarrow> keeps b b' r"
  by (auto simp: sem_post_def ioreq_at_Inr set_ioreq_def keeps_def)

lemma set_ioreq_keeps: "rb_reqs b p = Some q \<Longrightarrow> io_rs q' = io_rs q \<Longrightarrow> keeps b (set_ioreq p q' b) r"
  by (auto simp: set_ioreq_def keeps_def)

lemma rtbiocb_keeps: "rtbiocb p err b = Inr b' \<Longrightarrow> keeps b b' r"
proof -
  assume run: "rtbiocb p err b = Inr b'"
  then obtain q where q: "rb_reqs b p = Some q" by (auto simp: rtbiocb_def ioreq_at_Inr)
  let ?b = "if io_rs q = 1 \<or> io_rs q = 2 then set_ioreq p (q\<lparr>io_err := err\<rparr>) b else b"
  have "sem_post p ?b = Inr b'" using run q by (simp add: rtbiocb_def ioreq_at_def)
  moreover have "keeps b ?b r" using q by (simp add: set_ioreq_keeps keeps_same)
  ultimately show ?thesis using sem_post_keeps keeps_trans by blast
qed

lemma rtbiohandle_keeps: "rtbiohandle connect p b = Inr b' \<Longrightarrow> keeps b b' r"
proof -
  assume run: "rtbiohandle connect p b = Inr b'"
  then obtain q where q: "rb_reqs b p = Some q" by (auto simp: rtbiohandle_def ioreq_at_Inr)
  let ?q = "q\<lparr>io_err := None\<rparr>"
  let ?b = "set_ioreq p ?q b"
  have k: "keeps b ?b r" "keeps b (set_ioreq p (?q\<lparr>io_io := x\<rparr>) ?b) r" for x
    using q by (auto simp: set_ioreq_def keeps_def)
  from run q have "b' = ?b \<or> rb_reqs b' = rb_reqs ?b \<or> sem_post p (?b\<lparr>rb_stop := True\<rparr>) = Inr b' \<or>
      rtbiocb p None (set_ioreq p (?q\<lparr>io_io := connect (io_servname q)\<rparr>) ?b) = Inr b' \<or>
      (\<exists>i. rtbiocb p None (rb_say (IoClose i) ?b) = Inr b')"
    by (auto simp: rtbiohandle_def ioreq_at_def Let_def rb_say_def split: if_splits option.splits)
  moreover have "keeps b (?b\<lparr>rb_stop := True\<rparr>) r" "keeps b (rb_say (IoClose i) ?b) r" for i
    using k(1) by (simp_all add: keeps_def rb_say_def)
  moreover have "keeps b b' r" if "rb_reqs b' = rb_reqs ?b" using k(1) that by (simp add: keeps_def)
  ultimately show ?thesis using k sem_post_keeps rtbiocb_keeps keeps_trans by meson
qed

lemma dispatch_keeps:
  "tokens_ok {#} b \<Longrightarrow> rtbioreqdispatch rs io name b = Inr b' \<Longrightarrow>
     keeps b b' r \<and> (\<exists>q. rb_reqs b' (rb_fresh b) = Some q \<and> io_rs q = rs \<and> io_err q = None)"
  by (auto simp: rtbioreqdispatch_def Let_def pipe_executor_def rtbridge_async_exec_def rb_say_def set_ioreq_def keeps_def
      tokens_ok_def split: option.splits executor.splits)

lemma rb_step_keeps:
  assumes inv: "rb_inv b" and run: "rb_step connect i b = Inr b'" and "i \<noteq> Return r"
  shows "keeps b b' r"
proof -
  have tok: "tokens_ok {#} b" using inv by (simp add: rb_inv_def)
  note disp = dispatch_keeps [OF tok, THEN conjunct1]
  show ?thesis
  proof (cases i)
    case RunNext
    show ?thesis
    proof (cases "rb_batch b")
      case Nil with run RunNext show ?thesis by (simp add: keeps_same)
    next
      case (Cons f fs)
      with run RunNext show ?thesis
        by (cases f) (auto simp: run_task_def rb_say_def keeps_def dest!: rtbiohandle_keeps [of _ _ _ _ r])
    qed
  next
    case RunForeign
    show ?thesis
    proof (cases "rb_foreign b")
      case Nil with run RunForeign show ?thesis by (simp add: keeps_same)
    next
      case (Cons f fs)
      with run RunForeign show ?thesis by (cases f) (auto simp: keeps_def dest!: rtbiohandle_keeps [of _ _ _ _ r])
    qed
  next
    case (Complete p err)
    with run have "rtbiocb p err (b\<lparr>rb_doing := remove1 p (rb_doing b)\<rparr>) = Inr b'" by simp
    from rtbiocb_keeps [OF this, of r] show ?thesis by (simp add: keeps_def)
  next
    case (Return p)
    with run assms(3) show ?thesis
      by (auto simp: rtbioreqdispatch_return_def rb_say_def keeps_def)
  next
    case (Post n)
    with run show ?thesis
      by (auto simp: pipe_executor_def rtbridge_async_exec_def rb_say_def split: option.splits executor.splits intro: keeps_same)
  next
    case (InitUv l) with run show ?thesis by (auto simp: rtbridge_init_uv_def rb_say_def split: if_splits intro: keeps_same)
  next
    case InitAndRun with run show ?thesis by (auto simp: rtbridge_init_and_run_def rb_say_def split: if_splits intro: keeps_same)
  next
    case (ThreadStart l) with run show ?thesis
      by (auto simp: newloopthread_start_def rtbridge_init_uv_def rb_say_def split: if_splits intro: keeps_same)
  next
    case Wake with run show ?thesis by (auto simp: rtbasyncb_take_def intro: keeps_same)
  next
    case LoopEnd with run show ?thesis by (auto simp: newloopthread_end_def intro: keeps_same)
  qed (use run disp in \<open>auto simp: rtbridge_brecv_def rtbridge_bsend_def rtbridge_pipe_connect_def rtbridge_io_close_def
    rtbridge_deinit_def\<close>)
qed

section \<open>Reachable states\<close>

lemma jni_inv_bridge:
  assumes inv: "jni_inv j" and en: "rb_enabled i (jn_bridge j)" and run: "rb_step connect i (jn_bridge j) = Inr (jn_bridge j')"
    and calls: "\<And>r c. jn_calls j' r = Some c \<Longrightarrow> jn_calls j r = Some c \<and> i \<noteq> Return r"
  shows "jni_inv j'"
proof -
  have rb: "rb_inv (jn_bridge j)" using inv by (simp add: jni_inv_def)
  have "rb_inv (jn_bridge j')" by (rule rb_step_inv [OF rb en run])
  moreover have "\<exists>q. rb_reqs (jn_bridge j') r = Some q \<and> io_rs q = rs_of c" if "jn_calls j' r = Some c" for r c
  proof -
    from calls [OF that] have c: "jn_calls j r = Some c" "i \<noteq> Return r" by simp_all
    with inv obtain q where "rb_reqs (jn_bridge j) r = Some q" "io_rs q = rs_of c" unfolding jni_inv_def by blast
    with rb_step_keeps [OF rb run c(2)] show ?thesis by (auto simp: keeps_def)
  qed
  ultimately show ?thesis by (simp add: jni_inv_def)
qed

lemma call_bridge_inv:
  assumes inv: "jni_inv j" and disp: "f (jn_bridge j) = rtbioreqdispatch (rs_of c) io name (jn_bridge j)"
    and io: "c \<noteq> InConnect \<longrightarrow> io \<noteq> None" and run: "call_bridge c f j = Inr j'"
  shows "jni_inv j'"
proof -
  have rb: "rb_inv (jn_bridge j)" and tok: "tokens_ok {#} (jn_bridge j)" and o: "order_ok (jn_bridge j)"
    using inv by (simp_all add: jni_inv_def rb_inv_def)
  from run disp obtain b where b: "rtbioreqdispatch (rs_of c) io name (jn_bridge j) = Inr b"
    "j' = j\<lparr>jn_bridge := b, jn_calls := (jn_calls j)(rb_fresh (jn_bridge j) \<mapsto> c)\<rparr>"
    by (auto simp: call_bridge_def)
  have "ioreq_ok \<lparr>io_io = io, io_rs = rs_of c, io_sem = 0, io_err = None, io_servname = name\<rparr>"
    using io by (cases c) (auto simp: ioreq_ok_def)
  from tokens_dispatch [OF tok this b(1)] dispatch_order [OF o b(1)] have "rb_inv b" by (simp add: rb_inv_def)
  moreover have "\<exists>q. rb_reqs b r = Some q \<and> io_rs q = rs_of d" if "jn_calls j' r = Some d" for r d
  proof (cases "r = rb_fresh (jn_bridge j)")
    case True
    with that b(2) dispatch_keeps [OF tok b(1)] show ?thesis by auto
  next
    case False
    with that b(2) have "jn_calls j r = Some d" by simp
    with inv obtain q where "rb_reqs (jn_bridge j) r = Some q" "io_rs q = rs_of d" unfolding jni_inv_def by blast
    with dispatch_keeps [OF tok b(1), of r] show ?thesis by (auto simp: keeps_def)
  qed
  ultimately show ?thesis using b(2) by (simp add: jni_inv_def)
qed

lemma init_and_run_inv:
  assumes inv: "jni_inv j" and run: "init_and_run l (jn_bridge j) = (err, b)" and b: "jn_bridge j' = b" "jn_calls j' = jn_calls j"
  shows "jni_inv j'"
proof -
  let ?b = "jn_bridge j"
  let ?j1 = "j\<lparr>jn_bridge := rtbridge_init_and_run ?b\<rparr>"
  have i1: "jni_inv ?j1" by (rule jni_inv_bridge [OF inv, of InitAndRun "\<lambda>_. None"]) simp_all
  show ?thesis
  proof (cases "rb_loop ?b = None")
    case True
    then have t: "0 < rb_threads (jn_bridge ?j1)" "(rtbridge_init_and_run ?b)\<lparr>rb_threads := rb_threads ?b\<rparr> =
        (jn_bridge ?j1)\<lparr>rb_threads := rb_threads (jn_bridge ?j1) - 1\<rparr>"
      by (simp_all add: rtbridge_init_and_run_def)
    show ?thesis
      by (rule jni_inv_bridge [OF i1, of "ThreadStart l" "\<lambda>_. None"])
        (use True t run b in \<open>simp_all add: init_and_run_def\<close>)
  next
    case False
    with run b i1 show ?thesis by (simp add: init_and_run_def jni_inv_def)
  qed
qed

lemma copy_error_frame: "copy_error env eb err j = Inr j' \<Longrightarrow> jn_bridge j' = jn_bridge j \<and> jn_calls j' = jn_calls j"
  by (auto simp: copy_error_def split: option.splits)

lemma j_return_frame: "jn_bridge (j_return r v j) = jn_bridge j" "jn_calls (j_return r v j) = (jn_calls j)(r := None)"
  by (simp_all add: j_return_def)

lemma method_return_frame:
  assumes run: "method_return env r j = Inr j'"
  shows "rtbioreqdispatch_return r (jn_bridge j) = Inr (jn_bridge j') \<and> jn_calls j' = (jn_calls j)(r := None)"
proof -
  from run obtain q where q: "ioreq_at r (jn_bridge j) = Inr q" by (auto simp: method_return_def)
  with run obtain b where b: "rtbioreqdispatch_return r (jn_bridge j) = Inr b" by (auto simp: method_return_def)
  let ?j = "j\<lparr>jn_bridge := b\<rparr>"
  have "jn_bridge j' = b \<and> jn_calls j' = (jn_calls j)(r := None)"
  proof (cases "jn_calls j r")
    case None with run q b show ?thesis by (auto simp: method_return_def fun_upd_idem)
  next
    case (Some c)
    note go = run [unfolded method_return_def q b bindR_Inr Let_def, simplified, unfolded Some, simplified]
    show ?thesis
    proof (cases c)
      case InConnect with go show ?thesis by (auto simp: j_return_frame)
    next
      case (InSend e)
      show ?thesis
      proof (cases "io_err q")
        case None with go InSend show ?thesis by (auto simp: j_return_frame)
      next
        case (Some err)
        with go InSend obtain g where "copy_error env e err ?j = Inr g" "j' = j_return r JVoid g" by auto
        with copy_error_frame [of env e err ?j g] show ?thesis by (simp add: j_return_frame)
      qed
    next
      case (InReceive e)
      show ?thesis
      proof (cases "io_err q")
        case None
        with go InReceive obtain base len where "j' = j_return r (JObject (je_new env base (uint (len::u32)))) ?j"
          by (cases "jn_received j r") auto
        then show ?thesis by (simp add: j_return_frame)
      next
        case (Some err)
        with go InReceive obtain g where "copy_error env e err ?j = Inr g" "j' = j_return r (JObject None) g" by auto
        with copy_error_frame [of env e err ?j g] show ?thesis by (simp add: j_return_frame)
      qed
    qed
  qed
  with b show ?thesis by simp
qed

lemma jni_step_inv:
  assumes inv: "jni_inv j" and en: "jni_enabled i j" and run: "jni_step env i j = Inr j'"
  shows "jni_inv j'"
proof (cases i)
  case (JBridge e)
  with run obtain b where b: "rb_step (jni_connect j) e (jn_bridge j) = Inr b" "jn_bridge j' = b" "jn_calls j' = jn_calls j"
    by (auto simp: jni_bridge_step_def)
  have e: "rb_enabled e (jn_bridge j)" "\<And>r. e = RtBridge.Return r \<Longrightarrow> jn_calls j r = None"
    using JBridge en by (cases e; simp)+
  show ?thesis by (rule jni_inv_bridge [OF inv e(1) b(1) [folded b(2)]]) (use b(3) e(2) in auto)
next
  case (JComplete r err part)
  with run obtain b where b: "rb_step (jni_connect (j\<lparr>jn_received := (jn_received j)(r := part)\<rparr>)) (Complete r err) (jn_bridge j) = Inr b"
    "jn_bridge j' = b" "jn_calls j' = jn_calls j"
    by (auto simp: jni_bridge_step_def)
  show ?thesis
    by (rule jni_inv_bridge [OF inv, of "Complete r err" "jni_connect (j\<lparr>jn_received := (jn_received j)(r := part)\<rparr>)"])
      (use JComplete en b in auto)
next
  case (JEnsure l mods)
  show ?thesis
  proof (cases "ho_inited (jn_host j) = 0")
    case True
    obtain err b where b: "init_and_run l (jn_bridge j) = (err, b)" by (cases "init_and_run l (jn_bridge j)")
    from init_and_run_inv [OF inv b, of "j\<lparr>jn_bridge := b\<rparr>"] have i: "jni_inv (j\<lparr>jn_bridge := b\<rparr>)" by simp
    from run JEnsure True b obtain r h where e: "ensureInited err mods (jn_host j) = Inr (r, h)"
      "(if r = None then bindR (pipe_executor (RunFn 0) b) (\<lambda>b. Inr (j\<lparr>jn_host := h, jn_bridge := b\<rparr>))
        else Inr (j\<lparr>jn_host := h, jn_bridge := b\<rparr>)) = Inr j'" by (force simp: ensureRtbInited_def)
    have "(jn_bridge j' = b \<and> jn_calls j' = jn_calls j) \<or>
        (\<exists>c. pipe_executor (RunFn 0) b = Inr c \<and> jn_bridge j' = c \<and> jn_calls j' = jn_calls j)"
      using e(2) by (cases r) auto
    then consider "jn_bridge j' = b" "jn_calls j' = jn_calls j"
      | c where "pipe_executor (RunFn 0) b = Inr c" "jn_bridge j' = c" "jn_calls j' = jn_calls j" by blast
    then show ?thesis
    proof cases
      case 1 with i show ?thesis by (simp add: jni_inv_def)
    next
      case (2 c)
      show ?thesis by (rule jni_inv_bridge [OF i, of "Post 0" "\<lambda>_. None"]) (use 2 in simp_all)
    qed
  next
    case False
    with run JEnsure inv show ?thesis by (auto simp: ensureRtbInited_def jni_inv_def)
  qed
next
  case (JConnect n)
  with run obtain name where "call_bridge InConnect (rtbridge_pipe_connect name) j = Inr j'"
    by (auto simp: pipeConnect_def split: option.splits)
  from call_bridge_inv [OF inv _ _ this, of None name] show ?thesis by (simp add: rtbridge_pipe_connect_def)
next
  case (JSend io b e)
  then obtain k s where "call_bridge (InSend e) (rtbridge_bsend k) (j\<lparr>jn_sent := s\<rparr>) = Inr j'"
    using run by (auto simp: ioSend_def split: option.splits)
  moreover have "jni_inv (j\<lparr>jn_sent := s\<rparr>)" using inv by (simp add: jni_inv_def)
  ultimately show ?thesis using call_bridge_inv [of "j\<lparr>jn_sent := s\<rparr>" "rtbridge_bsend k" "InSend e" "Some k" "[]" j']
    by (simp add: rtbridge_bsend_def)
next
  case (JReceive io e)
  then obtain k where "call_bridge (InReceive e) (rtbridge_brecv k) j = Inr j'"
    using run by (auto simp: ioReceive_def split: option.splits)
  from call_bridge_inv [OF inv _ _ this, of "Some k" "[]"] show ?thesis by (simp add: rtbridge_brecv_def)
next
  case (JReturn r)
  with run have m: "rtbioreqdispatch_return r (jn_bridge j) = Inr (jn_bridge j')" "jn_calls j' = (jn_calls j)(r := None)"
    using method_return_frame [of env r j j'] by simp_all
  show ?thesis
    by (rule jni_inv_bridge [OF inv, of "RtBridge.Return r" "\<lambda>_. None"]) (use JReturn en m in \<open>auto split: if_splits\<close>)
next
  case (JClose io)
  then obtain k where k: "jn_bridge j' = rb_say (IoClose k) (jn_bridge j)" "jn_calls j' = jn_calls j"
    using run by (auto simp: ioClose_def split: option.splits)
  have "rb_inv (jn_bridge j')"
    using inv k(1) by (auto simp: jni_inv_def rb_inv_def order_ok_def tokens_ok_def tokens_def rb_say_def)
  with inv k show ?thesis by (simp add: jni_inv_def rb_say_def)
next
  case (JBufFree io b) with run inv show ?thesis by (auto simp: ioBufFree_def jni_inv_def split: option.splits)
next
  case (JWrite b v) with run inv show ?thesis by (auto simp: jni_inv_def split: option.splits)
qed

lemma jni_reach_inv: "jni_reach env j \<Longrightarrow> jni_inv j"
proof (induction rule: jni_reach.induct)
  case start show ?case using rb_inv_start by (simp add: jni_inv_def jni_zero_def)
next
  case (step j i j') then show ?case using jni_step_inv by blast
qed

section \<open>Properties\<close>

lemma error_bytes_nonzero: "0 \<notin> set (error_bytes e)"
  unfolding error_bytes_def by (auto dest: set_takeWhileD)

lemma strncpy_full:
  "length m = n \<Longrightarrow> strncpy m src n = Inr (take n src @ replicate (n - length src) 0)"
  by (auto simp: strncpy_def write_mem_def)

text \<open>A string that fits with its terminator can be read back; another leaves no terminator in the buffer.\<close>

lemma c_string_copied:
  assumes "0 \<notin> set src"
  shows "c_string (take n src @ replicate (n - length src) 0) =
    (if length src < n then Inr (map (\<lambda>x. char_of (unat x)) src) else Inl OutOfBounds)"
proof (cases "length src < n")
  case True
  then obtain k where k: "n - length src = Suc k" by (metis Suc_diff_Suc)
  have "takeWhile (\<lambda>x. x \<noteq> 0) (src @ 0 # replicate k 0) = src"
    using assms by (induction src) auto
  then show ?thesis using True k by (simp add: c_string_def)
next
  case False
  then show ?thesis using assms by (auto simp: c_string_def dest: in_set_takeD)
qed

text \<open>
  C32. A blocking method of the Java side reports the error of its own operation.  When the io completes the
  send or the receive a Java thread waits for, the thread can return; without an error the error buffer is
  left as it was and a receive returns a direct buffer over exactly the bytes the io delivered; with an
  error a receive returns null and the text is copied to the start of the error buffer.  It can be read
  there as a C string if and only if it is shorter than the buffer: of a longer one the terminator is lost.
\<close>

theorem jni_error_reported:
  assumes "jni_reach env j" and call: "jn_calls j r = Some c" "c = InSend eb \<or> c = InReceive eb"
    and en: "jni_enabled (JComplete r err part) j"
    and buf: "je_address env eb = Some a" "jn_mem j a = Some m" "int (length m) = je_capacity env eb"
  shows "\<exists>j1 j2. jni_step env (JComplete r err part) j = Inr j1 \<and> jni_enabled (JReturn r) j1 \<and>
    jni_step env (JReturn r) j1 = Inr j2 \<and> jn_calls j2 r = None \<and>
    (case err of
       None \<Rightarrow> jn_mem j2 = jn_mem j \<and>
         jn_returned j2 = jn_returned j @ [(r, if c = InSend eb then JVoid
            else JObject (je_new env (fst (the part)) (uint (snd (the part)))))]
     | Some e \<Rightarrow> \<exists>m'. jn_mem j2 = (jn_mem j)(a \<mapsto> m') \<and> length m' = length m \<and>
         c_string m' = (if length (error_bytes e) < length m then Inr (map (\<lambda>x. char_of (unat x)) (error_bytes e)) else Inl OutOfBounds) \<and>
         jn_returned j2 = jn_returned j @ [(r, if c = InSend eb then JVoid else JObject None)])"
proof -
  have inv: "jni_inv j" by (rule jni_reach_inv [OF assms(1)])
  then have tok: "tokens_ok {#} (jn_bridge j)" by (simp add: jni_inv_def rb_inv_def)
  from inv call(1) obtain q where q: "rb_reqs (jn_bridge j) r = Some q" "io_rs q = rs_of c" unfolding jni_inv_def by blast
  have rs: "io_rs q = 1 \<or> io_rs q = 2" using q(2) call(2) by auto
  have doing: "r \<in> set (rb_doing (jn_bridge j))" and part: "err = None \<Longrightarrow> part \<noteq> None" using en by simp_all
  from tokens_rtbiocb [OF tokens_take_doing [OF tok doing], of err] q rs obtain b q' where
    b: "rtbiocb r err ((jn_bridge j)\<lparr>rb_doing := remove1 r (rb_doing (jn_bridge j))\<rparr>) = Inr b"
      "rb_reqs b r = Some q'" "io_sem q' = io_sem q + 1" "io_err q' = err" by auto
  let ?j1 = "j\<lparr>jn_received := (jn_received j)(r := part), jn_bridge := b, jn_next_io := jn_next_io j + 1\<rparr>"
  have j1: "jni_step env (JComplete r err part) j = Inr ?j1" using b(1) by (simp add: jni_bridge_step_def)
  have ready: "jni_enabled (JReturn r) ?j1" using b by simp
  let ?b = "rb_say (Returned r (io_err q') (io_io q')) (b\<lparr>rb_reqs := (rb_reqs b)(r := None)\<rparr>)"
  have done2: "ioreq_at r b = Inr q'" "rtbioreqdispatch_return r b = Inr ?b"
    using b(2) by (simp_all add: ioreq_at_def rtbioreqdispatch_return_def)
  let ?g = "?j1\<lparr>jn_bridge := ?b\<rparr>"
  show ?thesis
  proof (cases err)
    case None
    with part obtain base len where p: "part = Some (base, len)" by auto
    have "jni_step env (JReturn r) ?j1 = Inr (j_return r (if c = InSend eb then JVoid else JObject (je_new env base (uint len))) ?g)"
      using call b(4) done2 None p by (auto simp: method_return_def)
    with j1 ready p None show ?thesis by (auto simp: j_return_def)
  next
    case (Some e)
    let ?m = "take (length m) (error_bytes e) @ replicate (length m - length (error_bytes e)) 0"
    have copy: "copy_error env eb e ?g = Inr (?g\<lparr>jn_mem := (jn_mem j)(a \<mapsto> ?m)\<rparr>)"
      using buf strncpy_full [of m "length m" "error_bytes e"] by (simp add: copy_error_def flip: buf(3))
    let ?j2 = "j_return r (if c = InSend eb then JVoid else JObject None) (?g\<lparr>jn_mem := (jn_mem j)(a \<mapsto> ?m)\<rparr>)"
    have j2: "jni_step env (JReturn r) ?j1 = Inr ?j2" "jn_calls ?j2 r = None"
      using call b(4) done2 Some copy by (auto simp: method_return_def j_return_def)
    have "jn_mem ?j2 = (jn_mem j)(a \<mapsto> ?m) \<and> length ?m = length m \<and>
        c_string ?m = (if length (error_bytes e) < length m then Inr (map (\<lambda>x. char_of (unat x)) (error_bytes e)) else Inl OutOfBounds) \<and>
        jn_returned ?j2 = jn_returned j @ [(r, if c = InSend eb then JVoid else JObject None)]"
      using c_string_copied [OF error_bytes_nonzero, of "length m" e] by (simp add: j_return_def)
    with j1 ready j2 show ?thesis unfolding Some option.case by blast
  qed
qed

text \<open>An environment with three direct buffers: a name, a short error buffer and a block to send.\<close>

definition ex_jni_env :: jni_env where
  "ex_jni_env = \<lparr>je_address = (\<lambda>b. if b < 3 then Some b else None), je_capacity = (\<lambda>b. if b = 1 then 6 else 32),
     je_new = (\<lambda>b n. map_option (\<lambda>a. a + 10) b), je_mem_at = (\<lambda>w. Some (unat w)),
     je_mem_addr = (\<lambda>b. case b of None \<Rightarrow> 0 | Some a \<Rightarrow> of_nat a + 1), je_io_at = (\<lambda>w. Some (unat w)),
     je_io_addr = (\<lambda>i. case i of None \<Rightarrow> 0 | Some a \<Rightarrow> of_nat a)\<rparr>"

definition run_jni :: "jni_input list \<Rightarrow> jni res" where
  "run_jni is = foldR (\<lambda>i j. if jni_enabled i j then jni_step ex_jni_env i j else Inl Uninit) is jni_zero"

lemma run_jni_reach: "run_jni is = Inr j \<Longrightarrow> jni_reach ex_jni_env j"
  unfolding run_jni_def
  by (erule foldR_inv [where P = "jni_reach ex_jni_env"]) (auto split: if_splits intro: jni_reach.intros)

definition a_receive :: "jni_input list" where
  "a_receive = [JWrite 1 [7, 7, 7, 7, 7, 7], JEnsure 1 [None], JBridge Wake, JBridge RunNext, JReceive 4 1,
     JBridge Wake, JBridge RunNext]"

lemma a_receive_runs:
  "case run_jni a_receive of Inl _ \<Rightarrow> False
   | Inr j \<Rightarrow> jn_calls j 0 = Some (InReceive 1) \<and> jni_enabled (JComplete 0 (Some ''closed'') None) j \<and>
       jn_mem j 1 = Some [7, 7, 7, 7, 7, 7] \<and> error_bytes ''closed'' = [99, 108, 111, 115, 101, 100]"
  by code_simp

text \<open>The error \<open>closed\<close> does not fit into six bytes with its terminator.\<close>

theorem jni_error_reported_witness:
  "\<exists>j j1 j2 m. run_jni a_receive = Inr j \<and> jni_step ex_jni_env (JComplete 0 (Some ''closed'') None) j = Inr j1 \<and>
     jni_step ex_jni_env (JReturn 0) j1 = Inr j2 \<and> jn_mem j2 1 = Some m \<and> c_string m = Inl OutOfBounds"
proof -
  obtain j where j: "run_jni a_receive = Inr j" "jn_calls j 0 = Some (InReceive 1)"
    "jni_enabled (JComplete 0 (Some ''closed'') None) j" "jn_mem j 1 = Some [7, 7, 7, 7, 7, 7]"
    "error_bytes ''closed'' = [99, 108, 111, 115, 101, 100]"
    using a_receive_runs by (auto split: sum.splits)
  have e: "je_address ex_jni_env 1 = Some 1" "int (length [7, 7, 7, 7, 7, 7 :: u8]) = je_capacity ex_jni_env 1"
    by (simp_all add: ex_jni_env_def)
  have c: "InReceive 1 = InSend 1 \<or> InReceive 1 = InReceive 1" by simp
  from jni_error_reported [OF run_jni_reach [OF j(1)] j(2) c j(3) e(1) j(4) e(2)] j(1,5) show ?thesis by auto
qed

text \<open>The host brought up by a Java thread: what it has posted when the method returns.\<close>

lemma ensure_posts:
  assumes "ho_inited (jn_host j) = 0" and "rb_loop (jn_bridge j) = None" and "rb_executor (jn_bridge j) \<noteq> Some OtherExec"
    and "ensureInited None mods (jn_host j) = Inr (None, h)"
  shows "\<exists>j1. ensureRtbInited l mods j = Inr j1 \<and> jn_host j1 = h \<and> rb_queue (jn_bridge j1) = RunFn 0 # rb_queue (jn_bridge j) \<and>
    rb_batch (jn_bridge j1) = rb_batch (jn_bridge j) \<and> rb_executor (jn_bridge j1) = Some AsyncExec \<and>
    rb_loop (jn_bridge j1) = Some l \<and> rb_reqs (jn_bridge j1) = rb_reqs (jn_bridge j) \<and> rb_fresh (jn_bridge j1) = rb_fresh (jn_bridge j) \<and>
    jn_mem j1 = jn_mem j \<and> jn_returned j1 = jn_returned j"
proof -
  have "rb_executor (jn_bridge j) = None \<or> rb_executor (jn_bridge j) = Some AsyncExec"
    using assms(3) by (cases "rb_executor (jn_bridge j)"; cases "the (rb_executor (jn_bridge j))") auto
  with assms show ?thesis
    by (auto simp: ensureRtbInited_def init_and_run_def newloopthread_start_def rtbridge_init_uv_def rtbridge_init_and_run_def
        rb_say_def pipe_executor_def rtbridge_async_exec_def)
qed

text \<open>
  C39. The connection overtakes the service.  A Java thread that brings the host up and then connects to the
  manager, before the loop thread has woken up, gets a null connection although the call that publishes the
  manager was posted first: the loop runs what is queued in the opposite order of posting.  The manager is
  published right afterwards.
\<close>

theorem connect_overtakes_serve:
  assumes fresh: "ho_inited (jn_host j) = 0" "rb_loop (jn_bridge j) = None" "rb_executor (jn_bridge j) \<noteq> Some OtherExec"
    "rb_queue (jn_bridge j) = []" "rb_batch (jn_bridge j) = []" "rb_reqs (jn_bridge j) (rb_fresh (jn_bridge j)) = None"
    and host: "ensureInited None mods (jn_host j) = Inr (None, h)" "ho_posted h = [ServeManager]"
      "pipe_connect rtbmanager_name (ho_servers h) = None"
    and name: "je_address env n = Some a" "jn_mem j a = Some m" "c_string m = Inr rtbmanager_name"
  shows "\<exists>j1 j2. foldR (jni_step env) [JEnsure l mods, JConnect n, JBridge Wake, JBridge RunNext, JReturn (rb_fresh (jn_bridge j))] j = Inr j1 \<and>
    jn_returned j1 = jn_returned j @ [(rb_fresh (jn_bridge j), JLong (je_io_addr env None))] \<and>
    jni_step env (JBridge RunNext) j1 = Inr j2 \<and> pipe_connect rtbmanager_name (ho_servers (jn_host j2)) \<noteq> None"
proof -
  let ?r = "rb_fresh (jn_bridge j)"
  from ensure_posts [OF fresh(1-3) host(1), of l] fresh obtain j1 where j1: "ensureRtbInited l mods j = Inr j1" "jn_host j1 = h"
    "rb_queue (jn_bridge j1) = [RunFn 0]" "rb_batch (jn_bridge j1) = []" "rb_executor (jn_bridge j1) = Some AsyncExec"
    "rb_fresh (jn_bridge j1) = ?r" "jn_mem j1 = jn_mem j" "jn_returned j1 = jn_returned j" by auto
  obtain j2 where j2: "jni_step env (JConnect n) j1 = Inr j2" "jn_host j2 = h" "rb_queue (jn_bridge j2) = [IoHandle ?r, RunFn 0]"
    "rb_reqs (jn_bridge j2) ?r = Some \<lparr>io_io = None, io_rs = 3, io_sem = 0, io_err = None, io_servname = rtbmanager_name\<rparr>"
    "jn_calls j2 ?r = Some InConnect" "jn_returned j2 = jn_returned j"
    using j1 name by (auto simp: pipeConnect_def call_bridge_def rtbridge_pipe_connect_def rtbioreqdispatch_def Let_def
        pipe_executor_def rtbridge_async_exec_def rb_say_def set_ioreq_def)
  have none: "jni_connect k rtbmanager_name = None" if "jn_host k = h" for k using host(3) that by (simp add: jni_connect_def)
  obtain j3 where j3: "jni_step env (JBridge Wake) j2 = Inr j3" "jn_host j3 = h" "rb_batch (jn_bridge j3) = [IoHandle ?r, RunFn 0]"
    "rb_reqs (jn_bridge j3) = rb_reqs (jn_bridge j2)" "jn_calls j3 = jn_calls j2" "jn_returned j3 = jn_returned j2"
    using j2 by (auto simp: jni_bridge_step_def rtbasyncb_take_def)
  obtain j4 where j4: "jni_step env (JBridge RunNext) j3 = Inr j4" "jn_host j4 = h" "rb_batch (jn_bridge j4) = [RunFn 0]"
    "rb_reqs (jn_bridge j4) ?r = Some \<lparr>io_io = None, io_rs = 3, io_sem = 1, io_err = None, io_servname = rtbmanager_name\<rparr>"
    "jn_calls j4 = jn_calls j2" "jn_returned j4 = jn_returned j2"
    using j2 j3 none [OF j3(2)]
    by (auto simp: jni_bridge_step_def run_task_def rtbiohandle_def ioreq_at_def Let_def set_ioreq_def rtbiocb_def sem_post_def rb_say_def)
  obtain j5 where j5: "jni_step env (JReturn ?r) j4 = Inr j5" "jn_returned j5 = jn_returned j @ [(?r, JLong (je_io_addr env None))]"
    "jn_host j5 = h" "rb_batch (jn_bridge j5) = [RunFn 0]"
    using j2 j4 by (auto simp: method_return_def ioreq_at_def rtbioreqdispatch_return_def rb_say_def j_return_def)
  obtain j6 where j6: "jni_step env (JBridge RunNext) j5 = Inr j6" "jn_host j6 = run_posted h"
    using j5 by (auto simp: jni_bridge_step_def run_task_def rb_say_def)
  have "find_server rtbmanager_name (ho_servers h) = None" using host(3) by (simp add: pipe_connect_def split: option.splits)
  then have "pipe_connect rtbmanager_name (ho_servers (jn_host j6)) \<noteq> None"
    using j6(2) host(2) by (simp add: run_posted_def serve_manager_def pipe_serve_def pipe_connect_def find_server_Cons)
  moreover have "foldR (jni_step env) [JEnsure l mods, JConnect n, JBridge Wake, JBridge RunNext, JReturn ?r] j = Inr j5"
    using j1(1) j2(1) j3(1) j4(1) j5(1) by simp
  ultimately show ?thesis using j5(2) j6(1) by blast
qed

definition manager_cstr :: bytes where
  "manager_cstr = map of_char rtbmanager_name @ [0]"

lemma start_runs:
  "case run_jni [JWrite 0 manager_cstr] of Inl _ \<Rightarrow> False
   | Inr j \<Rightarrow> ho_inited (jn_host j) = 0 \<and> rb_loop (jn_bridge j) = None \<and> rb_executor (jn_bridge j) = None \<and>
       rb_queue (jn_bridge j) = [] \<and> rb_batch (jn_bridge j) = [] \<and> rb_fresh (jn_bridge j) = 0 \<and>
       rb_reqs (jn_bridge j) 0 = None \<and> jn_mem j 0 = Some manager_cstr \<and> jn_returned j = [] \<and>
       (case ensureInited None [None] (jn_host j) of Inl _ \<Rightarrow> False
        | Inr (r, h) \<Rightarrow> r = None \<and> ho_posted h = [ServeManager] \<and> ho_servers h = [])"
  by code_simp

lemma manager_cstr_reads: "c_string manager_cstr = Inr rtbmanager_name"
  by code_simp

theorem connect_overtakes_serve_witness:
  "\<exists>j j1. run_jni [JWrite 0 manager_cstr] = Inr j \<and>
     foldR (jni_step ex_jni_env) [JEnsure 1 [None], JConnect 0, JBridge Wake, JBridge RunNext, JReturn 0] j = Inr j1 \<and>
     jn_returned j1 = [(0, JLong 0)]"
proof -
  obtain j where j: "run_jni [JWrite 0 manager_cstr] = Inr j" "ho_inited (jn_host j) = 0" "rb_loop (jn_bridge j) = None"
    "rb_executor (jn_bridge j) = None" "rb_queue (jn_bridge j) = []" "rb_batch (jn_bridge j) = []" "rb_fresh (jn_bridge j) = 0"
    "rb_reqs (jn_bridge j) 0 = None" "jn_mem j 0 = Some manager_cstr" "jn_returned j = []"
    "case ensureInited None [None] (jn_host j) of Inl _ \<Rightarrow> False
        | Inr (r, h) \<Rightarrow> r = None \<and> ho_posted h = [ServeManager] \<and> ho_servers h = []"
    using start_runs by (cases "run_jni [JWrite 0 manager_cstr]") auto
  then obtain h where h: "ensureInited None [None] (jn_host j) = Inr (None, h)" "ho_posted h = [ServeManager]" "ho_servers h = []"
    by (auto split: sum.splits prod.splits)
  have p: "rb_executor (jn_bridge j) \<noteq> Some OtherExec" "rb_reqs (jn_bridge j) (rb_fresh (jn_bridge j)) = None"
    "pipe_connect rtbmanager_name (ho_servers h) = None" "je_address ex_jni_env 0 = Some 0" "je_io_addr ex_jni_env None = 0"
    using j h(3) by (simp_all add: pipe_connect_def ex_jni_env_def)
  from connect_overtakes_serve [OF j(2,3) p(1) j(5,6) p(2) h(1,2) p(3,4) j(9) manager_cstr_reads, of 1] j(1,7,10) p(5)
  show ?thesis by auto
qed

text \<open>
  \<open>ioClose\<close> does not go through the bridge: the io is closed at once, while a receive posted before is
  still queued and reaches the io afterwards.
\<close>

lemma close_overtakes_receive:
  "case run_jni [JEnsure 1 [None], JBridge Wake, JBridge RunNext, JReceive 4 1, JClose 4, JBridge Wake, JBridge RunNext] of
     Inl _ \<Rightarrow> False
   | Inr j \<Rightarrow> rb_log (jn_bridge j) = [InitResult None, Posted (RunFn 0), Ran (RunFn 0), Posted (IoHandle 0), IoClose 4,
       Ran (IoHandle 0), IoReceive 0]"
  by code_simp

text \<open>A failed start is not reported, not to this caller and not to later ones.\<close>

lemma ensure_error_dropped:
  "case run_jni [JBridge (InitUv 5), JEnsure 1 [None], JEnsure 2 [None]] of
     Inl _ \<Rightarrow> False
   | Inr j \<Rightarrow> ho_inited (jn_host j) = 1 \<and> ho_servers (jn_host j) = [] \<and> ho_posted (jn_host j) = [] \<and> rb_queue (jn_bridge j) = []"
  by code_simp

end

