(* ===== verification/Iopp.thy ===== *)
theory Iopp
  imports Prelude "HOL-Library.Multiset"
begin

text \<open>
  The C++ interface to an io, \<open>iopp::send\<close> and \<open>iopp::receive\<close> of \<open>c/include/pxprpc_pp.hpp\<close>: the heap
  blocks they make for the io, the closure the io gets as its completion (\<open>callAndFreeCppFunction\<close>), and
  what becomes of them.  The io is the environment: it reads the parts of a send and completes each
  operation once, at any time after it was started, as \<open>pxprpc.h\<close> asks.  A user's callback is a number.
\<close>

section \<open>State\<close>

type_synonym addr = nat
type_synonym memid = nat
type_synonym buffer = "u32 \<times> memid option"

record part =
  pt_base :: "memid option"
  pt_length :: u32
  pt_next :: "nat option"                \<comment> \<open>the index of the next part of the array\<close>

datatype io_closure = SendDone nat addr | RecvDone nat addr

datatype iopp_event =
    AskedSend addr nat "buffer list" | AskedReceive addr nat
  | Packet addr "buffer list"
  | CalledSend addr nat "string option" | CalledReceive addr nat "string option" buffer
  | BufFree "memid option"

record iopp =
  ip_arrays :: "addr \<Rightarrow> part list option"
  ip_recvs :: "addr \<Rightarrow> buffer option"
  ip_closures :: "addr \<Rightarrow> io_closure option"
  ip_next :: addr
  ip_pending :: "addr list"              \<comment> \<open>the closures the io holds\<close>
  ip_send_error :: "string option"
  ip_receive_error :: "string option"
  ip_log :: "iopp_event list"

definition iopp_zero :: iopp where
  "iopp_zero = \<lparr>ip_arrays = (\<lambda>_. None), ip_recvs = (\<lambda>_. None), ip_closures = (\<lambda>_. None), ip_next = 0, ip_pending = [],
     ip_send_error = None, ip_receive_error = None, ip_log = []\<rparr>"

definition ip_say :: "iopp_event \<Rightarrow> iopp \<Rightarrow> iopp" where
  "ip_say e s = s\<lparr>ip_log := ip_log s @ [e]\<rparr>"

section \<open>Sending\<close>

text \<open>The loop over the new array: each part points to the one after it, the last to nothing.\<close>

fun fill_parts :: "nat \<Rightarrow> buffer list \<Rightarrow> part list" where
  "fill_parts i [] = []"
| "fill_parts i ((len, base) # bufs) =
     \<lparr>pt_base = base, pt_length = len, pt_next = (if bufs = [] then None else Some (i + 1))\<rparr> # fill_parts (i + 1) bufs"

text \<open>The io walks along the parts, from the pointer it was given.\<close>

fun walk_parts :: "nat \<Rightarrow> part list \<Rightarrow> nat option \<Rightarrow> buffer list res" where
  "walk_parts n ps None = Inr []"
| "walk_parts 0 ps (Some i) = Inl OutOfBounds"
| "walk_parts (Suc n) ps (Some i) =
     (if i < length ps
      then bindR (walk_parts n ps (pt_next (ps ! i))) (\<lambda>bs. Inr ((pt_length (ps ! i), pt_base (ps ! i)) # bs))
      else Inl OutOfBounds)"

definition iopp_send :: "buffer list \<Rightarrow> nat \<Rightarrow> iopp \<Rightarrow> iopp" where
  "iopp_send bufs cb s =
     (let a = ip_next s; f = a + 1
      in ip_say (AskedSend f cb bufs)
        (s\<lparr>ip_arrays := (ip_arrays s)(a \<mapsto> fill_parts 0 bufs), ip_closures := (ip_closures s)(f \<mapsto> SendDone cb a),
           ip_next := a + 2, ip_pending := ip_pending s @ [f]\<rparr>))"

text \<open>\<open>new pxprpc_bytes()\<close> clears the block.\<close>

definition iopp_receive :: "nat \<Rightarrow> iopp \<Rightarrow> iopp" where
  "iopp_receive cb s =
     (let a = ip_next s; f = a + 1
      in ip_say (AskedReceive f cb)
        (s\<lparr>ip_recvs := (ip_recvs s)(a \<mapsto> (0, None)), ip_closures := (ip_closures s)(f \<mapsto> RecvDone cb a),
           ip_next := a + 2, ip_pending := ip_pending s @ [f]\<rparr>))"

section \<open>Completion\<close>

definition delete_array :: "addr \<Rightarrow> iopp \<Rightarrow> iopp res" where
  "delete_array a s = (case ip_arrays s a of None \<Rightarrow> Inl BadFree | Some ps \<Rightarrow> Inr (s\<lparr>ip_arrays := (ip_arrays s)(a := None)\<rparr>))"

definition delete_recv :: "addr \<Rightarrow> iopp \<Rightarrow> iopp res" where
  "delete_recv a s = (case ip_recvs s a of None \<Rightarrow> Inl BadFree | Some b \<Rightarrow> Inr (s\<lparr>ip_recvs := (ip_recvs s)(a := None)\<rparr>))"

text \<open>The closures: the send frees its parts before the callback, the receive its block after it.\<close>

fun call_io_closure :: "addr \<Rightarrow> io_closure \<Rightarrow> iopp \<Rightarrow> iopp res" where
  "call_io_closure f (SendDone cb a) s = bindR (delete_array a s) (\<lambda>t. Inr (ip_say (CalledSend f cb (ip_send_error s)) t))"
| "call_io_closure f (RecvDone cb a) s =
     (case ip_recvs s a of
        None \<Rightarrow> Inl UseAfterFree
      | Some b \<Rightarrow> delete_recv a (ip_say (CalledReceive f cb (ip_receive_error s) b) s))"

definition callAndFreeCppFunction :: "addr \<Rightarrow> iopp \<Rightarrow> iopp res" where
  "callAndFreeCppFunction f s =
     (case ip_closures s f of
        None \<Rightarrow> Inl UseAfterFree
      | Some c \<Rightarrow> bindR (call_io_closure f c s) (\<lambda>s. Inr (s\<lparr>ip_closures := (ip_closures s)(f := None)\<rparr>)))"

section \<open>Steps\<close>

datatype iopp_input =
    Send "buffer list" nat | Receive nat
  | IoReads addr                         \<comment> \<open>the io reads the parts of a send\<close>
  | IoSendDone addr "string option" | IoReceiveDone addr "string option" buffer
  | FreeBuf "memid option"               \<comment> \<open>the third argument of the receive callback is called\<close>

text \<open>What the io does with the pointers it was given.\<close>

definition parts_of :: "addr \<Rightarrow> iopp \<Rightarrow> part list res" where
  "parts_of f s =
     (case ip_closures s f of
        Some (SendDone cb a) \<Rightarrow> (case ip_arrays s a of None \<Rightarrow> Inl UseAfterFree | Some ps \<Rightarrow> Inr ps)
      | _ \<Rightarrow> Inl UseAfterFree)"

definition iopp_reads :: "addr \<Rightarrow> iopp \<Rightarrow> iopp res" where
  "iopp_reads f s =
     bindR (parts_of f s) (\<lambda>ps. bindR (walk_parts (Suc (length ps)) ps (Some 0)) (\<lambda>bs. Inr (ip_say (Packet f bs) s)))"

definition iopp_send_done :: "addr \<Rightarrow> string option \<Rightarrow> iopp \<Rightarrow> iopp res" where
  "iopp_send_done f err s = callAndFreeCppFunction f (s\<lparr>ip_send_error := err, ip_pending := remove1 f (ip_pending s)\<rparr>)"

text \<open>The io sets the block of a receive unless it failed.\<close>

definition iopp_receive_done :: "addr \<Rightarrow> string option \<Rightarrow> buffer \<Rightarrow> iopp \<Rightarrow> iopp res" where
  "iopp_receive_done f err b s =
     (case ip_closures s f of
        Some (RecvDone cb a) \<Rightarrow>
          (if ip_recvs s a = None then Inl UseAfterFree
           else callAndFreeCppFunction f
             (s\<lparr>ip_receive_error := err, ip_recvs := (if err = None then (ip_recvs s)(a \<mapsto> b) else ip_recvs s),
                ip_pending := remove1 f (ip_pending s)\<rparr>))
      | _ \<Rightarrow> Inl UseAfterFree)"

fun iopp_step :: "iopp_input \<Rightarrow> iopp \<Rightarrow> iopp res" where
  "iopp_step (Send bufs cb) s = Inr (iopp_send bufs cb s)"
| "iopp_step (Receive cb) s = Inr (iopp_receive cb s)"
| "iopp_step (IoReads f) s = iopp_reads f s"
| "iopp_step (IoSendDone f err) s = iopp_send_done f err s"
| "iopp_step (IoReceiveDone f err b) s = iopp_receive_done f err b s"
| "iopp_step (FreeBuf base) s = Inr (ip_say (BufFree base) s)"

fun is_send :: "io_closure option \<Rightarrow> bool" where
  "is_send (Some (SendDone cb a)) = True"
| "is_send _ = False"

fun is_receive :: "io_closure option \<Rightarrow> bool" where
  "is_receive (Some (RecvDone cb a)) = True"
| "is_receive _ = False"

fun iopp_enabled :: "iopp_input \<Rightarrow> iopp \<Rightarrow> bool" where
  "iopp_enabled (IoReads f) s \<longleftrightarrow> f \<in> set (ip_pending s) \<and> is_send (ip_closures s f)"
| "iopp_enabled (IoSendDone f err) s \<longleftrightarrow> f \<in> set (ip_pending s) \<and> is_send (ip_closures s f)"
| "iopp_enabled (IoReceiveDone f err b) s \<longleftrightarrow> f \<in> set (ip_pending s) \<and> is_receive (ip_closures s f)"
| "iopp_enabled _ s \<longleftrightarrow> True"

inductive iopp_reach :: "iopp \<Rightarrow> bool" where
  start: "iopp_reach iopp_zero"
| step: "iopp_reach s \<Longrightarrow> iopp_enabled i s \<Longrightarrow> iopp_step i s = Inr s' \<Longrightarrow> iopp_reach s'"

section \<open>The parts\<close>

lemma length_fill [simp]: "length (fill_parts i bufs) = length bufs"
  by (induction i bufs rule: fill_parts.induct) auto

lemma walk_fill:
  "i = length ps \<Longrightarrow> bufs \<noteq> [] \<Longrightarrow> length bufs < n \<Longrightarrow>
     walk_parts n (ps @ fill_parts i bufs) (Some i) = Inr bufs"
proof (induction bufs arbitrary: ps i n)
  case (Cons b bufs)
  obtain len base where b: "b = (len, base)" by (cases b)
  obtain m where n: "n = Suc m" using Cons.prems(3) by (cases n) auto
  let ?p = "\<lparr>pt_base = base, pt_length = len, pt_next = (if bufs = [] then None else Some (i + 1))\<rparr>"
  have at: "(ps @ fill_parts i (b # bufs)) ! i = ?p" using Cons.prems(1) b by (simp add: nth_append)
  have eq: "ps @ fill_parts i (b # bufs) = (ps @ [?p]) @ fill_parts (i + 1) bufs" using b by simp
  show ?case
  proof (cases "bufs = []")
    case True
    with Cons.prems(1) b n show ?thesis by (cases m) (simp_all add: nth_append)
  next
    case False
    have "walk_parts m ((ps @ [?p]) @ fill_parts (i + 1) bufs) (Some (i + 1)) = Inr bufs"
      using Cons.IH [of "i + 1" "ps @ [?p]" m] False Cons.prems n by simp
    with at eq False Cons.prems(1) b n show ?thesis by simp
  qed
qed simp

lemma walk_parts_all: "bufs \<noteq> [] \<Longrightarrow> walk_parts (Suc (length bufs)) (fill_parts 0 bufs) (Some 0) = Inr bufs"
  using walk_fill [of 0 "[]" bufs "Suc (length bufs)"] by simp

section \<open>What the io holds\<close>

fun asked_cbs :: "addr \<Rightarrow> iopp_event list \<Rightarrow> nat list" where
  "asked_cbs f [] = []"
| "asked_cbs f (AskedSend g cb bufs # es) = (if f = g then cb # asked_cbs f es else asked_cbs f es)"
| "asked_cbs f (AskedReceive g cb # es) = (if f = g then cb # asked_cbs f es else asked_cbs f es)"
| "asked_cbs f (_ # es) = asked_cbs f es"

fun called_cbs :: "addr \<Rightarrow> iopp_event list \<Rightarrow> nat list" where
  "called_cbs f [] = []"
| "called_cbs f (CalledSend g cb err # es) = (if f = g then cb # called_cbs f es else called_cbs f es)"
| "called_cbs f (CalledReceive g cb err b # es) = (if f = g then cb # called_cbs f es else called_cbs f es)"
| "called_cbs f (_ # es) = called_cbs f es"

lemma asked_cbs_append [simp]: "asked_cbs f (es @ es') = asked_cbs f es @ asked_cbs f es'"
  by (induction f es rule: asked_cbs.induct) simp_all

lemma called_cbs_append [simp]: "called_cbs f (es @ es') = called_cbs f es @ called_cbs f es'"
  by (induction f es rule: called_cbs.induct) simp_all

fun owns :: "iopp \<Rightarrow> addr \<Rightarrow> io_closure \<Rightarrow> bool" where
  "owns s f (SendDone cb a) \<longleftrightarrow> f = Suc a \<and> asked_cbs f (ip_log s) = [cb] \<and>
     (\<exists>bufs. AskedSend f cb bufs \<in> set (ip_log s) \<and> ip_arrays s a = Some (fill_parts 0 bufs))"
| "owns s f (RecvDone cb a) \<longleftrightarrow> f = Suc a \<and> asked_cbs f (ip_log s) = [cb] \<and> ip_recvs s a \<noteq> None"

definition iopp_inv :: "iopp \<Rightarrow> bool" where
  "iopp_inv s \<longleftrightarrow> distinct (ip_pending s) \<and> (\<forall>f. f \<in> set (ip_pending s) \<longleftrightarrow> ip_closures s f \<noteq> None) \<and>
     (\<forall>f c. ip_closures s f = Some c \<longrightarrow> owns s f c) \<and>
     (\<forall>a. ip_arrays s a \<noteq> None \<longrightarrow> (\<exists>cb. ip_closures s (Suc a) = Some (SendDone cb a))) \<and>
     (\<forall>a. ip_recvs s a \<noteq> None \<longrightarrow> (\<exists>cb. ip_closures s (Suc a) = Some (RecvDone cb a))) \<and>
     (\<forall>f. called_cbs f (ip_log s) = (if f \<in> set (ip_pending s) then [] else asked_cbs f (ip_log s))) \<and>
     (\<forall>f \<ge> ip_next s. ip_closures s f = None \<and> asked_cbs f (ip_log s) = [])"

lemma iopp_invD:
  assumes "iopp_inv s"
  shows "distinct (ip_pending s)" "f \<in> set (ip_pending s) \<longleftrightarrow> ip_closures s f \<noteq> None"
    "ip_closures s f = Some c \<Longrightarrow> owns s f c"
    "ip_arrays s a \<noteq> None \<Longrightarrow> \<exists>cb. ip_closures s (Suc a) = Some (SendDone cb a)"
    "ip_recvs s a \<noteq> None \<Longrightarrow> \<exists>cb. ip_closures s (Suc a) = Some (RecvDone cb a)"
    "called_cbs f (ip_log s) = (if f \<in> set (ip_pending s) then [] else asked_cbs f (ip_log s))"
    "ip_next s \<le> f \<Longrightarrow> ip_closures s f = None \<and> asked_cbs f (ip_log s) = []"
  using assms unfolding iopp_inv_def by blast+

lemma iopp_send_inv:
  assumes inv: "iopp_inv s"
  shows "iopp_inv (iopp_send bufs cb s)"
proof -
  let ?a = "ip_next s" and ?t = "iopp_send bufs cb s"
  have t: "?t = s\<lparr>ip_arrays := (ip_arrays s)(?a \<mapsto> fill_parts 0 bufs), ip_closures := (ip_closures s)(Suc ?a \<mapsto> SendDone cb ?a),
      ip_next := ?a + 2, ip_pending := ip_pending s @ [Suc ?a], ip_log := ip_log s @ [AskedSend (Suc ?a) cb bufs]\<rparr>"
    by (simp add: iopp_send_def ip_say_def Let_def)
  have new: "ip_closures s (Suc ?a) = None" "asked_cbs (Suc ?a) (ip_log s) = []" "ip_closures s ?a = None"
    using iopp_invD(7) [OF inv, of "Suc ?a"] iopp_invD(7) [OF inv, of ?a] by simp_all
  then have out: "Suc ?a \<notin> set (ip_pending s)" using iopp_invD(2) [OF inv] by simp
  show ?thesis
    unfolding iopp_inv_def
  proof (intro conjI allI impI, goal_cases)
    case 1 then show ?case using iopp_invD(1) [OF inv] out t by simp
  next
    case (2 f) then show ?case using iopp_invD(2) [OF inv, of f] t by auto
  next
    case (3 f c)
    show ?case
    proof (cases "f = Suc ?a")
      case True then show ?thesis using 3 t new by auto
    next
      case False
      then have o: "owns s f c" using iopp_invD(3) [OF inv, of f c] 3 t by simp
      show ?thesis
      proof (cases c)
        case (SendDone k a)
        with o False show ?thesis using t by (auto intro: exI)
      next
        case (RecvDone k a)
        with o False show ?thesis using t by auto
      qed
    qed
  next
    case (4 a) then show ?case using iopp_invD(4) [OF inv, of a] t new by (auto split: if_splits)
  next
    case (5 a)
    then obtain k where "ip_closures s (Suc a) = Some (RecvDone k a)" using iopp_invD(5) [OF inv, of a] t by auto
    then show ?case using t new by auto
  next
    case (6 f) then show ?case using iopp_invD(6) [OF inv, of f] t new out by auto
  next
    case (7 f) then show ?case using iopp_invD(7) [OF inv, of f] t by simp
  qed (use iopp_invD(7) [OF inv] t in auto)
qed

lemma iopp_receive_inv:
  assumes inv: "iopp_inv s"
  shows "iopp_inv (iopp_receive cb s)"
proof -
  let ?a = "ip_next s" and ?t = "iopp_receive cb s"
  have t: "?t = s\<lparr>ip_recvs := (ip_recvs s)(?a \<mapsto> (0, None)), ip_closures := (ip_closures s)(Suc ?a \<mapsto> RecvDone cb ?a),
      ip_next := ?a + 2, ip_pending := ip_pending s @ [Suc ?a], ip_log := ip_log s @ [AskedReceive (Suc ?a) cb]\<rparr>"
    by (simp add: iopp_receive_def ip_say_def Let_def)
  have new: "ip_closures s (Suc ?a) = None" "asked_cbs (Suc ?a) (ip_log s) = []" "ip_closures s ?a = None"
    using iopp_invD(7) [OF inv, of "Suc ?a"] iopp_invD(7) [OF inv, of ?a] by simp_all
  then have out: "Suc ?a \<notin> set (ip_pending s)" using iopp_invD(2) [OF inv] by simp
  show ?thesis
    unfolding iopp_inv_def
  proof (intro conjI allI impI, goal_cases)
    case 1 then show ?case using iopp_invD(1) [OF inv] out t by simp
  next
    case (2 f) then show ?case using iopp_invD(2) [OF inv, of f] t by auto
  next
    case (3 f c)
    show ?case
    proof (cases "f = Suc ?a")
      case True then show ?thesis using 3 t new by auto
    next
      case False
      then have o: "owns s f c" using iopp_invD(3) [OF inv, of f c] 3 t by simp
      then show ?thesis using False t by (cases c) (auto intro: exI)
    qed
  next
    case (4 a)
    then obtain k where "ip_closures s (Suc a) = Some (SendDone k a)" using iopp_invD(4) [OF inv, of a] t by auto
    then show ?case using t new by auto
  next
    case (5 a) then show ?case using iopp_invD(5) [OF inv, of a] t new by (auto split: if_splits)
  next
    case (6 f) then show ?case using iopp_invD(6) [OF inv, of f] t new out by auto
  next
    case (7 f) then show ?case using iopp_invD(7) [OF inv, of f] t by simp
  qed (use iopp_invD(7) [OF inv] t in auto)
qed

text \<open>A completed operation leaves nothing of its own behind.\<close>

lemma iopp_done_inv:
  assumes inv: "iopp_inv s" and f: "ip_closures s f = Some c" and t: "ip_closures t = (ip_closures s)(f := None)"
    "ip_pending t = remove1 f (ip_pending s)" "ip_next t = ip_next s"
    "ip_arrays t = (ip_arrays s)(f - 1 := None)" "ip_recvs t = (ip_recvs s)(f - 1 := None)"
    "ip_log t = ip_log s @ [e]" "\<And>g. asked_cbs g [e] = []" "\<And>g. called_cbs g [e] = (if g = f then asked_cbs f (ip_log s) else [])"
  shows "iopp_inv t"
proof -
  have p: "distinct (ip_pending s)" "f \<in> set (ip_pending s)" using iopp_invD(1) [OF inv] iopp_invD(2) [OF inv, of f] f by simp_all
  then have set: "set (ip_pending t) = set (ip_pending s) - {f}" using t(2) by simp
  have fa: "\<exists>a. f = Suc a" using iopp_invD(3) [OF inv f] by (cases c) auto
  show ?thesis
    unfolding iopp_inv_def
  proof (intro conjI allI impI, goal_cases)
    case 1 then show ?case using p t(2) by simp
  next
    case (2 g) then show ?case using iopp_invD(2) [OF inv, of g] set t(1) by auto
  next
    case (3 g d)
    then have g: "g \<noteq> f" "ip_closures s g = Some d" using t(1) by (auto split: if_splits)
    from iopp_invD(3) [OF inv g(2)] fa g(1) t show ?case by (cases d) auto
  next
    case (4 a)
    then have a: "a \<noteq> f - 1" "ip_arrays s a \<noteq> None" using t(4) by (auto split: if_splits)
    with iopp_invD(4) [OF inv a(2)] fa t(1) show ?case by auto
  next
    case (5 a)
    then have a: "a \<noteq> f - 1" "ip_recvs s a \<noteq> None" using t(5) by (auto split: if_splits)
    with iopp_invD(5) [OF inv a(2)] fa t(1) show ?case by auto
  next
    case (6 g) then show ?case using iopp_invD(6) [OF inv, of g] set p t(6,7,8) by (cases "g = f") auto
  next
    case (7 g) then show ?case using iopp_invD(7) [OF inv, of g] t by simp
  qed (use iopp_invD(7) [OF inv] t in auto)
qed

lemma iopp_inv_cong:
  "iopp_inv s \<Longrightarrow> ip_pending t = ip_pending s \<Longrightarrow> ip_closures t = ip_closures s \<Longrightarrow> ip_arrays t = ip_arrays s \<Longrightarrow>
   ip_recvs t = ip_recvs s \<Longrightarrow> ip_next t = ip_next s \<Longrightarrow> ip_log t = ip_log s @ [e] \<Longrightarrow>
   (\<And>f. asked_cbs f [e] = []) \<Longrightarrow> (\<And>f. called_cbs f [e] = []) \<Longrightarrow> iopp_inv t"
proof -
  assume inv: "iopp_inv s" and t: "ip_pending t = ip_pending s" "ip_closures t = ip_closures s" "ip_arrays t = ip_arrays s"
    "ip_recvs t = ip_recvs s" "ip_next t = ip_next s" "ip_log t = ip_log s @ [e]"
    and e: "\<And>f. asked_cbs f [e] = []" "\<And>f. called_cbs f [e] = []"
  have "owns t f c" if "owns s f c" for f c using that t e by (cases c) auto
  with inv t e show ?thesis unfolding iopp_inv_def by simp
qed

lemma send_done:
  assumes inv: "iopp_inv s" and f: "f \<in> set (ip_pending s)" "is_send (ip_closures s f)"
  shows "\<exists>t cb. iopp_step (IoSendDone f err) s = Inr t \<and> iopp_inv t \<and> asked_cbs f (ip_log s) = [cb] \<and>
    ip_log t = ip_log s @ [CalledSend f cb err]"
proof -
  obtain cb a where c: "ip_closures s f = Some (SendDone cb a)" using f(2) by (auto elim: is_send.elims)
  from iopp_invD(3) [OF inv c] obtain bufs where o: "f = Suc a" "asked_cbs f (ip_log s) = [cb]"
    "ip_arrays s a = Some (fill_parts 0 bufs)" by auto
  have r: "ip_recvs s a = None" using iopp_invD(5) [OF inv, of a] c o(1) by fastforce
  let ?t = "s\<lparr>ip_send_error := err, ip_pending := remove1 f (ip_pending s), ip_arrays := (ip_arrays s)(a := None),
     ip_log := ip_log s @ [CalledSend f cb err], ip_closures := (ip_closures s)(f := None)\<rparr>"
  have "iopp_step (IoSendDone f err) s = Inr ?t"
    using c o(3) by (simp add: iopp_send_done_def callAndFreeCppFunction_def delete_array_def ip_say_def)
  moreover have "iopp_inv ?t"
    by (rule iopp_done_inv [OF inv c, of _ "CalledSend f cb err"]) (use o r in \<open>simp_all add: fun_upd_idem\<close>)
  ultimately show ?thesis using o(2) by auto
qed

lemma receive_done:
  assumes inv: "iopp_inv s" and f: "f \<in> set (ip_pending s)" "is_receive (ip_closures s f)"
  shows "\<exists>t cb. iopp_step (IoReceiveDone f err b) s = Inr t \<and> iopp_inv t \<and> asked_cbs f (ip_log s) = [cb] \<and>
    (\<exists>v. ip_log t = ip_log s @ [CalledReceive f cb err v] \<and> (err = None \<longrightarrow> v = b))"
proof -
  obtain cb a where c: "ip_closures s f = Some (RecvDone cb a)" using f(2) by (auto elim: is_receive.elims)
  from iopp_invD(3) [OF inv c] obtain v where o: "f = Suc a" "asked_cbs f (ip_log s) = [cb]" "ip_recvs s a = Some v" by auto
  have r: "ip_arrays s a = None" using iopp_invD(4) [OF inv, of a] c o(1) by fastforce
  let ?v = "if err = None then b else v"
  let ?t = "s\<lparr>ip_receive_error := err, ip_recvs := (ip_recvs s)(a := None), ip_pending := remove1 f (ip_pending s),
     ip_log := ip_log s @ [CalledReceive f cb err ?v], ip_closures := (ip_closures s)(f := None)\<rparr>"
  have "iopp_step (IoReceiveDone f err b) s = Inr ?t"
    using c o(3) by (cases err) (simp_all add: iopp_receive_done_def callAndFreeCppFunction_def delete_recv_def ip_say_def)
  moreover have "iopp_inv ?t"
    by (rule iopp_done_inv [OF inv c, of _ "CalledReceive f cb err ?v"]) (use o r in \<open>simp_all add: fun_upd_idem\<close>)
  ultimately show ?thesis using o(2) by (cases b) auto
qed

lemma send_read:
  assumes inv: "iopp_inv s" and f: "f \<in> set (ip_pending s)" "is_send (ip_closures s f)"
    and ne: "\<And>cb bufs. AskedSend f cb bufs \<in> set (ip_log s) \<Longrightarrow> bufs \<noteq> []"
  shows "\<exists>t cb bufs. iopp_step (IoReads f) s = Inr t \<and> iopp_inv t \<and> AskedSend f cb bufs \<in> set (ip_log s) \<and>
    ip_log t = ip_log s @ [Packet f bufs]"
proof -
  obtain cb a where c: "ip_closures s f = Some (SendDone cb a)" using f(2) by (auto elim: is_send.elims)
  from iopp_invD(3) [OF inv c] obtain bufs where o: "AskedSend f cb bufs \<in> set (ip_log s)"
    "ip_arrays s a = Some (fill_parts 0 bufs)" by auto
  with ne have "bufs \<noteq> []" by blast
  then have step: "iopp_step (IoReads f) s = Inr (ip_say (Packet f bufs) s)"
    using c o(2) walk_parts_all [of bufs] by (simp add: iopp_reads_def parts_of_def del: walk_parts.simps)
  have "iopp_inv (ip_say (Packet f bufs) s)"
    by (rule iopp_inv_cong [OF inv, of _ "Packet f bufs"]) (simp_all add: ip_say_def)
  with step o(1) show ?thesis by (auto simp: ip_say_def)
qed

fun reads_empty :: "iopp_input \<Rightarrow> iopp \<Rightarrow> bool" where
  "reads_empty (IoReads f) s \<longleftrightarrow> list_ex (\<lambda>e. case e of AskedSend g cb bufs \<Rightarrow> g = f \<and> bufs = [] | _ \<Rightarrow> False) (ip_log s)"
| "reads_empty _ s \<longleftrightarrow> False"

lemma reads_emptyD: "\<not> reads_empty (IoReads f) s \<Longrightarrow> AskedSend f cb bufs \<in> set (ip_log s) \<Longrightarrow> bufs \<noteq> []"
  by (auto simp: list_ex_iff)

lemma iopp_step_ok:
  assumes inv: "iopp_inv s" and en: "iopp_enabled i s" and ne: "\<not> reads_empty i s"
  shows "\<exists>t. iopp_step i s = Inr t \<and> iopp_inv t"
proof (cases i)
  case (Send bufs cb) with iopp_send_inv [OF inv] show ?thesis by simp
next
  case (Receive cb) with iopp_receive_inv [OF inv] show ?thesis by simp
next
  case (IoReads f)
  with send_read [OF inv, of f] en ne reads_emptyD [of f s] show ?thesis by auto
next
  case (IoSendDone f err) with send_done [OF inv, of f err] en show ?thesis by auto
next
  case (IoReceiveDone f err b) with receive_done [OF inv, of f err b] en show ?thesis by auto
next
  case (FreeBuf base)
  have "iopp_inv (ip_say (BufFree base) s)"
    by (rule iopp_inv_cong [OF inv, of _ "BufFree base"]) (simp_all add: ip_say_def)
  with FreeBuf show ?thesis by simp
qed

lemma iopp_step_inv:
  assumes inv: "iopp_inv s" and en: "iopp_enabled i s" and run: "iopp_step i s = Inr t"
  shows "iopp_inv t"
proof (cases "reads_empty i s")
  case False with iopp_step_ok [OF inv en] run show ?thesis by auto
next
  case True
  then obtain f where i: "i = IoReads f" by (cases i) auto
  from run i obtain bs where "t = ip_say (Packet f bs) s" by (auto simp: iopp_reads_def simp del: walk_parts.simps)
  then show ?thesis by (intro iopp_inv_cong [OF inv, of t "Packet f bs"]) (simp_all add: ip_say_def)
qed

lemma iopp_reach_inv: "iopp_reach s \<Longrightarrow> iopp_inv s"
  by (induction rule: iopp_reach.induct) (simp add: iopp_inv_def iopp_zero_def, rule iopp_step_inv)


definition run_iopp :: "iopp_input list \<Rightarrow> iopp res" where
  "run_iopp is = foldR (\<lambda>i s. if iopp_enabled i s then iopp_step i s else Inl Uninit) is iopp_zero"

lemma run_iopp_reach: "run_iopp is = Inr s \<Longrightarrow> iopp_reach s"
  unfolding run_iopp_def
  by (erule foldR_inv [where P = iopp_reach]) (auto split: if_splits intro: iopp_reach.intros)

lemma two_parts_run:
  "case run_iopp [Send [(2, Some 0), (3, Some 1)] 7, Receive 8] of Inl _ \<Rightarrow> False
   | Inr s \<Rightarrow> iopp_enabled (IoReads 1) s \<and> \<not> reads_empty (IoReads 1) s \<and>
       ip_log s = [AskedSend 1 7 [(2, Some 0), (3, Some 1)], AskedReceive 3 8]"
  by code_simp


text \<open>With no buffers the array is empty and the io reads beyond it.\<close>

lemma send_nothing: "case run_iopp [Send [] 7] of Inl _ \<Rightarrow> False | Inr s \<Rightarrow> (case iopp_step (IoReads 1) s of Inl OutOfBounds \<Rightarrow> True | _ \<Rightarrow> False)"
  by code_simp

end
