(* ===== verification/UvReqs.thy ===== *)
theory UvReqs
  imports UvFiles
begin

text \<open>
  The memory of the requests of \<open>runtime_bridge/c-modules/pxprpc_libuv_rpc/init.hpp\<close>.  A request of libuv
  is allocated with a closure, whose address is put into its member \<open>data\<close>, and is handed to libuv with
  one of the callbacks \<open>_uvcb_callDataAsFunction*\<close>, which calls the closure and frees both.  The callbacks
  are cut where the closure runs: the closure may start further requests before it returns.  What a
  closure does is \<open>write_done\<close>, \<open>connected_stream\<close> or \<open>fs_complete\<close>; here it is named by what it captured.
\<close>

section \<open>State\<close>

datatype closure = FsClosure fs_op fs_done | StatClosure uv_call

datatype req_data = DataNull | DataClosure nat | DataObject addr

text \<open>Memory that a callback frees: a request, or a handle that is being closed.\<close>

record lv_req =
  lr_data :: req_data

text \<open>The callback a request was started with, and the callbacks whose closure runs.\<close>

datatype completion = OnFs | OnStat | OnClose

datatype req_frame = FreeReqFrame nat nat | FsFreeReqFrame nat nat | KeepFrame nat nat | StatFreeReqFrame nat nat

datatype req_say =
    ReqCalled nat closure "int option"
  | ReqRefused nat closure
  | ReqCleanup nat
  | ReqFreed nat

record req_world =
  rm_reqs :: "nat \<Rightarrow> lv_req option"
  rm_closures :: "nat \<Rightarrow> closure option"
  rm_next :: nat
  rm_flight :: "(nat \<times> completion) list"
  rm_stack :: "req_frame list"
  rm_log :: "req_say list"

definition req_start :: req_world where
  "req_start = \<lparr>rm_reqs = Map.empty, rm_closures = Map.empty, rm_next = 0, rm_flight = [], rm_stack = [], rm_log = []\<rparr>"

definition req_note :: "req_say \<Rightarrow> req_world \<Rightarrow> req_world" where
  "req_note e w = w\<lparr>rm_log := rm_log w @ [e]\<rparr>"

definition lv_req_at :: "nat \<Rightarrow> req_world \<Rightarrow> lv_req res" where
  "lv_req_at r w = (case rm_reqs w r of None \<Rightarrow> Inl UseAfterFree | Some q \<Rightarrow> Inr q)"

definition delete_req :: "nat \<Rightarrow> req_world \<Rightarrow> req_world res" where
  "delete_req r w =
     bindR (lv_req_at r w) (\<lambda>_. Inr (req_note (ReqFreed r) (w\<lparr>rm_reqs := (rm_reqs w)(r := None)\<rparr>)))"

definition delete_closure :: "nat \<Rightarrow> req_world \<Rightarrow> req_world res" where
  "delete_closure c w =
     (case rm_closures w c of None \<Rightarrow> Inl UseAfterFree
      | Some _ \<Rightarrow> Inr (w\<lparr>rm_closures := (rm_closures w)(c := None)\<rparr>))"

definition clear_data :: "nat \<Rightarrow> req_world \<Rightarrow> req_world res" where
  "clear_data r w =
     bindR (lv_req_at r w) (\<lambda>q. Inr (w\<lparr>rm_reqs := (rm_reqs w)(r \<mapsto> q\<lparr>lr_data := DataNull\<rparr>)\<rparr>))"

section \<open>Callbacks\<close>

text \<open>
  \<open>data\<close> is cast to a closure of the type the callback expects, without a test: anything else is
  undefined.  What the callbacks share is the call of the closure and, after it, its deletion.
\<close>

fun takes_nothing :: "closure \<Rightarrow> bool" where
  "takes_nothing (FsClosure op d) = True"
| "takes_nothing (StatClosure c) = False"

definition call_data ::
  "(closure \<Rightarrow> bool) \<Rightarrow> (nat \<Rightarrow> req_frame) \<Rightarrow> int option \<Rightarrow> (req_world \<Rightarrow> req_world res) \<Rightarrow> nat \<Rightarrow> req_world \<Rightarrow> req_world res" where
  "call_data typed frame stat end_cb r w =
     bindR (lv_req_at r w) (\<lambda>q.
     case lr_data q of
       DataNull \<Rightarrow> end_cb w
     | DataObject a \<Rightarrow> Inl Uninit
     | DataClosure c \<Rightarrow>
         (case rm_closures w c of
            None \<Rightarrow> Inl UseAfterFree
          | Some f \<Rightarrow>
              if typed f then Inr (req_note (ReqCalled r f stat) (w\<lparr>rm_stack := frame c # rm_stack w\<rparr>)) else Inl Uninit))"

definition data_called :: "nat \<Rightarrow> nat \<Rightarrow> (req_world \<Rightarrow> req_world res) \<Rightarrow> req_world \<Rightarrow> req_world res" where
  "data_called r c end_cb w = bindR (delete_closure c w) (\<lambda>w. bindR (clear_data r w) end_cb)"

definition callDataAsFunctionFreeReq :: "nat \<Rightarrow> req_world \<Rightarrow> req_world res" where
  "callDataAsFunctionFreeReq r = call_data takes_nothing (FreeReqFrame r) None (delete_req r) r"

definition cleanup_and_delete :: "nat \<Rightarrow> req_world \<Rightarrow> req_world res" where
  "cleanup_and_delete r w = delete_req r (req_note (ReqCleanup r) w)"

definition callDataAsFunctionFreeReq_fs :: "nat \<Rightarrow> req_world \<Rightarrow> req_world res" where
  "callDataAsFunctionFreeReq_fs r = call_data takes_nothing (FsFreeReqFrame r) None (cleanup_and_delete r) r"

text \<open>The variant that keeps the memory is used nowhere.\<close>

definition callDataAsFunction :: "nat \<Rightarrow> req_world \<Rightarrow> req_world res" where
  "callDataAsFunction r = call_data takes_nothing (KeepFrame r) None Inr r"

definition callDataAsFunctionWithStatFreeReq :: "nat \<Rightarrow> int \<Rightarrow> req_world \<Rightarrow> req_world res" where
  "callDataAsFunctionWithStatFreeReq r stat =
     call_data (\<lambda>f. \<not> takes_nothing f) (StatFreeReqFrame r) (Some stat) (delete_req r) r"

text \<open>What follows the call of the closure in each of them.\<close>

fun callback_return :: "req_frame \<Rightarrow> req_world \<Rightarrow> req_world res" where
  "callback_return (FreeReqFrame r c) w = data_called r c (delete_req r) w"
| "callback_return (FsFreeReqFrame r c) w = data_called r c (cleanup_and_delete r) w"
| "callback_return (KeepFrame r c) w = data_called r c Inr w"
| "callback_return (StatFreeReqFrame r c) w = data_called r c (delete_req r) w"

section \<open>Starting requests\<close>

text \<open>
  \<open>new uv_..._t()\<close> and \<open>new std::function(...)\<close>, then the function of libuv with a callback.  When libuv
  answers with an error it has not taken the request; no caller looks at the answer.
\<close>

definition new_req :: "closure \<Rightarrow> req_world \<Rightarrow> nat \<times> req_world" where
  "new_req f w =
     (rm_next w,
      w\<lparr>rm_reqs := (rm_reqs w)(rm_next w \<mapsto> \<lparr>lr_data = DataClosure (Suc (rm_next w))\<rparr>),
        rm_closures := (rm_closures w)(Suc (rm_next w) \<mapsto> f), rm_next := Suc (Suc (rm_next w))\<rparr>)"

definition launch :: "closure \<Rightarrow> int \<Rightarrow> nat \<Rightarrow> completion \<Rightarrow> req_world \<Rightarrow> req_world" where
  "launch f answer r k w =
     (if answer < 0 then req_note (ReqRefused r f) w else w\<lparr>rm_flight := rm_flight w @ [(r, k)]\<rparr>)"

definition start_fs :: "fs_op \<Rightarrow> fs_done \<Rightarrow> int \<Rightarrow> req_world \<Rightarrow> req_world" where
  "start_fs op d answer w = (let (r, w) = new_req (FsClosure op d) w in launch (FsClosure op d) answer r OnFs w)"

definition start_write :: "hid \<Rightarrow> bytes \<Rightarrow> oid \<Rightarrow> int \<Rightarrow> req_world \<Rightarrow> req_world" where
  "start_write h buf t answer w =
     (let f = StatClosure (UvWrite h buf t); (r, w) = new_req f w in launch f answer r OnStat w)"

definition start_udp_send :: "hid \<Rightarrow> bytes \<Rightarrow> bytes \<Rightarrow> oid \<Rightarrow> int \<Rightarrow> req_world \<Rightarrow> req_world" where
  "start_udp_send h buf sa t answer w =
     (let f = StatClosure (UvUdpSend h buf sa t); (r, w) = new_req f w in launch f answer r OnStat w)"

text \<open>\<open>uv_pipe_connect\<close> answers nothing: an error reaches the callback.\<close>

definition pipe_connect_req :: "hid \<Rightarrow> bytes \<Rightarrow> oid \<Rightarrow> addr \<Rightarrow> req_world \<Rightarrow> req_world" where
  "pipe_connect_req h name t a w =
     (let f = StatClosure (UvPipeConnect h name t a); (r, w) = new_req f w in launch f 0 r OnStat w)"

definition tcp_connect_req ::
  "libuv \<Rightarrow> hid \<Rightarrow> bytes \<Rightarrow> u32 \<Rightarrow> oid \<Rightarrow> addr \<Rightarrow> int \<Rightarrow> req_world \<Rightarrow> int \<times> req_world" where
  "tcp_connect_req lv h ip port t a answer w =
     (if parse_addr lv ip port < 0 then (parse_addr lv ip port, w)
      else let f = StatClosure (UvTcpConnect h ip port t a); (r, w) = new_req f w
           in (answer, launch f answer r OnStat w))"

text \<open>\<open>uv_close\<close> on a handle whose \<open>data\<close> was cleared; it takes every handle.\<close>

definition close_req :: "req_world \<Rightarrow> req_world" where
  "close_req w =
     w\<lparr>rm_reqs := (rm_reqs w)(rm_next w \<mapsto> \<lparr>lr_data = DataNull\<rparr>), rm_next := Suc (rm_next w),
       rm_flight := rm_flight w @ [(rm_next w, OnClose)]\<rparr>"

section \<open>Runs\<close>

datatype req_event =
    StartFs fs_op fs_done int
  | StartWrite hid bytes oid int
  | StartUdpSend hid bytes bytes oid int
  | StartPipeConnect hid bytes oid addr
  | StartTcpConnect libuv hid bytes u32 oid addr int
  | StartClose
  | Complete nat completion int
  | ClosureReturns

fun completed :: "nat \<Rightarrow> completion \<Rightarrow> int \<Rightarrow> req_world \<Rightarrow> req_world res" where
  "completed r OnFs stat w = callDataAsFunctionFreeReq_fs r w"
| "completed r OnStat stat w = callDataAsFunctionWithStatFreeReq r stat w"
| "completed r OnClose stat w = callDataAsFunctionFreeReq r w"

fun req_do :: "req_event \<Rightarrow> req_world \<Rightarrow> req_world res" where
  "req_do (StartFs op d answer) w = Inr (start_fs op d answer w)"
| "req_do (StartWrite h buf t answer) w = Inr (start_write h buf t answer w)"
| "req_do (StartUdpSend h buf sa t answer) w = Inr (start_udp_send h buf sa t answer w)"
| "req_do (StartPipeConnect h name t a) w = Inr (pipe_connect_req h name t a w)"
| "req_do (StartTcpConnect lv h ip port t a answer) w = Inr (snd (tcp_connect_req lv h ip port t a answer w))"
| "req_do StartClose w = Inr (close_req w)"
| "req_do (Complete r k stat) w = completed r k stat (w\<lparr>rm_flight := remove1 (r, k) (rm_flight w)\<rparr>)"
| "req_do ClosureReturns w =
     (case rm_stack w of [] \<Rightarrow> Inr w | fr # st \<Rightarrow> callback_return fr (w\<lparr>rm_stack := st\<rparr>))"

text \<open>
  libuv completes what it has taken, once, with the callback it was given, and not from inside another
  callback.
\<close>

fun req_allowed :: "req_event \<Rightarrow> req_world \<Rightarrow> bool" where
  "req_allowed (Complete r k stat) w = (rm_stack w = [] \<and> (r, k) \<in> set (rm_flight w))"
| "req_allowed _ w = True"

inductive req_reach :: "req_world \<Rightarrow> bool" where
  start: "req_reach req_start"
| step: "req_reach w \<Longrightarrow> req_allowed e w \<Longrightarrow> req_do e w = Inr w' \<Longrightarrow> req_reach w'"

inductive_cases req_reachE: "req_reach w"

section \<open>Ownership\<close>

text \<open>
  Who holds a live request: libuv, a callback that is running its closure, or nobody, when libuv refused it.
\<close>

fun frame_req :: "req_frame \<Rightarrow> nat" where
  "frame_req (FreeReqFrame r c) = r"
| "frame_req (FsFreeReqFrame r c) = r"
| "frame_req (KeepFrame r c) = r"
| "frame_req (StatFreeReqFrame r c) = r"

fun frame_closure :: "req_frame \<Rightarrow> nat" where
  "frame_closure (FreeReqFrame r c) = c"
| "frame_closure (FsFreeReqFrame r c) = c"
| "frame_closure (KeepFrame r c) = c"
| "frame_closure (StatFreeReqFrame r c) = c"

fun frame_frees :: "req_frame \<Rightarrow> bool" where
  "frame_frees (KeepFrame r c) = False"
| "frame_frees _ = True"

fun freed_reqs :: "req_say list \<Rightarrow> nat list" where
  "freed_reqs [] = []"
| "freed_reqs (ReqFreed r # es) = r # freed_reqs es"
| "freed_reqs (_ # es) = freed_reqs es"

fun called_reqs :: "req_say list \<Rightarrow> nat list" where
  "called_reqs [] = []"
| "called_reqs (ReqCalled r f stat # es) = r # called_reqs es"
| "called_reqs (_ # es) = called_reqs es"

fun refused_reqs :: "req_say list \<Rightarrow> nat list" where
  "refused_reqs [] = []"
| "refused_reqs (ReqRefused r f # es) = r # refused_reqs es"
| "refused_reqs (_ # es) = refused_reqs es"

lemma freed_append [simp]: "freed_reqs (es @ es') = freed_reqs es @ freed_reqs es'"
  by (induction es rule: freed_reqs.induct) simp_all

lemma called_reqs_append [simp]: "called_reqs (es @ es') = called_reqs es @ called_reqs es'"
  by (induction es rule: called_reqs.induct) simp_all

lemma refused_append [simp]: "refused_reqs (es @ es') = refused_reqs es @ refused_reqs es'"
  by (induction es rule: refused_reqs.induct) simp_all

definition req_holders :: "req_world \<Rightarrow> nat list" where
  "req_holders w = map fst (rm_flight w) @ map frame_req (rm_stack w) @ refused_reqs (rm_log w)"

text \<open>A request in flight has the closure its callback expects; a running or refused one still has its own.\<close>

definition owns_closure :: "req_world \<Rightarrow> nat \<Rightarrow> bool" where
  "owns_closure w r \<longleftrightarrow> (\<exists>q. rm_reqs w r = Some q \<and> lr_data q = DataClosure (Suc r)) \<and> rm_closures w (Suc r) \<noteq> None"

fun flight_ok :: "req_world \<Rightarrow> nat \<times> completion \<Rightarrow> bool" where
  "flight_ok w (r, OnClose) = (\<exists>q. rm_reqs w r = Some q \<and> lr_data q = DataNull)"
| "flight_ok w (r, OnFs) = (owns_closure w r \<and> (\<exists>f. rm_closures w (Suc r) = Some f \<and> takes_nothing f))"
| "flight_ok w (r, OnStat) = (owns_closure w r \<and> (\<exists>f. rm_closures w (Suc r) = Some f \<and> \<not> takes_nothing f))"

definition frame_ok :: "req_world \<Rightarrow> req_frame \<Rightarrow> bool" where
  "frame_ok w fr \<longleftrightarrow> owns_closure w (frame_req fr) \<and> frame_closure fr = Suc (frame_req fr) \<and> frame_frees fr"

text \<open>Closures are held by live requests only, and the history of the log agrees with the memory.\<close>

definition req_memory :: "req_world \<Rightarrow> bool" where
  "req_memory w \<longleftrightarrow>
     distinct (req_holders w) \<and> set (req_holders w) = dom (rm_reqs w) \<and>
     (\<forall>c f. rm_closures w c = Some f \<longrightarrow> (\<exists>r. c = Suc r \<and> owns_closure w r)) \<and>
     (\<forall>r \<in> dom (rm_reqs w). r < rm_next w) \<and> (\<forall>r. owns_closure w r \<longrightarrow> Suc r < rm_next w)"

definition req_history :: "req_world \<Rightarrow> bool" where
  "req_history w \<longleftrightarrow>
     distinct (freed_reqs (rm_log w)) \<and> set (freed_reqs (rm_log w)) \<inter> dom (rm_reqs w) = {} \<and>
     (\<forall>r \<in> set (freed_reqs (rm_log w)). r < rm_next w) \<and>
     distinct (called_reqs (rm_log w)) \<and>
     set (called_reqs (rm_log w)) \<subseteq> set (map frame_req (rm_stack w)) \<union> set (freed_reqs (rm_log w))"

definition req_inv :: "req_world \<Rightarrow> bool" where
  "req_inv w \<longleftrightarrow> req_memory w \<and> req_history w \<and>
     (\<forall>x \<in> set (rm_flight w). flight_ok w x) \<and> (\<forall>fr \<in> set (rm_stack w). frame_ok w fr) \<and>
     (\<forall>r \<in> set (refused_reqs (rm_log w)). owns_closure w r)"

lemma req_inv_start: "req_inv req_start"
  by (simp add: req_inv_def req_memory_def req_history_def req_start_def req_holders_def owns_closure_def)

lemmas req_inv_simps = req_inv_def req_memory_def req_history_def req_holders_def

lemma owns_upd:
  "r \<noteq> n \<Longrightarrow> c \<noteq> Suc r \<Longrightarrow>
    owns_closure (w\<lparr>rm_reqs := (rm_reqs w)(n := q), rm_closures := (rm_closures w)(c := f)\<rparr>) r = owns_closure w r"
  by (simp add: owns_closure_def)

lemma owns_cong: "rm_reqs w' = rm_reqs w \<Longrightarrow> rm_closures w' = rm_closures w \<Longrightarrow> owns_closure w' r = owns_closure w r"
  by (simp add: owns_closure_def)

lemma flight_cong: "rm_reqs w' r = rm_reqs w r \<Longrightarrow> rm_closures w' (Suc r) = rm_closures w (Suc r) \<Longrightarrow> flight_ok w' (r, k) = flight_ok w (r, k)"
  by (cases k) (simp_all add: owns_closure_def)

text \<open>A new request is one nobody knew.\<close>

lemma reqs_below: "req_inv w \<Longrightarrow> rm_reqs w r = Some q \<Longrightarrow> r < rm_next w"
  by (auto simp: req_inv_def req_memory_def)

lemma closures_below: "req_inv w \<Longrightarrow> rm_closures w c = Some f \<Longrightarrow> c < rm_next w"
  by (auto simp: req_inv_def req_memory_def)

lemma holders_live: "req_inv w \<Longrightarrow> set (req_holders w) = dom (rm_reqs w)"
  by (simp add: req_inv_def req_memory_def)

lemma freed_below: "req_inv w \<Longrightarrow> r \<in> set (freed_reqs (rm_log w)) \<Longrightarrow> r < rm_next w"
  by (simp add: req_inv_def req_history_def)

lemma called_below:
  assumes inv: "req_inv w" and r: "r \<in> set (called_reqs (rm_log w))"
  shows "r < rm_next w"
proof -
  from inv r have "r \<in> set (req_holders w) \<or> r \<in> set (freed_reqs (rm_log w))"
    by (auto simp: req_inv_def req_history_def req_holders_def)
  with holders_live [OF inv] reqs_below [OF inv] freed_below [OF inv] show ?thesis by blast
qed

lemma fresh_req:
  assumes inv: "req_inv w"
  shows "rm_reqs w (rm_next w) = None" "rm_closures w (Suc (rm_next w)) = None"
    "rm_next w \<notin> set (req_holders w)" "rm_next w \<notin> set (freed_reqs (rm_log w))" "rm_next w \<notin> set (called_reqs (rm_log w))"
proof -
  show 1: "rm_reqs w (rm_next w) = None" using reqs_below [OF inv] by (cases "rm_reqs w (rm_next w)") blast+
  show "rm_closures w (Suc (rm_next w)) = None"
    using closures_below [OF inv] by (cases "rm_closures w (Suc (rm_next w))") fastforce+
  show "rm_next w \<notin> set (req_holders w)" using holders_live [OF inv] 1 by auto
  show "rm_next w \<notin> set (freed_reqs (rm_log w))" "rm_next w \<notin> set (called_reqs (rm_log w))"
    using freed_below [OF inv] called_below [OF inv] by blast+
qed

text \<open>
  The conditions on a request speak of its own memory only: what changes one request leaves the others as
  they are.
\<close>

definition agree_off :: "req_world \<Rightarrow> nat \<Rightarrow> req_world \<Rightarrow> bool" where
  "agree_off w n w' \<longleftrightarrow> (\<forall>r. r \<noteq> n \<longrightarrow> rm_reqs w' r = rm_reqs w r \<and> rm_closures w' (Suc r) = rm_closures w (Suc r))"

lemma agree_ok:
  assumes "agree_off w n w'"
  shows "r \<noteq> n \<Longrightarrow> owns_closure w' r = owns_closure w r"
    and "r \<noteq> n \<Longrightarrow> flight_ok w' (r, k) = flight_ok w (r, k)"
    and "frame_req fr \<noteq> n \<Longrightarrow> frame_ok w' fr = frame_ok w fr"
  using assms by (cases k; simp add: agree_off_def owns_closure_def frame_ok_def)+

lemma agree_dom: "agree_off w n w' \<Longrightarrow> dom (rm_reqs w') - {n} = dom (rm_reqs w) - {n}"
  by (auto simp: agree_off_def)

lemma holders_distinct: "req_inv w \<Longrightarrow> distinct (req_holders w)"
  by (simp add: req_inv_def req_memory_def)

lemma closures_owned:
  "req_inv w \<Longrightarrow> rm_closures w c = Some f \<Longrightarrow> \<exists>r. c = Suc r \<and> owns_closure w r"
  by (simp add: req_inv_def req_memory_def)

lemma owned_below: "req_inv w \<Longrightarrow> owns_closure w r \<Longrightarrow> Suc r < rm_next w"
  by (simp add: req_inv_def req_memory_def)

lemma holders_agree:
  assumes inv: "req_inv w" and agree: "agree_off w n w'" and n: "n \<notin> set (req_holders w)"
  shows "\<forall>x \<in> set (rm_flight w). flight_ok w' x" "\<forall>fr \<in> set (rm_stack w). frame_ok w' fr"
    "\<forall>r \<in> set (refused_reqs (rm_log w)). owns_closure w' r"
proof -
  have "fst x \<noteq> n" if "x \<in> set (rm_flight w)" for x using n that by (auto simp: req_holders_def)
  then show "\<forall>x \<in> set (rm_flight w). flight_ok w' x"
    using inv agree_ok(2) [OF agree] by (metis prod.collapse req_inv_def)
  have "frame_req fr \<noteq> n" if "fr \<in> set (rm_stack w)" for fr using n that by (auto simp: req_holders_def)
  then show "\<forall>fr \<in> set (rm_stack w). frame_ok w' fr"
    using inv agree_ok(3) [OF agree] by (metis req_inv_def)
  have "r \<noteq> n" if "r \<in> set (refused_reqs (rm_log w))" for r using n that by (auto simp: req_holders_def)
  then show "\<forall>r \<in> set (refused_reqs (rm_log w)). owns_closure w' r"
    using inv agree_ok(1) [OF agree] by (metis req_inv_def)
qed

lemma started_flight:
  "owns_closure w r \<Longrightarrow> rm_closures w (Suc r) = Some f \<Longrightarrow> flight_ok w (r, if takes_nothing f then OnFs else OnStat)"
  by simp

lemma added_inv:
  assumes inv: "req_inv w" and n: "n = rm_next w" and agree: "agree_off w n w'" and live: "rm_reqs w' n \<noteq> None"
    and closures: "\<And>c g. rm_closures w' c = Some g \<Longrightarrow> rm_closures w c = None \<Longrightarrow> c = Suc n \<and> owns_closure w' n"
    and later: "n < rm_next w'" "owns_closure w' n \<Longrightarrow> Suc n < rm_next w'" and stack: "rm_stack w' = rm_stack w"
    and log: "freed_reqs (rm_log w') = freed_reqs (rm_log w)" "called_reqs (rm_log w') = called_reqs (rm_log w)"
    and held: "rm_flight w' = rm_flight w @ [(n, k)] \<and> refused_reqs (rm_log w') = refused_reqs (rm_log w) \<and> flight_ok w' (n, k) \<or>
      rm_flight w' = rm_flight w \<and> refused_reqs (rm_log w') = refused_reqs (rm_log w) @ [n] \<and> owns_closure w' n"
  shows "req_inv w'"
proof -
  note fresh = fresh_req [OF inv, folded n]
  note others = holders_agree [OF inv agree fresh(3)]
  have hist: "req_history w" using inv by (simp add: req_inv_def)
  have set: "set (req_holders w') = insert n (set (req_holders w))" using held by (auto simp: req_holders_def stack)
  have dist: "distinct (req_holders w')"
    using held fresh(3) holders_distinct [OF inv] by (elim disjE) (simp_all add: req_holders_def stack)
  have dom: "dom (rm_reqs w') = insert n (dom (rm_reqs w))"
    using agree_dom [OF agree] live by auto
  have owned: "owns_closure w r" if "owns_closure w' r" "r \<noteq> n" for r using that agree_ok(1) [OF agree] by blast
  have kept: "owns_closure w' r" if "owns_closure w r" for r
    using that agree_ok(1) [OF agree] fresh(1) by (cases "r = n") (auto simp: owns_closure_def)
  have "req_memory w'"
    unfolding req_memory_def
  proof (intro conjI allI impI ballI)
    show "distinct (req_holders w')" by (rule dist)
    show "set (req_holders w') = dom (rm_reqs w')" by (simp add: set dom holders_live [OF inv])
    show "\<exists>r. c = Suc r \<and> owns_closure w' r" if "rm_closures w' c = Some g" for c g
    proof (cases "rm_closures w c")
      case None
      from closures [OF that None] show ?thesis by blast
    next
      case (Some g')
      from closures_owned [OF inv Some] kept show ?thesis by blast
    qed
    show "r < rm_next w'" if "r \<in> dom (rm_reqs w')" for r
      using that reqs_below [OF inv, of r] later(1) by (auto simp: dom n)
    show "Suc r < rm_next w'" if "owns_closure w' r" for r
      using that owned [of r] owned_below [OF inv, of r] later by (cases "r = n") (auto simp: n)
  qed
  moreover have "req_history w'"
    unfolding req_history_def log stack
  proof (intro conjI ballI)
    show "set (freed_reqs (rm_log w)) \<inter> dom (rm_reqs w') = {}" using hist fresh(4) by (simp add: req_history_def dom)
    show "r < rm_next w'" if "r \<in> set (freed_reqs (rm_log w))" for r
      using freed_below [OF inv that] later(1) by (simp add: n)
  qed (use hist in \<open>simp_all add: req_history_def\<close>)
  moreover have "\<forall>x \<in> set (rm_flight w'). flight_ok w' x" using others(1) held by (elim disjE) simp_all
  moreover have "\<forall>fr \<in> set (rm_stack w'). frame_ok w' fr" using others(2) by (simp add: stack)
  moreover have "\<forall>r \<in> set (refused_reqs (rm_log w')). owns_closure w' r" using others(3) held by (elim disjE) simp_all
  ultimately show ?thesis by (simp add: req_inv_def)
qed

lemma launch_inv:
  assumes inv: "req_inv w" and k: "k = (if takes_nothing f then OnFs else OnStat)"
  shows "req_inv (launch f answer (rm_next w) k (snd (new_req f w)))" (is "req_inv ?w")
proof -
  let ?n = "rm_next w"
  have mem: "rm_reqs ?w = (rm_reqs w)(?n \<mapsto> \<lparr>lr_data = DataClosure (Suc ?n)\<rparr>)"
    "rm_closures ?w = (rm_closures w)(Suc ?n \<mapsto> f)" "rm_next ?w = Suc (Suc ?n)"
    by (simp_all add: launch_def new_req_def req_note_def)
  have own: "owns_closure ?w ?n" by (simp add: owns_closure_def mem)
  have "flight_ok ?w (?n, k)" unfolding k using own started_flight [of ?w ?n f] by (simp add: mem flip: k)
  with own have held: "rm_flight ?w = rm_flight w @ [(?n, k)] \<and> refused_reqs (rm_log ?w) = refused_reqs (rm_log w) \<and>
      flight_ok ?w (?n, k) \<or>
    rm_flight ?w = rm_flight w \<and> refused_reqs (rm_log ?w) = refused_reqs (rm_log w) @ [?n] \<and> owns_closure ?w ?n"
    by (cases "answer < 0") (simp_all add: launch_def new_req_def req_note_def)
  show ?thesis
    by (rule added_inv [OF inv refl _ _ _ _ _ _ _ _ held])
      (use own in \<open>auto simp: agree_off_def mem split: if_splits\<close>, simp_all add: launch_def new_req_def req_note_def)
qed

lemma close_req_inv:
  assumes inv: "req_inv w"
  shows "req_inv (close_req w)"
proof (rule added_inv [OF inv refl])
  show "agree_off w (rm_next w) (close_req w)" by (simp add: agree_off_def close_req_def)
qed (auto simp: close_req_def owns_closure_def)

section \<open>Completion\<close>

lemma disowned_inv:
  assumes inv: "req_inv w" and agree: "agree_off w r w'" and dead: "rm_reqs w' r = None" "rm_closures w' (Suc r) = None"
    and closures: "dom (rm_closures w') \<subseteq> dom (rm_closures w)"
    and later: "rm_next w' = rm_next w"
    and held: "distinct (req_holders w')" "set (req_holders w) = insert r (set (req_holders w'))" "r \<notin> set (req_holders w')"
    and log: "freed_reqs (rm_log w') = freed_reqs (rm_log w) @ [r]" "called_reqs (rm_log w') = called_reqs (rm_log w)"
    and parts: "set (rm_flight w') \<subseteq> set (rm_flight w)" "set (rm_stack w') \<subseteq> set (rm_stack w)"
      "refused_reqs (rm_log w') = refused_reqs (rm_log w)"
      "set (map frame_req (rm_stack w)) \<subseteq> insert r (set (map frame_req (rm_stack w')))"
  shows "req_inv w'"
proof -
  have dom: "dom (rm_reqs w') = dom (rm_reqs w) - {r}"
    using agree_dom [OF agree] dead(1) by auto
  have hist: "req_history w" using inv by (simp add: req_inv_def)
  have live: "r \<in> dom (rm_reqs w)" using held(2) holders_live [OF inv] by auto
  have gone: "\<not> owns_closure w' r" by (simp add: owns_closure_def dead)
  have owned: "owns_closure w' x = owns_closure w x" if "x \<noteq> r" for x using that agree_ok(1) [OF agree] by blast
  have fl: "fst x \<noteq> r" if "x \<in> set (rm_flight w')" for x using that held(3) by (auto simp: req_holders_def)
  have st: "frame_req fr \<noteq> r" if "fr \<in> set (rm_stack w')" for fr using that held(3) by (auto simp: req_holders_def)
  have rf: "x \<noteq> r" if "x \<in> set (refused_reqs (rm_log w'))" for x using that held(3) by (auto simp: req_holders_def)
  have "req_memory w'"
    unfolding req_memory_def
  proof (intro conjI allI impI ballI)
    show "distinct (req_holders w')" by (rule held(1))
    show "set (req_holders w') = dom (rm_reqs w')" using held holders_live [OF inv] by (auto simp: dom)
    show "\<exists>x. c = Suc x \<and> owns_closure w' x" if c: "rm_closures w' c = Some g" for c g
    proof -
      from c closures obtain g' where "rm_closures w c = Some g'" by blast
      then obtain x where "c = Suc x" "owns_closure w x" using closures_owned [OF inv] by blast
      with c dead owned [of x] show ?thesis by (cases "x = r") auto
    qed
    show "x < rm_next w'" if "x \<in> dom (rm_reqs w')" for x using that reqs_below [OF inv, of x] by (auto simp: dom later)
    show "Suc x < rm_next w'" if "owns_closure w' x" for x
      using that gone owned [of x] owned_below [OF inv, of x] by (cases "x = r") (auto simp: later)
  qed
  moreover have "req_history w'"
    unfolding req_history_def log
  proof (intro conjI ballI)
    have new: "r \<notin> set (freed_reqs (rm_log w))" using hist live by (auto simp: req_history_def)
    with hist show "distinct (freed_reqs (rm_log w) @ [r])" by (simp add: req_history_def)
    show "set (freed_reqs (rm_log w) @ [r]) \<inter> dom (rm_reqs w') = {}" using hist by (auto simp: req_history_def dom)
    show "x < rm_next w'" if "x \<in> set (freed_reqs (rm_log w) @ [r])" for x
      using that freed_below [OF inv, of x] live reqs_below [OF inv, of r] by (auto simp: later)
    have sub: "C \<subseteq> A \<union> F \<Longrightarrow> A \<subseteq> insert r B \<Longrightarrow> C \<subseteq> B \<union> (F \<union> {r})" for A B C F :: "nat set" by blast
    show "set (called_reqs (rm_log w)) \<subseteq> set (map frame_req (rm_stack w')) \<union> set (freed_reqs (rm_log w) @ [r])"
      using sub [OF _ parts(4)] hist by (simp add: req_history_def)
  qed (use hist in \<open>simp_all add: req_history_def\<close>)
  moreover have "\<forall>x \<in> set (rm_flight w'). flight_ok w' x"
    using inv parts(1) fl agree_ok(2) [OF agree] by (metis prod.collapse req_inv_def subsetD)
  moreover have "\<forall>fr \<in> set (rm_stack w'). frame_ok w' fr"
    using inv parts(2) st agree_ok(3) [OF agree] by (metis req_inv_def subsetD)
  moreover have "\<forall>x \<in> set (refused_reqs (rm_log w')). owns_closure w' x"
    using inv rf owned by (simp add: parts(3) req_inv_def)
  ultimately show ?thesis by (simp add: req_inv_def)
qed

text \<open>libuv gives a request to its callback: the closure runs, or the handle is freed.\<close>

definition taken :: "nat \<times> completion \<Rightarrow> req_world \<Rightarrow> req_world" where
  "taken x w = w\<lparr>rm_flight := remove1 x (rm_flight w)\<rparr>"

lemma taken_flight:
  assumes "req_inv w" "(r, k) \<in> set (rm_flight w)"
  obtains xs ys where "rm_flight w = xs @ (r, k) # ys" "rm_flight (taken (r, k) w) = xs @ ys"
proof -
  from assms(2) obtain xs ys where "rm_flight w = xs @ (r, k) # ys" "(r, k) \<notin> set xs" using split_list_first by fast
  then show ?thesis by (intro that [of xs ys]) (simp_all add: taken_def remove1_append)
qed

lemma called_inv:
  assumes inv: "req_inv w" and x: "(r, k) \<in> set (rm_flight w)" and idle: "rm_stack w = []"
    and fr: "frame_req fr = r" "frame_closure fr = Suc r" "frame_frees fr" and own: "owns_closure w r"
    and w': "w' = req_note (ReqCalled r f stat) ((taken (r, k) w)\<lparr>rm_stack := [fr]\<rparr>)"
  shows "req_inv w'"
proof -
  from taken_flight [OF inv x] obtain xs ys where fl: "rm_flight w = xs @ (r, k) # ys" "rm_flight w' = xs @ ys"
    unfolding w' req_note_def by auto
  have same: "rm_reqs w' = rm_reqs w" "rm_closures w' = rm_closures w" "rm_next w' = rm_next w" "rm_stack w' = [fr]"
    "freed_reqs (rm_log w') = freed_reqs (rm_log w)" "refused_reqs (rm_log w') = refused_reqs (rm_log w)"
    "called_reqs (rm_log w') = called_reqs (rm_log w) @ [r]"
    by (simp_all add: w' req_note_def taken_def)
  have agree: "agree_off w n w'" for n by (simp add: agree_off_def same)
  have owned: "owns_closure w' y = owns_closure w y" for y by (rule owns_cong) (simp_all add: same)
  have flight: "flight_ok w' (y, k') = flight_ok w (y, k')" for y k' by (rule flight_cong) (simp_all add: same)
  have hist: "req_history w" using inv by (simp add: req_inv_def)
  have live: "r \<in> dom (rm_reqs w)" using own by (auto simp: owns_closure_def)
  then have new: "r \<notin> set (called_reqs (rm_log w))" using hist by (auto simp: req_history_def idle)
  have held: "set (req_holders w') = set (req_holders w)" by (auto simp: req_holders_def fl same idle fr)
  have "distinct (req_holders w')"
    using holders_distinct [OF inv] by (auto simp: req_holders_def fl same idle fr)
  moreover have "\<exists>y. c = Suc y \<and> owns_closure w' y" if "rm_closures w' c = Some g" for c g
    using closures_owned [OF inv, of c g] that by (simp add: same owned)
  ultimately have "req_memory w'"
    using reqs_below [OF inv] owned_below [OF inv] holders_live [OF inv] held by (auto simp: req_memory_def same owned)
  moreover have "req_history w'"
    using hist new by (auto simp: req_history_def same fr idle)
  moreover have "\<forall>y \<in> set (rm_flight w'). flight_ok w' y"
    using inv flight by (auto simp: fl req_inv_def)
  moreover have "\<forall>y \<in> set (rm_stack w'). frame_ok w' y"
    using own by (simp add: same frame_ok_def fr owned)
  moreover have "\<forall>y \<in> set (refused_reqs (rm_log w')). owns_closure w' y"
    using inv by (simp add: same owned req_inv_def)
  ultimately show ?thesis by (simp add: req_inv_def)
qed

lemma closed_inv:
  assumes inv: "req_inv w" and x: "(r, OnClose) \<in> set (rm_flight w)"
    and w': "w' = req_note (ReqFreed r) ((taken (r, OnClose) w)\<lparr>rm_reqs := (rm_reqs w)(r := None)\<rparr>)"
  shows "req_inv w'"
proof -
  from taken_flight [OF inv x] obtain xs ys where fl: "rm_flight w = xs @ (r, OnClose) # ys" "rm_flight w' = xs @ ys"
    unfolding w' req_note_def by auto
  from inv x have "flight_ok w (r, OnClose)" by (auto simp: req_inv_def)
  then have "\<not> owns_closure w r" by (auto simp: owns_closure_def)
  then have none: "rm_closures w (Suc r) = None" using closures_owned [OF inv, of "Suc r"] by (cases "rm_closures w (Suc r)") auto
  have same: "rm_reqs w' = (rm_reqs w)(r := None)" "rm_closures w' = rm_closures w" "rm_next w' = rm_next w"
    "rm_stack w' = rm_stack w" "freed_reqs (rm_log w') = freed_reqs (rm_log w) @ [r]"
    "refused_reqs (rm_log w') = refused_reqs (rm_log w)" "called_reqs (rm_log w') = called_reqs (rm_log w)"
    by (simp_all add: w' req_note_def taken_def)
  show ?thesis
  proof (rule disowned_inv [OF inv, of r])
    show "distinct (req_holders w')" "set (req_holders w) = insert r (set (req_holders w'))" "r \<notin> set (req_holders w')"
      using holders_distinct [OF inv] by (auto simp: req_holders_def fl same)
  qed (use none in \<open>auto simp: agree_off_def same fl\<close>)
qed

text \<open>When the closure is back, it and the request are freed.\<close>

lemma frame_back:
  assumes "frame_ok w fr" "frame_req fr = r"
  shows "\<exists>w'. callback_return fr w = Inr w' \<and> rm_reqs w' = (rm_reqs w)(r := None) \<and>
    rm_closures w' = (rm_closures w)(Suc r := None) \<and> rm_next w' = rm_next w \<and> rm_flight w' = rm_flight w \<and>
    rm_stack w' = rm_stack w \<and> freed_reqs (rm_log w') = freed_reqs (rm_log w) @ [r] \<and>
    called_reqs (rm_log w') = called_reqs (rm_log w) \<and> refused_reqs (rm_log w') = refused_reqs (rm_log w)"
  using assms
  by (cases fr) (auto simp: frame_ok_def owns_closure_def data_called_def delete_closure_def clear_data_def lv_req_at_def
      delete_req_def cleanup_and_delete_def req_note_def)

lemma returned_inv:
  assumes inv: "req_inv w" and st: "rm_stack w = fr # st"
  shows "\<exists>w'. callback_return fr (w\<lparr>rm_stack := st\<rparr>) = Inr w' \<and> req_inv w'"
proof -
  let ?r = "frame_req fr"
  have "frame_ok (w\<lparr>rm_stack := st\<rparr>) fr" using inv by (simp add: req_inv_def st frame_ok_def owns_closure_def)
  from frame_back [OF this refl] obtain w' where w': "callback_return fr (w\<lparr>rm_stack := st\<rparr>) = Inr w'"
    and same: "rm_reqs w' = (rm_reqs w)(?r := None)" "rm_closures w' = (rm_closures w)(Suc ?r := None)"
      "rm_next w' = rm_next w" "rm_flight w' = rm_flight w" "rm_stack w' = st"
      "freed_reqs (rm_log w') = freed_reqs (rm_log w) @ [?r]" "called_reqs (rm_log w') = called_reqs (rm_log w)"
      "refused_reqs (rm_log w') = refused_reqs (rm_log w)" by auto
  have "req_inv w'"
  proof (rule disowned_inv [OF inv, of ?r])
    show "distinct (req_holders w')" "set (req_holders w) = insert ?r (set (req_holders w'))" "?r \<notin> set (req_holders w')"
      using holders_distinct [OF inv] by (auto simp: req_holders_def same st)
  qed (auto simp: agree_off_def same st)
  with w' show ?thesis by blast
qed

lemma completed_inv:
  assumes inv: "req_inv w" and x: "(r, k) \<in> set (rm_flight w)" and idle: "rm_stack w = []"
  shows "\<exists>w'. completed r k stat (taken (r, k) w) = Inr w' \<and> req_inv w'"
proof (cases k)
  case OnClose
  from inv x have "flight_ok w (r, OnClose)" by (auto simp: req_inv_def OnClose)
  then have "completed r k stat (taken (r, k) w) =
      Inr (req_note (ReqFreed r) ((taken (r, OnClose) w)\<lparr>rm_reqs := (rm_reqs w)(r := None)\<rparr>))"
    by (auto simp: OnClose callDataAsFunctionFreeReq_def call_data_def lv_req_at_def delete_req_def taken_def)
  with closed_inv [OF inv x [unfolded OnClose] refl] show ?thesis by blast
next
  case OnFs
  from inv x have "flight_ok w (r, OnFs)" by (auto simp: req_inv_def OnFs)
  then obtain f where own: "owns_closure w r" "rm_closures w (Suc r) = Some f" "takes_nothing f" by auto
  then have "completed r k stat (taken (r, k) w) =
      Inr (req_note (ReqCalled r f None) ((taken (r, k) w)\<lparr>rm_stack := [FsFreeReqFrame r (Suc r)]\<rparr>))"
    by (auto simp: OnFs callDataAsFunctionFreeReq_fs_def call_data_def lv_req_at_def taken_def owns_closure_def idle)
  with called_inv [OF inv x idle _ _ _ own(1) refl, of "FsFreeReqFrame r (Suc r)"] show ?thesis by auto
next
  case OnStat
  from inv x have "flight_ok w (r, OnStat)" by (auto simp: req_inv_def OnStat)
  then obtain f where own: "owns_closure w r" "rm_closures w (Suc r) = Some f" "\<not> takes_nothing f" by auto
  then have "completed r k stat (taken (r, k) w) =
      Inr (req_note (ReqCalled r f (Some stat)) ((taken (r, k) w)\<lparr>rm_stack := [StatFreeReqFrame r (Suc r)]\<rparr>))"
    by (auto simp: OnStat callDataAsFunctionWithStatFreeReq_def call_data_def lv_req_at_def taken_def owns_closure_def idle)
  with called_inv [OF inv x idle _ _ _ own(1) refl, of "StatFreeReqFrame r (Suc r)"] show ?thesis by auto
qed

lemma req_do_inv:
  assumes inv: "req_inv w" and e: "req_allowed e w"
  shows "\<exists>w'. req_do e w = Inr w' \<and> req_inv w'"
proof (cases e)
  case (Complete r k stat)
  with completed_inv [OF inv, of r k stat] e show ?thesis by (simp add: taken_def)
next
  case ClosureReturns
  show ?thesis
  proof (cases "rm_stack w")
    case (Cons fr st)
    with returned_inv [OF inv Cons] show ?thesis by (simp add: ClosureReturns)
  qed (use inv in \<open>simp add: ClosureReturns\<close>)
next
  case (StartFs op d answer)
  with launch_inv [OF inv, of OnFs "FsClosure op d" answer] show ?thesis
    by (simp add: start_fs_def new_req_def)
next
  case (StartTcpConnect lv h ip port t a answer)
  with launch_inv [OF inv, of OnStat "StatClosure (UvTcpConnect h ip port t a)" answer] inv show ?thesis
    by (simp add: tcp_connect_req_def new_req_def Let_def)
next
  case StartClose
  with close_req_inv [OF inv] show ?thesis by simp
next
  case (StartWrite h buf t answer)
  with launch_inv [OF inv, of OnStat "StatClosure (UvWrite h buf t)" answer] show ?thesis
    by (simp add: start_write_def new_req_def Let_def)
next
  case (StartUdpSend h buf sa t answer)
  with launch_inv [OF inv, of OnStat "StatClosure (UvUdpSend h buf sa t)" answer] show ?thesis
    by (simp add: start_udp_send_def new_req_def Let_def)
next
  case (StartPipeConnect h name t a)
  with launch_inv [OF inv, of OnStat "StatClosure (UvPipeConnect h name t a)" 0] show ?thesis
    by (simp add: pipe_connect_req_def new_req_def Let_def)
qed

lemma req_reach_inv: "req_reach w \<Longrightarrow> req_inv w"
proof (induction rule: req_reach.induct)
  case (step w e w')
  from req_do_inv [OF step.IH step.hyps(2)] step.hyps(3) show ?case by auto
qed (rule req_inv_start)

fun run_req :: "req_event list \<Rightarrow> req_world \<Rightarrow> req_world res" where
  "run_req [] w = Inr w"
| "run_req (e # es) w = (if req_allowed e w then bindR (req_do e w) (run_req es) else Inl Uninit)"

lemma run_req_reach: "req_reach w \<Longrightarrow> run_req es w = Inr w' \<Longrightarrow> req_reach w'"
  by (induction es arbitrary: w) (auto simp: bindR_eq_Inr split: if_splits intro: req_reach.step)

text \<open>
  C37. The memory of the requests.  Whatever libuv completes, in whatever order, and whatever the closures
  start meanwhile, the cast of \<open>data\<close> is right and nothing is used after it was freed; every request is
  freed at most once and its closure called at most once.  At rest, nothing is left but the requests that
  libuv refused: their closures are never called, so the calls that wait for them are not answered.
\<close>

theorem reqs_freed_once:
  assumes "req_reach w"
  shows "(\<forall>e. req_allowed e w \<longrightarrow> (\<exists>w'. req_do e w = Inr w')) \<and>
    distinct (freed_reqs (rm_log w)) \<and> distinct (called_reqs (rm_log w)) \<and>
    dom (rm_reqs w) = set (map fst (rm_flight w)) \<union> set (map frame_req (rm_stack w)) \<union> set (refused_reqs (rm_log w)) \<and>
    set (freed_reqs (rm_log w)) \<inter> dom (rm_reqs w) = {} \<and>
    (\<forall>r \<in> set (refused_reqs (rm_log w)). r \<notin> set (called_reqs (rm_log w)) \<and> rm_closures w (Suc r) \<noteq> None) \<and>
    (rm_flight w = [] \<and> rm_stack w = [] \<longrightarrow>
      dom (rm_reqs w) = set (refused_reqs (rm_log w)) \<and> dom (rm_closures w) = Suc ` set (refused_reqs (rm_log w)))"
proof -
  have inv: "req_inv w" by (rule req_reach_inv [OF assms])
  then have hist: "req_history w" by (simp add: req_inv_def)
  have live: "dom (rm_reqs w) = set (map fst (rm_flight w)) \<union> set (map frame_req (rm_stack w)) \<union> set (refused_reqs (rm_log w))"
    using holders_live [OF inv] by (auto simp: req_holders_def)
  have refused: "r \<notin> set (called_reqs (rm_log w)) \<and> rm_closures w (Suc r) \<noteq> None"
    if "r \<in> set (refused_reqs (rm_log w))" for r
  proof
    have "r \<notin> set (map frame_req (rm_stack w))" using that holders_distinct [OF inv] by (auto simp: req_holders_def)
    moreover have "r \<notin> set (freed_reqs (rm_log w))" using that hist live by (auto simp: req_history_def)
    ultimately show "r \<notin> set (called_reqs (rm_log w))" using hist by (auto simp: req_history_def)
    show "rm_closures w (Suc r) \<noteq> None" using that inv by (auto simp: req_inv_def owns_closure_def)
  qed
  have "dom (rm_closures w) = Suc ` set (refused_reqs (rm_log w))" if "rm_flight w = []" "rm_stack w = []"
    using refused closures_owned [OF inv] live that by (fastforce simp: owns_closure_def)
  moreover have "\<exists>w'. req_do e w = Inr w'" if "req_allowed e w" for e using req_do_inv [OF inv that] by blast
  ultimately show ?thesis using hist live refused by (simp add: req_history_def)
qed

text \<open>Two writes, the second refused; the closure of the first starts to unlink a file.\<close>

definition ex_req_events :: "req_event list" where
  "ex_req_events =
     [StartWrite 1 [7] 3 0, StartWrite 1 [8] 4 (-9), StartClose, Complete 0 OnStat 0, StartFs (FsUnlink [97]) (DoneVoid 5) 0,
      ClosureReturns, Complete 5 OnFs 0, ClosureReturns, Complete 4 OnClose 0]"

lemma ex_req_run:
  "(case run_req ex_req_events req_start of Inl _ \<Rightarrow> False | Inr w \<Rightarrow>
     rm_flight w = [] \<and> rm_stack w = [] \<and> called_reqs (rm_log w) = [0, 5] \<and> freed_reqs (rm_log w) = [0, 5, 4] \<and>
     refused_reqs (rm_log w) = [2])"
  by code_simp

theorem reqs_freed_once_witness:
  "\<exists>w. req_reach w \<and> called_reqs (rm_log w) = [0, 5] \<and> freed_reqs (rm_log w) = [0, 5, 4] \<and> dom (rm_reqs w) = {2} \<and>
     dom (rm_closures w) = {3}"
proof -
  from ex_req_run obtain w where run: "run_req ex_req_events req_start = Inr w" and w: "rm_flight w = []" "rm_stack w = []"
    "called_reqs (rm_log w) = [0, 5]" "freed_reqs (rm_log w) = [0, 5, 4]" "refused_reqs (rm_log w) = [2]"
    by (auto split: sum.splits)
  from run_req_reach [OF req_reach.start run] have reach: "req_reach w" .
  with reqs_freed_once [OF reach] w show ?thesis by (intro exI [of _ w]) simp
qed

text \<open>
  An address that cannot be parsed starts nothing: the closure is dropped with the answer, which nobody
  looks at, and the call is never answered.
\<close>

lemma unparsable_address: "parse_addr lv ip port < 0 \<Longrightarrow> snd (tcp_connect_req lv h ip port t a answer w) = w"
  by (simp add: tcp_connect_req_def)

end
