(* ===== verification/Spec2Isabelle.thy ===== *)
theory Spec2Isabelle
  imports Prelude Serializer RefPool Server ServerMemory ServerSafety ServerReplies
    PipeConn PpSerializer TableSerializer PpCall UvSock UvServer RtBridge RtbBase UvWorld UvStream UvFiles
    RtHost ServedPipe MemFile HostThreads Modules Jni Iopp UvReqs
begin

text \<open>
  PxpRpc is a small RPC library: a client sends packets over a message transport and the server calls
  functions by index, keeping the objects they return in a pool of references.  The development models
  the C core (\<open>c/pxprpc\<close>), two transports (\<open>c/pxprpc_pipe\<close>, \<open>c/pxprpc_libuv\<close>), the C++ layer over the
  core (\<open>c/include/pxprpc_pp.hpp\<close>, \<open>pxprpc_ext.hpp\<close>) and, of the runtime bridge, the executor
  and the host (\<open>runtime_bridge/src\<close>, \<open>runtime_bridge/include\<close>), the two modules of remote functions
  (\<open>pxprpc_rtbridge_base\<close> and \<open>pxprpc_libuv_rpc\<close> under \<open>runtime_bridge/c-modules\<close>) and the native methods
  of the Java side (\<open>runtime_bridge/java/jnibridge.cpp\<close>).

  How the parts interact.  The core talks to a transport through the function table
  \<open>struct pxprpc_abstract_io\<close> (send, receive, buffer release, close, two error members) and to the
  functions it calls through \<open>pxprpc_callable\<close>.  The pipe and the libuv transport provide such an io, the
  C++ layer provides callables: \<open>__wrap_call\<close> builds a parameter and a return object, the user's function
  resolves or rejects the return, \<open>next_step\<close> of the core sends the reply and \<open>on_finish\<close> cleans up.  The
  runtime bridge runs a libuv loop in a thread of its own, hands functions to it and offers blocking calls
  over the pipe; the base module publishes pipes, memory and variables as remote functions, the libuv
  module streams, processes and files, both by name in the default function map that the manager's servers
  look names up in.  Java threads reach the host through the native methods.

  The interactions themselves are modelled where components meet: \<open>ServedPipe\<close> (server and pipe),
  \<open>UvSock\<close> (sender, byte stream and reader), \<open>HostThreads\<close> (threads, pool and executor), \<open>Modules\<close> (modules,
  function map, server and call), \<open>Jni\<close> (Java threads, host and executor).

  Conventions.  Undefined behaviour and aborts of the source are the faults of \<open>Prelude\<close>: a function that
  can reach them returns \<open>fault + 'a\<close>.  Integers are words at the width of the code, and a copied float is
  its bit pattern.  Allocations succeed and their contents are an arbitrary value (\<open>junk\<close> parameters and
  fields).  Callbacks and closures are data (numbers, or a constructor that names the function and what it
  captured); calling one is recorded in a log, and what happens next is an input of the model, so that every
  interleaving of completions and calls is a run.  Runs are inductive relations or reachability
  predicates, and invariants are proved by rule induction on them.

  Theories, in the order they build on each other:

  \<^item> \<open>Prelude\<close>: machine types, faults, sequencing of fallible functions, memory reads and writes,
    little-endian images.
  \<^item> \<open>Serializer\<close> (\<open>c/pxprpc/serializer.c\<close>): the record \<open>serializer\<close> and one definition per C function.
    Lemmas: every writer appends the encoding of its argument and every reader consumes it, stated
    once as the locale \<open>wire_codec\<close> (a writer and the reader that undoes it, closed under sequences),
    interpreted for varints, 4- and 8-byte integers and, in \<open>PpSerializer\<close>, strings.
  \<^item> \<open>RefPool\<close> (\<open>c/pxprpc/server.c\<close>, lines 45 to 111): the pool of references with its free chain.  The
    invariant \<open>pool_ok\<close> says that the chain lists exactly the unused slots; the locale \<open>slot_allocator\<close>
    states what an allocator promises and is interpreted on the model.
  \<^item> \<open>Server\<close> (the rest of \<open>server.c\<close>): the context \<open>servctx\<close> and its requests; each definition is one
    run of the event-driven code from a completion to the calls it makes.  \<open>ServerMemory\<close> relates parameter
    pointers to receive buffers, \<open>ServerSafety\<close> proves which faults a run can end in, the life time of
    context and requests and the silence after closing, \<open>ServerReplies\<close> the answer to each kind of packet.
  \<^item> \<open>PipeConn\<close> (\<open>c/pxprpc_pipe/pxprpc_pipe.c\<close>): a pipe connection, whose functions call back in the
    middle and may be re-entered, as code frames on a control stack; send requests are cells linked in a
    store.  Lemmas: the cells form queues, an invariant of orderly use (\<open>pipe_inv\<close>) that each frame and
    each call keeps, and the refinement of a lossless channel.  Serving and connecting by name.
  \<^item> \<open>ServedPipe\<close> (\<open>server.c\<close> on \<open>pxprpc_pipe.c\<close>, through \<open>struct pxprpc_abstract_io\<close>): the context as the user
    of the server side of a connection.  A turn of the server is a callback with the io calls it has still
    to make; the client is any orderly user of the other side.  Lemmas: the ledger of callbacks (each
    operation of the server is either in the pipe, in a turn still to come, or answered), the locales
    \<open>channel\<close> and \<open>relay\<close> for what goes through, interpreted on the pipe and on both directions.
  \<^item> \<open>PpSerializer\<close>, \<open>TableSerializer\<close> (\<open>pxprpc_pp.hpp\<close>, \<open>pxprpc_ext.hpp\<close>): the C++ serializer on top of
    \<open>Serializer\<close>, and tables of typed columns with their wire form.
  \<^item> \<open>PpCall\<close> (\<open>pxprpc_pp.hpp\<close>, \<open>pxprpc_ext.hpp\<close>): requests, parameters, returns, references and events of
    the C++ layer over an explicit heap, to state what a call frees and what it leaks.
  \<^item> \<open>Iopp\<close> (\<open>iopp::send\<close>, \<open>iopp::receive\<close> of \<open>pxprpc_pp.hpp\<close>): the blocks and closures made for an io that
    completes at any time; the invariant says what the io holds and what the heap holds for it.
  \<^item> \<open>UvSock\<close>, \<open>UvServer\<close> (\<open>c/pxprpc_libuv/pxprpc_libuv.c\<close>): the framing of packets in a byte stream, and
    the doubly linked list of accepted connections.  The fragments the stream is read in are an
    arbitrary input.
  \<^item> \<open>RtBridge\<close> (\<open>pxprpc_rtbridge.c\<close>): the queue of the loop thread, the blocking calls with their
    semaphores and the life of the loop, as interleaved steps of callers and loop.
  \<^item> \<open>RtbBase\<close> (\<open>pxprpc_rtbridge_base/init.hpp\<close>): remote objects for pipe servers, connections and
    memory chunks, the shared variables and foreign calls, on the world of \<open>PpCall\<close> and the names of
    \<open>PipeConn\<close>; \<open>MemFile\<close> (\<open>runtime_bridge/include/memfile.h\<close>): its memory mapped files on each system.
  \<^item> \<open>UvWorld\<close>, \<open>UvStream\<close>, \<open>UvFiles\<close> (\<open>runtime_bridge/c-modules/pxprpc_libuv_rpc/init.hpp\<close>): streams,
    datagrams and processes over libuv handles, and the file and system functions.  Lemmas: the answer
    to an open call of \<open>PpCall\<close> keeps the other open calls (\<open>calls_open\<close>), streams are queues, file functions
    answer once.  \<open>UvReqs\<close> (the same file): the memory of the requests given to libuv and the callbacks
    that call their closures and free them; who holds each request (\<open>req_inv\<close>).
  \<^item> \<open>RtHost\<close> (\<open>runtime_bridge/src/pxprpc_rtbridge_host.cpp\<close>): bringing the host up, the contexts of \<open>Server\<close>
    that serve the manager's connections, and the TCP server objects.
  \<^item> \<open>HostThreads\<close> (\<open>runtime_bridge/include/pxprpc_rtbridge_host.hpp\<close>): functions posted from threads, settling
    a return from another thread, work of the thread pool and threads that are joined, on \<open>RtBridge\<close>.
    Lemmas: each closure, work and thread object is held in one place (\<open>ht_inv\<close>), kept by every step.
  \<^item> \<open>Modules\<close> (the functions \<open>init\<close> of both modules): the 55 names, what each of them runs, and the map a
    manager's server finds them in.
  \<^item> \<open>Jni\<close> (\<open>runtime_bridge/java/jnibridge.cpp\<close>): the native methods on \<open>RtHost\<close> and \<open>RtBridge\<close>, the blocking
    ones in two parts around the wait of their request.

  Loops and bounds.  Loops over lists are structural recursions.  The walk to the last cell of a queue of
  the pipe (\<open>last_io\<close>) has as fuel the number of cells ever allocated: the cells of a queue are distinct, so
  it is enough (\<open>last_io_chain\<close>), and running out would be a fault that \<open>pipe_no_fault\<close> excludes.  The free
  chain of the pool is read with the size of the array as fuel (\<open>free_slots\<close>, a specification only).  The loop
  of \<open>pxprpc_libuv_server_delete\<close> follows pointers and is a \<open>partial_function\<close>, proved to return for every
  state the server can reach.  Sizes are bounded where the code's integers bound them: the hypotheses
  \<open>pool_room\<close> (a free slot, or growth below 65536 slots), \<open>small_block\<close> (a length below \<open>2 ^ 31\<close> and not 255)
  and lengths below \<open>2 ^ 31\<close> are the limits at which \<open>pool_size_wraps\<close> and \<open>varint_roundtrip\<close> show the code
  to fail.

  Code that is a parameter: libuv (its events are inputs, \<open>uv_strerror\<close> an argument), the allocator's
  addresses, the system calls under a memory mapped file, the machine code at the address a foreign call
  is given, the direct buffers of the Java virtual machine, the memory behind an address that a client sends.

  Not modelled: the table of function pointers in \<open>c/pxprpc/pxprpc.c\<close> (no logic); the list of modules, which
  the build generates (the modules named in it are a parameter of \<open>ensureInited\<close>); the optional \<open>main\<close> of the
  host, which waits for the loop to end; the tests; the implementations in Java, Python, TypeScript and
  C sharp.
\<close>

end
